(* ===== verification/Prelude.thy ===== *)
theory Prelude
  imports Main "HOL-Library.Word"
begin

text \<open>
  Shared vocabulary of the development: bytes and byte slices as the Rust code indexes them,
  big-endian integers, 64-bit \<open>usize\<close> arithmetic (checked, and wrapping as in the
  release profile with \<open>overflow-checks = false\<close>), and the state-and-halt results of
  operations that may revert. Every component imports this theory.
\<close>

named_theorems slice_simps \<open>reads and writes of byte slices\<close>
named_theorems be_simps \<open>big-endian integers\<close>

type_synonym byte = "8 word"
type_synonym bytes = "byte list"

section \<open>usize arithmetic\<close>

text \<open>
  \<open>usize\<close> is 64 bits on every target of the SDK; it is a \<open>nat\<close> here, and each
  operation says what happens at the bound.
\<close>

definition usize_limit :: nat where
  "usize_limit = 2 ^ 64"

definition checked_add :: "nat \<Rightarrow> nat \<Rightarrow> nat option" where
  "checked_add a b = (if a + b < usize_limit then Some (a + b) else None)"

definition wadd :: "nat \<Rightarrow> nat \<Rightarrow> nat" where
  "wadd a b = (a + b) mod usize_limit"

definition wmul :: "nat \<Rightarrow> nat \<Rightarrow> nat" where
  "wmul a b = (a * b) mod usize_limit"

lemma usize_limit_pos [simp]: "0 < usize_limit"
  by (simp add: usize_limit_def)

lemma checked_add_eq_Some [simp]:
  "checked_add a b = Some c \<longleftrightarrow> c = a + b \<and> a + b < usize_limit"
  by (auto simp: checked_add_def)

lemma checked_add_eq_None [simp]: "checked_add a b = None \<longleftrightarrow> usize_limit \<le> a + b"
  by (auto simp: checked_add_def)

lemma wadd_small [simp]: "a + b < usize_limit \<Longrightarrow> wadd a b = a + b"
  by (simp add: wadd_def)

lemma wmul_small [simp]: "a * b < usize_limit \<Longrightarrow> wmul a b = a * b"
  by (simp add: wmul_def)

lemma wadd_less: "wadd a b < usize_limit"
  by (simp add: wadd_def)

section \<open>Byte slices\<close>

text \<open>\<open>slice.get(i..j)\<close>: \<open>None\<close> unless \<open>i <= j <= len\<close>.\<close>

definition get_range :: "bytes \<Rightarrow> nat \<Rightarrow> nat \<Rightarrow> bytes option" where
  "get_range bs i j = (if i \<le> j \<and> j \<le> length bs then Some (take (j - i) (drop i bs)) else None)"

text \<open>\<open>slice.get(i)\<close>.\<close>

definition get_idx :: "'a list \<Rightarrow> nat \<Rightarrow> 'a option" where
  "get_idx bs i = (if i < length bs then Some (bs ! i) else None)"

text \<open>\<open>buf[i..i + n].copy_from_slice(bs)\<close>: \<open>None\<close> where the code panics.\<close>

definition copy_at :: "bytes \<Rightarrow> nat \<Rightarrow> bytes \<Rightarrow> bytes option" where
  "copy_at buf i bs =
     (if i + length bs \<le> length buf
      then Some (take i buf @ bs @ drop (i + length bs) buf) else None)"

text \<open>\<open>buf[i..j].fill(b)\<close>.\<close>

definition fill_range :: "bytes \<Rightarrow> nat \<Rightarrow> nat \<Rightarrow> byte \<Rightarrow> bytes option" where
  "fill_range buf i j b = (if i \<le> j then copy_at buf i (replicate (j - i) b) else None)"

text \<open>Passing \<open>&mut buf[i..]\<close> and \<open>&mut buf[i..j]\<close> to a writer.\<close>

definition with_suffix :: "bytes \<Rightarrow> nat \<Rightarrow> (bytes \<Rightarrow> bytes option) \<Rightarrow> bytes option" where
  "with_suffix buf i f =
     (if i \<le> length buf then map_option (\<lambda>b. take i buf @ b) (f (drop i buf)) else None)"

definition with_slice ::
  "bytes \<Rightarrow> nat \<Rightarrow> nat \<Rightarrow> (bytes \<Rightarrow> bytes option) \<Rightarrow> bytes option" where
  "with_slice buf i j f =
     (if i \<le> j \<and> j \<le> length buf
      then map_option (\<lambda>b. take i buf @ b @ drop j buf) (f (take (j - i) (drop i buf)))
      else None)"

lemma get_range_append [slice_simps]:
  "i = length pre \<Longrightarrow> j = length pre + length xs \<Longrightarrow> get_range (pre @ xs @ post) i j = Some xs"
  by (simp add: get_range_def)

lemma get_range_Some_length: "get_range bs i j = Some xs \<Longrightarrow> length xs = j - i"
  by (auto simp: get_range_def split: if_splits)

lemma get_range_SomeD:
  "get_range bs i j = Some xs \<Longrightarrow> i \<le> j \<and> j \<le> length bs \<and> xs = take (j - i) (drop i bs)"
  by (auto simp: get_range_def split: if_splits)

lemma copy_at_append [slice_simps]:
  "i = length pre \<Longrightarrow> length xs = length ys \<Longrightarrow>
   copy_at (pre @ xs @ post) i ys = Some (pre @ ys @ post)"
  by (simp add: copy_at_def)

lemma copy_at_0:
  "length xs \<le> length buf \<Longrightarrow> copy_at buf 0 xs = Some (xs @ drop (length xs) buf)"
  by (simp add: copy_at_def)

lemma copy_at_length: "copy_at buf i xs = Some b \<Longrightarrow> length b = length buf"
  by (auto simp: copy_at_def split: if_splits)

lemma copy_at_copy_at [slice_simps]:
  "j = i + length xs \<Longrightarrow>
   Option.bind (copy_at buf i xs) (\<lambda>b. copy_at b j ys) = copy_at buf i (xs @ ys)"
  by (auto simp: copy_at_def ac_simps)

lemma copy_at_copy_at_bind [slice_simps]:
  "j = i + length xs \<Longrightarrow>
   Option.bind (copy_at buf i xs) (\<lambda>b. Option.bind (copy_at b j ys) f) =
   Option.bind (copy_at buf i (xs @ ys)) f"
  by (auto simp: copy_at_def ac_simps)

lemma fill_range_eq [slice_simps]:
  "i \<le> j \<Longrightarrow> fill_range buf i j b = copy_at buf i (replicate (j - i) b)"
  by (simp add: fill_range_def)

lemma fill_then_copy [slice_simps]:
  "k + length xs \<le> length buf \<Longrightarrow>
   Option.bind (fill_range buf 0 k b) (\<lambda>buf. copy_at buf k xs) =
   Some (replicate k b @ xs @ drop (k + length xs) buf)"
  by (simp add: fill_range_def copy_at_def ac_simps)

lemma with_suffix_append [slice_simps]:
  "i = length pre \<Longrightarrow> with_suffix (pre @ post) i f = map_option (\<lambda>b. pre @ b) (f post)"
  by (simp add: with_suffix_def)

lemma with_slice_append [slice_simps]:
  "i = length pre \<Longrightarrow> j = length pre + length xs \<Longrightarrow>
   with_slice (pre @ xs @ post) i j f = map_option (\<lambda>b. pre @ b @ post) (f xs)"
  by (simp add: with_slice_def)

lemma get_idx_append [slice_simps]: "i = length pre \<Longrightarrow> get_idx (pre @ x # post) i = Some x"
  by (simp add: get_idx_def)

text \<open>A list at least as long as a prefix splits there; the form every buffer proof starts from.\<close>

lemma split_at: "n \<le> length xs \<Longrightarrow> \<exists>as bs. xs = as @ bs \<and> length as = n"
  by (metis append_take_drop_id length_take min.absorb2)

lemma split_at3:
  "n + m \<le> length xs \<Longrightarrow> \<exists>as bs cs. xs = as @ bs @ cs \<and> length as = n \<and> length bs = m"
proof -
  assume "n + m \<le> length xs"
  then obtain as r where "xs = as @ r" "length as = n" "m \<le> length r"
    using split_at [of n xs] by auto
  moreover then obtain bs cs where "r = bs @ cs" "length bs = m"
    using split_at [of m r] by auto
  ultimately show ?thesis by blast
qed

section \<open>Big-endian integers\<close>

primrec be_bytes :: "nat \<Rightarrow> nat \<Rightarrow> bytes" where
  "be_bytes 0 x = []"
| "be_bytes (Suc n) x = be_bytes n (x div 256) @ [of_nat x]"

primrec be_nat :: "bytes \<Rightarrow> nat" where
  "be_nat [] = 0"
| "be_nat (b # bs) = unat b * 256 ^ length bs + be_nat bs"

lemma length_be_bytes [simp, be_simps]: "length (be_bytes n x) = n"
  by (induction n arbitrary: x) auto

lemma unat_byte_less [simp]: "unat (b :: byte) < 256"
proof -
  have "unat b < 2 ^ LENGTH(8)" by (rule unsigned_less)
  then show ?thesis by simp
qed

lemma be_nat_append [be_simps]: "be_nat (xs @ ys) = be_nat xs * 256 ^ length ys + be_nat ys"
  by (induction xs) (auto simp: algebra_simps power_add)

lemma be_nat_less: "be_nat bs < 256 ^ length bs"
proof (induction bs)
  case (Cons b bs)
  have "unat b * 256 ^ length bs + be_nat bs < (unat b + 1) * 256 ^ length bs"
    using Cons by simp
  also have "\<dots> \<le> 256 * 256 ^ length bs"
    using unat_byte_less [of b] by (intro mult_le_mono1) linarith
  finally show ?case by simp
qed simp

lemma be_nat_be_bytes [simp, be_simps]: "be_nat (be_bytes n x) = x mod 256 ^ n"
proof (induction n arbitrary: x)
  case (Suc n)
  have "be_nat (be_bytes (Suc n) x) = (x div 256 mod 256 ^ n) * 256 + x mod 256"
    by (simp add: Suc be_nat_append unat_of_nat)
  also have "\<dots> = x mod 256 ^ Suc n"
    by (simp add: mod_mult2_eq mult.commute)
  finally show ?case .
qed simp

lemma be_nat_replicate0 [simp, be_simps]: "be_nat (replicate n 0) = 0"
  by (induction n) auto

lemma be_nat_inj: "length xs = length ys \<Longrightarrow> be_nat xs = be_nat ys \<Longrightarrow> xs = ys"
proof (induction xs ys rule: list_induct2)
  case (Cons x xs y ys)
  have "unat x = (unat x * 256 ^ length xs + be_nat xs) div 256 ^ length xs"
    by (simp add: be_nat_less)
  also have "\<dots> = (unat y * 256 ^ length ys + be_nat ys) div 256 ^ length ys"
    using Cons by simp
  also have "\<dots> = unat y" by (simp add: be_nat_less)
  finally have "x = y" by (simp add: unsigned_word_eqI)
  then show ?case using Cons by simp
qed simp

lemma be_bytes_be_nat [simp, be_simps]: "n = length bs \<Longrightarrow> be_bytes n (be_nat bs) = bs"
  by (rule be_nat_inj) (simp_all add: be_nat_less)

lemma be_bytes_0 [simp, be_simps]: "be_bytes n 0 = replicate n 0"
  by (rule be_nat_inj) simp_all

lemma be_bytes_mod: "be_bytes n (x mod 256 ^ n) = be_bytes n x"
  by (rule be_nat_inj) simp_all

lemma be_bytes_inj: "be_bytes n x = be_bytes n y \<longleftrightarrow> x mod 256 ^ n = y mod 256 ^ n"
  by (metis be_bytes_mod be_nat_be_bytes)

lemma be_bytes_pad [be_simps]:
  "x < 256 ^ n \<Longrightarrow> replicate m 0 @ be_bytes n x = be_bytes (m + n) x"
proof (rule be_nat_inj)
  assume x: "x < 256 ^ n"
  have "256 ^ n \<le> (256 :: nat) ^ (m + n)" by (intro power_increasing) auto
  with x have "x < 256 ^ (m + n)" by linarith
  with x show "be_nat (replicate m 0 @ be_bytes n x) = be_nat (be_bytes (m + n) x)"
    by (simp add: be_nat_append)
qed simp

text \<open>\<open>to_be_bytes\<close> and \<open>from_be_bytes\<close> of a machine integer.\<close>

definition to_be :: "'a::len word \<Rightarrow> bytes" where
  "to_be w = be_bytes (LENGTH('a) div 8) (unat w)"

definition from_be :: "bytes \<Rightarrow> 'a::len word" where
  "from_be bs = of_nat (be_nat bs)"

lemma length_to_be [simp, be_simps]: "length (to_be (w :: 'a::len word)) = LENGTH('a) div 8"
  by (simp add: to_be_def)

lemma pow256: "(256 :: nat) ^ n = 2 ^ (8 * n)"
  by (simp add: power_mult)

lemma from_be_to_be [simp, be_simps]:
  "8 dvd LENGTH('a) \<Longrightarrow> from_be (to_be (w :: 'a::len word)) = w"
  by (simp add: from_be_def to_be_def pow256)

lemma to_be_inj: "8 dvd LENGTH('a) \<Longrightarrow> to_be (v :: 'a::len word) = to_be w \<longleftrightarrow> v = w"
  by (metis from_be_to_be)

lemma to_be_from_be [simp, be_simps]:
  "8 * length bs = LENGTH('a) \<Longrightarrow> to_be (from_be bs :: 'a::len word) = bs"
proof -
  assume l: "8 * length bs = LENGTH('a)"
  have "be_nat bs < 2 ^ LENGTH('a)"
    using be_nat_less [of bs] l by (simp add: pow256)
  then have u: "unat (of_nat (be_nat bs) :: 'a word) = be_nat bs"
    by (simp add: unat_of_nat)
  have "LENGTH('a) div 8 = length bs" using l by linarith
  then show ?thesis by (simp add: to_be_def from_be_def u)
qed

section \<open>Results of operations that may halt\<close>

text \<open>
  A host call that diverges ends the frame: \<open>return_value(data)\<close> (on riscv64),
  \<open>revert(data)\<close>, \<open>terminate\<close>, \<open>consume_all_gas\<close>, or a Rust panic (index out of range, \<open>assert!\<close>), which the
  release profile lowers to a trap. An operation returns its value or the halt, and the state.
\<close>

datatype halt = Returned bytes | Revert bytes | Terminate bytes | ConsumeAllGas | Trap

type_synonym ('s, 'a) res = "(halt + 'a) \<times> 's"

definition hbind :: "('s, 'a) res \<Rightarrow> ('a \<Rightarrow> 's \<Rightarrow> ('s, 'b) res) \<Rightarrow> ('s, 'b) res" where
  "hbind r f = (case r of (Inl h, s) \<Rightarrow> (Inl h, s) | (Inr a, s) \<Rightarrow> f a s)"

lemma hbind_simps [simp]:
  "hbind (Inl h, s) f = (Inl h, s)"
  "hbind (Inr a, s) f = f a s"
  by (simp_all add: hbind_def)

lemma hbind_assoc [simp]: "hbind (hbind r f) g = hbind r (\<lambda>a s. hbind (f a s) g)"
  by (cases r; cases "fst r") (auto simp: hbind_def split: sum.splits)

lemma hbind_cong [fundef_cong]:
  "r = r' \<Longrightarrow> (\<And>a s. r' = (Inr a, s) \<Longrightarrow> f a s = g a s) \<Longrightarrow> hbind r f = hbind r' g"
  by (cases r'; cases "fst r'") auto

lemma hbind_return [simp]: "hbind r (\<lambda>a s. (Inr a, s)) = r"
  by (cases r; cases "fst r") auto

end
