(* ===== verification/Primitives.thy ===== *)
theory Primitives
  imports Prelude
begin

text \<open>
  The primitive ABI types of \<open>pvm-contract-types\<close>: the unsigned and signed integers,
  \<open>bool\<close>, \<open>Address\<close> and \<open>[u8; N]\<close> (Solidity \<open>bytesN\<close>), with the three
  closures every \<open>impl_static_type!\<close> / \<open>impl_static_type_decode!\<close> invocation gives:
  encode into a buffer, bounds-checked decode, and unchecked decode. The offset arithmetic of
  the decoders is unchecked in the source, so it wraps here (\<open>wadd\<close>). \<open>None\<close> is
  \<open>DecodeError\<close> for the checked decoders, a panic for the encoders, and undefined behaviour
  for the unchecked decoders.

  The lemmas show that every encoder writes exactly the 32-byte ABI word of the value
  (\<open>prim_word\<close>) and leaves the rest of the buffer alone, and that both decoders read it back.
\<close>

section \<open>Types and values\<close>

datatype prim =
    U256 | U128 | U64 | U32 | U16 | U8
  | I256 | I128 | I64 | I32 | I16 | I8
  | Bool | Address | BytesN nat

datatype prim_val =
    VU256 "256 word" | VU128 "128 word" | VU64 "64 word" | VU32 "32 word" | VU16 "16 word" | VU8 "8 word"
  | VI256 "256 word" | VI128 "128 word" | VI64 "64 word" | VI32 "32 word" | VI16 "16 word" | VI8 "8 word"
  | VBool bool | VAddress bytes | VBytesN bytes

text \<open>The type a value belongs to; an address carries its length invariant.\<close>

fun prim_of :: "prim_val \<Rightarrow> prim" where
  "prim_of (VU256 _) = U256"
| "prim_of (VU128 _) = U128"
| "prim_of (VU64 _) = U64"
| "prim_of (VU32 _) = U32"
| "prim_of (VU16 _) = U16"
| "prim_of (VU8 _) = U8"
| "prim_of (VI256 _) = I256"
| "prim_of (VI128 _) = I128"
| "prim_of (VI64 _) = I64"
| "prim_of (VI32 _) = I32"
| "prim_of (VI16 _) = I16"
| "prim_of (VI8 _) = I8"
| "prim_of (VBool _) = Bool"
| "prim_of (VAddress _) = Address"
| "prim_of (VBytesN bs) = BytesN (length bs)"

definition prim_wt :: "prim \<Rightarrow> prim_val \<Rightarrow> bool" where
  "prim_wt t v \<longleftrightarrow> prim_of v = t \<and> (case v of VAddress a \<Rightarrow> length a = 20 | _ \<Rightarrow> True)"

text \<open>\<open>const \{ assert!(N >= 1 && N <= 32) \}\<close> of the \<open>bytesN\<close> impls.\<close>

fun prim_wf :: "prim \<Rightarrow> bool" where
  "prim_wf (BytesN n) = (1 \<le> n \<and> n \<le> 32)"
| "prim_wf _ = True"

section \<open>Encoders\<close>

definition try_into :: "nat \<Rightarrow> bytes \<Rightarrow> bytes option" where
  "try_into n bs = (if length bs = n then Some bs else None)"

lemma try_into_get_range [simp]:
  "j = i + n \<Longrightarrow> Option.bind (get_range bs i j) (try_into n) = get_range bs i j"
  by (cases "get_range bs i j") (auto simp: try_into_def dest: get_range_Some_length)

definition u256_encode_body_to :: "256 word \<Rightarrow> bytes \<Rightarrow> bytes option" where
  "u256_encode_body_to val buf = copy_at buf 0 (to_be val)"

definition i256_encode_body_to :: "256 word \<Rightarrow> bytes \<Rightarrow> bytes option" where
  "i256_encode_body_to val buf = copy_at buf 0 (to_be val)"

definition u128_encode_body_to :: "128 word \<Rightarrow> bytes \<Rightarrow> bytes option" where
  "u128_encode_body_to val buf =
     Option.bind (fill_range buf 0 16 0) (\<lambda>buf. copy_at buf 16 (to_be val))"

definition u64_encode_body_to :: "64 word \<Rightarrow> bytes \<Rightarrow> bytes option" where
  "u64_encode_body_to val buf =
     Option.bind (fill_range buf 0 24 0) (\<lambda>buf. copy_at buf 24 (to_be val))"

definition u32_encode_body_to :: "32 word \<Rightarrow> bytes \<Rightarrow> bytes option" where
  "u32_encode_body_to val buf =
     Option.bind (fill_range buf 0 28 0) (\<lambda>buf. copy_at buf 28 (to_be val))"

definition u16_encode_body_to :: "16 word \<Rightarrow> bytes \<Rightarrow> bytes option" where
  "u16_encode_body_to val buf =
     Option.bind (fill_range buf 0 30 0) (\<lambda>buf. copy_at buf 30 (to_be val))"

definition u8_encode_body_to :: "8 word \<Rightarrow> bytes \<Rightarrow> bytes option" where
  "u8_encode_body_to val buf =
     Option.bind (fill_range buf 0 31 0) (\<lambda>buf. copy_at buf 31 [val])"

definition i128_encode_body_to :: "128 word \<Rightarrow> bytes \<Rightarrow> bytes option" where
  "i128_encode_body_to val buf =
     (let fill = (if sint val < 0 then 0xff else 0)
      in Option.bind (fill_range buf 0 16 fill) (\<lambda>buf. copy_at buf 16 (to_be val)))"

definition i64_encode_body_to :: "64 word \<Rightarrow> bytes \<Rightarrow> bytes option" where
  "i64_encode_body_to val buf =
     (let fill = (if sint val < 0 then 0xff else 0)
      in Option.bind (fill_range buf 0 24 fill) (\<lambda>buf. copy_at buf 24 (to_be val)))"

definition i32_encode_body_to :: "32 word \<Rightarrow> bytes \<Rightarrow> bytes option" where
  "i32_encode_body_to val buf =
     (let fill = (if sint val < 0 then 0xff else 0)
      in Option.bind (fill_range buf 0 28 fill) (\<lambda>buf. copy_at buf 28 (to_be val)))"

definition i16_encode_body_to :: "16 word \<Rightarrow> bytes \<Rightarrow> bytes option" where
  "i16_encode_body_to val buf =
     (let fill = (if sint val < 0 then 0xff else 0)
      in Option.bind (fill_range buf 0 30 fill) (\<lambda>buf. copy_at buf 30 (to_be val)))"

definition i8_encode_body_to :: "8 word \<Rightarrow> bytes \<Rightarrow> bytes option" where
  "i8_encode_body_to val buf =
     (let fill = (if sint val < 0 then 0xff else 0)
      in Option.bind (fill_range buf 0 31 fill) (\<lambda>buf. copy_at buf 31 [val]))"

definition bool_encode_body_to :: "bool \<Rightarrow> bytes \<Rightarrow> bytes option" where
  "bool_encode_body_to val buf =
     Option.bind (fill_range buf 0 31 0) (\<lambda>buf. copy_at buf 31 [if val then 1 else 0])"

definition address_encode_body_to :: "bytes \<Rightarrow> bytes \<Rightarrow> bytes option" where
  "address_encode_body_to val buf =
     Option.bind (fill_range buf 0 12 0) (\<lambda>buf. copy_at buf 12 val)"

definition bytesn_encode_body_to :: "nat \<Rightarrow> bytes \<Rightarrow> bytes \<Rightarrow> bytes option" where
  "bytesn_encode_body_to n self buf =
     Option.bind (copy_at buf 0 self) (\<lambda>buf. fill_range buf n 32 0)"

fun prim_encode_body_to :: "prim_val \<Rightarrow> bytes \<Rightarrow> bytes option" where
  "prim_encode_body_to (VU256 v) = u256_encode_body_to v"
| "prim_encode_body_to (VU128 v) = u128_encode_body_to v"
| "prim_encode_body_to (VU64 v) = u64_encode_body_to v"
| "prim_encode_body_to (VU32 v) = u32_encode_body_to v"
| "prim_encode_body_to (VU16 v) = u16_encode_body_to v"
| "prim_encode_body_to (VU8 v) = u8_encode_body_to v"
| "prim_encode_body_to (VI256 v) = i256_encode_body_to v"
| "prim_encode_body_to (VI128 v) = i128_encode_body_to v"
| "prim_encode_body_to (VI64 v) = i64_encode_body_to v"
| "prim_encode_body_to (VI32 v) = i32_encode_body_to v"
| "prim_encode_body_to (VI16 v) = i16_encode_body_to v"
| "prim_encode_body_to (VI8 v) = i8_encode_body_to v"
| "prim_encode_body_to (VBool v) = bool_encode_body_to v"
| "prim_encode_body_to (VAddress v) = address_encode_body_to v"
| "prim_encode_body_to (VBytesN bs) = bytesn_encode_body_to (length bs) bs"

section \<open>Checked decoders\<close>

definition u256_decode_at :: "bytes \<Rightarrow> nat \<Rightarrow> 256 word option" where
  "u256_decode_at input offset = map_option from_be (get_range input offset (wadd offset 32))"

definition i256_decode_at :: "bytes \<Rightarrow> nat \<Rightarrow> 256 word option" where
  "i256_decode_at input offset = map_option from_be (get_range input offset (wadd offset 32))"

definition u128_decode_at :: "bytes \<Rightarrow> nat \<Rightarrow> 128 word option" where
  "u128_decode_at input offset =
     map_option from_be
       (Option.bind (get_range input (wadd offset 16) (wadd offset 32)) (try_into 16))"

definition u64_decode_at :: "bytes \<Rightarrow> nat \<Rightarrow> 64 word option" where
  "u64_decode_at input offset =
     map_option from_be
       (Option.bind (get_range input (wadd offset 24) (wadd offset 32)) (try_into 8))"

definition u32_decode_at :: "bytes \<Rightarrow> nat \<Rightarrow> 32 word option" where
  "u32_decode_at input offset =
     map_option from_be
       (Option.bind (get_range input (wadd offset 28) (wadd offset 32)) (try_into 4))"

definition u16_decode_at :: "bytes \<Rightarrow> nat \<Rightarrow> 16 word option" where
  "u16_decode_at input offset =
     (case (get_idx input (wadd offset 30), get_idx input (wadd offset 31)) of
        (Some a, Some b) \<Rightarrow> Some (from_be [a, b])
      | _ \<Rightarrow> None)"

definition u8_decode_at :: "bytes \<Rightarrow> nat \<Rightarrow> 8 word option" where
  "u8_decode_at input offset = get_idx input (wadd offset 31)"

definition i128_decode_at :: "bytes \<Rightarrow> nat \<Rightarrow> 128 word option" where
  "i128_decode_at input offset =
     map_option from_be
       (Option.bind (get_range input (wadd offset 16) (wadd offset 32)) (try_into 16))"

definition i64_decode_at :: "bytes \<Rightarrow> nat \<Rightarrow> 64 word option" where
  "i64_decode_at input offset =
     map_option from_be
       (Option.bind (get_range input (wadd offset 24) (wadd offset 32)) (try_into 8))"

definition i32_decode_at :: "bytes \<Rightarrow> nat \<Rightarrow> 32 word option" where
  "i32_decode_at input offset =
     map_option from_be
       (Option.bind (get_range input (wadd offset 28) (wadd offset 32)) (try_into 4))"

definition i16_decode_at :: "bytes \<Rightarrow> nat \<Rightarrow> 16 word option" where
  "i16_decode_at input offset =
     (case (get_idx input (wadd offset 30), get_idx input (wadd offset 31)) of
        (Some a, Some b) \<Rightarrow> Some (from_be [a, b])
      | _ \<Rightarrow> None)"

definition i8_decode_at :: "bytes \<Rightarrow> nat \<Rightarrow> 8 word option" where
  "i8_decode_at input offset = get_idx input (wadd offset 31)"

definition bool_decode_at :: "bytes \<Rightarrow> nat \<Rightarrow> bool option" where
  "bool_decode_at input offset = map_option (\<lambda>x. x \<noteq> 0) (get_idx input (wadd offset 31))"

definition address_decode_at :: "bytes \<Rightarrow> nat \<Rightarrow> bytes option" where
  "address_decode_at input offset = get_range input (wadd offset 12) (wadd offset 32)"

definition bytesn_decode_at :: "nat \<Rightarrow> bytes \<Rightarrow> nat \<Rightarrow> bytes option" where
  "bytesn_decode_at n input offset = get_range input offset (wadd offset n)"

fun prim_decode_at :: "prim \<Rightarrow> bytes \<Rightarrow> nat \<Rightarrow> prim_val option" where
  "prim_decode_at U256 input off = map_option VU256 (u256_decode_at input off)"
| "prim_decode_at U128 input off = map_option VU128 (u128_decode_at input off)"
| "prim_decode_at U64 input off = map_option VU64 (u64_decode_at input off)"
| "prim_decode_at U32 input off = map_option VU32 (u32_decode_at input off)"
| "prim_decode_at U16 input off = map_option VU16 (u16_decode_at input off)"
| "prim_decode_at U8 input off = map_option VU8 (u8_decode_at input off)"
| "prim_decode_at I256 input off = map_option VI256 (i256_decode_at input off)"
| "prim_decode_at I128 input off = map_option VI128 (i128_decode_at input off)"
| "prim_decode_at I64 input off = map_option VI64 (i64_decode_at input off)"
| "prim_decode_at I32 input off = map_option VI32 (i32_decode_at input off)"
| "prim_decode_at I16 input off = map_option VI16 (i16_decode_at input off)"
| "prim_decode_at I8 input off = map_option VI8 (i8_decode_at input off)"
| "prim_decode_at Bool input off = map_option VBool (bool_decode_at input off)"
| "prim_decode_at Address input off = map_option VAddress (address_decode_at input off)"
| "prim_decode_at (BytesN n) input off = map_option VBytesN (bytesn_decode_at n input off)"

section \<open>Unchecked decoders\<close>

text \<open>
  \<open>get_unchecked\<close> out of range is undefined behaviour, and the \<open>unwrap\<close> of the
  \<open>i32\<close> impl (which reads with a checked \<open>get\<close>) a panic; both are \<open>None\<close>.
\<close>

definition u256_decode_unchecked :: "bytes \<Rightarrow> nat \<Rightarrow> 256 word option" where
  "u256_decode_unchecked input offset =
     map_option from_be (get_range input offset (wadd offset 32))"

definition i256_decode_unchecked :: "bytes \<Rightarrow> nat \<Rightarrow> 256 word option" where
  "i256_decode_unchecked input offset =
     map_option from_be (get_range input offset (wadd offset 32))"

definition u128_decode_unchecked :: "bytes \<Rightarrow> nat \<Rightarrow> 128 word option" where
  "u128_decode_unchecked input offset =
     map_option from_be
       (Option.bind (get_range input (wadd offset 16) (wadd offset 32)) (try_into 16))"

definition u64_decode_unchecked :: "bytes \<Rightarrow> nat \<Rightarrow> 64 word option" where
  "u64_decode_unchecked input offset =
     map_option from_be
       (Option.bind (get_range input (wadd offset 24) (wadd offset 32)) (try_into 8))"

definition u32_decode_unchecked :: "bytes \<Rightarrow> nat \<Rightarrow> 32 word option" where
  "u32_decode_unchecked input offset =
     map_option from_be
       (Option.bind (get_range input (wadd offset 28) (wadd offset 32)) (try_into 4))"

definition u16_decode_unchecked :: "bytes \<Rightarrow> nat \<Rightarrow> 16 word option" where
  "u16_decode_unchecked input offset =
     (case (get_idx input (wadd offset 30), get_idx input (wadd offset 31)) of
        (Some a, Some b) \<Rightarrow> Some (from_be [a, b])
      | _ \<Rightarrow> None)"

definition u8_decode_unchecked :: "bytes \<Rightarrow> nat \<Rightarrow> 8 word option" where
  "u8_decode_unchecked input offset = get_idx input (wadd offset 31)"

definition i128_decode_unchecked :: "bytes \<Rightarrow> nat \<Rightarrow> 128 word option" where
  "i128_decode_unchecked input offset =
     map_option from_be
       (Option.bind (get_range input (wadd offset 16) (wadd offset 32)) (try_into 16))"

definition i64_decode_unchecked :: "bytes \<Rightarrow> nat \<Rightarrow> 64 word option" where
  "i64_decode_unchecked input offset =
     map_option from_be
       (Option.bind (get_range input (wadd offset 24) (wadd offset 32)) (try_into 8))"

definition i32_decode_unchecked :: "bytes \<Rightarrow> nat \<Rightarrow> 32 word option" where
  "i32_decode_unchecked input offset =
     map_option from_be
       (Option.bind (get_range input (wadd offset 28) (wadd offset 32)) (try_into 4))"

definition i16_decode_unchecked :: "bytes \<Rightarrow> nat \<Rightarrow> 16 word option" where
  "i16_decode_unchecked input offset =
     (case (get_idx input (wadd offset 30), get_idx input (wadd offset 31)) of
        (Some a, Some b) \<Rightarrow> Some (from_be [a, b])
      | _ \<Rightarrow> None)"

definition i8_decode_unchecked :: "bytes \<Rightarrow> nat \<Rightarrow> 8 word option" where
  "i8_decode_unchecked input offset = map_option (\<lambda>b. from_be [b]) (get_idx input (wadd offset 31))"

definition bool_decode_unchecked :: "bytes \<Rightarrow> nat \<Rightarrow> bool option" where
  "bool_decode_unchecked input offset =
     map_option (\<lambda>x. x \<noteq> 0) (get_idx input (wadd offset 31))"

definition address_decode_unchecked :: "bytes \<Rightarrow> nat \<Rightarrow> bytes option" where
  "address_decode_unchecked input offset = get_range input (wadd offset 12) (wadd offset 32)"

definition bytesn_decode_unchecked :: "nat \<Rightarrow> bytes \<Rightarrow> nat \<Rightarrow> bytes option" where
  "bytesn_decode_unchecked n input offset = get_range input offset (wadd offset n)"

fun prim_decode_unchecked :: "prim \<Rightarrow> bytes \<Rightarrow> nat \<Rightarrow> prim_val option" where
  "prim_decode_unchecked U256 input off = map_option VU256 (u256_decode_unchecked input off)"
| "prim_decode_unchecked U128 input off = map_option VU128 (u128_decode_unchecked input off)"
| "prim_decode_unchecked U64 input off = map_option VU64 (u64_decode_unchecked input off)"
| "prim_decode_unchecked U32 input off = map_option VU32 (u32_decode_unchecked input off)"
| "prim_decode_unchecked U16 input off = map_option VU16 (u16_decode_unchecked input off)"
| "prim_decode_unchecked U8 input off = map_option VU8 (u8_decode_unchecked input off)"
| "prim_decode_unchecked I256 input off = map_option VI256 (i256_decode_unchecked input off)"
| "prim_decode_unchecked I128 input off = map_option VI128 (i128_decode_unchecked input off)"
| "prim_decode_unchecked I64 input off = map_option VI64 (i64_decode_unchecked input off)"
| "prim_decode_unchecked I32 input off = map_option VI32 (i32_decode_unchecked input off)"
| "prim_decode_unchecked I16 input off = map_option VI16 (i16_decode_unchecked input off)"
| "prim_decode_unchecked I8 input off = map_option VI8 (i8_decode_unchecked input off)"
| "prim_decode_unchecked Bool input off = map_option VBool (bool_decode_unchecked input off)"
| "prim_decode_unchecked Address input off = map_option VAddress (address_decode_unchecked input off)"
| "prim_decode_unchecked (BytesN n) input off = map_option VBytesN (bytesn_decode_unchecked n input off)"

section \<open>The ABI word of a value\<close>

text \<open>
  What the Solidity ABI prescribes: unsigned integers, \<open>bool\<close> and addresses right-aligned,
  signed integers sign-extended to 256 bits, \<open>bytesN\<close> left-aligned.
\<close>

definition signed_word :: "int \<Rightarrow> bytes" where
  "signed_word i = be_bytes 32 (nat (i mod 2 ^ 256))"

fun prim_word :: "prim_val \<Rightarrow> bytes" where
  "prim_word (VU256 v) = be_bytes 32 (unat v)"
| "prim_word (VU128 v) = be_bytes 32 (unat v)"
| "prim_word (VU64 v) = be_bytes 32 (unat v)"
| "prim_word (VU32 v) = be_bytes 32 (unat v)"
| "prim_word (VU16 v) = be_bytes 32 (unat v)"
| "prim_word (VU8 v) = be_bytes 32 (unat v)"
| "prim_word (VI256 v) = signed_word (sint v)"
| "prim_word (VI128 v) = signed_word (sint v)"
| "prim_word (VI64 v) = signed_word (sint v)"
| "prim_word (VI32 v) = signed_word (sint v)"
| "prim_word (VI16 v) = signed_word (sint v)"
| "prim_word (VI8 v) = signed_word (sint v)"
| "prim_word (VBool b) = be_bytes 32 (if b then 1 else 0)"
| "prim_word (VAddress a) = replicate 12 0 @ a"
| "prim_word (VBytesN bs) = bs @ replicate (32 - length bs) 0"


section \<open>Encoders write the ABI word\<close>

lemma uint_word:
  "8 * k = LENGTH('a) \<Longrightarrow> k \<le> 32 \<Longrightarrow>
   replicate (32 - k) 0 @ to_be (w :: 'a::len word) = be_bytes 32 (unat w)"
proof -
  assume k: "8 * k = LENGTH('a)" "k \<le> 32"
  have "unat w < 2 ^ LENGTH('a)" by (rule unsigned_less)
  then have "unat w < 256 ^ k" using k by (simp add: pow256)
  then show ?thesis using k be_bytes_pad [of "unat w" k "32 - k"] by (simp add: to_be_def flip: k(1))
qed

lemma be_nat_replicate_255: "Suc (be_nat (replicate m 255)) = 256 ^ m"
  by (induction m) simp_all

lemma uint_of_sint:
  fixes w :: "'a::len word"
  shows "uint w = (if sint w < 0 then sint w + 2 ^ LENGTH('a) else sint w)"
proof -
  have p: "(2 :: int) ^ LENGTH('a) = 2 * 2 ^ (LENGTH('a) - 1)"
    by (simp flip: power_Suc)
  have l: "- (2 ^ (LENGTH('a) - 1)) \<le> sint w" "sint w < 2 ^ (LENGTH('a) - 1)"
    by (rule sint_ge, rule sint_lt)
  have u: "uint w = sint w mod 2 ^ LENGTH('a)"
    by (simp add: uint_sint take_bit_eq_mod)
  show ?thesis
  proof (cases "sint w < 0")
    case True
    have "(sint w + 2 ^ LENGTH('a)) mod 2 ^ LENGTH('a) = sint w + 2 ^ LENGTH('a)"
      using True l p by (intro mod_pos_pos_trivial) auto
    then show ?thesis using u True by simp
  next
    case False
    then show ?thesis using u l p by simp
  qed
qed

lemma sint_word:
  fixes w :: "'a::len word"
  assumes k: "8 * k = LENGTH('a)" "k \<le> 32"
  shows "replicate (32 - k) (if sint w < 0 then 255 else 0) @ to_be w = signed_word (sint w)"
proof (cases "sint w < 0")
  case False
  then have "sint w = uint w" using uint_of_sint [of w] by simp
  then have "nat (sint w) = unat w" by simp
  moreover have "sint w mod 2 ^ 256 = sint w"
  proof -
    have "uint w < 2 ^ LENGTH('a)" by (rule unsigned_less)
    also have "(2 :: int) ^ LENGTH('a) \<le> 2 ^ 256"
      using k by (intro power_increasing) auto
    finally show ?thesis using False uint_of_sint [of w] by simp
  qed
  ultimately show ?thesis
    using False uint_word [OF k, of w] by (simp add: signed_word_def)
next
  case True
  have pk: "(256 :: int) ^ k = 2 ^ LENGTH('a)" by (simp add: power_mult flip: k(1))
  have le: "(2 :: int) ^ LENGTH('a) \<le> 2 ^ 256" using k by (intro power_increasing) auto
  have u: "uint w = sint w + 2 ^ LENGTH('a)" using True by (simp add: uint_of_sint)
  have u0: "0 \<le> uint w" by simp
  have m: "sint w mod 2 ^ 256 = sint w + 2 ^ 256"
  proof -
    have "(sint w + 2 ^ 256) mod 2 ^ 256 = sint w + 2 ^ 256"
      using True u u0 le by (intro mod_pos_pos_trivial) linarith+
    then show ?thesis by simp
  qed
  have split: "(256 :: int) ^ (32 - k) * 256 ^ k = 2 ^ 256"
    using k by (simp flip: power_add)
  have "unat w < 2 ^ LENGTH('a)" by (rule unsigned_less)
  then have "unat w < 256 ^ k" using k by (simp add: pow256)
  then have "be_nat (to_be w) = unat w" by (simp add: to_be_def flip: k(1))
  moreover have "int (Suc (be_nat (replicate (32 - k) 255))) = 256 ^ (32 - k)"
    by (simp only: be_nat_replicate_255) simp
  moreover have "length (to_be w) = k" using k by simp
  ultimately have "int (be_nat (replicate (32 - k) 255 @ to_be w)) =
      (256 ^ (32 - k) - 1) * 256 ^ k + uint w"
    by (simp add: be_nat_append)
  also have "(256 ^ (32 - k) - 1) * 256 ^ k + uint w = sint w + (2 :: int) ^ 256"
    using split pk u by (simp add: algebra_simps)
  finally have "be_nat (replicate (32 - k) 255 @ to_be w) = nat (sint w mod 2 ^ 256)"
    using m by (metis nat_int)
  then have "be_nat (replicate (32 - k) 255 @ to_be w) = be_nat (signed_word (sint w))"
    using m True u u0 by (simp add: signed_word_def nat_less_iff pow256)
  then show ?thesis
    using True k by (intro be_nat_inj) (simp_all add: signed_word_def flip: k(1))
qed

lemma prim_word_uint:
  "replicate 16 0 @ to_be (v128 :: 128 word) = be_bytes 32 (unat v128)"
  "replicate 24 0 @ to_be (v64 :: 64 word) = be_bytes 32 (unat v64)"
  "replicate 28 0 @ to_be (v32 :: 32 word) = be_bytes 32 (unat v32)"
  "replicate 30 0 @ to_be (v16 :: 16 word) = be_bytes 32 (unat v16)"
  "replicate 31 0 @ [v8 :: 8 word] = be_bytes 32 (unat v8)"
  "to_be (v256 :: 256 word) = be_bytes 32 (unat v256)"
  using uint_word [of 16 v128] uint_word [of 8 v64] uint_word [of 4 v32] uint_word [of 2 v16]
    uint_word [of 1 v8] uint_word [of 32 v256]
  by (simp_all add: to_be_def)

lemma prim_word_sint:
  "replicate 16 (if sint v128 < 0 then 255 else 0) @ to_be (v128 :: 128 word) = signed_word (sint v128)"
  "replicate 24 (if sint v64 < 0 then 255 else 0) @ to_be (v64 :: 64 word) = signed_word (sint v64)"
  "replicate 28 (if sint v32 < 0 then 255 else 0) @ to_be (v32 :: 32 word) = signed_word (sint v32)"
  "replicate 30 (if sint v16 < 0 then 255 else 0) @ to_be (v16 :: 16 word) = signed_word (sint v16)"
  "replicate 31 (if sint v8 < 0 then 255 else 0) @ [v8 :: 8 word] = signed_word (sint v8)"
  "to_be (v256 :: 256 word) = signed_word (sint v256)"
  using sint_word [of 16 v128] sint_word [of 8 v64] sint_word [of 4 v32] sint_word [of 2 v16]
    sint_word [of 1 v8] sint_word [of 32 v256]
  by (simp_all add: to_be_def)

lemmas prim_encode_defs =
  u256_encode_body_to_def u128_encode_body_to_def u64_encode_body_to_def u32_encode_body_to_def
  u16_encode_body_to_def u8_encode_body_to_def i256_encode_body_to_def i128_encode_body_to_def
  i64_encode_body_to_def i32_encode_body_to_def i16_encode_body_to_def i8_encode_body_to_def
  bool_encode_body_to_def address_encode_body_to_def bytesn_encode_body_to_def

lemmas prim_decode_defs =
  u256_decode_at_def u128_decode_at_def u64_decode_at_def u32_decode_at_def
  u16_decode_at_def u8_decode_at_def i256_decode_at_def i128_decode_at_def
  i64_decode_at_def i32_decode_at_def i16_decode_at_def i8_decode_at_def
  bool_decode_at_def address_decode_at_def bytesn_decode_at_def

lemmas prim_unchecked_defs =
  u256_decode_unchecked_def u128_decode_unchecked_def u64_decode_unchecked_def
  u32_decode_unchecked_def u16_decode_unchecked_def u8_decode_unchecked_def
  i256_decode_unchecked_def i128_decode_unchecked_def i64_decode_unchecked_def
  i32_decode_unchecked_def i16_decode_unchecked_def i8_decode_unchecked_def
  bool_decode_unchecked_def address_decode_unchecked_def bytesn_decode_unchecked_def

lemma length_prim_word [simp]:
  "prim_wt t v \<Longrightarrow> prim_wf t \<Longrightarrow> length (prim_word v) = 32"
  by (cases v) (auto simp: prim_wt_def signed_word_def)

lemma prim_word_nonempty: "prim_wt t v \<Longrightarrow> prim_wf t \<Longrightarrow> prim_word v \<noteq> []"
  using length_prim_word by fastforce

text \<open>Every encoder writes the ABI word at the start of the buffer and nothing else.\<close>

lemma prim_encode_word:
  assumes "prim_wt t v" "prim_wf t" "32 \<le> length buf"
  shows "prim_encode_body_to v buf = Some (prim_word v @ drop 32 buf)"
proof (cases v)
  case (VBytesN bs)
  then have "length bs \<le> 32" using assms by (auto simp: prim_wt_def)
  moreover have "Option.bind (copy_at buf 0 bs) (\<lambda>b. copy_at b (length bs) (replicate (32 - length bs) 0))
      = copy_at buf 0 (bs @ replicate (32 - length bs) 0)"
    by (simp add: slice_simps)
  ultimately show ?thesis
    using VBytesN assms by (simp add: bytesn_encode_body_to_def fill_range_eq copy_at_0)
next
  case (VBool x)
  have "replicate 31 0 @ [if x then 1 else 0] = prim_word (VBool x)"
    using prim_word_uint(5) [of "if x then 1 else 0"] by simp
  then show ?thesis
    using VBool assms by (simp add: bool_encode_body_to_def fill_then_copy del: prim_word.simps)
qed (use assms in \<open>simp_all add: prim_wt_def prim_encode_defs fill_range_def copy_at_def Let_def
      flip: prim_word_uint prim_word_sint\<close>)

lemma prim_encode_short:
  assumes "prim_wt t v" "prim_wf t" "length buf < 32"
  shows "prim_encode_body_to v buf = None"
  using assms
  by (cases v) (auto simp: prim_wt_def prim_encode_defs fill_range_def copy_at_def Let_def
      bind_eq_None_conv split: if_splits)

section \<open>Decoders read it back\<close>

lemma get_low_bytes:
  "i = length pre + length p \<Longrightarrow> j = i + length q \<Longrightarrow> get_range (pre @ p @ q @ post) i j = Some q"
  using get_range_append [of i "pre @ p" j q post] by simp

lemma get_idx_low:
  "i = length pre + length p \<Longrightarrow> get_idx (pre @ p @ x # post) i = Some x"
  using get_idx_append [of i "pre @ p" x post] by simp

lemma get_idx_low2:
  "i = length pre + length p + 1 \<Longrightarrow> get_idx (pre @ p @ y # x # post) i = Some x"
  using get_idx_append [of i "pre @ p @ [y]" x post] by simp

lemma from_be_8: "from_be [b] = b"
  by (simp add: from_be_def)

lemma to_be_16: "\<exists>a b. to_be (w :: 16 word) = [a, b] \<and> from_be [a, b] = w"
proof -
  have "length (to_be w) = 2" by simp
  then obtain a b where "to_be w = [a, b]"
    by (auto simp: numeral_2_eq_2 length_Suc_conv simp del: length_to_be)
  moreover have "from_be (to_be w) = w" by simp
  ultimately show ?thesis by simp
qed

text \<open>
  Both decoders, at any offset of any input, give back the value the word stands for. The
  bound says the word ends inside the address space.
\<close>

lemma prim_decode_word:
  assumes "prim_wt t v" "prim_wf t" "length pre + 32 < usize_limit"
  shows "prim_decode_at t (pre @ prim_word v @ post) (length pre) = Some v"
    and "prim_decode_unchecked t (pre @ prim_word v @ post) (length pre) = Some v"
proof -
  have w: "\<And>k. k \<le> 32 \<Longrightarrow> wadd (length pre) k = length pre + k"
    using assms(3) by simp
  have b: "bytesn_decode_at (length bs) (pre @ prim_word (VBytesN bs) @ post) (length pre) = Some bs"
    "bytesn_decode_unchecked (length bs) (pre @ prim_word (VBytesN bs) @ post) (length pre) = Some bs"
    if "length bs \<le> 32" for bs
    using that w get_low_bytes [of "length pre" pre "[]" _ bs "replicate (32 - length bs) 0 @ post"]
    by (simp_all add: bytesn_decode_at_def bytesn_decode_unchecked_def)
  have "prim_decode_at t (pre @ prim_word v @ post) (length pre) = Some v \<and>
    prim_decode_unchecked t (pre @ prim_word v @ post) (length pre) = Some v"
  proof (cases v)
    case (VBytesN bs)
    then have "t = BytesN (length bs)" "length bs \<le> 32" using assms by (auto simp: prim_wt_def)
    then show ?thesis using b VBytesN by simp
  next
    case (VBool x)
    have "prim_word (VBool x) = replicate 31 0 @ [if x then 1 else 0]"
      using prim_word_uint(5) [of "if x then 1 else 0"] by simp
    then show ?thesis using VBool assms(1) w
      by (auto simp: prim_wt_def prim_decode_defs prim_unchecked_defs get_idx_low
          simp del: prim_word.simps split: if_splits)
  next
    case (VAddress a)
    then show ?thesis using assms(1) w
      by (auto simp: prim_wt_def prim_decode_defs prim_unchecked_defs get_low_bytes)
  next
    case (VU256 v)
    then show ?thesis using assms(1) w
      by (auto simp: prim_wt_def prim_decode_defs prim_unchecked_defs get_range_append
           simp flip: prim_word_uint)
  next
    case (VI256 v)
    then show ?thesis using assms(1) w
      by (auto simp: prim_wt_def prim_decode_defs prim_unchecked_defs get_range_append
           simp flip: prim_word_sint)
  next
    case (VU16 v)
    obtain a b where ab: "to_be v = [a, b]" "from_be [a, b] = v" using to_be_16 by blast
    have "prim_word (VU16 v) = replicate 30 0 @ [a, b]"
      by (simp add: ab(1) flip: prim_word_uint)
    then show ?thesis using VU16 assms(1) w ab(2)
      by (auto simp: prim_wt_def prim_decode_defs prim_unchecked_defs get_idx_low get_idx_low2
          simp del: prim_word.simps)
  next
    case (VI16 v)
    obtain a b where ab: "to_be v = [a, b]" "from_be [a, b] = v" using to_be_16 by blast
    have "prim_word (VI16 v) = replicate 30 (if sint v < 0 then 255 else 0) @ [a, b]"
      by (simp add: ab(1) flip: prim_word_sint)
    then show ?thesis using VI16 assms(1) w ab(2)
      by (auto simp: prim_wt_def prim_decode_defs prim_unchecked_defs get_idx_low get_idx_low2
          simp del: prim_word.simps)
  qed (use assms(1) w in \<open>auto simp: prim_wt_def prim_decode_defs prim_unchecked_defs get_low_bytes
       get_idx_low try_into_def from_be_8 simp flip: prim_word_uint prim_word_sint\<close>)
  then show "prim_decode_at t (pre @ prim_word v @ post) (length pre) = Some v"
    and "prim_decode_unchecked t (pre @ prim_word v @ post) (length pre) = Some v" by auto
qed

text \<open>What a decoder returns has the type it decodes.\<close>

lemma wadd_diff:
  assumes "wadd off i \<le> wadd off j" "i \<le> j" "j < usize_limit"
  shows "wadd off j - wadd off i = j - i"
proof -
  let ?a = "wadd off i"
  have j: "wadd off j = (?a + (j - i)) mod usize_limit"
    using mod_add_left_eq [of "off + i" usize_limit "j - i"] assms(2) by (simp add: wadd_def)
  have a: "?a < usize_limit" by (rule wadd_less)
  show ?thesis
  proof (cases "?a + (j - i) < usize_limit")
    case False
    then have "wadd off j = ?a + (j - i) - usize_limit"
      using j a assms(3) by (simp add: le_mod_geq)
    then show ?thesis using assms a False by linarith
  qed (use j in simp)
qed

lemma get_range_wadd_length:
  assumes "get_range input (wadd off i) (wadd off j) = Some xs" "i \<le> j" "j < usize_limit"
  shows "length xs = j - i"
  using assms wadd_diff [of off i j] get_range_Some_length [OF assms(1)]
  by (auto simp: get_range_def split: if_splits)

lemma get_range_wadd_length0:
  assumes "get_range input off (wadd off j) = Some xs" "j < usize_limit"
  shows "length xs = j"
proof -
  have "off < usize_limit"
    using assms(1) wadd_less [of off j] by (auto simp: get_range_def split: if_splits)
  then have "wadd off 0 = off" by simp
  then show ?thesis using get_range_wadd_length [of input off 0 j xs] assms by simp
qed

lemma prim_decode_wt: "prim_wf t \<Longrightarrow> prim_decode_at t input off = Some v \<Longrightarrow> prim_wt t v"
  by (cases t) (auto simp: prim_wt_def prim_decode_defs usize_limit_def
      dest!: get_range_wadd_length get_range_wadd_length0 split: option.splits)

text \<open>
  The unchecked decoder agrees with the checked one, and neither fails when the word is inside
  the input: this is the contract its \<open>unsafe\<close> rests on.
\<close>

lemma prim_unchecked_eq: "prim_decode_unchecked t input off = prim_decode_at t input off"
  by (cases t) (simp_all add: prim_decode_defs prim_unchecked_defs from_be_8 option.map_ident)

lemma prim_decode_total:
  assumes "prim_wf t" "off + 32 \<le> length input" "length input < usize_limit"
  shows "\<exists>v. prim_decode_at t input off = Some v"
proof -
  have w: "\<And>k. k \<le> 32 \<Longrightarrow> wadd off k = off + k"
    using assms(2,3) by simp
  have g: "\<And>i j. i \<le> j \<Longrightarrow> j \<le> 32 \<Longrightarrow>
      get_range input (off + i) (off + j) = Some (take (j - i) (drop (off + i) input))"
    using assms(2) by (simp add: get_range_def)
  have g0: "\<And>j. j \<le> 32 \<Longrightarrow> get_range input off (off + j) = Some (take j (drop off input))"
    using g [of 0] by simp
  have x: "\<And>i. i < 32 \<Longrightarrow> get_idx input (off + i) = Some (input ! (off + i))"
    using assms(2) by (simp add: get_idx_def)
  show ?thesis
    using assms by (cases t) (simp_all add: prim_decode_defs w g g0 x try_into_def)
qed

end
