(* ===== verification/AbiCodec.thy ===== *)
theory AbiCodec
  imports Primitives
begin

text \<open>
  \<open>SolEncode\<close> / \<open>SolDecode\<close> / \<open>StaticDecode\<close> of \<open>pvm-contract-types\<close>. A Rust trait
  implementation is a dictionary (\<open>sol_codec\<close>) holding the trait's associated constants and
  methods; the provided methods (\<open>SLOT_SIZE\<close>, \<open>encode_len\<close>, \<open>encode_to\<close>, \<open>decode\<close>,
  \<open>indexed_topic\<close>) are functions of a dictionary; each \<open>impl\<close> of the crate, the generic ones
  for \<open>[T; N]\<close>, \<open>Vec<T>\<close> and tuples included, is a function that returns one.
  \<open>codec_of\<close> resolves the implementation of a type as the compiler does.

  \<open>None\<close> is \<open>DecodeError\<close> in a decoder and a panic in an encoder. The decoders' checked
  additions are \<open>checked_add\<close>; the encoders add up lengths of data that is in memory, so their
  sums are plain naturals; the \<open>+\<close> of the unchecked decoders wraps.
\<close>

section \<open>Values and types\<close>

datatype sol_ty =
    TPrim prim | TUnit | TStr | TString | TBytes
  | TArr sol_ty nat | TVec sol_ty | TTuple "sol_ty list"

datatype sol_val = VPrim prim_val | VUnit | VData bytes | VSeq "sol_val list"

text \<open>The payload of a value, for a dictionary that knows which shape it has.\<close>

fun val_prim :: "sol_val \<Rightarrow> prim_val" where
  "val_prim (VPrim p) = p"
| "val_prim _ = VU8 0"

fun val_data :: "sol_val \<Rightarrow> bytes" where
  "val_data (VData bs) = bs"
| "val_data _ = []"

fun val_seq :: "sol_val \<Rightarrow> sol_val list" where
  "val_seq (VSeq vs) = vs"
| "val_seq _ = []"

record sol_codec =
  IS_DYNAMIC :: bool
  HEAD_SIZE :: nat
  IS_TUPLE :: bool
  ENCODED_SIZE :: nat
  encode_body_len :: "sol_val \<Rightarrow> nat"
  encode_body_to :: "sol_val \<Rightarrow> bytes \<Rightarrow> bytes option"
  decode_at :: "bytes \<Rightarrow> nat \<Rightarrow> sol_val option"
  decode_tail :: "bytes \<Rightarrow> nat \<Rightarrow> sol_val option"
  decode_unchecked :: "bytes \<Rightarrow> nat \<Rightarrow> sol_val option"
  indexed_topic_override :: "((bytes \<Rightarrow> bytes) \<Rightarrow> sol_val \<Rightarrow> bytes option) option"

section \<open>Helpers\<close>

definition read_word_offset :: "bytes \<Rightarrow> nat \<Rightarrow> nat option" where
  "read_word_offset input offset =
     Option.bind (checked_add offset 24) (\<lambda>start.
     Option.bind (checked_add offset 32) (\<lambda>end.
     map_option (\<lambda>x. unat (from_be x :: 64 word))
       (Option.bind (get_range input start end) (try_into 8))))"

definition checked_sum :: "nat list \<Rightarrow> nat option" where
  "checked_sum parts =
     fold (\<lambda>p acc. Option.bind acc (\<lambda>a. checked_add a p)) parts (Some 0)"

definition SLOT_SIZE :: "sol_codec \<Rightarrow> nat" where
  "SLOT_SIZE c = (if IS_DYNAMIC c then 32 else HEAD_SIZE c)"

text \<open>\<open>n as u64\<close> to big-endian bytes.\<close>

definition u64_be :: "nat \<Rightarrow> bytes" where
  "u64_be n = to_be (of_nat n :: 64 word)"

definition padding :: "nat \<Rightarrow> nat" where
  "padding data_len = (32 - data_len mod 32) mod 32"

section \<open>Provided methods\<close>

definition encode_len :: "sol_codec \<Rightarrow> sol_val \<Rightarrow> nat" where
  "encode_len c v =
     (if IS_TUPLE c \<or> \<not> IS_DYNAMIC c then encode_body_len c v else 32 + encode_body_len c v)"

definition encode_to :: "sol_codec \<Rightarrow> sol_val \<Rightarrow> bytes \<Rightarrow> bytes option" where
  "encode_to c v buf =
     (if IS_TUPLE c \<or> \<not> IS_DYNAMIC c then encode_body_to c v buf
      else Option.bind (fill_range buf 0 24 0) (\<lambda>buf.
           Option.bind (copy_at buf 24 (u64_be 32)) (\<lambda>buf.
           with_suffix buf 32 (encode_body_to c v))))"

definition indexed_topic :: "(bytes \<Rightarrow> bytes) \<Rightarrow> sol_codec \<Rightarrow> sol_val \<Rightarrow> bytes option" where
  "indexed_topic keccak256 c v =
     (case indexed_topic_override c of
        Some f \<Rightarrow> f keccak256 v
      | None \<Rightarrow> encode_body_to c v (replicate 32 0))"

definition decode :: "sol_codec \<Rightarrow> bytes \<Rightarrow> sol_val option" where
  "decode c input =
     (if IS_TUPLE c \<or> \<not> IS_DYNAMIC c then decode_at c input 0
      else Option.bind (Option.bind (get_range input 24 32) (try_into 8)) (\<lambda>x.
           decode_tail c input (unat (from_be x :: 64 word))))"

section \<open>Static types\<close>

definition impl_prim :: "prim \<Rightarrow> sol_codec" where
  "impl_prim p =
     \<lparr> IS_DYNAMIC = False, HEAD_SIZE = 32, IS_TUPLE = False, ENCODED_SIZE = 32,
       encode_body_len = \<lambda>_. 32,
       encode_body_to = \<lambda>v buf. prim_encode_body_to (val_prim v) buf,
       decode_at = \<lambda>input offset. map_option VPrim (prim_decode_at p input offset),
       decode_tail = \<lambda>input offset. map_option VPrim (prim_decode_at p input offset),
       decode_unchecked = \<lambda>input offset. map_option VPrim (prim_decode_unchecked p input offset),
       indexed_topic_override = None \<rparr>"

definition impl_unit :: sol_codec where
  "impl_unit =
     \<lparr> IS_DYNAMIC = False, HEAD_SIZE = 32, IS_TUPLE = False, ENCODED_SIZE = 0,
       encode_body_len = \<lambda>_. 0,
       encode_body_to = \<lambda>_ buf. Some buf,
       decode_at = \<lambda>_ _. Some VUnit,
       decode_tail = \<lambda>_ _. Some VUnit,
       decode_unchecked = \<lambda>_ _. Some VUnit,
       indexed_topic_override = None \<rparr>"

section \<open>Strings and bytes\<close>

definition data_encode_body_len :: "bytes \<Rightarrow> nat" where
  "data_encode_body_len bs =
     (let data_len = length bs; padding = padding data_len in 32 + data_len + padding)"

definition data_encode_body_to :: "bytes \<Rightarrow> bytes \<Rightarrow> bytes option" where
  "data_encode_body_to bs buf =
     (let data_len = length bs; padding = padding data_len in
      Option.bind (fill_range buf 0 32 0) (\<lambda>buf.
      Option.bind (copy_at buf 24 (u64_be data_len)) (\<lambda>buf.
      Option.bind (copy_at buf 32 bs) (\<lambda>buf.
      fill_range buf (32 + data_len) (32 + data_len + padding) 0))))"

definition bytes_decode_tail :: "bytes \<Rightarrow> nat \<Rightarrow> bytes option" where
  "bytes_decode_tail input offset =
     Option.bind (read_word_offset input offset) (\<lambda>len.
     Option.bind (checked_sum [offset, 32]) (\<lambda>data_start.
     Option.bind (checked_sum [data_start, len]) (\<lambda>data_end.
     get_range input data_start data_end)))"

definition bytes_decode_at :: "bytes \<Rightarrow> nat \<Rightarrow> bytes option" where
  "bytes_decode_at input offset =
     Option.bind (read_word_offset input offset) (bytes_decode_tail input)"

text \<open>
  \<open>String::from_utf8\<close>: the well-formed byte sequences of the Unicode standard, which the Rust
  validator accepts (no overlong forms, no surrogates, nothing above U+10FFFF).
\<close>

definition utf8_cont :: "byte \<Rightarrow> bool" where
  "utf8_cont b \<longleftrightarrow> 0x80 \<le> b \<and> b \<le> 0xBF"

fun valid_utf8 :: "bytes \<Rightarrow> bool" where
  "valid_utf8 [] = True"
| "valid_utf8 (b # r) =
     (if b < 0x80 then valid_utf8 r
      else if 0xC2 \<le> b \<and> b \<le> 0xDF then
        (case r of c1 # r1 \<Rightarrow> utf8_cont c1 \<and> valid_utf8 r1 | _ \<Rightarrow> False)
      else if 0xE0 \<le> b \<and> b \<le> 0xEF then
        (case r of c1 # c2 # r2 \<Rightarrow>
           (if b = 0xE0 then 0xA0 else 0x80) \<le> c1 \<and> c1 \<le> (if b = 0xED then 0x9F else 0xBF) \<and>
           utf8_cont c2 \<and> valid_utf8 r2
         | _ \<Rightarrow> False)
      else if 0xF0 \<le> b \<and> b \<le> 0xF4 then
        (case r of c1 # c2 # c3 # r3 \<Rightarrow>
           (if b = 0xF0 then 0x90 else 0x80) \<le> c1 \<and> c1 \<le> (if b = 0xF4 then 0x8F else 0xBF) \<and>
           utf8_cont c2 \<and> utf8_cont c3 \<and> valid_utf8 r3
         | _ \<Rightarrow> False)
      else False)"

definition string_decode_tail :: "bytes \<Rightarrow> nat \<Rightarrow> bytes option" where
  "string_decode_tail input offset =
     Option.bind (read_word_offset input offset) (\<lambda>len.
     Option.bind (checked_sum [offset, 32]) (\<lambda>data_start.
     Option.bind (checked_sum [data_start, len]) (\<lambda>data_end.
     Option.bind (get_range input data_start data_end) (\<lambda>data.
     if valid_utf8 data then Some data else None))))"

definition string_decode_at :: "bytes \<Rightarrow> nat \<Rightarrow> bytes option" where
  "string_decode_at input offset =
     Option.bind (read_word_offset input offset) (string_decode_tail input)"

text \<open>\<open>&str\<close> only encodes; its dictionary has no decoder.\<close>

definition impl_str :: sol_codec where
  "impl_str =
     \<lparr> IS_DYNAMIC = True, HEAD_SIZE = 32, IS_TUPLE = False, ENCODED_SIZE = 0,
       encode_body_len = \<lambda>v. data_encode_body_len (val_data v),
       encode_body_to = \<lambda>v. data_encode_body_to (val_data v),
       decode_at = \<lambda>_ _. None, decode_tail = \<lambda>_ _. None, decode_unchecked = \<lambda>_ _. None,
       indexed_topic_override = None \<rparr>"

definition impl_string :: sol_codec where
  "impl_string =
     \<lparr> IS_DYNAMIC = True, HEAD_SIZE = 32, IS_TUPLE = False, ENCODED_SIZE = 0,
       encode_body_len = \<lambda>v. data_encode_body_len (val_data v),
       encode_body_to = \<lambda>v. data_encode_body_to (val_data v),
       decode_at = \<lambda>input offset. map_option VData (string_decode_at input offset),
       decode_tail = \<lambda>input offset. map_option VData (string_decode_tail input offset),
       decode_unchecked = \<lambda>_ _. None,
       indexed_topic_override = Some (\<lambda>keccak256 v. Some (keccak256 (val_data v))) \<rparr>"

definition impl_bytes :: sol_codec where
  "impl_bytes =
     \<lparr> IS_DYNAMIC = True, HEAD_SIZE = 32, IS_TUPLE = False, ENCODED_SIZE = 0,
       encode_body_len = \<lambda>v. data_encode_body_len (val_data v),
       encode_body_to = \<lambda>v. data_encode_body_to (val_data v),
       decode_at = \<lambda>input offset. map_option VData (bytes_decode_at input offset),
       decode_tail = \<lambda>input offset. map_option VData (bytes_decode_tail input offset),
       decode_unchecked = \<lambda>_ _. None,
       indexed_topic_override = Some (\<lambda>keccak256 v. Some (keccak256 (val_data v))) \<rparr>"

section \<open>Fixed arrays\<close>

definition array_encode_body_len :: "sol_codec \<Rightarrow> nat \<Rightarrow> sol_val list \<Rightarrow> nat" where
  "array_encode_body_len c n vs =
     (if IS_DYNAMIC c then n * 32 + sum_list (map (encode_body_len c) vs) else HEAD_SIZE c * n)"

text \<open>The dynamic loop: element \<open>i\<close>, the next tail position, the buffer.\<close>

fun array_encode_dyn ::
  "sol_codec \<Rightarrow> sol_val list \<Rightarrow> nat \<Rightarrow> nat \<Rightarrow> bytes \<Rightarrow> bytes option" where
  "array_encode_dyn c [] i tail_offset buf = Some buf"
| "array_encode_dyn c (elem # vs) i tail_offset buf =
     (let ho = i * SLOT_SIZE c in
      Option.bind (fill_range buf ho (ho + 24) 0) (\<lambda>buf.
      Option.bind (copy_at buf (ho + 24) (u64_be tail_offset)) (\<lambda>buf.
      let tl = encode_body_len c elem in
      Option.bind (with_slice buf tail_offset (tail_offset + tl) (encode_body_to c elem)) (\<lambda>buf.
      array_encode_dyn c vs (i + 1) (tail_offset + tl) buf))))"

fun array_encode_static :: "sol_codec \<Rightarrow> sol_val list \<Rightarrow> nat \<Rightarrow> bytes \<Rightarrow> bytes option" where
  "array_encode_static c [] offset buf = Some buf"
| "array_encode_static c (elem # vs) offset buf =
     Option.bind (with_suffix buf offset (encode_body_to c elem)) (\<lambda>buf.
     array_encode_static c vs (offset + SLOT_SIZE c) buf)"

definition array_encode_body_to ::
  "sol_codec \<Rightarrow> nat \<Rightarrow> sol_val list \<Rightarrow> bytes \<Rightarrow> bytes option" where
  "array_encode_body_to c n vs buf =
     (if IS_DYNAMIC c then array_encode_dyn c vs 0 (n * SLOT_SIZE c) buf
      else array_encode_static c vs 0 buf)"

definition array_decode_elem :: "sol_codec \<Rightarrow> bytes \<Rightarrow> nat \<Rightarrow> nat \<Rightarrow> sol_val option" where
  "array_decode_elem c input offset i =
     (if IS_DYNAMIC c then
        Option.bind (checked_sum [offset, i * SLOT_SIZE c]) (\<lambda>ho.
        Option.bind (read_word_offset input ho) (\<lambda>field_offset.
        Option.bind (checked_sum [offset, field_offset]) (decode_tail c input)))
      else Option.bind (checked_sum [offset, i * SLOT_SIZE c]) (decode_at c input))"

text \<open>The \<open>for\<close> loop over the \<open>n\<close> uninitialised slots, from index \<open>i\<close>.\<close>

primrec array_decode_loop ::
  "sol_codec \<Rightarrow> bytes \<Rightarrow> nat \<Rightarrow> nat \<Rightarrow> nat \<Rightarrow> sol_val list option" where
  "array_decode_loop c input offset i 0 = Some []"
| "array_decode_loop c input offset i (Suc k) =
     Option.bind (array_decode_elem c input offset i) (\<lambda>v.
     map_option (\<lambda>vs. v # vs) (array_decode_loop c input offset (i + 1) k))"

definition array_decode_at :: "sol_codec \<Rightarrow> nat \<Rightarrow> bytes \<Rightarrow> nat \<Rightarrow> sol_val list option" where
  "array_decode_at c n input offset = array_decode_loop c input offset 0 n"

definition array_unchecked_elem :: "sol_codec \<Rightarrow> bytes \<Rightarrow> nat \<Rightarrow> nat \<Rightarrow> sol_val option" where
  "array_unchecked_elem c input offset i =
     (if IS_DYNAMIC c then
        (let ho = wadd offset (i * SLOT_SIZE c) in
         Option.bind (Option.bind (get_range input (wadd ho 24) (wadd ho 32)) (try_into 8)) (\<lambda>x.
         decode_unchecked c input (wadd offset (unat (from_be x :: 64 word)))))
      else decode_unchecked c input (wadd offset (i * SLOT_SIZE c)))"

primrec array_unchecked_loop ::
  "sol_codec \<Rightarrow> bytes \<Rightarrow> nat \<Rightarrow> nat \<Rightarrow> nat \<Rightarrow> sol_val list option" where
  "array_unchecked_loop c input offset i 0 = Some []"
| "array_unchecked_loop c input offset i (Suc k) =
     Option.bind (array_unchecked_elem c input offset i) (\<lambda>v.
     map_option (\<lambda>vs. v # vs) (array_unchecked_loop c input offset (i + 1) k))"

definition impl_array :: "sol_codec \<Rightarrow> nat \<Rightarrow> sol_codec" where
  "impl_array c n =
     \<lparr> IS_DYNAMIC = IS_DYNAMIC c, HEAD_SIZE = SLOT_SIZE c * n, IS_TUPLE = False,
       ENCODED_SIZE = ENCODED_SIZE c * n,
       encode_body_len = \<lambda>v. array_encode_body_len c n (val_seq v),
       encode_body_to = \<lambda>v. array_encode_body_to c n (val_seq v),
       decode_at = \<lambda>input offset. map_option VSeq (array_decode_at c n input offset),
       decode_tail = \<lambda>input offset. map_option VSeq (array_decode_at c n input offset),
       decode_unchecked =
         \<lambda>input offset. map_option VSeq (array_unchecked_loop c input offset 0 n),
       indexed_topic_override = None \<rparr>"

section \<open>Vectors\<close>

definition vec_encode_body_len :: "sol_codec \<Rightarrow> sol_val list \<Rightarrow> nat" where
  "vec_encode_body_len c vs =
     (if IS_DYNAMIC c
      then (let tails_len = sum_list (map (encode_body_len c) vs)
            in 32 + length vs * 32 + tails_len)
      else 32 + sum_list (map (encode_body_len c) vs))"

fun vec_encode_dyn ::
  "sol_codec \<Rightarrow> sol_val list \<Rightarrow> nat \<Rightarrow> nat \<Rightarrow> bytes \<Rightarrow> bytes option" where
  "vec_encode_dyn c [] offset_pos tail_pos buf = Some buf"
| "vec_encode_dyn c (elem # vs) offset_pos tail_pos buf =
     (let rel_offset = tail_pos - 32 in
      Option.bind (fill_range buf offset_pos (offset_pos + 32) 0) (\<lambda>buf.
      Option.bind (copy_at buf (offset_pos + 24) (u64_be rel_offset)) (\<lambda>buf.
      let tail_len = encode_body_len c elem in
      Option.bind (with_slice buf tail_pos (tail_pos + tail_len) (encode_body_to c elem)) (\<lambda>buf.
      vec_encode_dyn c vs (offset_pos + 32) (tail_pos + tail_len) buf))))"

fun vec_encode_static :: "sol_codec \<Rightarrow> sol_val list \<Rightarrow> nat \<Rightarrow> bytes \<Rightarrow> bytes option" where
  "vec_encode_static c [] pos buf = Some buf"
| "vec_encode_static c (elem # vs) pos buf =
     (let len = encode_body_len c elem in
      Option.bind (with_slice buf pos (pos + len) (encode_body_to c elem)) (\<lambda>buf.
      vec_encode_static c vs (pos + len) buf))"

definition vec_encode_body_to :: "sol_codec \<Rightarrow> sol_val list \<Rightarrow> bytes \<Rightarrow> bytes option" where
  "vec_encode_body_to c vs buf =
     Option.bind (fill_range buf 0 32 0) (\<lambda>buf.
     Option.bind (copy_at buf 24 (u64_be (length vs))) (\<lambda>buf.
     if IS_DYNAMIC c then vec_encode_dyn c vs 32 (32 + length vs * 32) buf
     else vec_encode_static c vs 32 buf))"

primrec vec_decode_dyn ::
  "sol_codec \<Rightarrow> bytes \<Rightarrow> nat \<Rightarrow> nat \<Rightarrow> nat \<Rightarrow> sol_val list option" where
  "vec_decode_dyn c input array_data_start i 0 = Some []"
| "vec_decode_dyn c input array_data_start i (Suc k) =
     Option.bind (checked_sum [array_data_start, wmul i 32]) (\<lambda>head_pos.
     Option.bind (read_word_offset input head_pos) (\<lambda>elem_offset.
     Option.bind (checked_sum [array_data_start, elem_offset]) (\<lambda>elem_start.
     Option.bind (decode_tail c input elem_start) (\<lambda>elem.
     map_option (\<lambda>vs. elem # vs) (vec_decode_dyn c input array_data_start (i + 1) k)))))"

primrec vec_decode_static :: "sol_codec \<Rightarrow> bytes \<Rightarrow> nat \<Rightarrow> nat \<Rightarrow> sol_val list option" where
  "vec_decode_static c input elem_offset 0 = Some []"
| "vec_decode_static c input elem_offset (Suc k) =
     Option.bind (decode_at c input elem_offset) (\<lambda>elem.
     Option.bind (checked_sum [elem_offset, HEAD_SIZE c]) (\<lambda>elem_offset.
     map_option (\<lambda>vs. elem # vs) (vec_decode_static c input elem_offset k)))"

definition vec_decode_tail :: "sol_codec \<Rightarrow> bytes \<Rightarrow> nat \<Rightarrow> sol_val list option" where
  "vec_decode_tail c input offset =
     Option.bind (read_word_offset input offset) (\<lambda>len.
     if len > length input div 32 then None
     else Option.bind (checked_sum [offset, 32]) (\<lambda>array_data_start.
          if IS_DYNAMIC c then vec_decode_dyn c input array_data_start 0 len
          else vec_decode_static c input array_data_start len))"

definition vec_decode_at :: "sol_codec \<Rightarrow> bytes \<Rightarrow> nat \<Rightarrow> sol_val list option" where
  "vec_decode_at c input offset =
     Option.bind (read_word_offset input offset) (vec_decode_tail c input)"

definition impl_vec :: "sol_codec \<Rightarrow> sol_codec" where
  "impl_vec c =
     \<lparr> IS_DYNAMIC = True, HEAD_SIZE = 32, IS_TUPLE = False, ENCODED_SIZE = 0,
       encode_body_len = \<lambda>v. vec_encode_body_len c (val_seq v),
       encode_body_to = \<lambda>v. vec_encode_body_to c (val_seq v),
       decode_at = \<lambda>input offset. map_option VSeq (vec_decode_at c input offset),
       decode_tail = \<lambda>input offset. map_option VSeq (vec_decode_tail c input offset),
       decode_unchecked = \<lambda>_ _. None,
       indexed_topic_override = None \<rparr>"

section \<open>Tuples\<close>

definition tuple_head_size :: "sol_codec list \<Rightarrow> nat" where
  "tuple_head_size cs = sum_list (map SLOT_SIZE cs)"

definition tuple_encode_body_len :: "sol_codec list \<Rightarrow> sol_val list \<Rightarrow> nat" where
  "tuple_encode_body_len cs vs =
     tuple_head_size cs +
     sum_list (map (\<lambda>(c, v). if IS_DYNAMIC c then encode_body_len c v else 0) (zip cs vs))"

text \<open>One step of the macro's unrolled repetition per field: \<open>__ho\<close>, \<open>__to\<close>, the buffer.\<close>

fun tuple_encode_fields ::
  "(sol_codec \<times> sol_val) list \<Rightarrow> nat \<Rightarrow> nat \<Rightarrow> bytes \<Rightarrow> bytes option" where
  "tuple_encode_fields [] ho to buf = Some buf"
| "tuple_encode_fields ((c, v) # fs) ho to buf =
     (if IS_DYNAMIC c then
        Option.bind (fill_range buf ho (ho + 24) 0) (\<lambda>buf.
        Option.bind (copy_at buf (ho + 24) (u64_be to)) (\<lambda>buf.
        let tl = encode_body_len c v in
        Option.bind (with_slice buf to (to + tl) (encode_body_to c v)) (\<lambda>buf.
        tuple_encode_fields fs (ho + SLOT_SIZE c) (to + tl) buf)))
      else
        Option.bind (with_suffix buf ho (encode_body_to c v)) (\<lambda>buf.
        tuple_encode_fields fs (ho + SLOT_SIZE c) to buf))"

definition tuple_encode_body_to :: "sol_codec list \<Rightarrow> sol_val list \<Rightarrow> bytes \<Rightarrow> bytes option" where
  "tuple_encode_body_to cs vs buf =
     tuple_encode_fields (zip cs vs) 0 (tuple_head_size cs) buf"

fun tuple_decode_fields ::
  "sol_codec list \<Rightarrow> bytes \<Rightarrow> nat \<Rightarrow> nat \<Rightarrow> sol_val list option" where
  "tuple_decode_fields [] input offset ho = Some []"
| "tuple_decode_fields (c # cs) input offset ho =
     Option.bind
       (if IS_DYNAMIC c then
          Option.bind (read_word_offset input ho) (\<lambda>fo.
          Option.bind (checked_sum [offset, fo]) (decode_tail c input))
        else decode_at c input ho) (\<lambda>val.
     Option.bind (checked_sum [ho, SLOT_SIZE c]) (\<lambda>ho.
     map_option (\<lambda>vs. val # vs) (tuple_decode_fields cs input offset ho)))"

definition tuple_decode_at :: "sol_codec list \<Rightarrow> bytes \<Rightarrow> nat \<Rightarrow> sol_val list option" where
  "tuple_decode_at cs input offset = tuple_decode_fields cs input offset offset"

fun tuple_unchecked_fields :: "sol_codec list \<Rightarrow> bytes \<Rightarrow> nat \<Rightarrow> sol_val list option" where
  "tuple_unchecked_fields [] input ho = Some []"
| "tuple_unchecked_fields (c # cs) input ho =
     Option.bind (decode_unchecked c input ho) (\<lambda>val.
     map_option (\<lambda>vs. val # vs) (tuple_unchecked_fields cs input (wadd ho (SLOT_SIZE c))))"

definition impl_tuple :: "sol_codec list \<Rightarrow> sol_codec" where
  "impl_tuple cs =
     \<lparr> IS_DYNAMIC = list_ex IS_DYNAMIC cs, HEAD_SIZE = tuple_head_size cs, IS_TUPLE = True,
       ENCODED_SIZE = sum_list (map ENCODED_SIZE cs),
       encode_body_len = \<lambda>v. tuple_encode_body_len cs (val_seq v),
       encode_body_to = \<lambda>v. tuple_encode_body_to cs (val_seq v),
       decode_at = \<lambda>input offset. map_option VSeq (tuple_decode_at cs input offset),
       decode_tail = \<lambda>input offset. map_option VSeq (tuple_decode_at cs input offset),
       decode_unchecked = \<lambda>input offset. map_option VSeq (tuple_unchecked_fields cs input offset),
       indexed_topic_override = None \<rparr>"

section \<open>Implementation resolution\<close>

primrec codec_of :: "sol_ty \<Rightarrow> sol_codec" where
  "codec_of (TPrim p) = impl_prim p"
| "codec_of TUnit = impl_unit"
| "codec_of TStr = impl_str"
| "codec_of TString = impl_string"
| "codec_of TBytes = impl_bytes"
| "codec_of (TArr t n) = impl_array (codec_of t) n"
| "codec_of (TVec t) = impl_vec (codec_of t)"
| "codec_of (TTuple ts) = impl_tuple (map codec_of ts)"

lemma impl_consts [simp]:
  "IS_DYNAMIC (impl_prim p) = False" "HEAD_SIZE (impl_prim p) = 32"
  "IS_TUPLE (impl_prim p) = False" "ENCODED_SIZE (impl_prim p) = 32"
  "IS_DYNAMIC impl_unit = False" "HEAD_SIZE impl_unit = 32"
  "IS_TUPLE impl_unit = False" "ENCODED_SIZE impl_unit = 0"
  "IS_DYNAMIC impl_str = True" "IS_TUPLE impl_str = False"
  "IS_DYNAMIC impl_string = True" "IS_TUPLE impl_string = False"
  "IS_DYNAMIC impl_bytes = True" "IS_TUPLE impl_bytes = False"
  "IS_DYNAMIC (impl_array c n) = IS_DYNAMIC c" "HEAD_SIZE (impl_array c n) = SLOT_SIZE c * n"
  "IS_TUPLE (impl_array c n) = False" "ENCODED_SIZE (impl_array c n) = ENCODED_SIZE c * n"
  "IS_DYNAMIC (impl_vec c) = True" "IS_TUPLE (impl_vec c) = False"
  "IS_DYNAMIC (impl_tuple cs) = list_ex IS_DYNAMIC cs" "HEAD_SIZE (impl_tuple cs) = tuple_head_size cs"
  "IS_TUPLE (impl_tuple cs) = True" "ENCODED_SIZE (impl_tuple cs) = sum_list (map ENCODED_SIZE cs)"
  by (simp_all add: impl_prim_def impl_unit_def impl_str_def impl_string_def impl_bytes_def
      impl_array_def impl_vec_def impl_tuple_def)

end
