(* ===== verification/AbiCorrect.thy ===== *)
theory AbiCorrect
  imports AbiCodec
begin

text \<open>
  The contract of the codec: \<open>abi_enc\<close> is the encoding the Solidity ABI specification
  prescribes (heads, then tails), the locale \<open>abi_encode\<close> states what an implementation of
  \<open>SolEncode\<close> promises with respect to a specification, \<open>abi_codec\<close> adds the decoding
  promises, and one lemma per \<open>impl\<close> shows that it preserves them. Both locales are
  interpreted on \<open>codec_of\<close>, for every type whose implementations the compiler accepts.
\<close>

section \<open>The ABI specification\<close>

definition abi_uint :: "nat \<Rightarrow> bytes" where
  "abi_uint n = be_bytes 32 n"

type_synonym item = "bool \<times> bytes"

definition item_head :: "item \<Rightarrow> nat" where
  "item_head it = (if fst it then 32 else length (snd it))"

definition item_tail :: "item \<Rightarrow> bytes" where
  "item_tail it = (if fst it then snd it else [])"

fun seq_heads :: "nat \<Rightarrow> item list \<Rightarrow> bytes" where
  "seq_heads off [] = []"
| "seq_heads off ((dyn, e) # its) =
     (if dyn then abi_uint off @ seq_heads (off + length e) its else e @ seq_heads off its)"

definition seq_tails :: "item list \<Rightarrow> bytes" where
  "seq_tails its = concat (map item_tail its)"

definition seq_head_len :: "item list \<Rightarrow> nat" where
  "seq_head_len its = sum_list (map item_head its)"

definition seq_enc :: "item list \<Rightarrow> bytes" where
  "seq_enc its = seq_heads (seq_head_len its) its @ seq_tails its"

definition data_enc :: "bytes \<Rightarrow> bytes" where
  "data_enc bs = abi_uint (length bs) @ bs @ replicate (padding (length bs)) 0"

primrec abi_dynamic :: "sol_ty \<Rightarrow> bool" where
  "abi_dynamic (TPrim p) = False"
| "abi_dynamic TUnit = False"
| "abi_dynamic TStr = True"
| "abi_dynamic TString = True"
| "abi_dynamic TBytes = True"
| "abi_dynamic (TArr t n) = abi_dynamic t"
| "abi_dynamic (TVec t) = True"
| "abi_dynamic (TTuple ts) = list_ex id (map abi_dynamic ts)"

primrec abi_enc :: "sol_ty \<Rightarrow> sol_val \<Rightarrow> bytes" where
  "abi_enc (TPrim p) = (\<lambda>v. prim_word (val_prim v))"
| "abi_enc TUnit = (\<lambda>v. [])"
| "abi_enc TStr = (\<lambda>v. data_enc (val_data v))"
| "abi_enc TString = (\<lambda>v. data_enc (val_data v))"
| "abi_enc TBytes = (\<lambda>v. data_enc (val_data v))"
| "abi_enc (TArr t n) = (\<lambda>v. seq_enc (map (\<lambda>x. (abi_dynamic t, abi_enc t x)) (val_seq v)))"
| "abi_enc (TVec t) = (\<lambda>v. abi_uint (length (val_seq v)) @
     seq_enc (map (\<lambda>x. (abi_dynamic t, abi_enc t x)) (val_seq v)))"
| "abi_enc (TTuple ts) = (\<lambda>v. seq_enc
     (map2 (\<lambda>(dyn, f) x. (dyn, f x)) (zip (map abi_dynamic ts) (map abi_enc ts)) (val_seq v)))"

text \<open>The top-level encoding of one value: that of the one-element sequence, unless it is a tuple.\<close>

definition abi_enc_top :: "sol_ty \<Rightarrow> sol_val \<Rightarrow> bytes" where
  "abi_enc_top t v =
     (case t of TTuple _ \<Rightarrow> abi_enc t v | _ \<Rightarrow> seq_enc [(abi_dynamic t, abi_enc t v)])"

section \<open>Well-formed types and well-typed values\<close>

text \<open>\<open>SolArrayElement\<close>: not \<open>u8\<close> (whose arrays are \<open>bytesN\<close>), \<open>()\<close> or \<open>&str\<close>.\<close>

fun sol_array_element :: "sol_ty \<Rightarrow> bool" where
  "sol_array_element (TPrim p) = (p \<noteq> U8)"
| "sol_array_element TUnit = False"
| "sol_array_element TStr = False"
| "sol_array_element _ = True"

text \<open>
  \<open>()\<close> is not an ABI type: it is accepted as the return type of a method and encodes to
  nothing, but its \<open>HEAD_SIZE\<close> is the default 32, so it may not occur inside another type.
\<close>

primrec sol_wf :: "sol_ty \<Rightarrow> bool" where
  "sol_wf (TPrim p) = prim_wf p"
| "sol_wf TUnit = False"
| "sol_wf TStr = True"
| "sol_wf TString = True"
| "sol_wf TBytes = True"
| "sol_wf (TArr t n) = (sol_wf t \<and> sol_array_element t \<and> 0 < n)"
| "sol_wf (TVec t) = sol_wf t"
| "sol_wf (TTuple ts) = (ts \<noteq> [] \<and> list_all id (map sol_wf ts))"

text \<open>The types that implement \<open>SolDecode\<close>: no \<open>&str\<close> inside.\<close>

primrec sol_decodable :: "sol_ty \<Rightarrow> bool" where
  "sol_decodable (TPrim p) = True"
| "sol_decodable TUnit = True"
| "sol_decodable TStr = False"
| "sol_decodable TString = True"
| "sol_decodable TBytes = True"
| "sol_decodable (TArr t n) = sol_decodable t"
| "sol_decodable (TVec t) = sol_decodable t"
| "sol_decodable (TTuple ts) = list_all id (map sol_decodable ts)"

primrec sol_wt :: "sol_ty \<Rightarrow> sol_val \<Rightarrow> bool" where
  "sol_wt (TPrim p) = (\<lambda>v. case v of VPrim pv \<Rightarrow> prim_wt p pv | _ \<Rightarrow> False)"
| "sol_wt TUnit = (\<lambda>v. v = VUnit)"
| "sol_wt TStr = (\<lambda>v. case v of VData bs \<Rightarrow> valid_utf8 bs | _ \<Rightarrow> False)"
| "sol_wt TString = (\<lambda>v. case v of VData bs \<Rightarrow> valid_utf8 bs | _ \<Rightarrow> False)"
| "sol_wt TBytes = (\<lambda>v. case v of VData bs \<Rightarrow> True | _ \<Rightarrow> False)"
| "sol_wt (TArr t n) = (\<lambda>v. case v of VSeq vs \<Rightarrow> length vs = n \<and> list_all (sol_wt t) vs | _ \<Rightarrow> False)"
| "sol_wt (TVec t) = (\<lambda>v. case v of VSeq vs \<Rightarrow> list_all (sol_wt t) vs | _ \<Rightarrow> False)"
| "sol_wt (TTuple ts) = (\<lambda>v. case v of
     VSeq vs \<Rightarrow> list_all2 (\<lambda>p x. p x) (map sol_wt ts) vs | _ \<Rightarrow> False)"

section \<open>The promises\<close>

text \<open>\<open>encodes c v e\<close>: the implementation writes \<open>e\<close> for \<open>v\<close>, and its sizes agree.\<close>

definition encodes :: "sol_codec \<Rightarrow> sol_val \<Rightarrow> bytes \<Rightarrow> bool" where
  "encodes c v e \<longleftrightarrow>
     encode_body_len c v = length e \<and> 32 \<le> SLOT_SIZE c \<and> 32 \<le> length e \<and>
     (\<not> IS_DYNAMIC c \<longrightarrow> length e = HEAD_SIZE c) \<and>
     (\<forall>buf. length e \<le> length buf \<longrightarrow> length buf < usize_limit \<longrightarrow>
        encode_body_to c v buf = Some (e @ drop (length e) buf))"

definition decodes :: "sol_codec \<Rightarrow> sol_val \<Rightarrow> bytes \<Rightarrow> bool" where
  "decodes c v e \<longleftrightarrow>
     (\<not> IS_DYNAMIC c \<or> IS_TUPLE c \<longrightarrow> decode_at c = decode_tail c) \<and>
     (\<forall>pre post. length (pre @ e @ post) + 32 < usize_limit \<longrightarrow>
        decode_tail c (pre @ e @ post) (length pre) = Some v)"

lemma decodes_tail:
  "decodes c v e \<Longrightarrow> length (pre @ e @ post) + 32 < usize_limit \<Longrightarrow>
   decode_tail c (pre @ e @ post) (length pre) = Some v"
  by (simp add: decodes_def)

locale abi_encode =
  fixes c :: sol_codec and wt :: "sol_val \<Rightarrow> bool" and enc :: "sol_val \<Rightarrow> bytes"
  assumes encodes: "wt v \<Longrightarrow> encodes c v (enc v)"
begin

lemma body_len: "wt v \<Longrightarrow> encode_body_len c v = length (enc v)"
  using encodes by (simp add: encodes_def)

lemma body_to:
  "wt v \<Longrightarrow> length (enc v) \<le> length buf \<Longrightarrow> length buf < usize_limit \<Longrightarrow>
   encode_body_to c v buf = Some (enc v @ drop (length (enc v)) buf)"
  using encodes by (simp add: encodes_def)

lemma static_size: "wt v \<Longrightarrow> \<not> IS_DYNAMIC c \<Longrightarrow> length (enc v) = HEAD_SIZE c"
  using encodes by (simp add: encodes_def)

end

locale abi_codec = abi_encode +
  assumes decodes: "wt v \<Longrightarrow> decodes c v (enc v)"
begin

lemma tail_back:
  "wt v \<Longrightarrow> length (pre @ enc v @ post) + 32 < usize_limit \<Longrightarrow>
   decode_tail c (pre @ enc v @ post) (length pre) = Some v"
  using decodes by (simp add: decodes_def)

lemma at_back:
  "wt v \<Longrightarrow> \<not> IS_DYNAMIC c \<or> IS_TUPLE c \<Longrightarrow> length (pre @ enc v @ post) + 32 < usize_limit \<Longrightarrow>
   decode_at c (pre @ enc v @ post) (length pre) = Some v"
  using decodes by (simp add: decodes_def)

lemma enc_inj:
  assumes "wt v" "wt w" "enc v = enc w" "length (enc v) + 32 < usize_limit"
  shows "v = w"
  using tail_back [of v "[]" "[]"] tail_back [of w "[]" "[]"] assms by simp

end

section \<open>Words and data\<close>

lemma length_abi_uint [simp]: "length (abi_uint n) = 32"
  by (simp add: abi_uint_def)

lemma length_u64_be [simp]: "length (u64_be n) = 8"
  by (simp add: u64_be_def)

lemma u64_be_word: "n < usize_limit \<Longrightarrow> replicate 24 0 @ u64_be n = abi_uint n"
proof -
  assume n: "n < usize_limit"
  then have "unat (of_nat n :: 64 word) = n" by (simp add: usize_limit_def unat_of_nat)
  then show ?thesis using prim_word_uint(2) [of "of_nat n"] by (simp add: u64_be_def abi_uint_def)
qed

lemma checked_sum2 [simp]:
  "checked_sum [a, b] = (if a + b < usize_limit then Some (a + b) else None)"
  by (auto simp: checked_sum_def checked_add_def)

lemma read_word_abi_uint:
  assumes "offset = length pre" "length pre + 32 < usize_limit" "n < usize_limit"
  shows "read_word_offset (pre @ abi_uint n @ post) offset = Some n"
proof -
  have "get_range (pre @ replicate 24 0 @ u64_be n @ post) (offset + 24) (offset + 32) = Some (u64_be n)"
    using assms(1) by (intro get_low_bytes) simp_all
  moreover have "unat (from_be (u64_be n) :: 64 word) = n"
    using assms(3) by (simp add: u64_be_def usize_limit_def unat_of_nat)
  ultimately show ?thesis
    using assms by (simp add: read_word_offset_def checked_add_def try_into_def flip: u64_be_word)
qed

text \<open>Writing a length or offset word, in the two ways the code does it.\<close>

lemma put_word_24:
  assumes "i = length pre" "length mid = 32" "n < usize_limit"
  shows "Option.bind (fill_range (pre @ mid @ post) i (i + 24) 0) (\<lambda>b. Option.bind (copy_at b (i + 24) (u64_be n)) f)
     = f (pre @ abi_uint n @ post)"
proof -
  obtain m1 m2 where m: "mid = m1 @ m2" "length m1 = 24" "length m2 = 8"
    using split_at [of 24 mid] assms(2) by fastforce
  then show ?thesis
    using assms copy_at_append [of "i + 24" "pre @ replicate 24 0" m2 "u64_be n" post]
      copy_at_append [of i pre m1 "replicate 24 0" "m2 @ post"]
    by (simp add: fill_range_def flip: u64_be_word)
qed

lemma put_word_32:
  assumes "i = length pre" "length mid = 32" "n < usize_limit"
  shows "Option.bind (fill_range (pre @ mid @ post) i (i + 32) 0) (\<lambda>b. Option.bind (copy_at b (i + 24) (u64_be n)) f)
     = f (pre @ abi_uint n @ post)"
proof -
  have "replicate 32 (0 :: byte) = replicate 24 0 @ replicate 8 0" by (simp flip: replicate_add)
  then show ?thesis
    using assms copy_at_append [of "i + 24" "pre @ replicate 24 0" "replicate 8 0" "u64_be n" post]
      copy_at_append [of i pre mid "replicate 32 0" post]
    by (simp add: fill_range_def flip: u64_be_word)
qed

lemma put_word_head:
  assumes "32 \<le> length buf" "n < usize_limit"
  shows "Option.bind (fill_range buf 0 32 0) (\<lambda>b. Option.bind (copy_at b 24 (u64_be n)) f)
     = f (abi_uint n @ drop 32 buf)"
    "Option.bind (fill_range buf 0 24 0) (\<lambda>b. Option.bind (copy_at b 24 (u64_be n)) f)
     = f (abi_uint n @ drop 32 buf)"
  using put_word_32 [of 0 "[]" "take 32 buf" n "drop 32 buf" f]
    put_word_24 [of 0 "[]" "take 32 buf" n "drop 32 buf" f] assms by simp_all

lemma data_encodes_aux:
  assumes "length (data_enc bs) \<le> length buf" "length buf < usize_limit"
  shows "data_encode_body_to bs buf = Some (data_enc bs @ drop (length (data_enc bs)) buf)"
proof -
  have *: "32 + length bs + padding (length bs) \<le> length buf"
    using assms(1) by (simp add: data_enc_def)
  obtain b0 b1 b2 r where b: "buf = b0 @ b1 @ b2 @ r" "length b0 = 32"
    "length b1 = length bs" "length b2 = padding (length bs)"
  proof -
    obtain b0 b1 r1 where b: "buf = b0 @ b1 @ r1" "length b0 = 32" "length b1 = length bs"
      using split_at3 [of 32 "length bs" buf] * by auto
    then have "padding (length bs) \<le> length r1" using * by simp
    then show thesis using split_at [of "padding (length bs)" r1] b that by auto
  qed
  have n: "length bs < usize_limit" "32 \<le> length buf" using b assms(2) by auto
  have "data_encode_body_to bs buf =
    Option.bind (copy_at (abi_uint (length bs) @ b1 @ b2 @ r) 32 bs)
      (\<lambda>buf. fill_range buf (32 + length bs) (32 + length bs + padding (length bs)) 0)"
    using n b by (simp add: data_encode_body_to_def Let_def put_word_head)
  also have "copy_at (abi_uint (length bs) @ b1 @ b2 @ r) 32 bs = Some (abi_uint (length bs) @ bs @ b2 @ r)"
    using b by (simp add: copy_at_append)
  also have "Option.bind (Some (abi_uint (length bs) @ bs @ b2 @ r))
      (\<lambda>buf. fill_range buf (32 + length bs) (32 + length bs + padding (length bs)) 0) =
    Some (abi_uint (length bs) @ bs @ replicate (padding (length bs)) 0 @ r)"
    using b copy_at_append [of "32 + length bs" "abi_uint (length bs) @ bs" b2
        "replicate (padding (length bs)) 0" r]
    by (simp add: fill_range_def)
  finally show ?thesis using b by (simp add: data_enc_def)
qed

lemma data_encodes:
  "encodes impl_string (VData bs) (data_enc bs)"
  "encodes impl_str (VData bs) (data_enc bs)"
  "encodes impl_bytes (VData bs) (data_enc bs)"
  by (simp_all add: encodes_def impl_string_def impl_str_def impl_bytes_def SLOT_SIZE_def
      data_encodes_aux data_encode_body_len_def Let_def)
    (simp_all add: data_enc_def)

lemma data_tail:
  assumes "length (pre @ data_enc bs @ post) + 32 < usize_limit"
  shows "bytes_decode_tail (pre @ data_enc bs @ post) (length pre) = Some bs"
    and "valid_utf8 bs \<Longrightarrow> string_decode_tail (pre @ data_enc bs @ post) (length pre) = Some bs"
proof -
  let ?pad = "replicate (padding (length bs)) (0 :: byte)"
  have r: "read_word_offset (pre @ abi_uint (length bs) @ bs @ ?pad @ post) (length pre) = Some (length bs)"
    using assms by (intro read_word_abi_uint) (simp_all add: data_enc_def)
  have g: "get_range (pre @ abi_uint (length bs) @ bs @ ?pad @ post) (length pre + 32)
      (length pre + 32 + length bs) = Some bs"
    by (intro get_low_bytes) simp_all
  show "bytes_decode_tail (pre @ data_enc bs @ post) (length pre) = Some bs"
    using r g assms by (simp add: bytes_decode_tail_def data_enc_def)
  show "string_decode_tail (pre @ data_enc bs @ post) (length pre) = Some bs" if "valid_utf8 bs"
    using r g that assms by (simp add: string_decode_tail_def data_enc_def)
qed

lemma data_decodes:
  "valid_utf8 bs \<Longrightarrow> decodes impl_string (VData bs) (data_enc bs)"
  "decodes impl_bytes (VData bs) (data_enc bs)"
  using data_tail [where bs = bs]
  by (simp_all add: decodes_def impl_string_def impl_bytes_def del: length_append)

section \<open>Primitives\<close>

lemma prim_encodes:
  "prim_wf p \<Longrightarrow> prim_wt p v \<Longrightarrow> encodes (impl_prim p) (VPrim v) (prim_word v)"
  by (auto simp: encodes_def impl_prim_def SLOT_SIZE_def prim_encode_word)

lemma prim_decodes:
  "prim_wf p \<Longrightarrow> prim_wt p v \<Longrightarrow> decodes (impl_prim p) (VPrim v) (prim_word v)"
  by (auto simp: decodes_def impl_prim_def prim_decode_word)

section \<open>Heads and tails\<close>

type_synonym field = "sol_codec \<times> sol_val \<times> bytes"

definition items :: "field list \<Rightarrow> item list" where
  "items xs = map (\<lambda>(c, v, e). (IS_DYNAMIC c, e)) xs"

definition all_encode :: "field list \<Rightarrow> bool" where
  "all_encode xs \<longleftrightarrow> (\<forall>(c, v, e) \<in> set xs. encodes c v e)"

definition all_decode :: "field list \<Rightarrow> bool" where
  "all_decode xs \<longleftrightarrow> (\<forall>(c, v, e) \<in> set xs. encodes c v e \<and> decodes c v e)"

lemma items_simps [simp]:
  "items [] = []"
  "items ((c, v, e) # xs) = (IS_DYNAMIC c, e) # items xs"
  by (simp_all add: items_def)

lemma all_encode_simps [simp]:
  "all_encode []"
  "all_encode ((c, v, e) # xs) \<longleftrightarrow> encodes c v e \<and> all_encode xs"
  by (auto simp: all_encode_def)

lemma all_decode_simps [simp]:
  "all_decode []"
  "all_decode ((c, v, e) # xs) \<longleftrightarrow> encodes c v e \<and> decodes c v e \<and> all_decode xs"
  by (auto simp: all_decode_def)

lemma seq_simps [simp]:
  "seq_tails [] = []" "seq_head_len [] = 0"
  "seq_tails ((True, e) # its) = e @ seq_tails its"
  "seq_tails ((False, e) # its) = seq_tails its"
  "seq_head_len ((True, e) # its) = 32 + seq_head_len its"
  "seq_head_len ((False, e) # its) = length e + seq_head_len its"
  by (simp_all add: seq_tails_def seq_head_len_def item_tail_def item_head_def)

lemma length_seq_heads [simp]: "length (seq_heads off its) = seq_head_len its"
proof (induction its arbitrary: off)
  case (Cons it its)
  then show ?case by (cases it; cases "fst it") simp_all
qed simp

lemma length_seq_enc: "length (seq_enc its) = seq_head_len its + length (seq_tails its)"
  by (simp add: seq_enc_def)

lemma slot_size_encodes:
  "encodes c v e \<Longrightarrow> SLOT_SIZE c = (if IS_DYNAMIC c then 32 else length e)"
  by (auto simp: encodes_def SLOT_SIZE_def)

text \<open>
  The loop invariant of every sequence encoder: the heads written so far, the room left for
  heads, the tails written so far, and the rest of the buffer.
\<close>

lemma tuple_encode_fields_seq:
  assumes "all_encode xs" "ho = length H" "to = length (H @ M @ T)"
    and "length M = seq_head_len (items xs)" "length (seq_tails (items xs)) \<le> length R"
    and "length (H @ M @ T @ R) < usize_limit"
  shows "tuple_encode_fields (map (\<lambda>(c, v, e). (c, v)) xs) ho to (H @ M @ T @ R) =
    Some (H @ seq_heads to (items xs) @ T @ seq_tails (items xs)
      @ drop (length (seq_tails (items xs))) R)"
  using assms
proof (induction xs arbitrary: ho to H M T R)
  case (Cons x xs)
  obtain c v e where x: "x = (c, v, e)" by (cases x)
  have e: "encodes c v e" "all_encode xs" using Cons.prems(1) x by auto
  show ?case
  proof (cases "IS_DYNAMIC c")
    case True
    obtain M1 M2 where M: "M = M1 @ M2" "length M1 = 32" "length M2 = seq_head_len (items xs)"
      using split_at [of 32 M] Cons.prems(4) x True by auto
    obtain R1 R2 where R: "R = R1 @ R2" "length R1 = length e"
      using split_at [of "length e" R] Cons.prems(5) x True by auto
    have "with_slice (H @ abi_uint to @ M2 @ T @ R1 @ R2) to (to + length e) (encode_body_to c v)
        = Some (H @ abi_uint to @ M2 @ T @ e @ R2)"
      using with_slice_append [of to "H @ abi_uint to @ M2 @ T" "to + length e" R1 R2 "encode_body_to c v"]
        Cons.prems M R e(1) by (simp add: encodes_def)
    moreover have "tuple_encode_fields (map (\<lambda>(c, v, e). (c, v)) xs) (ho + 32) (to + length e)
        ((H @ abi_uint to) @ M2 @ (T @ e) @ R2) =
      Some ((H @ abi_uint to) @ seq_heads (to + length e) (items xs) @ (T @ e) @ seq_tails (items xs)
        @ drop (length (seq_tails (items xs))) R2)"
      using Cons.prems M R x True e by (intro Cons.IH) auto
    moreover have "tuple_encode_fields (map (\<lambda>(c, v, e). (c, v)) (x # xs)) ho to (H @ M @ T @ R) =
      Option.bind (with_slice (H @ abi_uint to @ M2 @ T @ R1 @ R2) to (to + length e) (encode_body_to c v))
        (tuple_encode_fields (map (\<lambda>(c, v, e). (c, v)) xs) (ho + 32) (to + length e))"
      using put_word_24 [of ho H M1 to "M2 @ T @ R1 @ R2"] Cons.prems M R e(1) x True
      by (simp add: Let_def encodes_def SLOT_SIZE_def)
    ultimately show ?thesis
      using x True R by simp
  next
    case False
    obtain M1 M2 where M: "M = M1 @ M2" "length M1 = length e" "length M2 = seq_head_len (items xs)"
      using split_at [of "length e" M] Cons.prems(4) x False by auto
    have "with_suffix (H @ M1 @ M2 @ T @ R) ho (encode_body_to c v)
        = Some (H @ e @ M2 @ T @ R)"
      using with_suffix_append [of ho H "M1 @ M2 @ T @ R" "encode_body_to c v"]
        Cons.prems M e(1) by (simp add: encodes_def)
    moreover have "tuple_encode_fields (map (\<lambda>(c, v, e). (c, v)) xs) (ho + length e) to
        ((H @ e) @ M2 @ T @ R) =
      Some ((H @ e) @ seq_heads to (items xs) @ T @ seq_tails (items xs)
        @ drop (length (seq_tails (items xs))) R)"
      using Cons.prems M x False e by (intro Cons.IH) auto
    ultimately show ?thesis
      using Cons.prems x False M e(1) by (simp add: slot_size_encodes)
  qed
qed simp

text \<open>The same for the decoder, reading the heads and following the offsets.\<close>

lemma tuple_decode_fields_seq:
  assumes "all_decode xs" "input = pre @ H @ seq_heads off (items xs) @ T @ seq_tails (items xs) @ post"
    and "off = length (H @ seq_heads off (items xs) @ T)" "ho = length (pre @ H)"
    and "length input + 32 < usize_limit"
  shows "tuple_decode_fields (map fst xs) input (length pre) ho = Some (map (\<lambda>(c, v, e). v) xs)"
  using assms
proof (induction xs arbitrary: ho H T off)
  case (Cons x xs)
  obtain c v e where x: "x = (c, v, e)" by (cases x)
  have e: "encodes c v e" "decodes c v e" "all_decode xs" using Cons.prems(1) x by auto
  show ?case
  proof (cases "IS_DYNAMIC c")
    case True
    have "read_word_offset ((pre @ H) @ abi_uint off @ seq_heads (off + length e) (items xs) @ T @
        seq_tails (items (x # xs)) @ post) ho = Some off"
      using Cons.prems x True by (intro read_word_abi_uint) auto
    then have r: "read_word_offset input ho = Some off"
      using Cons.prems(2) x True by simp
    have "decode_tail c ((pre @ H @ abi_uint off @ seq_heads (off + length e) (items xs) @ T) @ e
        @ seq_tails (items xs) @ post)
        (length (pre @ H @ abi_uint off @ seq_heads (off + length e) (items xs) @ T)) = Some v"
      using Cons.prems(2,5) x True by (intro decodes_tail [OF e(2)]) simp
    then have d: "decode_tail c input (length pre + off) = Some v"
      using Cons.prems(2,3) x True by (simp add: add.assoc)
    have "tuple_decode_fields (map fst xs) input (length pre) (ho + 32) = Some (map (\<lambda>(c, v, e). v) xs)"
      by (rule Cons.IH [where H = "H @ abi_uint off" and T = "T @ e" and off = "off + length e"])
        (use Cons.prems x True e in auto)
    then show ?thesis
      using x True r d Cons.prems by (simp add: SLOT_SIZE_def)
  next
    case False
    have "decode_tail c ((pre @ H) @ e @ seq_heads off (items xs) @ T
        @ seq_tails (items xs) @ post) (length (pre @ H)) = Some v"
      using Cons.prems(2,5) x False by (intro decodes_tail [OF e(2)]) simp
    then have d: "decode_at c input ho = Some v"
      using Cons.prems(2,4) x False e(2) by (simp add: decodes_def)
    have "tuple_decode_fields (map fst xs) input (length pre) (ho + length e) = Some (map (\<lambda>(c, v, e). v) xs)"
      by (rule Cons.IH [where H = "H @ e" and T = T and off = off])
        (use Cons.prems x False e in auto)
    then show ?thesis
      using x False d Cons.prems e(1) by (simp add: slot_size_encodes)
  qed
qed simp

section \<open>Tuples\<close>

lemma tuple_head_size_items: "all_encode xs \<Longrightarrow> tuple_head_size (map fst xs) = seq_head_len (items xs)"
  by (induction xs) (auto simp: tuple_head_size_def seq_head_len_def item_head_def slot_size_encodes)

lemma tuple_body_len_items:
  "all_encode xs \<Longrightarrow>
   tuple_encode_body_len (map fst xs) (map (\<lambda>(c, v, e). v) xs) = length (seq_enc (items xs))"
proof -
  assume a: "all_encode xs"
  have "sum_list (map (\<lambda>(c, v). if IS_DYNAMIC c then encode_body_len c v else 0)
      (zip (map fst xs) (map (\<lambda>(c, v, e). v) xs))) = length (seq_tails (items xs))"
    using a by (induction xs) (auto simp: encodes_def seq_tails_def item_tail_def)
  then show ?thesis
    using a by (simp add: tuple_encode_body_len_def tuple_head_size_items length_seq_enc)
qed

lemma zip_fields: "zip (map fst xs) (map (\<lambda>(c, v, e). v) xs) = map (\<lambda>(c, v, e). (c, v)) xs"
  by (induction xs) auto

lemma seq_static:
  "list_all (\<lambda>(c, v, e). \<not> IS_DYNAMIC c) xs \<Longrightarrow> seq_tails (items xs) = []"
  by (induction xs) auto

lemma seq_head_len_32: "all_encode xs \<Longrightarrow> 32 * length xs \<le> seq_head_len (items xs)"
proof (induction xs)
  case (Cons x xs)
  then show ?case by (cases x; cases "IS_DYNAMIC (fst x)") (auto simp: encodes_def)
qed simp

lemma tuple_encodes:
  assumes "all_encode xs" "xs \<noteq> []"
  shows "encodes (impl_tuple (map fst xs)) (VSeq (map (\<lambda>(c, v, e). v) xs)) (seq_enc (items xs))"
proof -
  have enc: "tuple_encode_body_to (map fst xs) (map (\<lambda>(c, v, e). v) xs) buf =
      Some (seq_enc (items xs) @ drop (length (seq_enc (items xs))) buf)"
    if b: "length (seq_enc (items xs)) \<le> length buf" "length buf < usize_limit" for buf
  proof -
    obtain M R where M: "buf = M @ R" "length M = seq_head_len (items xs)"
      using split_at [of "seq_head_len (items xs)" buf] b by (auto simp: length_seq_enc)
    then show ?thesis
      using tuple_encode_fields_seq [of xs 0 "[]" "seq_head_len (items xs)" M "[]" R] assms b
      by (simp add: tuple_encode_body_to_def zip_fields tuple_head_size_items length_seq_enc)
        (simp add: seq_enc_def)
  qed
  have h: "32 \<le> seq_head_len (items xs)"
    using seq_head_len_32 [OF assms(1)] assms(2) by (cases xs) auto
  have s: "length (seq_enc (items xs)) = seq_head_len (items xs)"
    if "\<not> list_ex IS_DYNAMIC (map fst xs)"
  proof -
    have "list_all (\<lambda>(c, v, e). \<not> IS_DYNAMIC c) xs"
      using that by (auto simp: list_ex_iff list_all_iff)
    then show ?thesis by (simp add: seq_static length_seq_enc)
  qed
  show ?thesis
    using h s enc assms(1)
    by (simp add: encodes_def impl_tuple_def SLOT_SIZE_def tuple_body_len_items
        tuple_head_size_items length_seq_enc del: list_ex_iff)
qed

lemma tuple_decode_back:
  assumes "all_decode xs" "length (pre @ seq_enc (items xs) @ post) + 32 < usize_limit"
  shows "tuple_decode_at (map fst xs) (pre @ seq_enc (items xs) @ post) (length pre) =
    Some (map (\<lambda>(c, v, e). v) xs)"
  unfolding tuple_decode_at_def
  by (rule tuple_decode_fields_seq [where H = "[]" and T = "[]" and post = post
      and off = "seq_head_len (items xs)"])
    (use assms in \<open>simp_all add: seq_enc_def\<close>)

lemma tuple_decodes:
  "all_decode xs \<Longrightarrow>
   decodes (impl_tuple (map fst xs)) (VSeq (map (\<lambda>(c, v, e). v) xs)) (seq_enc (items xs))"
  using tuple_decode_back by (simp add: decodes_def impl_tuple_def)

section \<open>Fixed arrays\<close>

text \<open>An array is encoded and decoded as the tuple of its elements.\<close>

lemma array_encode_dyn_fields:
  "IS_DYNAMIC c \<Longrightarrow>
   array_encode_dyn c vs i to = tuple_encode_fields (map (\<lambda>v. (c, v)) vs) (i * SLOT_SIZE c) to"
proof (induction vs arbitrary: i to)
  case (Cons v vs)
  then show ?case by (intro ext) (simp add: Let_def add.commute)
qed (auto intro: ext)

lemma array_encode_static_fields:
  "\<not> IS_DYNAMIC c \<Longrightarrow>
   array_encode_static c vs off = tuple_encode_fields (map (\<lambda>v. (c, v)) vs) off to"
proof (induction vs arbitrary: off)
  case (Cons v vs)
  then show ?case by (intro ext) simp
qed (auto intro: ext)

lemma zip_replicate_map: "zip (replicate (length vs) c) vs = map (\<lambda>v. (c, v)) vs"
  by (induction vs) auto

lemma array_encode_tuple:
  "array_encode_body_to c (length vs) vs buf = tuple_encode_body_to (replicate (length vs) c) vs buf"
  using array_encode_static_fields [of c vs 0 "length vs * SLOT_SIZE c"]
  by (simp add: array_encode_body_to_def tuple_encode_body_to_def zip_replicate_map
      array_encode_dyn_fields tuple_head_size_def sum_list_replicate)

lemma array_decode_tuple:
  assumes "\<And>j. j < i + n \<Longrightarrow> offset + j * SLOT_SIZE c + SLOT_SIZE c < usize_limit"
  shows "array_decode_loop c input offset i n =
    tuple_decode_fields (replicate n c) input offset (offset + i * SLOT_SIZE c)"
  using assms
proof (induction n arbitrary: i)
  case (Suc n)
  have "offset + i * SLOT_SIZE c + SLOT_SIZE c < usize_limit" using Suc.prems [of i] by simp
  moreover have "array_decode_loop c input offset (i + 1) n =
      tuple_decode_fields (replicate n c) input offset (offset + (i + 1) * SLOT_SIZE c)"
    using Suc.prems by (intro Suc.IH) simp
  ultimately show ?case
    by (simp add: array_decode_elem_def algebra_simps)
qed simp

definition array_fields :: "sol_codec \<Rightarrow> (sol_val \<Rightarrow> bytes) \<Rightarrow> sol_val list \<Rightarrow> field list" where
  "array_fields c enc vs = map (\<lambda>v. (c, v, enc v)) vs"

lemma array_fields_simps [simp]:
  "map fst (array_fields c enc vs) = replicate (length vs) c"
  "map (\<lambda>(c, v, e). v) (array_fields c enc vs) = vs"
  "items (array_fields c enc vs) = map (\<lambda>v. (IS_DYNAMIC c, enc v)) vs"
  "length (array_fields c enc vs) = length vs"
  by (simp_all add: array_fields_def items_def comp_def map_replicate_const)

lemma array_fields_body_len:
  "all_encode (array_fields c enc vs) \<Longrightarrow> map (encode_body_len c) vs = map (\<lambda>v. length (enc v)) vs"
  by (induction vs) (auto simp: array_fields_def encodes_def)

lemma array_static_sizes:
  assumes "all_encode (array_fields c enc vs)" "\<not> IS_DYNAMIC c"
  shows "map (\<lambda>v. length (enc v)) vs = replicate (length vs) (HEAD_SIZE c)"
  using assms by (induction vs) (auto simp: array_fields_def encodes_def)

lemma array_head_len:
  assumes "all_encode (array_fields c enc vs)"
  shows "seq_head_len (map (\<lambda>v. (IS_DYNAMIC c, enc v)) vs) = length vs * SLOT_SIZE c"
  using tuple_head_size_items [OF assms] by (simp add: tuple_head_size_def sum_list_replicate)

lemma encodes_array_of_tuple:
  assumes "all_encode (array_fields c enc vs)" "vs \<noteq> []"
    and "encodes (impl_tuple (replicate (length vs) c)) (VSeq vs) e"
  shows "encodes (impl_array c (length vs)) (VSeq vs) e"
proof -
  have len: "array_encode_body_len c (length vs) vs = tuple_encode_body_len (replicate (length vs) c) vs"
    using assms(1)
    by (simp add: array_encode_body_len_def tuple_encode_body_len_def zip_replicate_map comp_def
        tuple_head_size_def sum_list_replicate SLOT_SIZE_def)
  have dyn: "list_ex IS_DYNAMIC (replicate (length vs) c) = IS_DYNAMIC c"
    using assms(2) by (simp add: list_ex_iff)
  have slot: "SLOT_SIZE (impl_array c (length vs)) = SLOT_SIZE (impl_tuple (replicate (length vs) c))"
    "HEAD_SIZE (impl_array c (length vs)) = HEAD_SIZE (impl_tuple (replicate (length vs) c))"
    using dyn unfolding SLOT_SIZE_def impl_array_def impl_tuple_def tuple_head_size_def
    by (simp_all add: sum_list_replicate SLOT_SIZE_def)
  show ?thesis
    using assms(3) slot len dyn array_encode_tuple [of c vs]
    unfolding encodes_def by (simp add: impl_array_def impl_tuple_def)
qed

lemma array_encodes:
  assumes "all_encode (array_fields c enc vs)" "vs \<noteq> []"
  shows "encodes (impl_array c (length vs)) (VSeq vs) (seq_enc (map (\<lambda>v. (IS_DYNAMIC c, enc v)) vs))"
proof (rule encodes_array_of_tuple [OF assms])
  have "array_fields c enc vs \<noteq> []" using assms(2) by (simp add: array_fields_def)
  then show "encodes (impl_tuple (replicate (length vs) c)) (VSeq vs)
      (seq_enc (map (\<lambda>v. (IS_DYNAMIC c, enc v)) vs))"
    using tuple_encodes [OF assms(1)] by simp
qed

lemma all_decode_encode: "all_decode xs \<Longrightarrow> all_encode xs"
  by (auto simp: all_decode_def all_encode_def)

lemma array_decodes:
  assumes "all_decode (array_fields c enc vs)"
  shows "decodes (impl_array c (length vs)) (VSeq vs) (seq_enc (map (\<lambda>v. (IS_DYNAMIC c, enc v)) vs))"
proof -
  let ?e = "seq_enc (map (\<lambda>v. (IS_DYNAMIC c, enc v)) vs)"
  have "array_decode_at c (length vs) (pre @ ?e @ post) (length pre) = Some vs"
    if b: "length (pre @ ?e @ post) + 32 < usize_limit" for pre post
  proof -
    have n: "length vs * SLOT_SIZE c \<le> length ?e"
      using array_head_len [OF all_decode_encode [OF assms]] by (simp add: length_seq_enc)
    have "length pre + j * SLOT_SIZE c + SLOT_SIZE c < usize_limit" if "j < 0 + length vs" for j
    proof -
      have "j * SLOT_SIZE c + SLOT_SIZE c = Suc j * SLOT_SIZE c" by simp
      also have "\<dots> \<le> length vs * SLOT_SIZE c" using that by (intro mult_le_mono1) simp
      finally show ?thesis using n b by simp
    qed
    then have "array_decode_at c (length vs) (pre @ ?e @ post) (length pre) =
        tuple_decode_at (replicate (length vs) c) (pre @ ?e @ post) (length pre)"
      by (simp add: array_decode_at_def tuple_decode_at_def array_decode_tuple)
    then show ?thesis using tuple_decode_back [OF assms] b by simp
  qed
  then show ?thesis by (simp add: decodes_def impl_array_def)
qed

section \<open>Vectors\<close>

lemma vec_encode_dyn_seq:
  assumes "all_encode (array_fields c enc vs)" "IS_DYNAMIC c"
    and "hp = length H" "tp = length (H @ M @ T)" "32 \<le> tp"
    and "length M = 32 * length vs" "length (concat (map enc vs)) \<le> length R"
    and "length (H @ M @ T @ R) < usize_limit"
  shows "vec_encode_dyn c vs hp tp (H @ M @ T @ R) =
    Some (H @ seq_heads (tp - 32) (map (\<lambda>v. (True, enc v)) vs) @ T @ concat (map enc vs)
      @ drop (length (concat (map enc vs))) R)"
  using assms
proof (induction vs arbitrary: hp tp H M T R)
  case (Cons v vs)
  have e: "encodes c v (enc v)" "all_encode (array_fields c enc vs)"
    using Cons.prems(1) by (auto simp: array_fields_def)
  obtain M1 M2 where M: "M = M1 @ M2" "length M1 = 32" "length M2 = 32 * length vs"
    using split_at [of 32 M] Cons.prems(6) by auto
  obtain R1 R2 where R: "R = R1 @ R2" "length R1 = length (enc v)"
    using split_at [of "length (enc v)" R] Cons.prems(7) by auto
  let ?w = "abi_uint (tp - 32)"
  have "with_slice (H @ ?w @ M2 @ T @ R1 @ R2) tp (tp + length (enc v)) (encode_body_to c v)
      = Some (H @ ?w @ M2 @ T @ enc v @ R2)"
    using with_slice_append [of tp "H @ ?w @ M2 @ T" "tp + length (enc v)" R1 R2 "encode_body_to c v"]
      Cons.prems M R e(1) by (simp add: encodes_def)
  moreover have "vec_encode_dyn c vs (hp + 32) (tp + length (enc v)) ((H @ ?w) @ M2 @ (T @ enc v) @ R2) =
    Some ((H @ ?w) @ seq_heads (tp + length (enc v) - 32) (map (\<lambda>v. (True, enc v)) vs) @ (T @ enc v)
      @ concat (map enc vs) @ drop (length (concat (map enc vs))) R2)"
    using Cons.prems M R e by (intro Cons.IH) auto
  moreover have "vec_encode_dyn c (v # vs) hp tp (H @ M @ T @ R) =
    Option.bind (with_slice (H @ ?w @ M2 @ T @ R1 @ R2) tp (tp + length (enc v)) (encode_body_to c v))
      (vec_encode_dyn c vs (hp + 32) (tp + length (enc v)))"
    using put_word_32 [of hp H M1 "tp - 32" "M2 @ T @ R1 @ R2"] Cons.prems M R e(1)
    by (simp add: Let_def encodes_def)
  ultimately show ?case
    using R Cons.prems(5) by simp
qed simp

lemma vec_encode_static_seq:
  assumes "all_encode (array_fields c enc vs)" "pos = length H"
    and "length (concat (map enc vs)) \<le> length R" "length (H @ R) < usize_limit"
  shows "vec_encode_static c vs pos (H @ R) =
    Some (H @ concat (map enc vs) @ drop (length (concat (map enc vs))) R)"
  using assms
proof (induction vs arbitrary: pos H R)
  case (Cons v vs)
  have e: "encodes c v (enc v)" "all_encode (array_fields c enc vs)"
    using Cons.prems(1) by (auto simp: array_fields_def)
  obtain R1 R2 where R: "R = R1 @ R2" "length R1 = length (enc v)"
    using split_at [of "length (enc v)" R] Cons.prems(3) by auto
  have "with_slice (H @ R1 @ R2) pos (pos + length (enc v)) (encode_body_to c v) = Some (H @ enc v @ R2)"
    using with_slice_append [of pos H "pos + length (enc v)" R1 R2 "encode_body_to c v"]
      Cons.prems R e(1) by (simp add: encodes_def)
  moreover have "vec_encode_static c vs (pos + length (enc v)) ((H @ enc v) @ R2) =
    Some ((H @ enc v) @ concat (map enc vs) @ drop (length (concat (map enc vs))) R2)"
    using Cons.prems R e by (intro Cons.IH) auto
  ultimately show ?case using R e(1) by (simp add: Let_def encodes_def)
qed simp

lemma seq_uniform:
  "seq_tails (map (\<lambda>v. (True, enc v)) vs) = concat (map enc vs)"
  "seq_head_len (map (\<lambda>v. (True, enc v)) vs) = 32 * length vs"
  "seq_tails (map (\<lambda>v. (False, enc v)) vs) = []"
  "seq_head_len (map (\<lambda>v. (False, enc v)) vs) = sum_list (map (\<lambda>v. length (enc v)) vs)"
  "seq_heads off (map (\<lambda>v. (False, enc v)) vs) = concat (map enc vs)"
  by (induction vs) simp_all

lemma vec_encodes:
  assumes a: "all_encode (array_fields c enc vs)"
  shows "encodes (impl_vec c) (VSeq vs)
    (abi_uint (length vs) @ seq_enc (map (\<lambda>v. (IS_DYNAMIC c, enc v)) vs))"
proof -
  let ?e = "abi_uint (length vs) @ seq_enc (map (\<lambda>v. (IS_DYNAMIC c, enc v)) vs)"
  have len: "vec_encode_body_len c vs = length ?e"
    using arg_cong [OF array_fields_body_len [OF a], of sum_list]
    by (cases "IS_DYNAMIC c")
      (simp_all add: vec_encode_body_len_def seq_enc_def seq_uniform length_concat comp_def del: map_eq_conv)
  have enc: "vec_encode_body_to c vs buf = Some (?e @ drop (length ?e) buf)"
    if b: "length ?e \<le> length buf" "length buf < usize_limit" for buf
  proof -
    have "32 * length vs \<le> length ?e"
      using seq_head_len_32 [OF a] by (simp add: length_seq_enc)
    then have n: "length vs < usize_limit" using b by linarith
    have step: "vec_encode_body_to c vs buf =
      (if IS_DYNAMIC c then vec_encode_dyn c vs 32 (32 + length vs * 32) (abi_uint (length vs) @ drop 32 buf)
       else vec_encode_static c vs 32 (abi_uint (length vs) @ drop 32 buf))"
      using b n by (simp add: vec_encode_body_to_def put_word_head)
    show ?thesis
    proof (cases "IS_DYNAMIC c")
      case True
      have "32 * length vs \<le> length (drop 32 buf)"
        using b True by (simp add: seq_enc_def seq_uniform)
      then obtain M R where M: "drop 32 buf = M @ R" "length M = 32 * length vs"
        using split_at by blast
      have "length (drop 32 buf) = length M + length R" by (simp only: M length_append)
      then have bl: "length buf = 32 + length M + length R" using b(1) by simp
      have "vec_encode_dyn c vs 32 (32 + length vs * 32) (abi_uint (length vs) @ M @ [] @ R) =
        Some (abi_uint (length vs) @ seq_heads (32 + length vs * 32 - 32) (map (\<lambda>v. (True, enc v)) vs)
          @ [] @ concat (map enc vs) @ drop (length (concat (map enc vs))) R)"
        using a True M b bl by (intro vec_encode_dyn_seq) (simp_all add: seq_enc_def seq_uniform)
      moreover have "drop (length ?e) buf = drop (length (concat (map enc vs))) R"
      proof -
        have "drop (length ?e) buf = drop (length ?e - 32) (drop 32 buf)" by (simp add: add.commute)
        then show ?thesis using M True by (simp add: seq_enc_def seq_uniform)
      qed
      ultimately show ?thesis
        using step True M by (simp add: seq_enc_def seq_uniform mult.commute)
    next
      case False
      have "vec_encode_static c vs 32 (abi_uint (length vs) @ drop 32 buf) =
        Some (abi_uint (length vs) @ concat (map enc vs) @ drop (length (concat (map enc vs))) (drop 32 buf))"
        using a b False by (intro vec_encode_static_seq) (simp_all add: seq_enc_def seq_uniform)
      then show ?thesis
        using step False by (simp add: seq_enc_def seq_uniform add.commute)
    qed
  qed
  show ?thesis
    using len enc by (simp add: encodes_def impl_vec_def SLOT_SIZE_def)
qed

lemma vec_decode_static_tuple:
  assumes "\<not> IS_DYNAMIC c"
  shows "vec_decode_static c input off n = tuple_decode_fields (replicate n c) input base off"
  using assms by (induction n arbitrary: off) (simp_all add: SLOT_SIZE_def)

lemma vec_decode_dyn_tuple:
  assumes "IS_DYNAMIC c" "start + 32 * (i + n) < usize_limit"
  shows "vec_decode_dyn c input start i n =
    tuple_decode_fields (replicate n c) input start (start + 32 * i)"
  using assms
proof (induction n arbitrary: i)
  case (Suc n)
  then have "vec_decode_dyn c input start (i + 1) n =
      tuple_decode_fields (replicate n c) input start (start + 32 * (i + 1))"
    by (intro Suc.IH) simp_all
  then show ?case
    using Suc.prems by (simp add: SLOT_SIZE_def wmul_def mult.commute algebra_simps)
qed simp

lemma vec_tail_back:
  assumes d: "all_decode (array_fields c enc vs)"
    and b: "length (pre @ (abi_uint (length vs) @ seq_enc (map (\<lambda>v. (IS_DYNAMIC c, enc v)) vs)) @ post) + 32
      < usize_limit"
  shows "vec_decode_tail c
    (pre @ (abi_uint (length vs) @ seq_enc (map (\<lambda>v. (IS_DYNAMIC c, enc v)) vs)) @ post) (length pre) = Some vs"
proof -
  let ?s = "seq_enc (map (\<lambda>v. (IS_DYNAMIC c, enc v)) vs)"
  let ?input = "pre @ abi_uint (length vs) @ ?s @ post"
  have s: "32 * length vs \<le> length ?s"
    using seq_head_len_32 [OF all_decode_encode [OF d]] by (simp add: length_seq_enc)
  have r: "read_word_offset ?input (length pre) = Some (length vs)"
    using b s by (intro read_word_abi_uint) simp_all
  have l: "length vs \<le> length ?input div 32" using s by simp
  have t: "tuple_decode_at (replicate (length vs) c) ?input (length pre + 32) = Some vs"
    using tuple_decode_back [OF d, of "pre @ abi_uint (length vs)" post] b by (simp add: add.commute)
  have v: "(if IS_DYNAMIC c then vec_decode_dyn c ?input (length pre + 32) 0 (length vs)
      else vec_decode_static c ?input (length pre + 32) (length vs)) = Some vs"
  proof (cases "IS_DYNAMIC c")
    case True
    then show ?thesis
      using t vec_decode_dyn_tuple [OF True, of "length pre + 32" 0 "length vs" ?input] b s
      by (simp add: tuple_decode_at_def)
  next
    case False
    then show ?thesis
      using t vec_decode_static_tuple [OF False, of ?input "length pre + 32" "length vs"]
      by (simp add: tuple_decode_at_def)
  qed
  have c: "checked_sum [length pre, 32] = Some (length pre + 32)" using b by simp
  show ?thesis
    using r l c v by (simp add: vec_decode_tail_def)
qed

lemma vec_decodes:
  "all_decode (array_fields c enc vs) \<Longrightarrow>
   decodes (impl_vec c) (VSeq vs) (abi_uint (length vs) @ seq_enc (map (\<lambda>v. (IS_DYNAMIC c, enc v)) vs))"
  using vec_tail_back by (simp add: decodes_def impl_vec_def)

section \<open>Every implementation keeps the promises\<close>

lemma codec_dynamic: "IS_DYNAMIC (codec_of t) = abi_dynamic t"
proof (induction t)
  case (TTuple ts)
  then show ?case by (auto simp: impl_tuple_def list_ex_iff)
qed (simp_all add: impl_prim_def impl_unit_def impl_str_def impl_string_def impl_bytes_def
    impl_array_def impl_vec_def)

definition tuple_fields :: "sol_ty list \<Rightarrow> sol_val list \<Rightarrow> field list" where
  "tuple_fields ts vs = map2 (\<lambda>t v. (codec_of t, v, abi_enc t v)) ts vs"

lemma tuple_fields_simps:
  assumes "length ts = length vs"
  shows "map fst (tuple_fields ts vs) = map codec_of ts"
    and "map (\<lambda>(c, v, e). v) (tuple_fields ts vs) = vs"
    and "seq_enc (items (tuple_fields ts vs)) = abi_enc (TTuple ts) (VSeq vs)"
proof -
  show "map fst (tuple_fields ts vs) = map codec_of ts" "map (\<lambda>(c, v, e). v) (tuple_fields ts vs) = vs"
    using assms by (induction ts vs rule: list_induct2) (simp_all add: tuple_fields_def)
  have "items (tuple_fields ts vs) =
      map2 (\<lambda>(dyn, f) x. (dyn, f x)) (zip (map abi_dynamic ts) (map abi_enc ts)) vs"
    using assms by (induction ts vs rule: list_induct2) (simp_all add: tuple_fields_def codec_dynamic)
  then show "seq_enc (items (tuple_fields ts vs)) = abi_enc (TTuple ts) (VSeq vs)" by simp
qed

lemma sol_wt_tuple:
  "sol_wt (TTuple ts) v \<longleftrightarrow> (\<exists>vs. v = VSeq vs \<and> length vs = length ts \<and>
     (\<forall>(t, x) \<in> set (zip ts vs). sol_wt t x))"
  by (cases v) (auto simp: list_all2_iff zip_map1)

lemma array_fields_codec:
  "(\<lambda>v. (abi_dynamic t, abi_enc t v)) = (\<lambda>v. (IS_DYNAMIC (codec_of t), abi_enc t v))"
  by (simp add: codec_dynamic)

lemma codec_encodes: "sol_wf t \<Longrightarrow> sol_wt t v \<Longrightarrow> encodes (codec_of t) v (abi_enc t v)"
proof (induction t arbitrary: v)
  case (TPrim p)
  then show ?case by (auto simp: prim_encodes split: sol_val.splits)
next
  case TUnit
  then show ?case by simp
next
  case TStr
  then show ?case by (auto simp: data_encodes split: sol_val.splits)
next
  case TString
  then show ?case by (auto simp: data_encodes split: sol_val.splits)
next
  case TBytes
  then show ?case by (auto simp: data_encodes split: sol_val.splits)
next
  case (TArr t n)
  then obtain vs where v: "v = VSeq vs" "length vs = n" "\<forall>x \<in> set vs. sol_wt t x"
    by (auto simp: list_all_iff split: sol_val.splits)
  then have "all_encode (array_fields (codec_of t) (abi_enc t) vs)"
    using TArr by (auto simp: all_encode_def array_fields_def)
  then show ?case
    using array_encodes [of "codec_of t" "abi_enc t" vs] v TArr.prems
    by (auto simp: codec_dynamic)
next
  case (TVec t)
  then obtain vs where v: "v = VSeq vs" "\<forall>x \<in> set vs. sol_wt t x"
    by (auto simp: list_all_iff split: sol_val.splits)
  then have "all_encode (array_fields (codec_of t) (abi_enc t) vs)"
    using TVec by (auto simp: all_encode_def array_fields_def)
  then show ?case
    using vec_encodes [of "codec_of t" "abi_enc t" vs] v by (simp add: codec_dynamic)
next
  case (TTuple ts)
  then obtain vs where v: "v = VSeq vs" "length vs = length ts" "\<forall>(t, x) \<in> set (zip ts vs). sol_wt t x"
    unfolding sol_wt_tuple by blast
  have "all_encode (tuple_fields ts vs)"
    using TTuple v by (fastforce simp: all_encode_def tuple_fields_def list_all_iff dest: set_zip_leftD)
  moreover have "tuple_fields ts vs \<noteq> []"
    using TTuple.prems(1) v(2) by (cases ts; cases vs) (auto simp: tuple_fields_def)
  ultimately show ?case
    using tuple_encodes [of "tuple_fields ts vs"] tuple_fields_simps [of ts vs] v by simp
qed

lemma codec_decodes:
  "sol_wf t \<Longrightarrow> sol_decodable t \<Longrightarrow> sol_wt t v \<Longrightarrow> decodes (codec_of t) v (abi_enc t v)"
proof (induction t arbitrary: v)
  case (TPrim p)
  then show ?case by (auto simp: prim_decodes split: sol_val.splits)
next
  case TUnit
  then show ?case by simp
next
  case TStr
  then show ?case by simp
next
  case TString
  then show ?case by (auto simp: data_decodes split: sol_val.splits)
next
  case TBytes
  then show ?case by (auto simp: data_decodes split: sol_val.splits)
next
  case (TArr t n)
  then obtain vs where v: "v = VSeq vs" "length vs = n" "\<forall>x \<in> set vs. sol_wt t x"
    by (auto simp: list_all_iff split: sol_val.splits)
  then have "all_decode (array_fields (codec_of t) (abi_enc t) vs)"
    using TArr by (auto simp: all_decode_def array_fields_def codec_encodes)
  then show ?case
    using array_decodes [of "codec_of t" "abi_enc t" vs] v by (auto simp: codec_dynamic)
next
  case (TVec t)
  then obtain vs where v: "v = VSeq vs" "\<forall>x \<in> set vs. sol_wt t x"
    by (auto simp: list_all_iff split: sol_val.splits)
  then have "all_decode (array_fields (codec_of t) (abi_enc t) vs)"
    using TVec by (auto simp: all_decode_def array_fields_def codec_encodes)
  then show ?case
    using vec_decodes [of "codec_of t" "abi_enc t" vs] v by (simp add: codec_dynamic)
next
  case (TTuple ts)
  then obtain vs where v: "v = VSeq vs" "length vs = length ts" "\<forall>(t, x) \<in> set (zip ts vs). sol_wt t x"
    unfolding sol_wt_tuple by blast
  have "all_decode (tuple_fields ts vs)"
    using TTuple v codec_encodes
    by (fastforce simp: all_decode_def tuple_fields_def list_all_iff dest: set_zip_leftD)
  then show ?case
    using tuple_decodes [of "tuple_fields ts vs"] tuple_fields_simps [of ts vs] v by simp
qed

interpretation sol_enc: abi_encode "codec_of t" "\<lambda>v. sol_wf t \<and> sol_wt t v" "abi_enc t" for t
  by unfold_locales (simp add: codec_encodes)

interpretation sol: abi_codec "codec_of t" "\<lambda>v. sol_wf t \<and> sol_decodable t \<and> sol_wt t v" "abi_enc t" for t
  by unfold_locales (simp_all add: codec_encodes codec_decodes)

section \<open>Properties of the top-level encoding\<close>

lemma codec_tuple: "IS_TUPLE (codec_of t) \<longleftrightarrow> (\<exists>ts. t = TTuple ts)"
  by (cases t) (simp_all add: impl_prim_def impl_unit_def impl_str_def impl_string_def impl_bytes_def
      impl_array_def impl_vec_def impl_tuple_def)

lemma abi_enc_top_alt:
  "abi_enc_top t v =
     (if IS_TUPLE (codec_of t) \<or> \<not> IS_DYNAMIC (codec_of t) then abi_enc t v
      else abi_uint 32 @ abi_enc t v)"
  by (auto simp: abi_enc_top_def codec_tuple codec_dynamic seq_enc_def seq_head_len_def seq_tails_def
      item_head_def item_tail_def simp del: abi_enc.simps split: sol_ty.splits)

text \<open>The top-level form is the same for every implementation that keeps the promises.\<close>

definition top_enc :: "sol_codec \<Rightarrow> bytes \<Rightarrow> bytes" where
  "top_enc c e = (if IS_TUPLE c \<or> \<not> IS_DYNAMIC c then e else abi_uint 32 @ e)"

context abi_encode
begin

lemma encode_len_top: "wt v \<Longrightarrow> encode_len c v = length (top_enc c (enc v))"
  by (simp add: encode_len_def top_enc_def body_len)

lemma encode_to_top:
  assumes "wt v" "length (top_enc c (enc v)) \<le> length buf" "length buf < usize_limit"
  shows "encode_to c v buf = Some (top_enc c (enc v) @ drop (length (top_enc c (enc v))) buf)"
proof (cases "IS_TUPLE c \<or> \<not> IS_DYNAMIC c")
  case True
  then show ?thesis using assms by (simp add: encode_to_def top_enc_def body_to)
next
  case False
  then have "encode_to c v buf = with_suffix (abi_uint 32 @ drop 32 buf) 32 (encode_body_to c v)"
    using assms by (simp add: encode_to_def top_enc_def put_word_head usize_limit_def)
  then show ?thesis
    using assms False by (simp add: top_enc_def with_suffix_append body_to add.commute)
qed

end

context abi_codec
begin

lemma decode_top:
  assumes "wt v" "length (top_enc c (enc v) @ post) + 32 < usize_limit"
  shows "decode c (top_enc c (enc v) @ post) = Some v"
proof (cases "IS_TUPLE c \<or> \<not> IS_DYNAMIC c")
  case True
  then show ?thesis
    using at_back [of v "[]" post] assms by (auto simp: decode_def top_enc_def)
next
  case False
  have "read_word_offset ([] @ abi_uint 32 @ enc v @ post) 0 = Some 32"
    by (rule read_word_abi_uint) (simp_all add: usize_limit_def)
  then have "Option.bind (Option.bind (get_range (abi_uint 32 @ enc v @ post) 24 32) (try_into 8))
      (\<lambda>x. decode_tail c (abi_uint 32 @ enc v @ post) (unat (from_be x :: 64 word))) =
    decode_tail c (abi_uint 32 @ enc v @ post) 32"
    by (auto simp: read_word_offset_def checked_add_def usize_limit_def)
  also have "\<dots> = Some v"
    using tail_back [of v "abi_uint 32" post] assms False by (simp add: top_enc_def)
  finally show ?thesis using False by (simp add: decode_def top_enc_def)
qed

end

lemma abi_enc_top_enc: "abi_enc_top t v = top_enc (codec_of t) (abi_enc t v)"
  by (simp add: abi_enc_top_alt top_enc_def)

lemma encode_to_spec_aux:
  assumes "sol_wf t" "sol_wt t v"
  shows "encode_len (codec_of t) v = length (abi_enc_top t v)"
    and "length (abi_enc_top t v) \<le> length buf \<Longrightarrow> length buf < usize_limit \<Longrightarrow>
      encode_to (codec_of t) v buf = Some (abi_enc_top t v @ drop (length (abi_enc_top t v)) buf)"
  using assms by (simp_all add: abi_enc_top_enc sol_enc.encode_len_top sol_enc.encode_to_top)

lemma decode_abi_top:
  "sol_wf t \<Longrightarrow> sol_decodable t \<Longrightarrow> sol_wt t v \<Longrightarrow> length (abi_enc_top t v @ post) + 32 < usize_limit \<Longrightarrow>
   decode (codec_of t) (abi_enc_top t v @ post) = Some v"
  by (simp add: abi_enc_top_enc sol.decode_top)

text \<open>
  C1: \<open>encode_to\<close> of every ABI type implements the encoding of the Solidity ABI
  specification: \<open>encode_len\<close> is the length of that encoding, and on any buffer at least
  that long \<open>encode_to\<close> succeeds, writes exactly the specified bytes (heads with offsets,
  then tails, zero padding included) and leaves the rest of the buffer unchanged.
\<close>

theorem encode_to_refines_abi:
  assumes "sol_wf t" "sol_wt t v" "length (abi_enc_top t v) \<le> length buf" "length buf < usize_limit"
  shows "encode_len (codec_of t) v = length (abi_enc_top t v) \<and>
    encode_to (codec_of t) v buf = Some (abi_enc_top t v @ drop (length (abi_enc_top t v)) buf)"
  using encode_to_spec_aux assms by blast

theorem encode_to_refines_abi_witness:
  "encode_to (codec_of (TTuple [TPrim U8, TBytes]))
     (VSeq [VPrim (VU8 7), VData (replicate 33 5)]) (replicate 170 9) =
   Some (abi_uint 7 @ abi_uint 64 @ abi_uint 33 @ replicate 33 5 @ replicate 31 0 @ replicate 10 9)"
  using encode_to_refines_abi [of "TTuple [TPrim U8, TBytes]" "VSeq [VPrim (VU8 7), VData (replicate 33 5)]"
      "replicate 170 9"]
  by (simp add: prim_wt_def abi_enc_top_def seq_enc_def abi_uint_def data_enc_def padding_def
      usize_limit_def seq_head_len_def seq_tails_def item_head_def item_tail_def)

text \<open>
  C2: \<open>decode\<close> reads back what \<open>encode_to\<close> wrote, for every type that can be decoded: a
  buffer of \<open>encode_len\<close> bytes with any contents, filled by \<open>encode_to\<close> and followed by
  anything, decodes to the value.
\<close>

theorem decode_encode_to:
  assumes "sol_wf t" "sol_decodable t" "sol_wt t v"
    and "length buf = encode_len (codec_of t) v" "length buf + length post + 32 < usize_limit"
  shows "\<exists>bs. encode_to (codec_of t) v buf = Some bs \<and> decode (codec_of t) (bs @ post) = Some v"
proof -
  have "length buf = length (abi_enc_top t v)"
    using assms encode_to_spec_aux(1) by simp
  then show ?thesis
    using encode_to_spec_aux(2) [of t v buf] decode_abi_top [of t v post] assms by simp
qed

theorem decode_encode_to_witness:
  "\<exists>bs. encode_to (codec_of (TVec (TTuple [TString, TPrim Bool])))
     (VSeq [VSeq [VData [104, 105], VPrim (VBool True)], VSeq [VData [], VPrim (VBool False)]])
     (replicate 352 0) = Some bs \<and>
   decode (codec_of (TVec (TTuple [TString, TPrim Bool]))) (bs @ [0xff]) =
     Some (VSeq [VSeq [VData [104, 105], VPrim (VBool True)], VSeq [VData [], VPrim (VBool False)]])"
proof -
  have "encode_len (codec_of (TVec (TTuple [TString, TPrim Bool])))
      (VSeq [VSeq [VData [104, 105], VPrim (VBool True)], VSeq [VData [], VPrim (VBool False)]]) = 352"
    by (simp add: encode_len_def impl_vec_def vec_encode_body_len_def impl_tuple_def impl_string_def
        impl_prim_def tuple_encode_body_len_def tuple_head_size_def SLOT_SIZE_def
        data_encode_body_len_def padding_def)
  then show ?thesis
    using decode_encode_to [of "TVec (TTuple [TString, TPrim Bool])"
        "VSeq [VSeq [VData [104, 105], VPrim (VBool True)], VSeq [VData [], VPrim (VBool False)]]"
        "replicate 352 0" "[0xff]"]
    by (simp add: prim_wt_def usize_limit_def del: codec_of.simps)
qed

end
