(* ===== verification/AbiSafety.thy ===== *)
theory AbiSafety
  imports AbiCorrect
begin

text \<open>
  What the decoders guarantee on calldata nobody encoded. The static decoders add offsets with
  the wrapping \<open>+\<close> of the release profile; \<open>codec_exact\<close> is the same codec over decoders
  that never wrap, and the two agree on every input. Decoded values are well typed, and the
  unchecked decoders are safe under the size check of their callers.
\<close>

section \<open>Decoders that never wrap\<close>

fun prim_width :: "prim \<Rightarrow> nat" where
  "prim_width (BytesN n) = n"
| "prim_width _ = 32"

definition impl_prim_exact :: "prim \<Rightarrow> sol_codec" where
  "impl_prim_exact p = (impl_prim p)
     \<lparr> decode_at := \<lambda>input off.
         if off + prim_width p \<le> length input then decode_at (impl_prim p) input off else None,
       decode_tail := \<lambda>input off.
         if off + prim_width p \<le> length input then decode_at (impl_prim p) input off else None \<rparr>"

primrec codec_exact :: "sol_ty \<Rightarrow> sol_codec" where
  "codec_exact (TPrim p) = impl_prim_exact p"
| "codec_exact TUnit = impl_unit"
| "codec_exact TStr = impl_str"
| "codec_exact TString = impl_string"
| "codec_exact TBytes = impl_bytes"
| "codec_exact (TArr t n) = impl_array (codec_exact t) n"
| "codec_exact (TVec t) = impl_vec (codec_exact t)"
| "codec_exact (TTuple ts) = impl_tuple (map codec_exact ts)"

text \<open>The relation between the two that every \<open>impl\<close> keeps.\<close>

definition same_decode :: "nat \<Rightarrow> sol_codec \<Rightarrow> sol_codec \<Rightarrow> bool" where
  "same_decode lim c d \<longleftrightarrow>
     IS_DYNAMIC d = IS_DYNAMIC c \<and> HEAD_SIZE d = HEAD_SIZE c \<and> IS_TUPLE d = IS_TUPLE c \<and>
     (\<forall>input off. length input \<le> lim \<longrightarrow>
        (IS_DYNAMIC c \<longrightarrow> decode_tail c input off = decode_tail d input off) \<and>
        (IS_TUPLE c \<or> \<not> IS_DYNAMIC c \<longrightarrow>
           decode_tail c = decode_at c \<and> decode_tail d = decode_at d) \<and>
        (\<not> IS_DYNAMIC c \<and> off + HEAD_SIZE c < usize_limit \<longrightarrow> decode_at c input off = decode_at d input off) \<and>
        (\<not> IS_DYNAMIC c \<and> usize_limit \<le> off + HEAD_SIZE c \<longrightarrow> decode_at d input off = None))"

lemma same_decode_slot: "same_decode lim c d \<Longrightarrow> SLOT_SIZE d = SLOT_SIZE c"
  by (simp add: same_decode_def SLOT_SIZE_def)

lemma same_decode_dyn:
  "same_decode lim c d \<Longrightarrow> IS_DYNAMIC c \<Longrightarrow> length input \<le> lim \<Longrightarrow>
   decode_tail c input = decode_tail d input"
  by (auto simp: same_decode_def)

lemma same_decode_static:
  assumes "same_decode lim c d" "\<not> IS_DYNAMIC c" "length input \<le> lim"
  shows "off + HEAD_SIZE c < usize_limit \<Longrightarrow> decode_at c input off = decode_at d input off"
    and "usize_limit \<le> off + HEAD_SIZE c \<Longrightarrow> decode_at d input off = None"
  using assms by (auto simp: same_decode_def)

lemma same_decode_consts:
  assumes "same_decode lim c d"
  shows "IS_DYNAMIC d = IS_DYNAMIC c" "HEAD_SIZE d = HEAD_SIZE c" "IS_TUPLE d = IS_TUPLE c"
    "SLOT_SIZE d = SLOT_SIZE c"
  using assms by (auto simp: same_decode_def SLOT_SIZE_def)

lemma same_prim:
  assumes "lim + 32 < usize_limit" "prim_wf p"
  shows "same_decode lim (impl_prim p) (impl_prim_exact p)"
proof -
  have w: "prim_width p \<le> 32" using assms(2) by (cases p) simp_all
  have "decode_at (impl_prim p) input off = None"
    if b: "length input \<le> lim" "off + 32 < usize_limit" "\<not> off + prim_width p \<le> length input"
    for input off
  proof -
    have k: "\<And>k. k \<le> 32 \<Longrightarrow> wadd off k = off + k" using b(2) by simp
    show ?thesis
      using b(3) assms(2) by (cases p) (simp_all add: impl_prim_def prim_decode_defs k get_range_def
          get_idx_def split: option.splits)
  qed
  then show ?thesis
    using assms(1) by (auto simp: same_decode_def impl_prim_exact_def impl_prim_def)
qed

lemma same_refl:
  "IS_DYNAMIC c \<Longrightarrow> \<not> IS_TUPLE c \<Longrightarrow> same_decode lim c c"
  by (auto simp: same_decode_def)

lemma array_elem_same:
  assumes "same_decode lim c d" "length input \<le> lim"
    and "IS_DYNAMIC c \<or> offset + i * SLOT_SIZE c + SLOT_SIZE c < usize_limit"
  shows "array_decode_elem c input offset i = array_decode_elem d input offset i"
  using assms(3) same_decode_consts [OF assms(1)] same_decode_dyn [OF assms(1) _ assms(2)]
    same_decode_static(1) [OF assms(1) _ assms(2)]
  by (cases "IS_DYNAMIC c") (simp_all add: array_decode_elem_def SLOT_SIZE_def)

lemma array_loop_same:
  assumes "same_decode lim c d" "length input \<le> lim"
    and "IS_DYNAMIC c \<or> (\<forall>j < i + n. offset + j * SLOT_SIZE c + SLOT_SIZE c < usize_limit)"
  shows "array_decode_loop c input offset i n = array_decode_loop d input offset i n"
  using assms(3)
proof (induction n arbitrary: i)
  case (Suc n)
  then have "array_decode_elem c input offset i = array_decode_elem d input offset i"
    by (intro array_elem_same [OF assms(1,2)]) auto
  then show ?case using Suc.IH [of "i + 1"] Suc.prems by simp
qed simp

lemma array_loop_over:
  assumes "same_decode lim c d" "length input \<le> lim" "\<not> IS_DYNAMIC c" "0 < n"
    and "usize_limit \<le> offset + (i + n) * SLOT_SIZE c"
  shows "array_decode_loop d input offset i n = None"
  using assms(4,5)
proof (induction n arbitrary: i)
  case (Suc n)
  show ?case
  proof (cases "n = 0")
    case True
    then show ?thesis
      using Suc.prems assms(1-3) same_decode_slot [OF assms(1)]
      by (auto simp: array_decode_elem_def same_decode_def SLOT_SIZE_def algebra_simps)
  next
    case False
    then have "array_decode_loop d input offset (i + 1) n = None"
      using Suc.prems by (intro Suc.IH) auto
    then show ?thesis by (simp add: bind_eq_None_conv)
  qed
qed simp

lemma same_array:
  assumes "same_decode lim c d" "0 < n"
  shows "same_decode lim (impl_array c n) (impl_array d n)"
proof -
  have s: "SLOT_SIZE d = SLOT_SIZE c" by (rule same_decode_slot [OF assms(1)])
  have e: "array_decode_at c n input off = array_decode_at d n input off"
    if "length input \<le> lim" "IS_DYNAMIC c \<or> off + SLOT_SIZE c * n < usize_limit" for input off
  proof -
    have j: "off + j * SLOT_SIZE c + SLOT_SIZE c < usize_limit"
      if "j < n" "off + SLOT_SIZE c * n < usize_limit" for j
    proof -
      have "Suc j * SLOT_SIZE c \<le> n * SLOT_SIZE c" using that by (intro mult_le_mono1) simp
      then show ?thesis using that by (simp add: mult.commute)
    qed
    have "IS_DYNAMIC c \<or> (\<forall>j < 0 + n. off + j * SLOT_SIZE c + SLOT_SIZE c < usize_limit)"
      using that(2) j by auto
    then show ?thesis
      using array_loop_same [OF assms(1) that(1), of 0 n off] by (simp add: array_decode_at_def)
  qed
  have o: "array_decode_at d n input off = None"
    if "length input \<le> lim" "\<not> IS_DYNAMIC c" "usize_limit \<le> off + SLOT_SIZE c * n" for input off
    using array_loop_over [OF assms(1) that(1,2) assms(2), of off 0] that
    by (simp add: array_decode_at_def mult.commute)
  show ?thesis
    using assms(1) s e o unfolding same_decode_def by (auto simp: impl_array_def)
qed

lemma same_vec:
  assumes "same_decode lim c d" "lim + 32 < usize_limit"
  shows "same_decode lim (impl_vec c) (impl_vec d)"
proof -
  have dy: "vec_decode_dyn c input start i n = vec_decode_dyn d input start i n"
    if "length input \<le> lim" "IS_DYNAMIC c" for input start i n
  proof (induction n arbitrary: i)
    case (Suc n)
    have "decode_tail c input = decode_tail d input"
      using assms(1) that by (auto simp: same_decode_def)
    then show ?case using Suc.IH by simp
  qed simp
  have st: "vec_decode_static c input start n = vec_decode_static d input start n"
    if "length input \<le> lim" "\<not> IS_DYNAMIC c" for input start n
  proof (induction n arbitrary: start)
    case (Suc n)
    have "HEAD_SIZE d = HEAD_SIZE c" using assms(1) by (simp add: same_decode_def)
    moreover have "start + HEAD_SIZE c < usize_limit \<Longrightarrow> decode_at c input start = decode_at d input start"
      "usize_limit \<le> start + HEAD_SIZE c \<Longrightarrow> decode_at d input start = None"
      using assms(1) that by (auto simp: same_decode_def)
    ultimately show ?case using Suc.IH by (simp add: bind_eq_None_conv)
  qed simp
  have "vec_decode_tail c input off = vec_decode_tail d input off" if "length input \<le> lim" for input off
    using dy [OF that] st [OF that] same_decode_consts(1) [OF assms(1)]
    by (cases "IS_DYNAMIC c") (simp_all add: vec_decode_tail_def cong: if_cong)
  then show ?thesis by (simp add: same_decode_def impl_vec_def)
qed

lemma tuple_fields_same:
  assumes "list_all2 (same_decode lim) cs ds" "length input \<le> lim"
  shows "tuple_decode_fields cs input offset ho = tuple_decode_fields ds input offset ho"
  using assms(1)
proof (induction cs ds arbitrary: ho rule: list_all2_induct)
  case (Cons c cs d ds)
  have "decode_at c input ho = decode_at d input ho"
    if "\<not> IS_DYNAMIC c" "ho + HEAD_SIZE c < usize_limit"
    using same_decode_static(1) [OF Cons.hyps(1) that(1) assms(2) that(2)] .
  moreover have "Option.bind x (\<lambda>val. Option.bind (checked_sum [ho, HEAD_SIZE c]) (f val)) = None"
    if "\<not> ho + HEAD_SIZE c < usize_limit" for x :: "sol_val option" and f :: "sol_val \<Rightarrow> nat \<Rightarrow> sol_val list option"
    using that by (cases x) auto
  ultimately show ?case
    using Cons.IH same_decode_consts [OF Cons.hyps(1)] same_decode_dyn [OF Cons.hyps(1) _ assms(2)]
    by (cases "IS_DYNAMIC c"; cases "ho + HEAD_SIZE c < usize_limit") (simp_all add: SLOT_SIZE_def)
qed simp

lemma tuple_fields_over:
  assumes "usize_limit \<le> ho + tuple_head_size ds" "ds \<noteq> []"
  shows "tuple_decode_fields ds input offset ho = None"
  using assms
proof (induction ds arbitrary: ho)
  case (Cons d ds)
  show ?case
  proof (cases "ho + SLOT_SIZE d < usize_limit")
    case True
    then have "tuple_decode_fields ds input offset (ho + SLOT_SIZE d) = None"
      using Cons.prems by (intro Cons.IH) (auto simp: tuple_head_size_def)
    then show ?thesis by (auto simp: bind_eq_None_conv)
  next
    case False
    then show ?thesis by (auto simp: bind_eq_None_conv)
  qed
qed simp

lemma same_tuple:
  assumes "list_all2 (same_decode lim) cs ds" "cs \<noteq> []"
  shows "same_decode lim (impl_tuple cs) (impl_tuple ds)"
proof -
  have c: "list_ex IS_DYNAMIC ds = list_ex IS_DYNAMIC cs" "tuple_head_size ds = tuple_head_size cs"
    using assms(1) same_decode_consts
    by (induction cs ds rule: list_all2_induct) (auto simp: tuple_head_size_def)
  have n: "ds \<noteq> []" using assms by (auto simp: list_all2_Nil)
  show ?thesis
    using c tuple_fields_same [OF assms(1)] tuple_fields_over [OF _ n]
    by (simp add: same_decode_def impl_tuple_def tuple_decode_at_def)
qed

lemma same_codec:
  assumes "lim + 32 < usize_limit" "sol_wf t"
  shows "same_decode lim (codec_of t) (codec_exact t)"
  using assms(2)
proof (induction t)
  case (TPrim p)
  then show ?case using same_prim [OF assms(1)] by simp
next
  case (TArr t n)
  then show ?case using same_array by simp
next
  case (TVec t)
  then show ?case using same_vec [OF _ assms(1)] by simp
next
  case (TTuple ts)
  then have "list_all2 (same_decode lim) (map codec_of ts) (map codec_exact ts)"
    by (auto simp: list_all2_conv_all_nth list_all_iff)
  then show ?case using TTuple.prems same_tuple by simp
qed (simp_all add: same_refl impl_str_def impl_string_def impl_bytes_def)

text \<open>Taken alone, a static decoder does wrap: near the end it reads the byte at index 0.\<close>

lemma u8_decode_wraps: "u8_decode_at [b] (usize_limit - 31) = Some b"
  by (simp add: u8_decode_at_def wadd_def usize_limit_def get_idx_def)

text \<open>
  C5: no wrap-around in the decoders is observable. The static decoders compute \<open>offset + 32\<close>
  with wrapping arithmetic, so a decoder called near the end of the address space would read from
  the start of the input; but on every input, \<open>decode\<close> of every type returns what it would
  return with decoders that never wrap and refuse any read past the end: every offset taken from
  calldata passes a checked addition before or after the read it leads to. (\<open>HEAD_SIZE\<close> is a
  constant the compiler evaluates, so it fits in \<open>usize\<close>.)
\<close>

theorem decode_never_wraps:
  assumes "sol_wf t" "HEAD_SIZE (codec_of t) < usize_limit" "length input + 32 < usize_limit"
  shows "decode (codec_of t) input = decode (codec_exact t) input"
proof -
  have s: "same_decode (length input) (codec_of t) (codec_exact t)"
    using same_codec assms by simp
  note c = same_decode_consts [OF s]
  show ?thesis
  proof (cases "IS_DYNAMIC (codec_of t)")
    case True
    then have "decode_tail (codec_of t) input = decode_tail (codec_exact t) input"
      using same_decode_dyn [OF s] by simp
    moreover have "decode_at (codec_of t) input 0 = decode_at (codec_exact t) input 0"
      if "IS_TUPLE (codec_of t)"
      using s that True calculation unfolding same_decode_def by auto
    ultimately show ?thesis using c True by (simp add: decode_def)
  next
    case False
    have "decode_at (codec_of t) input 0 = decode_at (codec_exact t) input 0"
      using same_decode_static(1) [OF s False order_refl, of 0] assms(2) by simp
    then show ?thesis using c False by (simp add: decode_def)
  qed
qed

theorem decode_never_wraps_witness:
  "decode (codec_of (TTuple [TBytes, TArr (TPrim U64) 2])) (replicate 96 0xff) =
   decode (codec_exact (TTuple [TBytes, TArr (TPrim U64) 2])) (replicate 96 0xff)"
  using decode_never_wraps [of "TTuple [TBytes, TArr (TPrim U64) 2]" "replicate 96 0xff"]
  by (simp add: tuple_head_size_def SLOT_SIZE_def usize_limit_def del: codec_exact.simps)

section \<open>Decoded values are well typed\<close>

definition decodes_wt :: "sol_codec \<Rightarrow> (sol_val \<Rightarrow> bool) \<Rightarrow> bool" where
  "decodes_wt c wt \<longleftrightarrow>
     (\<forall>input off v. decode_at c input off = Some v \<or> decode_tail c input off = Some v \<longrightarrow> wt v)"

lemma array_loop_wt:
  "decodes_wt c wt \<Longrightarrow> array_decode_loop c input off i n = Some vs \<Longrightarrow> length vs = n \<and> list_all wt vs"
proof (induction n arbitrary: i vs)
  case (Suc n)
  then obtain v ws where v: "array_decode_elem c input off i = Some v" "vs = v # ws"
    "array_decode_loop c input off (i + 1) n = Some ws"
    by (auto split: bind_split_asm)
  have "wt v"
    using v(1) Suc.prems(1)
    by (auto simp: array_decode_elem_def decodes_wt_def split: bind_split_asm if_splits)
  then show ?case using Suc.IH [OF Suc.prems(1) v(3)] v(2) by simp
qed simp

lemma vec_tail_wt:
  assumes "decodes_wt c wt" "vec_decode_tail c input off = Some vs"
  shows "list_all wt vs"
proof -
  have d: "list_all wt vs" if "vec_decode_dyn c input start i n = Some vs" for start i n vs
    using that assms(1)
    by (induction n arbitrary: i vs) (auto simp: decodes_wt_def split: bind_split_asm)
  have s: "list_all wt vs" if "vec_decode_static c input start n = Some vs" for start n vs
    using that assms(1)
    by (induction n arbitrary: start vs) (auto simp: decodes_wt_def split: bind_split_asm)
  show ?thesis
    using assms(2) by (auto simp: vec_decode_tail_def dest: d s split: bind_split_asm if_splits)
qed

lemma tuple_fields_wt:
  assumes "list_all2 decodes_wt cs wts" "tuple_decode_fields cs input off ho = Some vs"
  shows "list_all2 (\<lambda>p x. p x) wts vs"
  using assms
proof (induction cs wts arbitrary: ho vs rule: list_all2_induct)
  case (Cons c cs wt wts)
  then obtain v ws where v: "vs = v # ws" "tuple_decode_fields cs input off (ho + SLOT_SIZE c) = Some ws"
    and d: "(if IS_DYNAMIC c then Option.bind (read_word_offset input ho)
          (\<lambda>fo. Option.bind (checked_sum [off, fo]) (decode_tail c input))
        else decode_at c input ho) = Some v"
    by (auto split: bind_split_asm if_splits)
  have "wt v"
    using d Cons.hyps(1) by (auto simp: decodes_wt_def split: bind_split_asm if_splits)
  then show ?case using Cons.IH [OF v(2)] v(1) by simp
qed simp

lemma codec_wt: "sol_wf t \<Longrightarrow> decodes_wt (codec_of t) (sol_wt t)"
proof (induction t)
  case (TPrim p)
  then show ?case by (auto simp: decodes_wt_def impl_prim_def dest: prim_decode_wt)
next
  case (TArr t n)
  then have d: "decodes_wt (codec_of t) (sol_wt t)" by simp
  show ?case
    by (auto simp: decodes_wt_def impl_array_def array_decode_at_def dest!: array_loop_wt [OF d])
next
  case (TVec t)
  then have d: "decodes_wt (codec_of t) (sol_wt t)" by simp
  show ?case
    by (auto simp: decodes_wt_def impl_vec_def vec_decode_at_def dest!: vec_tail_wt [OF d]
        split: bind_split_asm)
next
  case (TTuple ts)
  then have "list_all2 decodes_wt (map codec_of ts) (map sol_wt ts)"
    by (auto simp: list_all2_conv_all_nth list_all_iff)
  from tuple_fields_wt [OF this] show ?case
    by (auto simp: decodes_wt_def impl_tuple_def tuple_decode_at_def)
qed (auto simp: decodes_wt_def impl_str_def impl_string_def impl_bytes_def string_decode_at_def
    string_decode_tail_def split: bind_split_asm if_splits)

text \<open>
  C4: whatever the calldata, a successful \<open>decode\<close> returns a value of the type: arrays have
  their length, strings are valid UTF-8, addresses have 20 bytes. Handlers never see a malformed
  argument.
\<close>

theorem decode_well_typed:
  assumes "sol_wf t" "decode (codec_of t) input = Some v"
  shows "sol_wt t v"
  using codec_wt [OF assms(1)] assms(2)
  by (auto simp: decode_def decodes_wt_def split: if_splits bind_split_asm)

theorem decode_well_typed_witness:
  "decode (codec_of (TTuple [TPrim U8, TPrim Bool])) (replicate 31 0 @ [9] @ replicate 31 0 @ [1]) =
     Some (VSeq [VPrim (VU8 9), VPrim (VBool True)]) \<and>
   sol_wt (TTuple [TPrim U8, TPrim Bool]) (VSeq [VPrim (VU8 9), VPrim (VBool True)])"
proof -
  have "decode (codec_of (TTuple [TPrim U8, TPrim Bool])) (replicate 31 0 @ [9] @ replicate 31 0 @ [1]) =
     Some (VSeq [VPrim (VU8 9), VPrim (VBool True)])"
    by (simp add: decode_def impl_tuple_def tuple_decode_at_def impl_prim_def u8_decode_at_def
        bool_decode_at_def get_idx_def SLOT_SIZE_def usize_limit_def wadd_def nth_append)
  then show ?thesis using decode_well_typed [of "TTuple [TPrim U8, TPrim Bool]" _
        "VSeq [VPrim (VU8 9), VPrim (VBool True)]"] by auto
qed

section \<open>Unchecked decoding\<close>

definition unchecked_safe :: "sol_codec \<Rightarrow> bool" where
  "unchecked_safe c \<longleftrightarrow> \<not> IS_DYNAMIC c \<and> ENCODED_SIZE c = HEAD_SIZE c \<and>
     (\<forall>input off. length input + 32 < usize_limit \<longrightarrow> off + HEAD_SIZE c \<le> length input \<longrightarrow>
        (\<exists>v. decode_unchecked c input off = Some v \<and> decode_at c input off = Some v))"

lemma unchecked_prim: "prim_wf p \<Longrightarrow> unchecked_safe (impl_prim p)"
  using prim_decode_total by (fastforce simp: unchecked_safe_def impl_prim_def prim_unchecked_eq)

lemma unchecked_array_loop:
  assumes "unchecked_safe c" "length input + 32 < usize_limit"
    and "off + (i + n) * HEAD_SIZE c \<le> length input"
  shows "\<exists>vs. array_unchecked_loop c input off i n = Some vs \<and> array_decode_loop c input off i n = Some vs"
  using assms(3)
proof (induction n arbitrary: i)
  case (Suc n)
  have d: "\<not> IS_DYNAMIC c" using assms(1) by (simp add: unchecked_safe_def)
  have b: "off + i * HEAD_SIZE c + HEAD_SIZE c \<le> length input"
    using Suc.prems by (simp add: algebra_simps)
  then obtain v where "decode_unchecked c input (off + i * HEAD_SIZE c) = Some v"
    "decode_at c input (off + i * HEAD_SIZE c) = Some v"
    using assms(1,2) unfolding unchecked_safe_def by (metis add.assoc)
  then have "array_unchecked_elem c input off i = Some v" "array_decode_elem c input off i = Some v"
    using d b assms(2) by (simp_all add: array_unchecked_elem_def array_decode_elem_def SLOT_SIZE_def)
  then show ?case using Suc.IH [of "i + 1"] Suc.prems by auto
qed simp

lemma unchecked_array:
  assumes "unchecked_safe c"
  shows "unchecked_safe (impl_array c n)"
proof -
  have "\<exists>vs. array_unchecked_loop c input off 0 n = Some vs \<and> array_decode_at c n input off = Some vs"
    if "length input + 32 < usize_limit" "off + SLOT_SIZE c * n \<le> length input" for input off
    using unchecked_array_loop [OF assms that(1), of off 0 n] that(2) assms
    by (simp add: unchecked_safe_def SLOT_SIZE_def array_decode_at_def mult.commute)
  then show ?thesis
    using assms by (fastforce simp: unchecked_safe_def SLOT_SIZE_def impl_array_def)
qed

lemma unchecked_tuple_fields:
  assumes "list_all unchecked_safe cs" "length input + 32 < usize_limit"
    and "ho + tuple_head_size cs \<le> length input"
  shows "\<exists>vs. tuple_unchecked_fields cs input ho = Some vs \<and> tuple_decode_fields cs input off ho = Some vs"
  using assms(1,3)
proof (induction cs arbitrary: ho)
  case (Cons c cs)
  have s: "\<not> IS_DYNAMIC c" "SLOT_SIZE c = HEAD_SIZE c"
    using Cons.prems(1) by (auto simp: unchecked_safe_def SLOT_SIZE_def)
  have b: "ho + HEAD_SIZE c + tuple_head_size cs \<le> length input"
    using Cons.prems(2) s by (simp add: tuple_head_size_def)
  then have "ho + HEAD_SIZE c \<le> length input" by simp
  moreover have "unchecked_safe c" using Cons.prems(1) by simp
  ultimately obtain v where v: "decode_unchecked c input ho = Some v" "decode_at c input ho = Some v"
    using assms(2) unfolding unchecked_safe_def by blast
  have "ho + HEAD_SIZE c < usize_limit" using b assms(2) by linarith
  then show ?case using s v b Cons.IH [of "ho + HEAD_SIZE c"] Cons.prems(1) by auto
qed simp

lemma unchecked_tuple:
  assumes "list_all unchecked_safe cs"
  shows "unchecked_safe (impl_tuple cs)"
proof -
  have "\<not> list_ex IS_DYNAMIC cs" "sum_list (map ENCODED_SIZE cs) = tuple_head_size cs"
    using assms by (induction cs) (auto simp: unchecked_safe_def tuple_head_size_def SLOT_SIZE_def)
  then show ?thesis
    using unchecked_tuple_fields [OF assms]
    by (simp add: unchecked_safe_def) (fastforce simp: impl_tuple_def tuple_decode_at_def)
qed

lemma unchecked_codec: "sol_wf t \<Longrightarrow> \<not> abi_dynamic t \<Longrightarrow> unchecked_safe (codec_of t)"
proof (induction t)
  case (TTuple ts)
  then show ?case
    by (auto simp: list_all_iff list_ex_iff intro!: unchecked_tuple)
qed (simp_all add: unchecked_prim unchecked_array)

text \<open>
  C36: the unchecked decoders are safe under the contract in their documentation: for every static
  type, when the input holds \<open>offset + ENCODED_SIZE\<close> bytes, \<open>decode_unchecked\<close> stays inside the
  input (no undefined behaviour), \<open>decode_at\<close> succeeds, and both return the same value.
\<close>

theorem decode_unchecked_safe:
  assumes "sol_wf t" "\<not> abi_dynamic t"
    and "off + ENCODED_SIZE (codec_of t) \<le> length input" "length input + 32 < usize_limit"
  shows "\<exists>v. decode_unchecked (codec_of t) input off = Some v \<and> decode_at (codec_of t) input off = Some v"
  using unchecked_codec [OF assms(1,2)] assms(3,4) by (auto simp: unchecked_safe_def)

theorem decode_unchecked_safe_witness:
  "\<exists>v. decode_unchecked (codec_of (TTuple [TPrim Address, TArr (TPrim I64) 2])) (replicate 100 0xff) 4 = Some v \<and>
     decode_at (codec_of (TTuple [TPrim Address, TArr (TPrim I64) 2])) (replicate 100 0xff) 4 = Some v"
  using decode_unchecked_safe [of "TTuple [TPrim Address, TArr (TPrim I64) 2]" 4 "replicate 100 0xff"]
  by (simp add: usize_limit_def)

text \<open>
  The contract fails for \<open>()\<close>, whose \<open>HEAD_SIZE\<close> is the trait's default 32 while its
  \<open>ENCODED_SIZE\<close> is 0. In a tuple with a unit component the field after it is read 32 bytes
  further than \<open>ENCODED_SIZE\<close> says: \<open>((), u64)::decode_unchecked\<close> on an input of exactly
  \<open>ENCODED_SIZE\<close> bytes reads out of bounds.
\<close>

theorem unit_in_tuple_unchecked_out_of_bounds:
  "ENCODED_SIZE (codec_of (TTuple [TUnit, TPrim U64])) = length (be_bytes 32 5) \<and>
   decode_unchecked (codec_of (TTuple [TUnit, TPrim U64])) (be_bytes 32 5) 0 = None"
  by (simp add: impl_tuple_def impl_unit_def impl_prim_def u64_decode_unchecked_def get_range_def
      SLOT_SIZE_def wadd_def usize_limit_def)

section \<open>Event topics\<close>

text \<open>
  The topic of an indexed event parameter: for a static single-word type it is the ABI word
  of the value, for \<open>string\<close> and \<open>bytes\<close> the Keccak hash of the raw bytes. \<open>&str\<close> has
  the Solidity name \<open>string\<close> too but not that override: the provided method encodes it into
  a 32-byte slot, which panics unless it is empty.
\<close>

theorem indexed_topic_cases:
  "indexed_topic keccak256 (codec_of TString) (VData bs) = Some (keccak256 bs) \<and>
   indexed_topic keccak256 (codec_of TBytes) (VData bs) = Some (keccak256 bs) \<and>
   (prim_wf p \<longrightarrow> prim_wt p v \<longrightarrow>
      indexed_topic keccak256 (codec_of (TPrim p)) (VPrim v) = Some (prim_word v)) \<and>
   (bs \<noteq> [] \<longrightarrow> indexed_topic keccak256 (codec_of TStr) (VData bs) = None)"
proof -
  have "data_encode_body_to bs (replicate 32 0) = None" if "bs \<noteq> []"
    using that by (simp add: data_encode_body_to_def Let_def fill_range_def copy_at_def)
  then show ?thesis
    by (simp add: indexed_topic_def impl_string_def impl_bytes_def impl_prim_def impl_str_def prim_encode_word)
qed

theorem indexed_topic_cases_witness:
  "indexed_topic id (codec_of (TPrim U8)) (VPrim (VU8 3)) = Some (prim_word (VU8 3)) \<and>
   indexed_topic id (codec_of TStr) (VData [104]) = None"
  using indexed_topic_cases [of id "[104]" U8 "VU8 3"] by (simp add: prim_wt_def)

end
