(* ===== verification/Names.thy ===== *)
theory Names
  imports AbiCorrect
begin

text \<open>
  Solidity type names, which \<open>pvm-contract-types\<close> builds at compile time: the 256-byte
  \<open>ConstStr\<close> buffer with its loops, \<open>str_eq\<close>, \<open>const_selector\<close>, and the \<open>SOL_NAME\<close> of
  every implementation. \<open>None\<close> is a panic in constant evaluation, a compile error. Keccak-256
  is a third-party package and a parameter. The lemmas show that \<open>SOL_NAME\<close> is the canonical
  name of the ABI specification whenever it fits.
\<close>

section \<open>ConstStr\<close>

record const_str =
  cs_buf :: bytes
  cs_len :: nat

text \<open>The copying loops: byte \<open>b\<close> to index \<open>i\<close>, and on.\<close>

fun put_bytes :: "bytes \<Rightarrow> nat \<Rightarrow> bytes \<Rightarrow> bytes" where
  "put_bytes buf i [] = buf"
| "put_bytes buf i (b # bs) = put_bytes (buf[i := b]) (i + 1) bs"

definition const_str_new :: "bytes \<Rightarrow> bytes \<Rightarrow> const_str option" where
  "const_str_new a b =
     (let len = length a + length b in
      if len \<le> 256
      then Some \<lparr> cs_buf = put_bytes (put_bytes (replicate 256 0) 0 a) (length a) b, cs_len = len \<rparr>
      else None)"

definition const_str_append :: "const_str \<Rightarrow> bytes \<Rightarrow> const_str option" where
  "const_str_append self s =
     (let new_len = cs_len self + length s in
      if new_len \<le> 256
      then Some \<lparr> cs_buf = put_bytes (cs_buf self) (cs_len self) s, cs_len = new_len \<rparr>
      else None)"

text \<open>The digits of \<open>n\<close>, least significant first, as the \<open>while val > 0\<close> loop collects them.\<close>

fun digits_of :: "nat \<Rightarrow> bytes" where
  "digits_of val = (if val = 0 then [] else (48 + of_nat (val mod 10)) # digits_of (val div 10))"

declare digits_of.simps [simp del]

text \<open>The \<open>while i > 0\<close> loop that writes them out, most significant first.\<close>

fun put_digits :: "const_str \<Rightarrow> bytes \<Rightarrow> const_str option" where
  "put_digits c [] = Some c"
| "put_digits c (d # ds) =
     (if cs_len c < 256
      then put_digits \<lparr> cs_buf = (cs_buf c)[cs_len c := d], cs_len = cs_len c + 1 \<rparr> ds
      else None)"

definition const_str_append_usize :: "const_str \<Rightarrow> nat \<Rightarrow> const_str option" where
  "const_str_append_usize self n =
     (if n = 0 then const_str_append self [48] else put_digits self (rev (digits_of n)))"

definition const_str_as_str :: "const_str \<Rightarrow> bytes option" where
  "const_str_as_str self =
     (let used = take (cs_len self) (cs_buf self) in if valid_utf8 used then Some used else None)"

text \<open>\<open>str_eq\<close>: the length check, then the loop from index \<open>i\<close>.\<close>

function str_eq_from :: "bytes \<Rightarrow> bytes \<Rightarrow> nat \<Rightarrow> bool" where
  "str_eq_from a b i =
     (if i < length a then (if a ! i \<noteq> b ! i then False else str_eq_from a b (i + 1)) else True)"
  by auto
termination by (relation "measure (\<lambda>(a, b, i). length a - i)") auto

declare str_eq_from.simps [simp del]

definition str_eq :: "bytes \<Rightarrow> bytes \<Rightarrow> bool" where
  "str_eq a b = (if length a \<noteq> length b then False else str_eq_from a b 0)"

definition const_selector :: "(bytes \<Rightarrow> bytes) \<Rightarrow> bytes \<Rightarrow> bytes" where
  "const_selector const_keccak256 sig = (let hash = const_keccak256 sig in [hash ! 0, hash ! 1, hash ! 2, hash ! 3])"

section \<open>SOL_NAME\<close>

definition ascii :: "string \<Rightarrow> bytes" where
  "ascii s = map of_char s"

fun prim_sol_name :: "prim \<Rightarrow> bytes option" where
  "prim_sol_name U256 = Some (ascii ''uint256'')"
| "prim_sol_name U128 = Some (ascii ''uint128'')"
| "prim_sol_name U64 = Some (ascii ''uint64'')"
| "prim_sol_name U32 = Some (ascii ''uint32'')"
| "prim_sol_name U16 = Some (ascii ''uint16'')"
| "prim_sol_name U8 = Some (ascii ''uint8'')"
| "prim_sol_name I256 = Some (ascii ''int256'')"
| "prim_sol_name I128 = Some (ascii ''int128'')"
| "prim_sol_name I64 = Some (ascii ''int64'')"
| "prim_sol_name I32 = Some (ascii ''int32'')"
| "prim_sol_name I16 = Some (ascii ''int16'')"
| "prim_sol_name I8 = Some (ascii ''int8'')"
| "prim_sol_name Bool = Some (ascii ''bool'')"
| "prim_sol_name Address = Some (ascii ''address'')"
| "prim_sol_name (BytesN n) =
     Option.bind (const_str_new (ascii ''bytes'') []) (\<lambda>c.
     Option.bind (const_str_append_usize c n) const_str_as_str)"

definition array_sol_name :: "bytes \<Rightarrow> nat \<Rightarrow> bytes option" where
  "array_sol_name inner n =
     Option.bind (const_str_new inner (ascii ''['')) (\<lambda>c.
     Option.bind (const_str_append_usize c n) (\<lambda>c.
     Option.bind (const_str_append c (ascii '']'')) const_str_as_str))"

definition vec_sol_name :: "bytes \<Rightarrow> bytes option" where
  "vec_sol_name inner = Option.bind (const_str_new inner (ascii ''[]'')) const_str_as_str"

text \<open>\<open>impl_tuple_sol!(@sol_name ...)\<close>: the first name, then \<open>,\<close> and a name per component.\<close>

fun tuple_name_rest :: "const_str \<Rightarrow> bytes list \<Rightarrow> const_str option" where
  "tuple_name_rest c [] = Some c"
| "tuple_name_rest c (n # ns) =
     Option.bind (const_str_append c (ascii '','')) (\<lambda>c.
     Option.bind (const_str_append c n) (\<lambda>c. tuple_name_rest c ns))"

definition tuple_sol_name :: "bytes list \<Rightarrow> bytes option" where
  "tuple_sol_name names =
     Option.bind (const_str_new (ascii ''('') (hd names)) (\<lambda>c.
     Option.bind (tuple_name_rest c (tl names)) (\<lambda>c.
     Option.bind (const_str_append c (ascii '')'')) const_str_as_str))"

fun all_some :: "'a option list \<Rightarrow> 'a list option" where
  "all_some [] = Some []"
| "all_some (x # xs) = Option.bind x (\<lambda>a. map_option (\<lambda>as. a # as) (all_some xs))"

primrec sol_name :: "sol_ty \<Rightarrow> bytes option" where
  "sol_name (TPrim p) = prim_sol_name p"
| "sol_name TUnit = Some (ascii ''unit'')"
| "sol_name TStr = Some (ascii ''string'')"
| "sol_name TString = Some (ascii ''string'')"
| "sol_name TBytes = Some (ascii ''bytes'')"
| "sol_name (TArr t n) = Option.bind (sol_name t) (\<lambda>inner. array_sol_name inner n)"
| "sol_name (TVec t) = Option.bind (sol_name t) vec_sol_name"
| "sol_name (TTuple ts) = Option.bind (all_some (map sol_name ts)) tuple_sol_name"

section \<open>The canonical name\<close>

definition decimal :: "nat \<Rightarrow> bytes" where
  "decimal n = (if n = 0 then [48] else rev (digits_of n))"

fun comma_sep :: "bytes list \<Rightarrow> bytes" where
  "comma_sep [] = []"
| "comma_sep [n] = n"
| "comma_sep (n # ns) = n @ ascii '','' @ comma_sep ns"

text \<open>
  The elementary types of the ABI: \<open>uint\<close> and \<open>int\<close> with their width in bits, \<open>bytes\<close> with its
  length, \<open>bool\<close> and \<open>address\<close>.
\<close>

fun prim_name :: "prim \<Rightarrow> bytes" where
  "prim_name U256 = ascii ''uint'' @ decimal 256"
| "prim_name U128 = ascii ''uint'' @ decimal 128"
| "prim_name U64 = ascii ''uint'' @ decimal 64"
| "prim_name U32 = ascii ''uint'' @ decimal 32"
| "prim_name U16 = ascii ''uint'' @ decimal 16"
| "prim_name U8 = ascii ''uint'' @ decimal 8"
| "prim_name I256 = ascii ''int'' @ decimal 256"
| "prim_name I128 = ascii ''int'' @ decimal 128"
| "prim_name I64 = ascii ''int'' @ decimal 64"
| "prim_name I32 = ascii ''int'' @ decimal 32"
| "prim_name I16 = ascii ''int'' @ decimal 16"
| "prim_name I8 = ascii ''int'' @ decimal 8"
| "prim_name Bool = ascii ''bool''"
| "prim_name Address = ascii ''address''"
| "prim_name (BytesN n) = ascii ''bytes'' @ decimal n"

primrec abi_name :: "sol_ty \<Rightarrow> bytes" where
  "abi_name (TPrim p) = prim_name p"
| "abi_name TUnit = ascii ''unit''"
| "abi_name TStr = ascii ''string''"
| "abi_name TString = ascii ''string''"
| "abi_name TBytes = ascii ''bytes''"
| "abi_name (TArr t n) = abi_name t @ ascii ''['' @ decimal n @ ascii '']''"
| "abi_name (TVec t) = abi_name t @ ascii ''[]''"
| "abi_name (TTuple ts) = ascii ''('' @ comma_sep (map abi_name ts) @ ascii '')''"

section \<open>Lemmas\<close>

lemma length_put_bytes [simp]: "length (put_bytes buf i bs) = length buf"
  by (induction buf i bs rule: put_bytes.induct) simp_all

lemma take_put_bytes:
  "i + length bs \<le> length buf \<Longrightarrow>
   take (i + length bs) (put_bytes buf i bs) = take i buf @ bs"
proof (induction buf i bs rule: put_bytes.induct)
  case (2 buf i b bs)
  then have "take (i + 1 + length bs) (put_bytes (buf[i := b]) (i + 1) bs) = take (i + 1) (buf[i := b]) @ bs"
    by simp
  moreover have "take (i + 1) (buf[i := b]) = take i buf @ [b]"
    using 2(2) by (simp add: take_Suc_conv_app_nth)
  ultimately show ?case by simp
qed simp

text \<open>A \<open>ConstStr\<close> in use: the full buffer, a length inside it.\<close>

definition cs_ok :: "const_str \<Rightarrow> bool" where
  "cs_ok c \<longleftrightarrow> length (cs_buf c) = 256 \<and> cs_len c \<le> 256"

definition cs_str :: "const_str \<Rightarrow> bytes" where
  "cs_str c = take (cs_len c) (cs_buf c)"

lemma length_cs_str: "cs_ok c \<Longrightarrow> length (cs_str c) = cs_len c"
  by (simp add: cs_ok_def cs_str_def)

definition cs_is :: "const_str option \<Rightarrow> bytes \<Rightarrow> bool" where
  "cs_is r s \<longleftrightarrow> (if length s \<le> 256 then \<exists>c. r = Some c \<and> cs_ok c \<and> cs_str c = s else r = None)"

lemma const_str_new_is: "cs_is (const_str_new a b) (a @ b)"
  using take_put_bytes [of 0 a "replicate 256 0"]
    take_put_bytes [of "length a" b "put_bytes (replicate 256 0) 0 a"]
  by (simp add: cs_is_def const_str_new_def Let_def cs_ok_def cs_str_def)

lemma const_str_append_is: "cs_ok c \<Longrightarrow> cs_is (const_str_append c s) (cs_str c @ s)"
  using take_put_bytes [of "cs_len c" s "cs_buf c"]
  by (auto simp: cs_is_def const_str_append_def Let_def cs_ok_def cs_str_def)

lemma put_digits_is: "cs_ok c \<Longrightarrow> cs_is (put_digits c ds) (cs_str c @ ds)"
proof (induction c ds rule: put_digits.induct)
  case (2 c d ds)
  let ?c = "\<lparr> cs_buf = (cs_buf c)[cs_len c := d], cs_len = cs_len c + 1 \<rparr>"
  show ?case
  proof (cases "cs_len c < 256")
    case True
    have "cs_ok ?c" using 2(2) True by (simp add: cs_ok_def)
    moreover have "cs_str ?c = cs_str c @ [d]"
      using 2(2) True by (simp add: cs_ok_def cs_str_def take_Suc_conv_app_nth)
    ultimately show ?thesis using 2(1) [OF True] True by simp
  next
    case False
    then show ?thesis using 2(2) length_cs_str [OF 2(2)] by (simp add: cs_is_def)
  qed
qed (auto simp: cs_is_def length_cs_str cs_ok_def)

lemma append_usize_is: "cs_ok c \<Longrightarrow> cs_is (const_str_append_usize c n) (cs_str c @ decimal n)"
  using put_digits_is [of c "rev (digits_of n)"] const_str_append_is [of c "[48]"]
  by (simp add: const_str_append_usize_def decimal_def)

text \<open>Building further: what a chain of appends produces, or that it overflows.\<close>

lemma cs_is_bind:
  assumes "cs_is r s" "\<And>c. cs_ok c \<Longrightarrow> cs_str c = s \<Longrightarrow> cs_is (f c) (s @ u)"
  shows "cs_is (Option.bind r f) (s @ u)"
  using assms unfolding cs_is_def by (cases r) (auto split: if_splits)

definition str_is :: "bytes option \<Rightarrow> bytes \<Rightarrow> bool" where
  "str_is r s \<longleftrightarrow> r = (if length s \<le> 256 then Some s else None)"

lemma as_str_is: "cs_is r s \<Longrightarrow> valid_utf8 s \<Longrightarrow> str_is (Option.bind r const_str_as_str) s"
  by (auto simp: cs_is_def str_is_def const_str_as_str_def cs_str_def split: if_splits)

lemma comma_sep_Cons: "comma_sep (n # ns) = n @ concat (map (\<lambda>m. ascii '','' @ m) ns)"
  by (induction ns arbitrary: n) simp_all

lemma tuple_name_rest_is:
  "cs_ok c \<Longrightarrow> cs_is (tuple_name_rest c ns) (cs_str c @ concat (map (\<lambda>m. ascii '','' @ m) ns))"
proof (induction ns arbitrary: c)
  case (Cons n ns)
  have "cs_is (Option.bind (const_str_append c (ascii '','')) (\<lambda>c.
      Option.bind (const_str_append c n) (\<lambda>c. tuple_name_rest c ns)))
    ((cs_str c @ ascii '','') @ (n @ concat (map (\<lambda>m. ascii '','' @ m) ns)))"
  proof (rule cs_is_bind [OF const_str_append_is [OF Cons.prems]])
    fix c1 assume c1: "cs_ok c1" "cs_str c1 = cs_str c @ ascii '',''"
    have "cs_is (Option.bind (const_str_append c1 n) (\<lambda>c. tuple_name_rest c ns))
      ((cs_str c1 @ n) @ concat (map (\<lambda>m. ascii '','' @ m) ns))"
    proof (rule cs_is_bind [OF const_str_append_is [OF c1(1)]])
      fix c2 assume "cs_ok c2" "cs_str c2 = cs_str c1 @ n"
      then show "cs_is (tuple_name_rest c2 ns) ((cs_str c1 @ n) @ concat (map (\<lambda>m. ascii '','' @ m) ns))"
        using Cons.IH [of c2] by simp
    qed
    then show "cs_is (Option.bind (const_str_append c1 n) (\<lambda>c. tuple_name_rest c ns))
        ((cs_str c @ ascii '','') @ n @ concat (map (\<lambda>m. ascii '','' @ m) ns))"
      using c1(2) by simp
  qed
  then show ?case by simp
qed (auto simp: cs_is_def cs_ok_def cs_str_def)

definition is_ascii :: "bytes \<Rightarrow> bool" where
  "is_ascii s \<longleftrightarrow> list_all (\<lambda>b. b < 0x80) s"

lemma valid_utf8_ascii: "is_ascii s \<Longrightarrow> valid_utf8 s"
  by (induction s) (simp_all add: is_ascii_def)

lemma is_ascii_append [simp]: "is_ascii (a @ b) \<longleftrightarrow> is_ascii a \<and> is_ascii b"
  by (simp add: is_ascii_def)

lemma digit_ascii: "n < 10 \<Longrightarrow> (48 + of_nat n :: byte) < 0x80"
proof -
  assume n: "n < 10"
  have "unat (48 + of_nat n :: byte) = 48 + n"
    using n by (simp add: unat_word_ariths unat_of_nat)
  then show ?thesis using n by (simp add: word_less_nat_alt)
qed

lemma is_ascii_digits: "is_ascii (digits_of n)"
proof (induction n rule: digits_of.induct)
  case (1 n)
  then show ?case
    using digit_ascii [of "n mod 10"] by (subst digits_of.simps) (simp add: is_ascii_def)
qed

lemma is_ascii_decimal [simp]: "is_ascii (decimal n)"
  using is_ascii_digits by (simp add: decimal_def is_ascii_def)

lemma array_sol_name_is:
  assumes "is_ascii inner"
  shows "str_is (array_sol_name inner n) (inner @ ascii ''['' @ decimal n @ ascii '']'')"
proof -
  have "cs_is (Option.bind (const_str_new inner (ascii ''['')) (\<lambda>c.
      Option.bind (const_str_append_usize c n) (\<lambda>c. const_str_append c (ascii '']''))))
    ((inner @ ascii ''['') @ decimal n @ ascii '']'')"
  proof (rule cs_is_bind [OF const_str_new_is])
    fix c1 assume c1: "cs_ok c1" "cs_str c1 = inner @ ascii ''[''"
    have "cs_is (Option.bind (const_str_append_usize c1 n) (\<lambda>c. const_str_append c (ascii '']'')))
      ((cs_str c1 @ decimal n) @ ascii '']'')"
    proof (rule cs_is_bind [OF append_usize_is [OF c1(1)]])
      fix c2 assume "cs_ok c2" "cs_str c2 = cs_str c1 @ decimal n"
      then show "cs_is (const_str_append c2 (ascii '']'')) ((cs_str c1 @ decimal n) @ ascii '']'')"
        using const_str_append_is [of c2 "ascii '']''"] by simp
    qed
    then show "cs_is (Option.bind (const_str_append_usize c1 n) (\<lambda>c. const_str_append c (ascii '']'')))
        ((inner @ ascii ''['') @ decimal n @ ascii '']'')"
      using c1(2) by simp
  qed
  moreover have "is_ascii (ascii ''['')" "is_ascii (ascii '']'')" by (simp_all add: is_ascii_def ascii_def)
  ultimately show ?thesis
    using assms as_str_is by (fastforce simp: array_sol_name_def Option.bind_assoc valid_utf8_ascii)
qed

lemma vec_sol_name_is: "is_ascii inner \<Longrightarrow> str_is (vec_sol_name inner) (inner @ ascii ''[]'')"
  unfolding vec_sol_name_def
  by (rule as_str_is [OF const_str_new_is]) (simp add: valid_utf8_ascii is_ascii_def ascii_def)

lemma tuple_sol_name_is:
  assumes "list_all is_ascii names" "names \<noteq> []"
  shows "str_is (tuple_sol_name names) (ascii ''('' @ comma_sep names @ ascii '')'')"
proof -
  obtain n ns where n: "names = n # ns" using assms(2) by (cases names) auto
  let ?rest = "concat (map (\<lambda>m. ascii '','' @ m) ns)"
  have "cs_is (Option.bind (const_str_new (ascii ''('') n) (\<lambda>c.
      Option.bind (tuple_name_rest c ns) (\<lambda>c. const_str_append c (ascii '')''))))
    ((ascii ''('' @ n) @ ?rest @ ascii '')'')"
  proof (rule cs_is_bind [OF const_str_new_is])
    fix c1 assume c1: "cs_ok c1" "cs_str c1 = ascii ''('' @ n"
    have "cs_is (Option.bind (tuple_name_rest c1 ns) (\<lambda>c. const_str_append c (ascii '')'')))
      ((cs_str c1 @ ?rest) @ ascii '')'')"
    proof (rule cs_is_bind [OF tuple_name_rest_is [OF c1(1)]])
      fix c2 assume "cs_ok c2" "cs_str c2 = cs_str c1 @ ?rest"
      then show "cs_is (const_str_append c2 (ascii '')'')) ((cs_str c1 @ ?rest) @ ascii '')'')"
        using const_str_append_is [of c2 "ascii '')''"] by simp
    qed
    then show "cs_is (Option.bind (tuple_name_rest c1 ns) (\<lambda>c. const_str_append c (ascii '')'')))
        ((ascii ''('' @ n) @ ?rest @ ascii '')'')"
      using c1(2) by simp
  qed
  moreover have "is_ascii ((ascii ''('' @ n) @ ?rest @ ascii '')'')"
    using assms n by (auto simp: is_ascii_def ascii_def list_all_iff)
  ultimately show ?thesis
    using as_str_is n by (fastforce simp: tuple_sol_name_def Option.bind_assoc valid_utf8_ascii comma_sep_Cons)
qed

lemma prim_name_ascii: "is_ascii (prim_name p)"
proof -
  have "is_ascii (ascii ''uint'')" "is_ascii (ascii ''int'')" "is_ascii (ascii ''bytes'')"
    "is_ascii (ascii ''bool'')" "is_ascii (ascii ''address'')" by (simp_all add: is_ascii_def ascii_def)
  then show ?thesis by (cases p) simp_all
qed

lemma decimals:
  "decimal 8 = ascii ''8''" "decimal 16 = ascii ''16''" "decimal 32 = ascii ''32''" "decimal 64 = ascii ''64''"
  "decimal 128 = ascii ''128''" "decimal 256 = ascii ''256''"
  by (simp_all add: decimal_def digits_of.simps ascii_def)

lemma comma_sep_ascii: "list_all is_ascii ns \<Longrightarrow> is_ascii (comma_sep ns)"
  by (induction ns rule: comma_sep.induct) (simp_all add: is_ascii_def ascii_def)

lemma abi_name_ascii: "is_ascii (abi_name t)"
proof (induction t)
  case (TTuple ts)
  then have "list_all is_ascii (map abi_name ts)" by (simp add: list_all_iff)
  then have "is_ascii (comma_sep (map abi_name ts))" by (rule comma_sep_ascii)
  then show ?case by (simp add: is_ascii_def ascii_def)
next
  case (TPrim p)
  then show ?case by (simp add: prim_name_ascii)
next
  case (TArr t n)
  moreover have "is_ascii (ascii ''['')" "is_ascii (ascii '']'')" by (simp_all add: is_ascii_def ascii_def)
  ultimately show ?case by simp
qed (simp_all add: is_ascii_def ascii_def)

lemma prim_sol_name_is: "prim_wf p \<Longrightarrow> str_is (prim_sol_name p) (prim_name p)"
proof (cases p)
  case (BytesN n)
  have "cs_is (Option.bind (const_str_new (ascii ''bytes'') []) (\<lambda>c. const_str_append_usize c n))
      (ascii ''bytes'' @ decimal n)"
    using cs_is_bind [OF const_str_new_is, of "ascii ''bytes''" "[]" "\<lambda>c. const_str_append_usize c n" "decimal n"]
      append_usize_is by fastforce
  moreover have "valid_utf8 (ascii ''bytes'' @ decimal n)"
    using prim_name_ascii [of "BytesN n"] by (simp add: valid_utf8_ascii)
  ultimately show ?thesis
    using BytesN as_str_is by (fastforce simp: Option.bind_assoc)
qed (simp_all add: str_is_def ascii_def decimals)

lemma length_comma_sep: "m \<in> set ns \<Longrightarrow> length m \<le> length (comma_sep ns)"
  by (induction ns rule: comma_sep.induct) auto

lemma all_some_is:
  assumes "\<And>t. t \<in> set ts \<Longrightarrow> str_is (f t) (g t)"
  shows "all_some (map f ts) = (if \<forall>t \<in> set ts. length (g t) \<le> 256 then Some (map g ts) else None)"
  using assms by (induction ts) (auto simp: str_is_def)

lemma sol_name_is: "sol_wf t \<Longrightarrow> str_is (sol_name t) (abi_name t)"
proof (induction t)
  case (TPrim p)
  then show ?case by (simp add: prim_sol_name_is)
next
  case (TArr t n)
  then have "str_is (sol_name t) (abi_name t)" by simp
  then show ?case
    using array_sol_name_is [OF abi_name_ascii, of t n] by (auto simp: str_is_def split: if_splits)
next
  case (TVec t)
  then have "str_is (sol_name t) (abi_name t)" by simp
  then show ?case
    using vec_sol_name_is [OF abi_name_ascii, of t] by (auto simp: str_is_def split: if_splits)
next
  case (TTuple ts)
  let ?n = "ascii ''('' @ comma_sep (map abi_name ts) @ ascii '')''"
  have a: "all_some (map sol_name ts) =
      (if \<forall>t \<in> set ts. length (abi_name t) \<le> 256 then Some (map abi_name ts) else None)"
    using TTuple by (intro all_some_is) (auto simp: list_all_iff)
  have t: "str_is (tuple_sol_name (map abi_name ts)) ?n"
    using TTuple.prems abi_name_ascii by (intro tuple_sol_name_is) (auto simp: list_all_iff)
  have l: "length (abi_name t) \<le> length ?n" if "t \<in> set ts" for t
    using length_comma_sep [of "abi_name t" "map abi_name ts"] that by simp
  show ?case
    using a t l by (fastforce simp: str_is_def split: if_splits)
qed (simp_all add: str_is_def ascii_def)

lemma str_eq_from_iff:
  "length a = length b \<Longrightarrow> str_eq_from a b i \<longleftrightarrow> drop i a = drop i b"
proof (induction a b i rule: str_eq_from.induct)
  case (1 a b i)
  show ?case
  proof (cases "i < length a")
    case True
    then have "drop i a = a ! i # drop (Suc i) a" "drop i b = b ! i # drop (Suc i) b"
      using 1(2) by (simp_all add: Cons_nth_drop_Suc)
    then show ?thesis using True 1 by (subst str_eq_from.simps) auto
  next
    case False
    then show ?thesis using 1(2) by (subst str_eq_from.simps) simp
  qed
qed

section \<open>Properties\<close>

text \<open>
  C37: \<open>SOL_NAME\<close> of every type is its canonical ABI name (element names, then \<open>[N]\<close> or
  \<open>[]\<close>, tuples in parentheses), which is what selectors are hashed from; when the name does not
  fit the 256-byte \<open>ConstStr\<close>, constant evaluation fails and the contract does not compile. It is
  never truncated.
\<close>

theorem sol_name_canonical:
  assumes "sol_wf t"
  shows "sol_name t = (if length (abi_name t) \<le> 256 then Some (abi_name t) else None)"
  using sol_name_is [OF assms] by (simp add: str_is_def)

theorem sol_name_canonical_witness:
  "sol_name (TTuple [TArr (TPrim U64) 12, TVec TString]) = Some (ascii ''(uint64[12],string[])'')"
proof -
  have d: "digits_of 12 = [50, 49]" "digits_of 64 = [52, 54]" by (simp_all add: digits_of.simps)
  then show ?thesis
    using sol_name_canonical [of "TTuple [TArr (TPrim U64) 12, TVec TString]"]
    by (simp add: ascii_def decimal_def)
qed

text \<open>
  \<open>str_eq\<close>, the byte loop behind the generated signature assertions, decides string
  equality.
\<close>

theorem str_eq_correct: "str_eq a b \<longleftrightarrow> a = b"
  using str_eq_from_iff [of a b 0] by (auto simp: str_eq_def)

end
