(* ===== verification/SolErrors.thy ===== *)
theory SolErrors
  imports AbiSafety
begin

text \<open>
  Revert data and event topics of \<open>pvm-contract-types\<close>: \<open>DecodeError\<close>, \<open>Panic\<close>,
  \<open>RevertString\<close> (the encoder the two builds share, both decoders), \<open>SolDefaultError\<close> and
  \<open>EventTopics\<close>. A decoder returns \<open>None\<close> for \<open>Err(DecodeError)\<close>, \<open>Some None\<close> for
  \<open>Ok(None)\<close> (another selector) and \<open>Some (Some e)\<close> for the error it recognised; an encoder
  returns the byte count and the buffer, or \<open>None\<close> where indexing panics.
\<close>

type_synonym 'e decoded = "'e option option"
type_synonym written = "(nat \<times> bytes) option"

section \<open>DecodeError\<close>

text \<open>The selector is \<open>keccak256("InvalidCalldata()")[0..4]\<close>, a compile-time constant.\<close>

definition decode_error_encode_to :: "bytes \<Rightarrow> bytes \<Rightarrow> written" where
  "decode_error_encode_to invalid_calldata buf =
     map_option (\<lambda>b. (4, b)) (copy_at buf 0 invalid_calldata)"

text \<open>\<open>input.get(offset..offset + 4).is_some_and(|x| x == SELECTOR)\<close>.\<close>

definition selector_at :: "bytes \<Rightarrow> bytes \<Rightarrow> nat \<Rightarrow> bool" where
  "selector_at selector input offset =
     (case get_range input offset (wadd offset 4) of Some x \<Rightarrow> x = selector | None \<Rightarrow> False)"

definition decode_error_decode_at :: "bytes \<Rightarrow> bytes \<Rightarrow> nat \<Rightarrow> unit decoded" where
  "decode_error_decode_at invalid_calldata input offset =
     (if length input < 4 then None
      else if selector_at invalid_calldata input offset then Some (Some ()) else Some None)"

section \<open>Panic\<close>

datatype panic =
    Generic | AssertFalse | Overflow | DivisionByZero | EnumConversionFailure
  | StorageByteArrayEncoding | EmptyArrayPopFailure | OutOfBoundsAccess | OOM | UninitValueCall
  | Unknown byte

fun panic_code :: "panic \<Rightarrow> byte" where
  "panic_code Generic = 0x00"
| "panic_code AssertFalse = 0x01"
| "panic_code Overflow = 0x11"
| "panic_code DivisionByZero = 0x12"
| "panic_code EnumConversionFailure = 0x21"
| "panic_code StorageByteArrayEncoding = 0x22"
| "panic_code EmptyArrayPopFailure = 0x31"
| "panic_code OutOfBoundsAccess = 0x32"
| "panic_code OOM = 0x41"
| "panic_code UninitValueCall = 0x51"
| "panic_code (Unknown c) = c"

definition PANIC_SELECTOR :: bytes where
  "PANIC_SELECTOR = [0x4e, 0x48, 0x7b, 0x71]"

definition panic_encode_to :: "panic \<Rightarrow> bytes \<Rightarrow> written" where
  "panic_encode_to p buf =
     map_option (\<lambda>b. (36, b))
       (Option.bind (copy_at buf 0 PANIC_SELECTOR) (\<lambda>buf.
        with_suffix buf 4 (\<lambda>buf.
          Option.bind (fill_range buf 0 32 0) (\<lambda>buf. copy_at buf 31 [panic_code p]))))"

text \<open>The match on the decoded \<open>U256\<close>, guard by guard.\<close>

definition panic_of_code :: "256 word \<Rightarrow> panic option" where
  "panic_of_code data =
     (if data = 0x00 then Some Generic
      else if data = 0x01 then Some AssertFalse
      else if data = 0x11 then Some Overflow
      else if data = 0x12 then Some DivisionByZero
      else if data = 0x21 then Some EnumConversionFailure
      else if data = 0x22 then Some StorageByteArrayEncoding
      else if data = 0x31 then Some EmptyArrayPopFailure
      else if data = 0x32 then Some OutOfBoundsAccess
      else if data = 0x41 then Some OOM
      else if data = 0x51 then Some UninitValueCall
      else if data \<le> 0xFF then Some (Unknown (ucast data))
      else None)"

definition panic_decode_at :: "bytes \<Rightarrow> nat \<Rightarrow> panic decoded" where
  "panic_decode_at input offset =
     (if length input < 4 then None
      else if selector_at PANIC_SELECTOR input offset then
        Option.bind (decode_at (codec_of (TTuple [TPrim U256])) input (wadd offset 4)) (\<lambda>v.
        case v of
          VSeq [VPrim (VU256 data)] \<Rightarrow> map_option Some (panic_of_code data)
        | _ \<Rightarrow> None)
      else Some None)"

definition panic_revert :: "panic \<Rightarrow> 's \<Rightarrow> ('s, 'a) res" where
  "panic_revert code s =
     (case panic_encode_to code (replicate 36 0) of
        Some (n, buf) \<Rightarrow> (Inl (Revert (take n buf)), s)
      | None \<Rightarrow> (Inl Trap, s))"

section \<open>RevertString\<close>

definition REVERT_SELECTOR :: bytes where
  "REVERT_SELECTOR = [0x08, 0xc3, 0x79, 0xa0]"

text \<open>\<open>x & !31\<close>.\<close>

definition align_down32 :: "nat \<Rightarrow> nat" where
  "align_down32 n = n div 32 * 32"

definition revert_encoded_size :: "bytes \<Rightarrow> nat" where
  "revert_encoded_size msg = 68 + align_down32 (length msg + 31)"

definition revert_body :: "bytes \<Rightarrow> bytes \<Rightarrow> (nat \<times> bytes) option" where
  "revert_body str_bytes buf =
     (if length buf < 64 then
        (let n = min (length buf) 32 in map_option (\<lambda>b. (4 + n, b)) (fill_range buf 0 n 0))
      else
        (let max_data = align_down32 (length buf - 64);
             actual_len = min (length str_bytes) max_data;
             pad = padding actual_len;
             total = 64 + actual_len + pad in
         map_option (\<lambda>b. (4 + total, b))
           (Option.bind (fill_range buf 0 total 0) (\<lambda>buf.
            Option.bind (copy_at buf 24 (u64_be 32)) (\<lambda>buf.
            Option.bind (copy_at buf 56 (u64_be actual_len)) (\<lambda>buf.
            copy_at buf 64 (take actual_len str_bytes)))))))"

definition revert_encode_to :: "bytes \<Rightarrow> bytes \<Rightarrow> written" where
  "revert_encode_to msg buf =
     Option.bind (copy_at buf 0 REVERT_SELECTOR) (\<lambda>buf.
     map_option (\<lambda>(n, b). (n, take 4 buf @ b)) (revert_body msg (drop 4 buf)))"

text \<open>With \<open>alloc\<close> the message is decoded; without, only the selector is recognised.\<close>

definition revert_decode_at :: "bytes \<Rightarrow> nat \<Rightarrow> bytes decoded" where
  "revert_decode_at input offset =
     (case get_range input offset (wadd offset 4) of
        None \<Rightarrow> None
      | Some selector \<Rightarrow>
          if selector = REVERT_SELECTOR then
            Option.bind (get_range input (wadd offset 4) (length input)) (\<lambda>data.
            Option.bind (decode (codec_of (TTuple [TString])) data) (\<lambda>v.
            case v of VSeq [VData s] \<Rightarrow> Some (Some s) | _ \<Rightarrow> None))
          else Some None)"

definition revert_decode_at_noalloc :: "bytes \<Rightarrow> nat \<Rightarrow> bytes decoded" where
  "revert_decode_at_noalloc input offset =
     (if length input < 4 then None
      else if selector_at REVERT_SELECTOR input offset then Some (Some []) else Some None)"

section \<open>SolDefaultError\<close>

datatype default_error = PanicErr panic | RevertErr bytes

fun default_encoded_size :: "default_error \<Rightarrow> nat" where
  "default_encoded_size (PanicErr p) = 36"
| "default_encoded_size (RevertErr msg) = revert_encoded_size msg"

fun default_encode_to :: "default_error \<Rightarrow> bytes \<Rightarrow> written" where
  "default_encode_to (PanicErr p) buf = panic_encode_to p buf"
| "default_encode_to (RevertErr msg) buf = revert_encode_to msg buf"

text \<open>The decoder over the \<open>RevertString\<close> of the build: with \<open>alloc\<close>, and without.\<close>

definition default_decode_over :: "(bytes \<Rightarrow> nat \<Rightarrow> bytes decoded) \<Rightarrow> bytes \<Rightarrow> nat \<Rightarrow> default_error decoded" where
  "default_decode_over revert_string_decode_at input offset =
     Option.bind (panic_decode_at input offset) (\<lambda>res.
     case res of
       Some p \<Rightarrow> Some (Some (PanicErr p))
     | None \<Rightarrow>
         Option.bind (revert_string_decode_at input offset) (\<lambda>res.
         case res of Some msg \<Rightarrow> Some (Some (RevertErr msg)) | None \<Rightarrow> Some None))"

definition default_decode_at :: "bytes \<Rightarrow> nat \<Rightarrow> default_error decoded" where
  "default_decode_at = default_decode_over revert_decode_at"

definition default_decode_at_noalloc :: "bytes \<Rightarrow> nat \<Rightarrow> default_error decoded" where
  "default_decode_at_noalloc = default_decode_over revert_decode_at_noalloc"

section \<open>EventTopics\<close>

record event_topics =
  topics_buf :: "bytes list"
  topics_len :: nat

definition topics_new :: event_topics where
  "topics_new = \<lparr> topics_buf = replicate 4 (replicate 32 0), topics_len = 0 \<rparr>"

definition topics_push :: "event_topics \<Rightarrow> bytes \<Rightarrow> event_topics option" where
  "topics_push self topic =
     (if topics_len self < 4
      then Some \<lparr> topics_buf = (topics_buf self)[topics_len self := topic], topics_len = topics_len self + 1 \<rparr>
      else None)"

definition topics_as_slice :: "event_topics \<Rightarrow> bytes list" where
  "topics_as_slice self = take (topics_len self) (topics_buf self)"

section \<open>Routing outcomes\<close>

text \<open>
  \<open>Outcome\<close> and \<open>OutSink for &mut [u8]\<close>; the 32-byte read of \<open>value_transferred\<close>, whose two
  builds compare the bytes and the four words or-ed together.
\<close>

datatype outcome = Return nat | Unhandled

definition sink_reserve :: "bytes \<Rightarrow> nat \<Rightarrow> bytes option" where
  "sink_reserve sink len = (if len \<le> length sink then Some (take len sink) else None)"

definition sink_view :: "bytes \<Rightarrow> nat \<Rightarrow> bytes option" where
  "sink_view sink len = (if len \<le> length sink then Some (take len sink) else None)"

definition value_is_nonzero_bytes :: "bytes \<Rightarrow> bool" where
  "value_is_nonzero_bytes buf = (buf \<noteq> replicate 32 0)"

definition le_word64 :: "bytes \<Rightarrow> 64 word" where
  "le_word64 bs = from_be (rev bs)"

definition value_is_nonzero_words :: "bytes \<Rightarrow> bool" where
  "value_is_nonzero_words buf =
     (or (or (or (le_word64 (take 8 buf)) (le_word64 (take 8 (drop 8 buf))))
        (le_word64 (take 8 (drop 16 buf)))) (le_word64 (take 8 (drop 24 buf))) \<noteq> 0)"

section \<open>Lemmas\<close>

lemma length_selectors [simp]: "length PANIC_SELECTOR = 4" "length REVERT_SELECTOR = 4"
  by (simp_all add: PANIC_SELECTOR_def REVERT_SELECTOR_def)

lemma panic_encode_is:
  assumes "36 \<le> length buf"
  shows "panic_encode_to p buf =
    Some (36, PANIC_SELECTOR @ be_bytes 32 (unat (panic_code p)) @ drop 36 buf)"
proof -
  obtain b0 b1 r where b: "buf = b0 @ b1 @ r" "length b0 = 4" "length b1 = 32"
    using split_at3 [of 4 32 buf] assms by auto
  have "Option.bind (fill_range (b1 @ r) 0 31 0) (\<lambda>buf. copy_at buf 31 [panic_code p]) =
      Some (replicate 31 0 @ [panic_code p] @ drop 32 (b1 @ r))"
    using b by (subst fill_then_copy) simp_all
  then show ?thesis
    using b prim_word_uint(5) [of "panic_code p"]
      fill_then_copy [of 31 "[panic_code p]" "b1 @ r" 0]
    by (simp add: panic_encode_to_def PANIC_SELECTOR_def copy_at_def with_suffix_def fill_range_def)
qed

lemma selector_at_prefix:
  "length sel = 4 \<Longrightarrow> selector_at sel (sel' @ r) 0 \<longleftrightarrow> sel' = sel" if "length sel' = 4"
  using that by (simp add: selector_at_def get_range_def usize_limit_def)

lemma decode_u256_tuple:
  assumes "length pre + 64 < usize_limit" "n < 2 ^ 256"
  shows "decode_at (codec_of (TTuple [TPrim U256])) (pre @ be_bytes 32 n) (length pre) =
    Some (VSeq [VPrim (VU256 (of_nat n))])"
proof -
  have "unat (of_nat n :: 256 word) = n" using assms(2) by (simp add: unat_of_nat)
  then have "abi_enc (TTuple [TPrim U256]) (VSeq [VPrim (VU256 (of_nat n))]) = be_bytes 32 n"
    by (simp add: seq_enc_def seq_tails_def item_tail_def)
  then show ?thesis
    using sol.at_back [of "TTuple [TPrim U256]" "VSeq [VPrim (VU256 (of_nat n))]" pre "[]"] assms(1)
    by (simp add: prim_wt_def)
qed

lemma panic_decode_is:
  "panic_decode_at (PANIC_SELECTOR @ be_bytes 32 n) 0 = map_option Some (panic_of_code (of_nat n))"
  if "n < 2 ^ 256"
  using that decode_u256_tuple [of PANIC_SELECTOR n]
  by (simp add: panic_decode_at_def selector_at_prefix usize_limit_def del: codec_of.simps)

definition panic_canonical :: "panic \<Rightarrow> bool" where
  "panic_canonical p \<longleftrightarrow> (case p of
     Unknown c \<Rightarrow> c \<notin> {0x00, 0x01, 0x11, 0x12, 0x21, 0x22, 0x31, 0x32, 0x41, 0x51} | _ \<Rightarrow> True)"

lemma unat_ucast_256: "unat (ucast (c :: byte) :: 256 word) = unat c"
proof -
  have "unat c < 2 ^ 256" using unat_byte_less [of c] by (rule less_trans) simp
  then show ?thesis by (simp add: unsigned_ucast_eq take_bit_nat_eq_self)
qed

lemma word_unsigned_byte_eq: "(ucast (ucast (c :: byte) :: 256 word) :: byte) = c"
  by transfer simp

lemma panic_of_code_canonical:
  "panic_canonical p \<Longrightarrow> panic_of_code (of_nat (unat (panic_code p))) = Some p"
proof (cases p)
  case (Unknown c)
  assume "panic_canonical p"
  moreover have eq: "(ucast c :: 256 word) = of_nat n \<longleftrightarrow> c = of_nat n" if "n < 256" for n :: nat
  proof -
    have "(ucast c :: 256 word) = of_nat n \<longleftrightarrow> unat c = n"
      using that by (simp add: word_unat_eq_iff unat_ucast_256 unat_of_nat)
    also have "\<dots> \<longleftrightarrow> c = of_nat n" using that by (auto simp: word_unat_eq_iff unat_of_nat)
    finally show ?thesis .
  qed
  moreover have "(ucast c :: 256 word) \<le> 0xFF"
    using unat_byte_less [of c] by (simp add: word_le_nat_alt unat_ucast_256 del: unat_byte_less)
  moreover have "(ucast (ucast c :: 256 word) :: byte) = c"
    by (rule word_unsigned_byte_eq)
  ultimately show ?thesis
    using Unknown eq [of 0] eq [of 1] eq [of 17] eq [of 18] eq [of 33] eq [of 34] eq [of 49] eq [of 50]
      eq [of 65] eq [of 81]
    by (simp add: panic_of_code_def panic_canonical_def)
qed (simp_all add: panic_of_code_def)

lemma align_down32_le: "align_down32 n \<le> n" "k \<le> n \<Longrightarrow> 32 dvd k \<Longrightarrow> k \<le> align_down32 n"
  by (simp_all add: align_down32_def) (metis div_le_mono dvd_div_mult_self mult_le_mono1)

lemma align_up32: "length msg \<le> align_down32 (length msg + 31)"
proof -
  have "length msg + 31 = align_down32 (length msg + 31) + (length msg + 31) mod 32"
    by (simp add: align_down32_def)
  moreover have "(length msg + 31) mod 32 < 32" by simp
  ultimately show ?thesis by linarith
qed

lemma padding_align: "n + padding n = align_down32 (n + 31)"
proof (cases "n mod 32 = 0")
  case True
  then obtain k where "n = 32 * k" by auto
  then show ?thesis by (simp add: padding_def align_down32_def)
next
  case False
  let ?m = "n mod 32"
  have p: "padding n = 32 - ?m" using False by (simp add: padding_def)
  have "(n + 31) div 32 = n div 32 + (?m + 31) div 32"
    by (metis div_mult_mod_eq div_mult_self3 add.assoc mult.commute zero_neq_numeral)
  moreover have "(?m + 31) div 32 = 1" using False by (simp add: div_nat_eqI)
  moreover have "n = 32 * (n div 32) + ?m" "?m < 32" by simp_all
  ultimately show ?thesis using p unfolding align_down32_def by linarith
qed

lemma dvd_align_down32: "32 dvd align_down32 n"
  by (simp add: align_down32_def)

text \<open>The bytes kept of a message, and the revert data written for it.\<close>

definition revert_kept :: "bytes \<Rightarrow> nat \<Rightarrow> bytes" where
  "revert_kept msg room = take (align_down32 (room - 64)) msg"

definition revert_data :: "bytes \<Rightarrow> bytes" where
  "revert_data msg = REVERT_SELECTOR @ abi_uint 32 @ data_enc msg"

lemma length_data_enc: "length (data_enc msg) = 32 + align_down32 (length msg + 31)"
  using padding_align [of "length msg"] by (simp add: data_enc_def)

lemma revert_kept_fits:
  "64 \<le> room \<Longrightarrow> length (abi_uint 32 @ data_enc (revert_kept msg room)) \<le> room"
proof -
  assume r: "64 \<le> room"
  let ?k = "min (length msg) (align_down32 (room - 64))"
  have "align_down32 (?k + 31) \<le> align_down32 (room - 64)"
  proof -
    have "(?k + 31) div 32 \<le> (align_down32 (room - 64) + 31) div 32" by (intro div_le_mono) simp
    also have "\<dots> = (room - 64) div 32" by (simp add: align_down32_def)
    finally show ?thesis by (simp add: align_down32_def)
  qed
  then show ?thesis
    using r align_down32_le(1) [of "room - 64"]
    by (simp add: length_data_enc revert_kept_def)
qed

lemma revert_body_is:
  assumes "64 \<le> length buf" "length buf < usize_limit"
  shows "revert_body msg buf =
    (let e = abi_uint 32 @ data_enc (revert_kept msg (length buf))
     in Some (4 + length e, e @ drop (length e) buf))"
proof -
  let ?k = "revert_kept msg (length buf)"
  define n where "n = min (length msg) (align_down32 (length buf - 64))"
  define p where "p = padding n"
  have nle: "n \<le> length msg" by (simp add: n_def)
  have k: "?k = take n msg" "length ?k = n" by (simp_all add: revert_kept_def n_def min_def)
  have fits: "64 + n + p \<le> length buf"
    using revert_kept_fits [OF assms(1), of msg] k padding_align [of n] by (simp add: length_data_enc p_def)
  have pad: "replicate (64 + n + p) (0 :: byte) =
      replicate 24 0 @ replicate 8 0 @ replicate 24 0 @ replicate 8 0 @ replicate n 0 @ replicate p 0"
    by (simp flip: replicate_add)
  let ?r = "drop (64 + n + p) buf"
  have s: "fill_range buf 0 (64 + n + p) 0 = Some (replicate (64 + n + p) 0 @ ?r)"
    using fits by (simp add: fill_range_def copy_at_def)
  have c1: "copy_at (replicate (64 + n + p) 0 @ ?r) 24 (u64_be 32) =
      Some (replicate 24 0 @ u64_be 32 @ replicate 24 0 @ replicate 8 0 @ replicate n 0 @ replicate p 0 @ ?r)"
    unfolding pad by (simp add: copy_at_append)
  have c2: "copy_at (replicate 24 0 @ u64_be 32 @ replicate 24 0 @ replicate 8 0 @ replicate n 0 @ replicate p 0 @ ?r)
      56 (u64_be n) =
      Some (replicate 24 0 @ u64_be 32 @ replicate 24 0 @ u64_be n @ replicate n 0 @ replicate p 0 @ ?r)"
    using copy_at_append [of 56 "replicate 24 0 @ u64_be 32 @ replicate 24 0" "replicate 8 0" "u64_be n"
        "replicate n 0 @ replicate p 0 @ ?r"] by simp
  have c3: "copy_at (replicate 24 0 @ u64_be 32 @ replicate 24 0 @ u64_be n @ replicate n 0 @ replicate p 0 @ ?r)
      64 (take n msg) =
      Some (replicate 24 0 @ u64_be 32 @ replicate 24 0 @ u64_be n @ take n msg @ replicate p 0 @ ?r)"
    using copy_at_append [of 64 "replicate 24 0 @ u64_be 32 @ replicate 24 0 @ u64_be n" "replicate n 0"
        "take n msg" "replicate p 0 @ ?r"] nle by simp
  have w: "replicate 24 0 @ u64_be 32 = abi_uint 32" "replicate 24 0 @ u64_be n = abi_uint n"
    using assms(2) fits by (auto intro: u64_be_word simp: usize_limit_def)
  have body: "replicate 24 0 @ u64_be 32 @ replicate 24 0 @ u64_be n @ take n msg @ replicate p 0 @ ?r =
      (abi_uint 32 @ data_enc ?k) @ ?r"
    using w k by (simp add: data_enc_def p_def)
  have len: "length (abi_uint 32 @ data_enc ?k) = 64 + n + p"
    using k by (simp add: data_enc_def p_def)
  have "revert_body msg buf = Some (4 + (64 + n + p), replicate 24 0 @ u64_be 32 @ replicate 24 0 @ u64_be n @
      take n msg @ replicate p 0 @ ?r)"
    using assms(1) s c1 c2 c3 unfolding revert_body_def Let_def n_def [symmetric] p_def [symmetric] by simp
  then show ?thesis
    using body len by (simp add: Let_def add.assoc)
qed

lemma revert_encode_is:
  assumes "68 \<le> length buf" "length buf < usize_limit"
  shows "revert_encode_to msg buf =
    (let d = revert_data (revert_kept msg (length buf - 4)) in Some (length d, d @ drop (length d) buf))"
proof -
  have c: "copy_at buf 0 REVERT_SELECTOR = Some (REVERT_SELECTOR @ drop 4 buf)"
    using assms(1) by (simp add: copy_at_def)
  have b: "revert_body msg (drop 4 buf) =
    (let e = abi_uint 32 @ data_enc (revert_kept msg (length buf - 4))
     in Some (4 + length e, e @ drop (length e) (drop 4 buf)))"
    using revert_body_is [of "drop 4 buf" msg] assms by simp
  show ?thesis
    using assms(1) by (simp add: revert_encode_to_def c b Let_def revert_data_def add.commute)
qed

lemma revert_kept_all:
  "revert_encoded_size msg \<le> room + 4 \<Longrightarrow> revert_kept msg room = msg"
proof -
  assume "revert_encoded_size msg \<le> room + 4"
  then have "align_down32 (length msg + 31) \<le> room - 64"
    by (simp add: revert_encoded_size_def)
  then have "align_down32 (length msg + 31) \<le> align_down32 (room - 64)"
    by (intro align_down32_le(2)) (simp_all add: dvd_align_down32)
  then show ?thesis using align_up32 [of msg] by (simp add: revert_kept_def)
qed

lemma length_revert_data: "length (revert_data msg) = revert_encoded_size msg"
  by (simp add: revert_data_def length_data_enc revert_encoded_size_def)

lemma revert_string_top:
  "abi_enc_top (TTuple [TString]) (VSeq [VData s]) = abi_uint 32 @ data_enc s"
  by (simp add: abi_enc_top_def seq_enc_def seq_head_len_def seq_tails_def item_head_def item_tail_def)

lemma decode_one_string:
  assumes "length (abi_uint 32 @ data_enc s) + 32 < usize_limit"
  shows "decode (codec_of (TTuple [TString])) (abi_uint 32 @ data_enc s) =
    (if valid_utf8 s then Some (VSeq [VData s]) else None)"
proof (cases "valid_utf8 s")
  case True
  then show ?thesis
    using decode_abi_top [of "TTuple [TString]" "VSeq [VData s]" "[]"] assms
    by (simp add: revert_string_top)
next
  case False
  have "string_decode_tail (abi_uint 32 @ data_enc s) 32 = None"
  proof -
    have "bytes_decode_tail (abi_uint 32 @ data_enc s) 32 = Some s"
      using data_tail(1) [of "abi_uint 32" s "[]"] assms by simp
    then show ?thesis
      using False by (auto simp: bytes_decode_tail_def string_decode_tail_def split: bind_splits if_splits)
  qed
  moreover have "read_word_offset (abi_uint 32 @ data_enc s) 0 = Some 32"
    using read_word_abi_uint [of 0 "[]" 32 "data_enc s"] by (simp add: usize_limit_def)
  ultimately show ?thesis
    using False
    by (simp add: decode_def impl_tuple_def tuple_decode_at_def impl_string_def usize_limit_def)
qed

lemma revert_decode_is:
  assumes "length (revert_data s) + 32 < usize_limit"
  shows "revert_decode_at (revert_data s) 0 = (if valid_utf8 s then Some (Some s) else None)"
proof -
  have "get_range (revert_data s) 0 4 = Some REVERT_SELECTOR"
    by (simp add: revert_data_def get_range_def)
  moreover have "get_range (revert_data s) 4 (length (revert_data s)) = Some (abi_uint 32 @ data_enc s)"
    by (simp add: revert_data_def get_range_def)
  moreover have "length (abi_uint 32 @ data_enc s) + 32 < usize_limit"
    using assms by (simp add: revert_data_def)
  ultimately show ?thesis
    by (simp add: revert_decode_at_def decode_one_string usize_limit_def del: codec_of.simps)
qed

section \<open>Properties of errors\<close>

text \<open>
  A Solidity panic survives the wire. \<open>Panic::encode_to\<close> writes the selector and the code
  as a 32-byte word, and \<open>Panic::decode_at\<close> of those 36 bytes gives the variant back, for every
  variant whose code is its own (\<open>Unknown\<close> of a code that has a named variant is the
  exception: it comes back as that variant).
\<close>

theorem panic_round_trip:
  assumes "panic_canonical p"
  shows "\<exists>b. panic_encode_to p (replicate 36 x) = Some (36, b) \<and>
    b = PANIC_SELECTOR @ be_bytes 32 (unat (panic_code p)) \<and> panic_decode_at b 0 = Some (Some p)"
proof -
  have "unat (panic_code p) < 2 ^ 256"
    using unat_byte_less [of "panic_code p"] by (rule less_trans) simp
  then show ?thesis
    using panic_encode_is [of "replicate 36 x" p] panic_decode_is [of "unat (panic_code p)"]
      panic_of_code_canonical [OF assms] by simp
qed

theorem panic_round_trip_witness:
  "\<exists>b. panic_encode_to (Unknown 0x99) (replicate 36 7) = Some (36, b) \<and>
    b = PANIC_SELECTOR @ be_bytes 32 (unat (panic_code (Unknown 0x99))) \<and>
    panic_decode_at b 0 = Some (Some (Unknown 0x99))"
  using panic_round_trip [of "Unknown 0x99" 7] by (simp add: panic_canonical_def)

text \<open>
  The exception is real: \<open>Panic::Unknown(0x01)\<close> encodes to the bytes of
  \<open>Panic::AssertFalse\<close> and decodes to it, so \<open>code() <-> decode_at\<close> does not round-trip every
  variant.
\<close>

theorem panic_unknown_not_round_trip:
  "\<exists>b. panic_encode_to (Unknown 0x01) (replicate 36 0) = Some (36, b) \<and>
    panic_decode_at b 0 = Some (Some AssertFalse)"
  using panic_encode_is [of "replicate 36 0" "Unknown 0x01"] panic_decode_is [of 1]
  by (simp add: panic_of_code_def)

text \<open>
  The shared panic exit of the storage layer always reverts, with exactly the data Solidity
  uses for the code: it neither traps nor returns.
\<close>

theorem panic_revert_data:
  "panic_revert code s = (Inl (Revert (PANIC_SELECTOR @ be_bytes 32 (unat (panic_code code)))), s)"
  using panic_encode_is [of "replicate 36 0" code] by (simp add: panic_revert_def)

text \<open>
  C38: \<open>RevertString\<close> round-trips in the build with \<open>alloc\<close>: into any buffer of at least
  \<open>encoded_size\<close> bytes the encoder writes \<open>encoded_size\<close> bytes, the ABI encoding of \<open>Error(string)\<close>,
  and the decoder of that build gives the message back. The decoder of the build without \<open>alloc\<close>
  recognises the error and, as documented, gives the empty message in place of the one sent.
\<close>

theorem revert_string_round_trip:
  assumes "valid_utf8 msg" "revert_encoded_size msg \<le> length buf" "length buf + 32 < usize_limit"
  shows "\<exists>b. revert_encode_to msg buf = Some (revert_encoded_size msg, b) \<and>
    take (revert_encoded_size msg) b = REVERT_SELECTOR @ abi_enc_top (TTuple [TString]) (VSeq [VData msg]) \<and>
    revert_decode_at (take (revert_encoded_size msg) b) 0 = Some (Some msg) \<and>
    revert_decode_at_noalloc (take (revert_encoded_size msg) b) 0 = Some (Some [])"
proof -
  have l: "68 \<le> length buf" using assms(2) by (simp add: revert_encoded_size_def)
  have k: "revert_kept msg (length buf - 4) = msg"
    using assms(2) l by (intro revert_kept_all) simp
  have "length (revert_data msg) + 32 < usize_limit" using assms by (simp add: length_revert_data)
  from revert_decode_is [OF this] show ?thesis
    using revert_encode_is [of buf msg] l assms k length_revert_data [of msg]
    by (simp add: Let_def) (simp add: revert_data_def revert_string_top revert_decode_at_noalloc_def selector_at_prefix)
qed

theorem revert_string_round_trip_witness:
  "\<exists>b. revert_encode_to [111, 107] (replicate 256 0) = Some (100, b) \<and>
    take 100 b = REVERT_SELECTOR @ abi_enc_top (TTuple [TString]) (VSeq [VData [111, 107]]) \<and>
    revert_decode_at (take 100 b) 0 = Some (Some [111, 107]) \<and>
    revert_decode_at_noalloc (take 100 b) 0 = Some (Some [])"
  using revert_string_round_trip [of "[111, 107]" "replicate 256 0"]
  by (simp add: revert_encoded_size_def align_down32_def usize_limit_def)

text \<open>
  \<open>RevertString::encode_to\<close> never panics on a buffer that holds the selector, and never
  claims more bytes than the buffer has; when the message does not fit it is cut to the longest
  multiple of 32 bytes that does, and what was written is the encoding of that prefix.
\<close>

theorem revert_string_truncates:
  assumes "4 \<le> length buf" "length buf < usize_limit"
  shows "\<exists>n b. revert_encode_to msg buf = Some (n, b) \<and> n \<le> length buf \<and> length b = length buf \<and>
    (68 \<le> length buf \<longrightarrow> take n b = revert_data (revert_kept msg (length buf - 4)))"
proof (cases "68 \<le> length buf")
  case True
  then have "64 \<le> length buf - 4" by simp
  from revert_kept_fits [OF this, of msg]
  have "length (revert_data (revert_kept msg (length buf - 4))) \<le> length buf"
    using True by (simp add: revert_data_def)
  then show ?thesis using revert_encode_is [OF True assms(2), of msg] by (simp add: Let_def)
next
  case False
  have c: "copy_at buf 0 REVERT_SELECTOR = Some (REVERT_SELECTOR @ drop 4 buf)"
    using assms(1) by (simp add: copy_at_def)
  show ?thesis
    using assms(1) False by (auto simp: revert_encode_to_def c revert_body_def fill_range_def copy_at_def min_def)
qed

theorem revert_string_truncates_witness:
  "\<exists>n b. revert_encode_to (replicate 200 97) (replicate 100 0) = Some (n, b) \<and> n \<le> 100 \<and> length b = 100 \<and>
    take n b = revert_data (replicate 32 97)"
  using revert_string_truncates [of "replicate 100 0" "replicate 200 97"]
  by (simp add: usize_limit_def revert_kept_def align_down32_def)

text \<open>
  The cut ignores character boundaries. A message of 31 ASCII bytes and one two-byte
  character, written to a 100-byte buffer, loses the second byte of that character, and the data
  the encoder produced is rejected by the decoder.
\<close>

theorem revert_string_truncation_breaks_utf8:
  "valid_utf8 (replicate 31 97 @ [0xC3, 0xA9]) \<and>
   (\<exists>n b. revert_encode_to (replicate 31 97 @ [0xC3, 0xA9]) (replicate 100 0) = Some (n, b) \<and>
     revert_decode_at (take n b) 0 = None)"
proof -
  have v: "valid_utf8 (replicate n 97 @ s) = valid_utf8 s" for n s
    by (induction n) simp_all
  have k: "revert_kept (replicate 31 97 @ [0xC3, 0xA9]) 96 = replicate 31 97 @ [0xC3]"
    by (simp add: revert_kept_def align_down32_def)
  have "revert_decode_at (revert_data (replicate 31 97 @ [0xC3])) 0 = None"
    by (subst revert_decode_is)
      (simp_all add: v length_revert_data revert_encoded_size_def align_down32_def usize_limit_def)
  then show ?thesis
    using revert_encode_is [of "replicate 100 0" "replicate 31 97 @ [0xC3, 0xA9]"]
    by (simp add: v k Let_def usize_limit_def utf8_cont_def)
qed

lemma selector_mismatch: "REVERT_SELECTOR \<noteq> PANIC_SELECTOR"
  by (simp add: REVERT_SELECTOR_def PANIC_SELECTOR_def)

lemma default_decode_panic:
  assumes "panic_canonical p"
  shows "default_decode_at (PANIC_SELECTOR @ be_bytes 32 (unat (panic_code p))) 0 = Some (Some (PanicErr p))"
proof -
  have "unat (panic_code p) < 2 ^ 256"
    using unat_byte_less [of "panic_code p"] by (rule less_trans) simp
  then show ?thesis
    using panic_decode_is [of "unat (panic_code p)"] panic_of_code_canonical [OF assms]
    by (simp add: default_decode_at_def default_decode_over_def)
qed

lemma default_decode_revert:
  assumes "valid_utf8 msg" "length (revert_data msg) + 32 < usize_limit"
  shows "default_decode_at (revert_data msg) 0 = Some (Some (RevertErr msg))"
proof -
  have "\<not> selector_at PANIC_SELECTOR (revert_data msg) 0"
    using selector_mismatch by (simp add: revert_data_def selector_at_prefix)
  then have "panic_decode_at (revert_data msg) 0 = Some None"
    by (simp add: panic_decode_at_def revert_data_def)
  then show ?thesis
    using revert_decode_is [OF assms(2)] assms(1) by (simp add: default_decode_at_def default_decode_over_def)
qed

fun default_wf :: "default_error \<Rightarrow> bool" where
  "default_wf (PanicErr p) = panic_canonical p"
| "default_wf (RevertErr msg) = valid_utf8 msg"

text \<open>
  \<open>SolDefaultError\<close> is the disjoint union of its two selectors: encoding either variant into
  a buffer of \<open>encoded_size\<close> bytes fills it, and decoding tries the selectors in turn and
  returns the same variant with the same payload.
\<close>

theorem default_error_round_trip:
  assumes "default_wf e" "length buf = default_encoded_size e" "length buf + 32 < usize_limit"
  shows "\<exists>b. default_encode_to e buf = Some (default_encoded_size e, b) \<and> length b = length buf \<and>
    default_decode_at b 0 = Some (Some e)"
proof (cases e)
  case (PanicErr p)
  then show ?thesis
    using panic_encode_is [of buf p] default_decode_panic [of p] assms by simp
next
  case (RevertErr msg)
  then have l: "length buf = revert_encoded_size msg" "68 \<le> length buf"
    using assms(2) by (simp_all add: revert_encoded_size_def)
  then have "revert_kept msg (length buf - 4) = msg" by (intro revert_kept_all) simp
  then show ?thesis
    using RevertErr l revert_encode_is [of buf msg] default_decode_revert [of msg] assms
    by (simp add: Let_def length_revert_data)
qed

theorem default_error_round_trip_witness:
  "\<exists>b. default_encode_to (RevertErr [104, 105]) (replicate 100 1) = Some (100, b) \<and> length b = 100 \<and>
    default_decode_at b 0 = Some (Some (RevertErr [104, 105]))"
  using default_error_round_trip [of "RevertErr [104, 105]" "replicate 100 1"]
  by (simp add: revert_encoded_size_def align_down32_def usize_limit_def)

section \<open>Event topics\<close>

fun topics_push_all :: "event_topics \<Rightarrow> bytes list \<Rightarrow> event_topics option" where
  "topics_push_all t [] = Some t"
| "topics_push_all t (x # xs) = Option.bind (topics_push t x) (\<lambda>t. topics_push_all t xs)"

lemma topics_push_all_is:
  assumes "length (topics_buf t) = 4" "topics_len t \<le> 4"
  shows "(if topics_len t + length xs \<le> 4
    then \<exists>u. topics_push_all t xs = Some u \<and> topics_as_slice u = topics_as_slice t @ xs
    else topics_push_all t xs = None)"
  using assms
proof (induction xs arbitrary: t)
  case (Cons x xs)
  show ?case
  proof (cases "topics_len t < 4")
    case True
    let ?u = "\<lparr> topics_buf = (topics_buf t)[topics_len t := x], topics_len = Suc (topics_len t) \<rparr>"
    have "topics_as_slice ?u = topics_as_slice t @ [x]"
      using True Cons.prems by (simp add: topics_as_slice_def take_Suc_conv_app_nth)
    then show ?thesis using Cons.IH [of ?u] Cons.prems True by (simp add: topics_push_def split: if_splits)
  qed (simp add: topics_push_def)
qed (simp add: topics_as_slice_def)

text \<open>
  Pushing topics onto a fresh \<open>EventTopics\<close> yields exactly the pushed topics, in order, up to
  the EVM limit of four; a fifth panics and is never silently dropped.
\<close>

theorem event_topics_collect:
  "map_option topics_as_slice (topics_push_all topics_new xs) = (if length xs \<le> 4 then Some xs else None)"
  using topics_push_all_is [of topics_new xs] by (auto simp: topics_new_def topics_as_slice_def split: if_splits)

section \<open>Transferred value\<close>

lemma le_word64_0: "length bs = 8 \<Longrightarrow> le_word64 bs = 0 \<longleftrightarrow> bs = replicate 8 0"
proof -
  assume l: "length bs = 8"
  have "le_word64 bs = 0 \<longleftrightarrow> to_be (le_word64 bs) = to_be (0 :: 64 word)"
    by (simp add: to_be_inj)
  also have "\<dots> \<longleftrightarrow> rev bs = replicate 8 0"
    using l by (simp add: le_word64_def) (simp add: to_be_def)
  also have "\<dots> \<longleftrightarrow> bs = replicate 8 0" by (metis rev_replicate rev_rev_ident)
  finally show ?thesis .
qed

text \<open>
  The two builds of the payable check agree: or-ing the four 64-bit words of the
  transferred value tests the same thing as comparing its 32 bytes with zero.
\<close>

theorem value_nonzero_builds_agree:
  assumes "length buf = 32"
  shows "value_is_nonzero_words buf = value_is_nonzero_bytes buf"
proof -
  obtain a b c d where b: "buf = a @ b @ c @ d" "length a = 8" "length b = 8" "length c = 8" "length d = 8"
  proof -
    obtain a b r where 1: "buf = a @ b @ r" "length a = 8" "length b = 8"
      using split_at3 [of 8 8 buf] assms by auto
    moreover obtain c d where "r = c @ d" "length c = 8"
      using split_at [of 8 r] 1 assms by auto
    ultimately show thesis using that assms by simp
  qed
  have r: "replicate 32 (0 :: byte) = replicate 8 0 @ replicate 8 0 @ replicate 8 0 @ replicate 8 0"
    by (simp flip: replicate_add)
  show ?thesis
    using b by (simp add: value_is_nonzero_words_def value_is_nonzero_bytes_def r le_word64_0 or_eq_0_iff)
qed

theorem value_nonzero_builds_agree_witness:
  "value_is_nonzero_words (be_bytes 32 5) = value_is_nonzero_bytes (be_bytes 32 5)"
  by (rule value_nonzero_builds_agree) simp

end
