(* ===== verification/Int256.thy ===== *)
theory Int256
  imports Primitives "HOL-Library.Signed_Division"
begin

text \<open>
  \<open>i256.rs\<close>: the signed 256-bit integer the SDK builds over \<open>ruint\<close>'s \<open>U256\<close>, which is the
  256-bit machine integer here (\<open>256 word\<close>, with its documented wrapping operations). The
  abstract specification is the integer \<open>int_of a\<close> that the two's-complement bits stand for:
  every operation is shown to compute the integer operation, its overflow flag exactly when the
  result leaves the range of Solidity's \<open>int256\<close>. The comparison of the code makes the type a
  linear order, by an instance of the library's class.
\<close>

unbundle bit_operations_syntax

datatype i256 = I256 (raw: "256 word")

definition limb :: "256 word \<Rightarrow> nat \<Rightarrow> 64 word" where
  "limb w i = ucast (drop_bit (64 * i) w)"

definition SIGN_BIT_LIMB :: "64 word" where
  "SIGN_BIT_LIMB = push_bit 63 1"

definition i256_ZERO :: i256 where "i256_ZERO = I256 0"
definition i256_ONE :: i256 where "i256_ONE = I256 1"
definition i256_MINUS_ONE :: i256 where "i256_MINUS_ONE = I256 (-1)"
definition i256_MIN :: i256 where "i256_MIN = I256 (push_bit 255 1)"
definition i256_MAX :: i256 where "i256_MAX = I256 (drop_bit 1 (-1))"

definition is_negative :: "i256 \<Rightarrow> bool" where
  "is_negative a = (limb (raw a) 3 AND SIGN_BIT_LIMB \<noteq> 0)"

definition is_positive :: "i256 \<Rightarrow> bool" where
  "is_positive a = (\<not> is_negative a \<and> raw a \<noteq> 0)"

definition i256_add :: "i256 \<Rightarrow> i256 \<Rightarrow> i256" where
  "i256_add a b = I256 (raw a + raw b)"

definition i256_sub :: "i256 \<Rightarrow> i256 \<Rightarrow> i256" where
  "i256_sub a b = I256 (raw a - raw b)"

definition i256_mul :: "i256 \<Rightarrow> i256 \<Rightarrow> i256" where
  "i256_mul a b = I256 (raw a * raw b)"

definition i256_neg :: "i256 \<Rightarrow> i256" where
  "i256_neg a = I256 (- raw a)"

definition i256_not :: "i256 \<Rightarrow> i256" where
  "i256_not a = I256 (NOT (raw a))"

definition i256_bitand :: "i256 \<Rightarrow> i256 \<Rightarrow> i256" where
  "i256_bitand a b = I256 (raw a AND raw b)"

definition i256_bitor :: "i256 \<Rightarrow> i256 \<Rightarrow> i256" where
  "i256_bitor a b = I256 (raw a OR raw b)"

definition i256_bitxor :: "i256 \<Rightarrow> i256 \<Rightarrow> i256" where
  "i256_bitxor a b = I256 (raw a XOR raw b)"

definition i256_shl :: "i256 \<Rightarrow> nat \<Rightarrow> i256" where
  "i256_shl a rhs = I256 (push_bit rhs (raw a))"

definition i256_abs :: "i256 \<Rightarrow> i256" where
  "i256_abs a = (if is_negative a then i256_neg a else a)"

definition unsigned_abs :: "i256 \<Rightarrow> 256 word" where
  "unsigned_abs a = (if is_negative a then - raw a else raw a)"

definition overflowing_add :: "i256 \<Rightarrow> i256 \<Rightarrow> i256 \<times> bool" where
  "overflowing_add a b =
     (let result = I256 (raw a + raw b);
          overflow = (is_negative a = is_negative b \<and> is_negative result \<noteq> is_negative a)
      in (result, overflow))"

definition i256_checked_add :: "i256 \<Rightarrow> i256 \<Rightarrow> i256 option" where
  "i256_checked_add a b =
     (let (result, overflow) = overflowing_add a b in if overflow then None else Some result)"

definition overflowing_sub :: "i256 \<Rightarrow> i256 \<Rightarrow> i256 \<times> bool" where
  "overflowing_sub a b =
     (let result = I256 (raw a - raw b);
          overflow = (is_negative a \<noteq> is_negative b \<and> is_negative result = is_negative b)
      in (result, overflow))"

definition i256_checked_sub :: "i256 \<Rightarrow> i256 \<Rightarrow> i256 option" where
  "i256_checked_sub a b =
     (let (result, overflow) = overflowing_sub a b in if overflow then None else Some result)"

text \<open>\<open>U256::overflowing_mul\<close> is \<open>ruint\<close>'s, a parameter.\<close>

definition overflowing_mul :: "(256 word \<Rightarrow> 256 word \<Rightarrow> 256 word \<times> bool) \<Rightarrow> i256 \<Rightarrow> i256 \<Rightarrow> i256 \<times> bool" where
  "overflowing_mul u256_overflowing_mul a b =
     (if raw a = 0 \<or> raw b = 0 then (i256_ZERO, False)
      else
        let result_negative = (is_negative a \<noteq> is_negative b);
            (abs, abs_overflow) = u256_overflowing_mul (unsigned_abs a) (unsigned_abs b);
            max_abs_pos = raw i256_MAX;
            signed = (if result_negative then I256 (- abs) else I256 abs);
            range_overflow =
              (if result_negative then abs > unsigned_abs i256_MIN else abs > max_abs_pos)
        in (signed, abs_overflow \<or> range_overflow))"

definition i256_checked_mul :: "(256 word \<Rightarrow> 256 word \<Rightarrow> 256 word \<times> bool) \<Rightarrow> i256 \<Rightarrow> i256 \<Rightarrow> i256 option" where
  "i256_checked_mul u256_overflowing_mul a b =
     (let (result, overflow) = overflowing_mul u256_overflowing_mul a b in if overflow then None else Some result)"

definition i256_from_signed :: "'a::len word \<Rightarrow> i256" where
  "i256_from_signed value =
     (let buf = replicate 32 (if sint value < 0 then 0xff else 0);
          bytes = to_be value;
          off = 32 - length bytes
      in I256 (from_be (take off buf @ bytes)))"

definition i256_shr :: "i256 \<Rightarrow> nat \<Rightarrow> i256" where
  "i256_shr a rhs =
     (let logical = drop_bit rhs (raw a) in
      if is_negative a \<and> rhs > 0 then
        (if rhs \<ge> 256 then i256_MINUS_ONE
         else let mask = push_bit (256 - rhs) (NOT 0) in I256 (logical OR mask))
      else I256 logical)"

text \<open>\<open>assert!(rhs.0 != U256::ZERO)\<close>: \<open>None\<close> is the panic.\<close>

definition i256_div :: "i256 \<Rightarrow> i256 \<Rightarrow> i256 option" where
  "i256_div a b =
     (if raw b = 0 then None
      else if a = i256_MIN \<and> b = i256_MINUS_ONE then Some i256_MIN
      else
        let neg = (is_negative a \<noteq> is_negative b);
            abs = unsigned_abs a div unsigned_abs b
        in Some (if neg then I256 (- abs) else I256 abs))"

definition i256_rem :: "i256 \<Rightarrow> i256 \<Rightarrow> i256 option" where
  "i256_rem a b =
     (if raw b = 0 then None
      else if a = i256_MIN \<and> b = i256_MINUS_ONE then Some i256_ZERO
      else
        let abs = unsigned_abs a mod unsigned_abs b
        in Some (if is_negative a then I256 (- abs) else I256 abs))"

datatype ordering = Less | Equal | Greater

definition i256_cmp :: "i256 \<Rightarrow> i256 \<Rightarrow> ordering" where
  "i256_cmp a b =
     (let sign = push_bit 192 (ucast SIGN_BIT_LIMB);
          x = raw a XOR sign; y = raw b XOR sign
      in if x < y then Less else if x = y then Equal else Greater)"

text \<open>\<open>U256::from_str\<close> is \<open>ruint\<close>'s parser, a parameter.\<close>

definition i256_from_str :: "(bytes \<Rightarrow> 256 word option) \<Rightarrow> bytes \<Rightarrow> i256 option" where
  "i256_from_str u256_from_str s =
     (let (negative, rest) =
        (case s of
           c # r \<Rightarrow> if c = 45 then (True, r) else if c = 43 then (False, r) else (False, s)
         | [] \<Rightarrow> (False, s))
      in map_option (\<lambda>v. if negative then I256 (- v) else I256 v) (u256_from_str rest))"

section \<open>The integer a value stands for\<close>

definition int_of :: "i256 \<Rightarrow> int" where
  "int_of a = sint (raw a)"

definition in_i256 :: "int \<Rightarrow> bool" where
  "in_i256 x \<longleftrightarrow> - (2 ^ 255) \<le> x \<and> x < 2 ^ 255"

definition of_i256 :: "int \<Rightarrow> i256" where
  "of_i256 x = I256 (word_of_int x)"

lemma int_of_range: "in_i256 (int_of a)"
  using sint_ge [of "raw a"] sint_lt [of "raw a"] by (simp add: in_i256_def int_of_def)

lemma of_int_of [simp]: "of_i256 (int_of a) = a"
  by (simp add: of_i256_def int_of_def)

lemma int_of_inj: "int_of a = int_of b \<longleftrightarrow> a = b"
  by (metis of_int_of)

lemma raw_int: "raw a = word_of_int (int_of a)"
  by (simp add: int_of_def)

lemma mod_pos_pos_trivial_minus: "(b :: int) \<le> x \<Longrightarrow> x < 2 * b \<Longrightarrow> x mod b = x - b"
proof -
  assume "b \<le> x" "x < 2 * b"
  then have "(x - b) mod b = x - b" by (intro mod_pos_pos_trivial) auto
  then show ?thesis by simp
qed

lemma int_of_of: "in_i256 x \<Longrightarrow> int_of (of_i256 x) = x"
  by (simp add: in_i256_def int_of_def of_i256_def int_word_sint)

text \<open>One step outside the range wraps to the other side.\<close>

lemma int_of_above: "2 ^ 255 \<le> x \<Longrightarrow> x < 2 ^ 255 + 2 ^ 256 \<Longrightarrow> int_of (of_i256 x) = x - 2 ^ 256"
proof -
  assume x: "2 ^ 255 \<le> x" "x < 2 ^ 255 + 2 ^ 256"
  have "(x + 2 ^ 255) mod 2 ^ 256 = x + 2 ^ 255 - 2 ^ 256"
    using x by (intro mod_pos_pos_trivial_minus) simp_all
  then show ?thesis by (simp add: int_of_def of_i256_def int_word_sint)
qed

lemma int_of_below: "- (2 ^ 255) - 2 ^ 256 \<le> x \<Longrightarrow> x < - (2 ^ 255) \<Longrightarrow> int_of (of_i256 x) = x + 2 ^ 256"
proof -
  assume x: "- (2 ^ 255) - 2 ^ 256 \<le> x" "x < - (2 ^ 255)"
  have "(x + 2 ^ 255) mod 2 ^ 256 = (x + 2 ^ 255 + 2 ^ 256) mod 2 ^ 256"
    by (rule mod_add_self2 [symmetric])
  also have "\<dots> = x + 2 ^ 255 + 2 ^ 256" using x by (intro mod_pos_pos_trivial) auto
  finally show ?thesis by (simp add: int_of_def of_i256_def int_word_sint)
qed

lemma is_negative_iff: "is_negative a \<longleftrightarrow> int_of a < 0"
proof -
  have "is_negative a \<longleftrightarrow> bit (limb (raw a) 3) 63"
    by (simp add: is_negative_def SIGN_BIT_LIMB_def bit_iff_and_push_bit_not_eq_0)
  also have "\<dots> \<longleftrightarrow> bit (raw a) 255" by (simp add: limb_def bit_simps)
  also have "\<dots> \<longleftrightarrow> int_of a < 0" using bit_last_iff [of "raw a"] by (simp add: int_of_def)
  finally show ?thesis .
qed

lemma uint_raw: "uint (raw a) = (if int_of a < 0 then int_of a + 2 ^ 256 else int_of a)"
proof -
  have "uint (raw a) = sint (raw a) mod 2 ^ 256"
    by (simp add: uint_sint take_bit_eq_mod)
  moreover have "sint (raw a) mod 2 ^ 256 = (if int_of a < 0 then int_of a + 2 ^ 256 else int_of a)"
  proof (cases "int_of a < 0")
    case True
    have "(int_of a + 2 ^ 256) mod 2 ^ 256 = int_of a + 2 ^ 256"
      using True int_of_range [of a] by (intro mod_pos_pos_trivial) (auto simp: in_i256_def)
    then show ?thesis using True by (simp add: int_of_def)
  next
    case False
    then show ?thesis using int_of_range [of a] by (simp add: in_i256_def int_of_def)
  qed
  ultimately show ?thesis by simp
qed

lemma i256_ops_int:
  "i256_add a b = of_i256 (int_of a + int_of b)"
  "i256_sub a b = of_i256 (int_of a - int_of b)"
  "i256_mul a b = of_i256 (int_of a * int_of b)"
  "i256_neg a = of_i256 (- int_of a)"
  by (simp_all add: i256_add_def i256_sub_def i256_mul_def i256_neg_def of_i256_def raw_int
      del: of_int_of)

lemma overflowing_add_int:
  "overflowing_add a b = (of_i256 (int_of a + int_of b), \<not> in_i256 (int_of a + int_of b))"
proof -
  let ?x = "int_of a + int_of b"
  have r: "I256 (raw a + raw b) = of_i256 ?x" using i256_ops_int(1) by (simp add: i256_add_def)
  have ab: "in_i256 (int_of a)" "in_i256 (int_of b)" by (rule int_of_range)+
  consider "in_i256 ?x" | "2 ^ 255 \<le> ?x" | "?x < - (2 ^ 255)"
    unfolding in_i256_def by linarith
  then show ?thesis
  proof cases
    case 1
    then show ?thesis
      using ab int_of_of [OF 1] by (auto simp: overflowing_add_def Let_def r is_negative_iff)
  next
    case 2
    then have "int_of (of_i256 ?x) = ?x - 2 ^ 256"
      using ab by (intro int_of_above) (auto simp: in_i256_def)
    then show ?thesis
      using ab 2 by (auto simp: overflowing_add_def Let_def r is_negative_iff in_i256_def)
  next
    case 3
    then have "int_of (of_i256 ?x) = ?x + 2 ^ 256"
      using ab by (intro int_of_below) (auto simp: in_i256_def)
    then show ?thesis
      using ab 3 by (auto simp: overflowing_add_def Let_def r is_negative_iff in_i256_def)
  qed
qed

lemma overflowing_sub_int:
  "overflowing_sub a b = (of_i256 (int_of a - int_of b), \<not> in_i256 (int_of a - int_of b))"
proof -
  let ?x = "int_of a - int_of b"
  have r: "I256 (raw a - raw b) = of_i256 ?x" using i256_ops_int(2) by (simp add: i256_sub_def)
  have ab: "in_i256 (int_of a)" "in_i256 (int_of b)" by (rule int_of_range)+
  consider "in_i256 ?x" | "2 ^ 255 \<le> ?x" | "?x < - (2 ^ 255)"
    unfolding in_i256_def by linarith
  then show ?thesis
  proof cases
    case 1
    then show ?thesis
      using ab int_of_of [OF 1] by (auto simp: overflowing_sub_def Let_def r is_negative_iff)
  next
    case 2
    then have "int_of (of_i256 ?x) = ?x - 2 ^ 256"
      using ab by (intro int_of_above) (auto simp: in_i256_def)
    then show ?thesis
      using ab 2 by (auto simp: overflowing_sub_def Let_def r is_negative_iff in_i256_def)
  next
    case 3
    then have "int_of (of_i256 ?x) = ?x + 2 ^ 256"
      using ab by (intro int_of_below) (auto simp: in_i256_def)
    then show ?thesis
      using ab 3 by (auto simp: overflowing_sub_def Let_def r is_negative_iff in_i256_def)
  qed
qed

lemma unsigned_abs_int: "uint (unsigned_abs a) = \<bar>int_of a\<bar>"
proof (cases "int_of a < 0")
  case True
  have "uint (- raw a) = (- int_of a) mod 2 ^ 256"
    by (simp add: raw_int del: of_int_of) (simp add: uint_word_of_int flip: of_int_minus)
  also have "\<dots> = - int_of a"
    using True int_of_range [of a] by (intro mod_pos_pos_trivial) (auto simp: in_i256_def)
  finally show ?thesis using True by (simp add: unsigned_abs_def is_negative_iff)
qed (simp add: unsigned_abs_def is_negative_iff uint_raw)

lemma i256_consts:
  "int_of i256_MIN = - (2 ^ 255)" "int_of i256_MAX = 2 ^ 255 - 1" "int_of i256_MINUS_ONE = -1"
  "int_of i256_ZERO = 0" "int_of i256_ONE = 1"
  by (simp_all add: i256_MIN_def i256_MAX_def i256_MINUS_ONE_def i256_ZERO_def i256_ONE_def int_of_def
      push_bit_eq_mult mask_eq_exp_minus_1)

lemma raw_0_iff: "raw a = 0 \<longleftrightarrow> int_of a = 0"
  by (metis i256.sel i256_ZERO_def i256_consts(4) int_of_inj i256.expand)

text \<open>
  What \<open>ruint\<close> documents of \<open>overflowing_mul\<close>: the product modulo \<open>2^256\<close>, and whether the exact
  product does not fit 256 bits.
\<close>

definition ruint_overflowing_mul :: "(256 word \<Rightarrow> 256 word \<Rightarrow> 256 word \<times> bool) \<Rightarrow> bool" where
  "ruint_overflowing_mul mul \<longleftrightarrow> (\<forall>x y. mul x y = (x * y, 2 ^ 256 \<le> uint x * uint y))"

lemma overflowing_mul_int:
  assumes "ruint_overflowing_mul mul"
  shows "overflowing_mul mul a b = (of_i256 (int_of a * int_of b), \<not> in_i256 (int_of a * int_of b))"
proof (cases "int_of a = 0 \<or> int_of b = 0")
  case True
  then show ?thesis by (auto simp: overflowing_mul_def raw_0_iff in_i256_def of_i256_def i256_ZERO_def)
next
  case False
  let ?x = "int_of a * int_of b" and ?p = "unsigned_abs a * unsigned_abs b"
  have x0: "?x \<noteq> 0" using False by simp
  have sgn: "(is_negative a \<noteq> is_negative b) \<longleftrightarrow> ?x < 0"
    using False by (auto simp: is_negative_iff mult_less_0_iff)
  have w: "?p = word_of_int \<bar>?x\<bar>"
    by (simp add: abs_mult flip: unsigned_abs_int)
  have o: "mul (unsigned_abs a) (unsigned_abs b) = (?p, 2 ^ 256 \<le> \<bar>?x\<bar>)"
    using assms by (simp add: ruint_overflowing_mul_def abs_mult unsigned_abs_int)
  have signed: "(if ?x < 0 then I256 (- ?p) else I256 ?p) = of_i256 ?x"
    by (simp add: w of_i256_def flip: of_int_minus)
  have u: "uint ?p = \<bar>?x\<bar>" if "\<bar>?x\<bar> < 2 ^ 256"
    using that by (simp add: w uint_word_of_int)
  have m: "uint (unsigned_abs i256_MIN) = 2 ^ 255" "uint (raw i256_MAX) = 2 ^ 255 - 1"
    by (simp_all add: unsigned_abs_int uint_raw i256_consts)
  have r: "(if ?x < 0 then ?p > unsigned_abs i256_MIN else ?p > raw i256_MAX) \<longleftrightarrow> \<not> in_i256 ?x"
    if "\<bar>?x\<bar> < 2 ^ 256"
    using u [OF that] that by (auto simp: word_less_iff_unsigned [where 'a = int] m in_i256_def)
  have "\<not> in_i256 ?x" if "2 ^ 256 \<le> \<bar>?x\<bar>" using that by (auto simp: in_i256_def)
  then show ?thesis
    using False sgn signed o r
    by (cases "\<bar>?x\<bar> < 2 ^ 256") (auto simp: overflowing_mul_def raw_0_iff Let_def not_less)
qed

lemma of_i256_uint: "uint w = x \<Longrightarrow> I256 w = of_i256 x" "uint w = x \<Longrightarrow> I256 (- w) = of_i256 (- x)"
  by (auto simp: of_i256_def)

lemma i256_div_int:
  assumes "int_of b \<noteq> 0"
  shows "i256_div a b = Some (of_i256 (int_of a sdiv int_of b))"
proof (cases "a = i256_MIN \<and> b = i256_MINUS_ONE")
  case True
  have "of_i256 (2 ^ 255) = i256_MIN"
    by (simp add: of_i256_def i256_MIN_def push_bit_eq_mult)
  then show ?thesis
    using True assms by (simp add: i256_div_def raw_0_iff i256_consts signed_divide_int_def)
next
  case False
  have u: "uint (unsigned_abs a div unsigned_abs b) = \<bar>int_of a\<bar> div \<bar>int_of b\<bar>"
    by (simp add: uint_div unsigned_abs_int)
  have "int_of a sdiv int_of b =
      (if is_negative a \<noteq> is_negative b then - (\<bar>int_of a\<bar> div \<bar>int_of b\<bar>) else \<bar>int_of a\<bar> div \<bar>int_of b\<bar>)"
    using assms by (auto simp: signed_divide_int_def is_negative_iff sgn_if)
  then show ?thesis
    using assms of_i256_uint [OF u] by (simp add: i256_div_def raw_0_iff Let_def if_not_P [OF False])
qed

lemma i256_rem_int:
  assumes "int_of b \<noteq> 0"
  shows "i256_rem a b = Some (of_i256 (int_of a smod int_of b))"
proof (cases "a = i256_MIN \<and> b = i256_MINUS_ONE")
  case True
  then show ?thesis
    using assms by (simp add: i256_rem_def raw_0_iff i256_consts signed_modulo_int_def of_i256_def i256_ZERO_def)
next
  case False
  have u: "uint (unsigned_abs a mod unsigned_abs b) = \<bar>int_of a\<bar> mod \<bar>int_of b\<bar>"
    by (simp add: uint_mod unsigned_abs_int)
  have "int_of a smod int_of b =
      (if is_negative a then - (\<bar>int_of a\<bar> mod \<bar>int_of b\<bar>) else \<bar>int_of a\<bar> mod \<bar>int_of b\<bar>)"
    using assms by (auto simp: signed_modulo_int_def is_negative_iff sgn_if)
  then show ?thesis
    using assms of_i256_uint [OF u] by (simp add: i256_rem_def raw_0_iff Let_def if_not_P [OF False])
qed

lemma sdiv_range:
  assumes "in_i256 x" "y \<noteq> 0" "\<not> (x = - (2 ^ 255) \<and> y = -1)"
  shows "in_i256 (x sdiv y)"
proof -
  have b: "\<bar>x\<bar> \<le> 2 ^ 255" "\<bar>x\<bar> = 2 ^ 255 \<Longrightarrow> x = - (2 ^ 255)" using assms(1) by (auto simp: in_i256_def)
  have q: "0 \<le> \<bar>x\<bar> div \<bar>y\<bar>" "\<bar>x\<bar> div \<bar>y\<bar> \<le> \<bar>x\<bar>"
    using assms(2) by (simp_all add: zdiv_mono2 [of "\<bar>x\<bar>" 1 "\<bar>y\<bar>", simplified] pos_imp_zdiv_nonneg_iff)
  have "\<bar>x\<bar> div \<bar>y\<bar> < 2 ^ 255 \<or> (x = - (2 ^ 255) \<and> \<bar>y\<bar> = 1)"
  proof (cases "\<bar>x\<bar> < 2 ^ 255")
    case True
    then show ?thesis using q by simp
  next
    case False
    then have x: "x = - (2 ^ 255)" using b by linarith
    have "\<bar>x\<bar> div \<bar>y\<bar> < 2 ^ 255" if "\<bar>y\<bar> \<noteq> 1"
    proof -
      have "\<bar>x\<bar> div \<bar>y\<bar> \<le> \<bar>x\<bar> div 2" using that assms(2) by (intro zdiv_mono2) auto
      then show ?thesis using x by simp
    qed
    then show ?thesis using x by blast
  qed
  then show ?thesis
    using assms(2,3) q by (auto simp: signed_divide_int_def in_i256_def sgn_if)
qed

lemma smod_range:
  assumes "in_i256 x" "y \<noteq> 0"
  shows "in_i256 (x smod y)"
proof -
  define r where "r = \<bar>x\<bar> mod \<bar>y\<bar>"
  have "0 \<le> r" "r \<le> \<bar>x\<bar>" using assms(2) by (simp_all add: r_def zmod_le_nonneg_dividend)
  moreover have "x smod y = sgn x * r" by (simp add: signed_modulo_int_def r_def)
  ultimately show ?thesis
    using assms by (auto simp: in_i256_def sgn_if)
qed

lemma bit_sign: "bit (push_bit 255 1 :: 256 word) m \<longleftrightarrow> m = 255"
  by (subst bit_push_bit_iff) auto

lemma xor_sign:
  fixes w :: "256 word"
  shows "w XOR push_bit 255 1 = w + push_bit 255 1"
proof (cases "bit w 255")
  case False
  then have "w AND push_bit 255 1 = 0"
    by (intro bit_word_eqI) (auto simp only: bit_and_iff bit_sign bit_0_eq bot_fun_def bot_bool_def)
  then show ?thesis by (simp only: disjunctive_add_eq_xor)
next
  case True
  then have "NOT w AND push_bit 255 1 = 0"
    by (intro bit_word_eqI) (auto simp only: bit_and_iff bit_not_iff bit_sign bit_0_eq bot_fun_def bot_bool_def)
  then have "w XOR push_bit 255 1 = w - push_bit 255 1"
    by (simp only: disjunctive_diff_eq_and_not disjunctive_diff_eq_xor)
  then show ?thesis by (simp add: push_bit_eq_mult)
qed

lemma cmp_sign: "uint (raw a XOR push_bit 192 (ucast SIGN_BIT_LIMB)) = int_of a + 2 ^ 255"
proof -
  have s: "push_bit 192 (ucast SIGN_BIT_LIMB) = (push_bit 255 1 :: 256 word)"
    by (rule bit_word_eqI) (auto simp: SIGN_BIT_LIMB_def bit_simps)
  have "uint (raw a + push_bit 255 1) = (uint (raw a) + 2 ^ 255) mod 2 ^ 256"
    by (simp add: uint_word_ariths push_bit_eq_mult)
  also have "\<dots> = (int_of a + 2 ^ 255) mod 2 ^ 256"
  proof (cases "int_of a < 0")
    case True
    then have "uint (raw a) + 2 ^ 255 = int_of a + 2 ^ 255 + 2 ^ 256" by (simp add: uint_raw)
    then show ?thesis by (simp only: mod_add_self2)
  qed (simp add: uint_raw)
  also have "\<dots> = int_of a + 2 ^ 255"
    using int_of_range [of a] by (intro mod_pos_pos_trivial) (auto simp: in_i256_def)
  finally show ?thesis by (simp only: s xor_sign)
qed

lemma i256_cmp_int:
  "i256_cmp a b = (if int_of a < int_of b then Less else if int_of a = int_of b then Equal else Greater)"
  by (simp add: i256_cmp_def Let_def word_less_iff_unsigned [where 'a = int] word_uint_eq_iff cmp_sign)

lemma i256_shr_int: "int_of (i256_shr a n) = int_of a div 2 ^ n"
proof -
  have b: "bit (raw a) 255 \<longleftrightarrow> is_negative a"
    using bit_last_iff [of "raw a"] by (simp add: int_of_def is_negative_iff)
  have "raw (i256_shr a n) = signed_drop_bit n (raw a)"
  proof (rule bit_word_eqI)
    fix m assume m: "m < LENGTH(256)"
    have k: "bit (raw a) k \<Longrightarrow> k < 256" for k using bit_imp_le_length [of "raw a" k] by simp
    show "bit (raw (i256_shr a n)) m = bit (signed_drop_bit n (raw a)) m"
      using m b by (auto dest!: k simp: i256_shr_def Let_def bit_simps bit_signed_drop_bit_iff i256_MINUS_ONE_def not_le)
  qed
  then show ?thesis
    by (simp add: int_of_def sint_signed_drop_bit_eq drop_bit_eq_div)
qed

lemma word_of_int_mod_256: "word_of_int (x mod 2 ^ 256) = (word_of_int x :: 256 word)"
  by (simp add: word_of_int_eq_iff take_bit_eq_mod)

lemma from_signed_int:
  fixes w :: "'a::len word"
  assumes k: "8 * k = LENGTH('a)" "k \<le> 32"
  shows "int_of (i256_from_signed w) = sint w"
proof -
  have l: "length (to_be w) = k" using k by simp
  have d: "take (32 - k) (replicate 32 x) = replicate (32 - k) x" for x :: byte by simp
  have "i256_from_signed w = I256 (from_be (signed_word (sint w)))"
    using sint_word [OF k, of w] l by (simp add: i256_from_signed_def Let_def)
  also have "\<dots> = of_i256 (sint w)"
  proof -
    have "nat (sint w mod 2 ^ 256) < 2 ^ 256" by (simp add: nat_less_iff)
    then have "from_be (signed_word (sint w)) = (word_of_int (sint w mod 2 ^ 256) :: 256 word)"
      by (simp add: from_be_def signed_word_def pow256)
    also have "\<dots> = word_of_int (sint w)" by (rule word_of_int_mod_256)
    finally show ?thesis by (simp add: of_i256_def)
  qed
  finally have "i256_from_signed w = of_i256 (sint w)" .
  moreover have "in_i256 (sint w)"
  proof -
    have "(2 :: int) ^ (LENGTH('a) - 1) \<le> 2 ^ 255" using k by (intro power_increasing) auto
    then show ?thesis using sint_ge [of w] sint_lt [of w] by (simp add: in_i256_def)
  qed
  ultimately show ?thesis by (simp add: int_of_of)
qed

section \<open>The order of the code\<close>

instantiation i256 :: linorder
begin

definition less_eq_i256 :: "i256 \<Rightarrow> i256 \<Rightarrow> bool" where
  "less_eq_i256 a b = (i256_cmp a b \<noteq> Greater)"

definition less_i256 :: "i256 \<Rightarrow> i256 \<Rightarrow> bool" where
  "less_i256 a b = (i256_cmp a b = Less)"

instance
  by standard (auto simp: less_eq_i256_def less_i256_def i256_cmp_int int_of_inj split: if_splits)

end

section \<open>Properties\<close>

text \<open>
  C39: the overflow-aware arithmetic of \<open>I256\<close> is integer arithmetic: \<open>overflowing_add\<close>,
  \<open>overflowing_sub\<close> and \<open>overflowing_mul\<close> return the wrapped result, and raise the flag exactly when
  the result is outside the range of \<open>int256\<close>; \<open>checked_add\<close>, \<open>checked_sub\<close> and \<open>checked_mul\<close>
  return the exact result when it is in the range and \<open>None\<close> otherwise. The multiplication of
  magnitudes is that of \<open>ruint\<close>, which is assumed to behave as documented.
\<close>

theorem i256_checked_arith:
  assumes "ruint_overflowing_mul mul"
  shows "overflowing_add a b = (of_i256 (int_of a + int_of b), \<not> in_i256 (int_of a + int_of b)) \<and>
   overflowing_sub a b = (of_i256 (int_of a - int_of b), \<not> in_i256 (int_of a - int_of b)) \<and>
   overflowing_mul mul a b = (of_i256 (int_of a * int_of b), \<not> in_i256 (int_of a * int_of b)) \<and>
   i256_checked_add a b = (if in_i256 (int_of a + int_of b) then Some (of_i256 (int_of a + int_of b)) else None) \<and>
   i256_checked_sub a b = (if in_i256 (int_of a - int_of b) then Some (of_i256 (int_of a - int_of b)) else None) \<and>
   i256_checked_mul mul a b = (if in_i256 (int_of a * int_of b) then Some (of_i256 (int_of a * int_of b)) else None)"
  by (simp add: i256_checked_add_def i256_checked_sub_def i256_checked_mul_def overflowing_add_int
      overflowing_sub_int overflowing_mul_int [OF assms])

theorem i256_checked_arith_witness:
  "let mul = (\<lambda>x y. (x * y, 2 ^ 256 \<le> uint x * uint y)) in
   i256_checked_mul mul (of_i256 (-3)) (of_i256 4) = Some (of_i256 (-12)) \<and>
   snd (overflowing_mul mul (of_i256 (2 ^ 200)) (of_i256 (2 ^ 55))) \<and>
   i256_checked_add (of_i256 (2 ^ 255 - 1)) (of_i256 1) = None"
proof -
  let ?mul = "\<lambda>x y. (x * y, 2 ^ 256 \<le> uint x * uint y)"
  have r: "ruint_overflowing_mul ?mul" by (simp add: ruint_overflowing_mul_def)
  have v: "int_of (of_i256 (-3)) = -3" "int_of (of_i256 4) = 4" "int_of (of_i256 (2 ^ 200)) = 2 ^ 200"
    "int_of (of_i256 (2 ^ 55)) = 2 ^ 55" "int_of (of_i256 (2 ^ 255 - 1)) = 2 ^ 255 - 1" "int_of (of_i256 1) = 1"
    by (simp_all add: int_of_of in_i256_def)
  show ?thesis
    unfolding Let_def
    using i256_checked_arith [OF r, of "of_i256 (-3)" "of_i256 4"]
      i256_checked_arith [OF r, of "of_i256 (2 ^ 200)" "of_i256 (2 ^ 55)"]
      i256_checked_arith [OF r, of "of_i256 (2 ^ 255 - 1)" "of_i256 1"]
    unfolding v by (simp add: in_i256_def)
qed

text \<open>
  Division truncates towards zero and the remainder takes the sign of the dividend, as in
  Solidity; both panic exactly on a zero divisor, and the one quotient outside the range,
  \<open>MIN / -1\<close>, wraps to \<open>MIN\<close>.
\<close>

theorem i256_div_rem:
  "i256_div a b = (if int_of b = 0 then None else Some (of_i256 (int_of a sdiv int_of b))) \<and>
   i256_rem a b = (if int_of b = 0 then None else Some (of_i256 (int_of a smod int_of b))) \<and>
   (int_of b \<noteq> 0 \<longrightarrow> int_of (of_i256 (int_of a smod int_of b)) = int_of a smod int_of b \<and>
     (if a = i256_MIN \<and> b = i256_MINUS_ONE then of_i256 (int_of a sdiv int_of b) = i256_MIN
      else int_of (of_i256 (int_of a sdiv int_of b)) = int_of a sdiv int_of b))"
proof -
  have "of_i256 (2 ^ 255) = i256_MIN" by (simp add: of_i256_def i256_MIN_def push_bit_eq_mult)
  then have m: "of_i256 (int_of i256_MIN sdiv int_of i256_MINUS_ONE) = i256_MIN"
    by (simp add: i256_consts signed_divide_int_def)
  have e: "a = i256_MIN \<longleftrightarrow> int_of a = - (2 ^ 255)" "b = i256_MINUS_ONE \<longleftrightarrow> int_of b = -1" for a b
    using int_of_inj [of a i256_MIN] int_of_inj [of b i256_MINUS_ONE] by (simp_all add: i256_consts)
  show ?thesis
    using i256_div_int [of b a] i256_rem_int [of b a] m sdiv_range [OF int_of_range, of "int_of b" a]
      smod_range [OF int_of_range, of "int_of b" a] e
    by (auto simp: int_of_of i256_div_def i256_rem_def raw_0_iff i256_consts)
qed

theorem i256_div_rem_witness:
  "i256_div (of_i256 (-7)) (of_i256 2) = Some (of_i256 (-3)) \<and>
   i256_rem (of_i256 (-7)) (of_i256 2) = Some (of_i256 (-1)) \<and>
   int_of (of_i256 (int_of (of_i256 (-7)) smod int_of (of_i256 2))) = int_of (of_i256 (-7)) smod int_of (of_i256 2)"
proof -
  have v: "int_of (of_i256 (-7)) = -7" "int_of (of_i256 2) = 2"
    by (simp_all add: int_of_of in_i256_def)
  show ?thesis
    using i256_div_rem [of "of_i256 (-7)" "of_i256 2"]
    by (simp add: v signed_divide_int_def signed_modulo_int_def)
qed

text \<open>
  \<open>Shr\<close> is the arithmetic shift, division by a power of two rounding down, at every shift
  amount, 256 and more included; and the comparison, which flips the sign bits and compares
  unsigned, orders values as the integers they stand for.
\<close>

theorem i256_shr_and_order:
  "int_of (i256_shr a n) = int_of a div 2 ^ n \<and>
   (a < b \<longleftrightarrow> int_of a < int_of b) \<and> (i256_cmp a b = Equal \<longleftrightarrow> a = b)"
  by (simp add: i256_shr_int less_i256_def i256_cmp_int int_of_inj)

text \<open>
  \<open>From<iN>\<close> keeps the value: the big-endian sign extension of every native signed integer
  stands for the same integer.
\<close>

theorem i256_from_native:
  "int_of (i256_from_signed (a :: 8 word)) = sint a \<and>
   int_of (i256_from_signed (b :: 16 word)) = sint b \<and>
   int_of (i256_from_signed (c :: 32 word)) = sint c \<and>
   int_of (i256_from_signed (d :: 64 word)) = sint d \<and>
   int_of (i256_from_signed (e :: 128 word)) = sint e"
  using from_signed_int [of 1 a] from_signed_int [of 2 b] from_signed_int [of 4 c]
    from_signed_int [of 8 d] from_signed_int [of 16 e] by simp

text \<open>
  Parsing accepts magnitudes outside the range: whatever \<open>U256::from_str\<close> accepts becomes a
  value, so \<open>2^255\<close> parses, without an error, to the most negative integer.
\<close>

lemma i256_from_str_out_of_range:
  assumes "u256_from_str (c # r) = Some (push_bit 255 1)" "c \<noteq> 45" "c \<noteq> 43"
  shows "i256_from_str u256_from_str (c # r) = Some i256_MIN"
  using assms by (simp add: i256_from_str_def i256_MIN_def)

end
