(* ===== verification/Layout.thy ===== *)
theory Layout
  imports Prelude
begin

text \<open>
  \<open>layout.rs\<close>: the storage-layout walker every layout computation of the SDK shares. Slots are
  \<open>u64\<close> and byte counts \<open>u8\<close>, with their wrap-around written out. The abstract specification is
  the rule of the Solidity compiler as a cursor over storage bytes, counted from the low-order
  end of slot 0: a value goes where the cursor is if it fits in the slot, else at the next slot;
  values of several slots start a slot and fill their last one.
\<close>

definition MAX_STATIC_SLOTS :: nat where
  "MAX_STATIC_SLOTS = 8"

record layout_state =
  slot :: nat
  offset :: nat
  next_slot :: nat
  next_space :: nat

definition FIRST :: layout_state where
  "FIRST = \<lparr> slot = 0, offset = 0, next_slot = 0, next_space = 32 \<rparr>"

definition layout_step :: "layout_state \<Rightarrow> nat \<Rightarrow> nat \<Rightarrow> layout_state" where
  "layout_step prev packed_bytes slots =
     (let bytes = packed_bytes mod 256;
          (sl, space) = (if next_space prev < bytes then ((next_slot prev + 1) mod usize_limit, 32)
                         else (next_slot prev, next_space prev));
          off = (space + 256 - bytes) mod 256;
          (nsl, nsp) = (if slots > 1 then ((sl + slots - 1) mod usize_limit, 0) else (sl, off))
      in \<lparr> slot = sl, offset = off, next_slot = nsl, next_space = nsp \<rparr>)"

text \<open>The chain of steps over a list of fields, given by \<open>(PACKED_BYTES, SLOTS)\<close>.\<close>

fun layout_chain :: "layout_state \<Rightarrow> (nat \<times> nat) list \<Rightarrow> layout_state list" where
  "layout_chain st [] = []"
| "layout_chain st ((b, n) # fs) = (let st' = layout_step st b n in st' # layout_chain st' fs)"

section \<open>The rule of the Solidity compiler\<close>

definition solc_start :: "nat \<Rightarrow> nat \<Rightarrow> nat" where
  "solc_start cur b = (if cur mod 32 + b \<le> 32 then cur else (cur div 32 + 1) * 32)"

definition solc_end :: "nat \<Rightarrow> nat \<Rightarrow> nat \<Rightarrow> nat" where
  "solc_end cur b n = solc_start cur b + (if n > 1 then 32 * n else b)"

fun solc_chain :: "nat \<Rightarrow> (nat \<times> nat) list \<Rightarrow> (nat \<times> nat) list" where
  "solc_chain cur [] = []"
| "solc_chain cur ((b, n) # fs) = (solc_start cur b, solc_end cur b n) # solc_chain (solc_end cur b n) fs"

definition field_ok :: "nat \<times> nat \<Rightarrow> bool" where
  "field_ok f \<longleftrightarrow> 1 \<le> fst f \<and> fst f \<le> 32 \<and> 1 \<le> snd f \<and> (1 < snd f \<longrightarrow> fst f = 32)"

text \<open>The cursor a walker state stands for: \<open>next_space = 0\<close> is the end of the slot.\<close>

definition cursor :: "layout_state \<Rightarrow> nat" where
  "cursor st = 32 * next_slot st + (32 - next_space st)"

definition space_ok :: "layout_state \<Rightarrow> bool" where
  "space_ok st \<longleftrightarrow> next_space st \<le> 32"

lemma u8_sub: "b \<le> x \<Longrightarrow> x \<le> 32 \<Longrightarrow> (x + 256 - b) mod 256 = x - (b :: nat)"
proof -
  assume "b \<le> x" "x \<le> 32"
  then have "x + 256 - b = (x - b) + 256" "x - b < 256" by linarith+
  then show ?thesis by (simp only: mod_add_self2 mod_less)
qed

lemma layout_step_solc:
  assumes "field_ok (b, n)" "space_ok st" "cursor st + 32 * n + 64 < usize_limit"
  shows "space_ok (layout_step st b n)"
    and "cursor (layout_step st b n) = solc_end (cursor st) b n"
    and "slot (layout_step st b n) = solc_start (cursor st) b div 32"
    and "offset (layout_step st b n) = 32 - solc_start (cursor st) b mod 32 - b"
    and "solc_start (cursor st) b mod 32 + b \<le> 32"
proof -
  let ?ns = "next_slot st" and ?sp = "next_space st"
  have b: "1 \<le> b" "b \<le> 32" "1 \<le> n" "1 < n \<Longrightarrow> b = 32" and sp: "?sp \<le> 32"
    using assms by (auto simp: field_ok_def space_ok_def)
  have lim: "?ns + 1 < usize_limit" "?ns + n < usize_limit"
    using assms(3) by (auto simp: cursor_def)
  have o32: "(288 - b) mod 256 = 32 - b" using u8_sub [of b 32] b by simp
  have d: "space_ok (layout_step st b n) \<and> cursor (layout_step st b n) = solc_end (cursor st) b n \<and>
    slot (layout_step st b n) = solc_start (cursor st) b div 32 \<and>
    offset (layout_step st b n) = 32 - solc_start (cursor st) b mod 32 - b \<and>
    solc_start (cursor st) b mod 32 + b \<le> 32"
  proof (cases "?sp = 0")
    case True
    then have c: "cursor st = 32 * (?ns + 1)" by (simp add: cursor_def)
    have s: "solc_start (cursor st) b = 32 * (?ns + 1)"
      unfolding solc_start_def c using b by simp
    show ?thesis
      unfolding solc_end_def s
      using b lim True by (auto simp: layout_step_def space_ok_def cursor_def Let_def o32)
  next
    case False
    define r where "r = 32 - ?sp"
    have r: "r < 32" "cursor st = r + 32 * ?ns" using False sp by (simp_all add: r_def cursor_def)
    then have m: "cursor st mod 32 = 32 - ?sp" "cursor st div 32 = ?ns"
      by (simp_all add: r_def)
    show ?thesis
    proof (cases "?sp < b")
      case True
      have n: "\<not> 32 - ?sp + b \<le> 32" using True sp by linarith
      have s: "solc_start (cursor st) b = 32 * (?ns + 1)"
        unfolding solc_start_def m using n by simp
      show ?thesis
        unfolding solc_end_def s
        using b lim True by (auto simp: layout_step_def space_ok_def cursor_def Let_def o32)
    next
      case fits: False
      have n: "32 - ?sp + b \<le> 32" using fits sp by linarith
      have s: "solc_start (cursor st) b = cursor st"
        unfolding solc_start_def m using n by (simp only: if_True)
      have o: "(?sp + 256 - b) mod 256 = ?sp - b" using fits sp by (simp add: u8_sub)
      show ?thesis
        unfolding solc_end_def s m
        using b lim fits sp o by (auto simp: layout_step_def space_ok_def cursor_def Let_def o32)
    qed
  qed
  then show "space_ok (layout_step st b n)"
    "cursor (layout_step st b n) = solc_end (cursor st) b n"
    "slot (layout_step st b n) = solc_start (cursor st) b div 32"
    "offset (layout_step st b n) = 32 - solc_start (cursor st) b mod 32 - b"
    "solc_start (cursor st) b mod 32 + b \<le> 32"
    by auto
qed

text \<open>Along the chain, the walker's slots and offsets are those of the cursor.\<close>

definition placed :: "layout_state \<Rightarrow> nat \<times> nat \<Rightarrow> nat \<Rightarrow> bool" where
  "placed st p b \<longleftrightarrow> slot st = fst p div 32 \<and> offset st + b + fst p mod 32 = 32"

definition chain_size :: "(nat \<times> nat) list \<Rightarrow> nat" where
  "chain_size fs = sum_list (map (\<lambda>f. 32 * snd f + 32) fs)"

lemma solc_end_le: "field_ok (b, n) \<Longrightarrow> solc_end cur b n \<le> cur + 32 * n + 32"
proof -
  assume f: "field_ok (b, n)"
  have "32 * (cur div 32) \<le> cur" by simp
  then have "solc_start cur b \<le> cur + 32" by (simp add: solc_start_def)
  then show ?thesis using f by (auto simp: solc_end_def field_ok_def)
qed

lemma layout_chain_solc:
  assumes "list_all field_ok fs" "space_ok st" "cursor st + chain_size fs + 64 < usize_limit"
  shows "length (layout_chain st fs) = length fs \<and> length (solc_chain (cursor st) fs) = length fs \<and>
    (\<forall>i < length fs. placed (layout_chain st fs ! i) (solc_chain (cursor st) fs ! i) (fst (fs ! i)))"
  using assms
proof (induction fs arbitrary: st)
  case (Cons f fs)
  obtain b n where f: "f = (b, n)" by (cases f)
  let ?st = "layout_step st b n"
  have fo: "field_ok (b, n)" using Cons.prems(1) f by simp
  have lim: "cursor st + 32 * n + 64 < usize_limit"
    using Cons.prems(3) f by (simp add: chain_size_def)
  note step = layout_step_solc [OF fo Cons.prems(2) lim]
  have "cursor ?st + chain_size fs + 64 < usize_limit"
    using Cons.prems(3) f step(2) solc_end_le [OF fo, of "cursor st"] by (simp add: chain_size_def)
  then have "length (layout_chain ?st fs) = length fs \<and> length (solc_chain (cursor ?st) fs) = length fs \<and>
    (\<forall>i < length fs. placed (layout_chain ?st fs ! i) (solc_chain (cursor ?st) fs ! i) (fst (fs ! i)))"
    using Cons.prems(1) step(1) by (intro Cons.IH) simp_all
  moreover have "placed ?st (solc_start (cursor st) b, solc_end (cursor st) b n) b"
    using step(3-5) by (simp add: placed_def)
  ultimately show ?case
    using f step(2) by (auto simp: Let_def nth_Cons split: nat.splits)
qed simp

lemma solc_start_ge: "cur \<le> solc_start cur b"
proof -
  have "cur = 32 * (cur div 32) + cur mod 32" "cur mod 32 < 32" by simp_all
  then have "cur \<le> 32 * (cur div 32) + 32" by linarith
  then show ?thesis by (simp add: solc_start_def)
qed

lemma solc_chain_ge: "i < length fs \<Longrightarrow> cur \<le> fst (solc_chain cur fs ! i)"
proof (induction fs arbitrary: cur i)
  case (Cons f fs)
  obtain b n where f: "f = (b, n)" by (cases f)
  have e: "cur \<le> solc_end cur b n" using solc_start_ge [of cur b] by (simp add: solc_end_def)
  show ?case
  proof (cases i)
    case (Suc k)
    have "solc_end cur b n \<le> fst (solc_chain (solc_end cur b n) fs ! k)"
      using Cons.prems Suc by (intro Cons.IH) simp_all
    then show ?thesis using e f Suc by simp
  qed (use solc_start_ge f in simp)
qed simp

text \<open>The bytes a field takes: its own, or all of its slots.\<close>

definition extent :: "nat \<times> nat \<Rightarrow> nat" where
  "extent f = (if snd f > 1 then 32 * snd f else fst f)"

lemma solc_chain_order:
  assumes "i < j" "j < length fs"
  shows "fst (solc_chain cur fs ! i) + extent (fs ! i) \<le> fst (solc_chain cur fs ! j)"
  using assms
proof (induction fs arbitrary: cur i j)
  case (Cons f fs)
  obtain b n where f: "f = (b, n)" by (cases f)
  obtain l where j: "j = Suc l" using Cons.prems(1) by (cases j) auto
  show ?case
  proof (cases i)
    case 0
    have "solc_start cur b + extent f = solc_end cur b n"
      by (simp add: f extent_def solc_end_def)
    also have "\<dots> \<le> fst (solc_chain (solc_end cur b n) fs ! l)"
      using Cons.prems(2) j by (intro solc_chain_ge) simp
    finally show ?thesis using f j 0 by simp
  next
    case (Suc k)
    then show ?thesis using Cons.IH [of k l] Cons.prems f j by simp
  qed
qed simp

section \<open>Properties\<close>

text \<open>
  C25: the walker implements the Solidity compiler's packing rule. For every list of fields that
  fits the address space, field \<open>i\<close> gets the slot and byte offset of the cursor rule: fields
  pack from the low-order end of a slot, and advance when they do not fit.
\<close>

theorem layout_refines_solc:
  assumes "list_all field_ok fs" "chain_size fs + 64 < usize_limit" "i < length fs"
  shows "slot (layout_chain FIRST fs ! i) = fst (solc_chain 0 fs ! i) div 32 \<and>
    offset (layout_chain FIRST fs ! i) = 32 - fst (solc_chain 0 fs ! i) mod 32 - fst (fs ! i)"
proof -
  have "space_ok FIRST" "cursor FIRST = 0" by (simp_all add: FIRST_def space_ok_def cursor_def)
  then show ?thesis
    using layout_chain_solc [of fs FIRST] assms by (auto simp: placed_def)
qed

theorem layout_refines_solc_witness:
  "map (\<lambda>st. (slot st, offset st)) (layout_chain FIRST [(20, 1), (8, 1), (8, 1), (32, 2), (1, 1)]) =
     [(0, 12), (0, 4), (1, 24), (2, 0), (4, 31)] \<and>
   slot (layout_chain FIRST [(20, 1), (8, 1), (8, 1), (32, 2), (1, 1)] ! 4) =
     fst (solc_chain 0 [(20, 1), (8, 1), (8, 1), (32, 2), (1, 1)] ! 4) div 32"
  using layout_refines_solc [of "[(20, 1), (8, 1), (8, 1), (32, 2), (1, 1)]" 4]
  by (simp add: layout_step_def FIRST_def Let_def usize_limit_def field_ok_def chain_size_def)

text \<open>
  The bytes of storage a field occupies, as pairs of a slot and a byte of that slot: the window
  \<open>[offset, offset + PACKED_BYTES)\<close> of its slot, or every byte of its \<open>SLOTS\<close> consecutive slots.
\<close>

definition storage_bytes :: "layout_state \<Rightarrow> nat \<times> nat \<Rightarrow> (nat \<times> nat) set" where
  "storage_bytes st f =
     (if snd f > 1 then {slot st..<slot st + snd f} \<times> {0..<32}
      else {slot st} \<times> {offset st..<offset st + fst f})"

lemma storage_bytes_window:
  assumes "placed st p (fst f)" "field_ok f"
  shows "(q, k) \<in> storage_bytes st f \<Longrightarrow> k < 32 \<and> fst p \<le> 32 * q + (31 - k) \<and> 32 * q + (31 - k) < fst p + extent f"
proof -
  have p: "fst p = 32 * slot st + fst p mod 32" "fst p mod 32 < 32" "offset st + fst f + fst p mod 32 = 32"
    using assms(1) div_mult_mod_eq [of "fst p" 32] by (simp_all add: placed_def)
  have f: "snd f > 1 \<Longrightarrow> fst f = 32" using assms(2) by (simp add: field_ok_def)
  assume x: "(q, k) \<in> storage_bytes st f"
  show "k < 32 \<and> fst p \<le> 32 * q + (31 - k) \<and> 32 * q + (31 - k) < fst p + extent f"
  proof (cases "snd f > 1")
    case True
    then have "slot st \<le> q" "q < slot st + snd f" "k < 32" "fst p = 32 * slot st"
      using x p f by (auto simp: storage_bytes_def)
    then show ?thesis using True by (auto simp: extent_def)
  next
    case False
    then have "q = slot st" "offset st \<le> k" "k < offset st + fst f"
      using x by (auto simp: storage_bytes_def)
    then show ?thesis using False p by (auto simp: extent_def)
  qed
qed

text \<open>
  C26: no two fields share a byte of storage, fields over several slots included: the bytes of two
  fields of the chain are disjoint, and every field stays inside its slots. Two fields in one slot
  have disjoint windows, the later field below the earlier one, and a field after one of several
  slots starts behind all of them.
\<close>

theorem layout_no_overlap:
  assumes "list_all field_ok fs" "chain_size fs + 64 < usize_limit" "i < j" "j < length fs"
    and "st = layout_chain FIRST fs ! i" "st' = layout_chain FIRST fs ! j"
  shows "storage_bytes st (fs ! i) \<inter> storage_bytes st' (fs ! j) = {} \<and>
    offset st + fst (fs ! i) \<le> 32 \<and> slot st \<le> slot st' \<and>
    (slot st = slot st' \<longrightarrow> offset st' + fst (fs ! j) \<le> offset st) \<and>
    (snd (fs ! i) > 1 \<longrightarrow> offset st = 0 \<and> slot st + snd (fs ! i) \<le> slot st')"
proof -
  let ?p = "\<lambda>k. fst (solc_chain 0 fs ! k)"
  have "space_ok FIRST" "cursor FIRST = 0" by (simp_all add: FIRST_def space_ok_def cursor_def)
  then have pl: "placed (layout_chain FIRST fs ! k) (solc_chain 0 fs ! k) (fst (fs ! k))" if "k < length fs" for k
    using layout_chain_solc [of fs FIRST] assms(1,2) that by simp
  have ok: "field_ok (fs ! k)" if "k < length fs" for k using assms(1) that by (simp add: list_all_length)
  have i: "slot st = ?p i div 32" "offset st + fst (fs ! i) + ?p i mod 32 = 32"
    and j: "slot st' = ?p j div 32" "offset st' + fst (fs ! j) + ?p j mod 32 = 32"
    using pl [of i] pl [of j] assms(3-6) by (auto simp: placed_def)
  have o: "?p i + extent (fs ! i) \<le> ?p j" by (rule solc_chain_order [OF assms(3,4)])
  have e: "fst (fs ! i) \<le> extent (fs ! i)" using ok [of i] assms(3,4) by (auto simp: extent_def field_ok_def)
  have "?p i div 32 \<le> ?p j div 32" using o by (intro div_le_mono) simp
  moreover have "?p i mod 32 + fst (fs ! i) \<le> ?p j mod 32" if "?p i div 32 = ?p j div 32"
    using o e that div_mult_mod_eq [of "?p i" 32] div_mult_mod_eq [of "?p j" 32] by linarith
  moreover have "offset st = 0 \<and> ?p i div 32 + snd (fs ! i) \<le> ?p j div 32" if "snd (fs ! i) > 1"
  proof -
    have "fst (fs ! i) = 32" using ok [of i] assms(3,4) that by (simp add: field_ok_def)
    then have "offset st = 0" using i(2) by simp
    moreover have "(?p i + 32 * snd (fs ! i)) div 32 \<le> ?p j div 32"
      using o that by (intro div_le_mono) (simp add: extent_def)
    ultimately show ?thesis by simp
  qed
  moreover have "storage_bytes st (fs ! i) \<inter> storage_bytes st' (fs ! j) = {}"
    using storage_bytes_window [OF pl ok, of i] storage_bytes_window [OF pl ok, of j] o assms(3-6) by fastforce
  ultimately show ?thesis using i j by auto
qed

theorem layout_no_overlap_witness:
  "storage_bytes (layout_chain FIRST [(20, 1), (32, 3), (1, 1)] ! 1) (32, 3) \<inter>
     storage_bytes (layout_chain FIRST [(20, 1), (32, 3), (1, 1)] ! 2) (1, 1) = {} \<and>
   slot (layout_chain FIRST [(20, 1), (32, 3), (1, 1)] ! 1) + 3 \<le> slot (layout_chain FIRST [(20, 1), (32, 3), (1, 1)] ! 2)"
proof -
  let ?fs = "[(20, 1), (32, 3), (1, 1)] :: (nat \<times> nat) list"
  have "list_all field_ok ?fs" "chain_size ?fs + 64 < usize_limit" "1 < (2 :: nat)" "2 < length ?fs"
    by (simp_all add: field_ok_def chain_size_def usize_limit_def)
  from layout_no_overlap [OF this refl refl]
  show ?thesis by (simp del: layout_chain.simps)
qed

end
