(* ===== verification/StaticCodec.thy ===== *)
theory StaticCodec
  imports AbiCorrect Layout
begin

text \<open>
  The slot-buffer half of \<open>storage_codec.rs\<close>: \<open>StorageEncode\<close>'s constants, \<open>StaticStorageEncode\<close>,
  \<open>StaticStorageDecode\<close> and \<open>StoragePackable\<close> as a dictionary (\<open>static_codec\<close>), and the
  implementations for the primitives, \<open>[T; N]\<close> and tuples as functions that return one.
  \<open>None\<close> is a panic. The abstract specification of a value's slots is \<open>slots_of\<close>; the locale
  \<open>slot_codec\<close> states that a dictionary writes and reads exactly those slots, and every
  implementation is an interpretation of it.
\<close>

section \<open>The dictionary\<close>

record static_codec =
  STORAGE_SLOTS :: nat
  PACKED_BYTES :: nat
  encode_slot :: "sol_val \<Rightarrow> nat \<Rightarrow> bytes \<Rightarrow> bytes option"
  from_slots :: "bytes list \<Rightarrow> sol_val option"
  pack_into :: "sol_val \<Rightarrow> bytes \<Rightarrow> nat \<Rightarrow> bytes option"
  unpack_from :: "bytes \<Rightarrow> nat \<Rightarrow> sol_val option"

definition layout_step_encode :: "static_codec \<Rightarrow> layout_state \<Rightarrow> layout_state" where
  "layout_step_encode c prev = layout_step prev (PACKED_BYTES c) (STORAGE_SLOTS c)"

section \<open>Primitives\<close>

fun prim_packed :: "prim \<Rightarrow> nat" where
  "prim_packed U256 = 32"
| "prim_packed U128 = 16"
| "prim_packed U64 = 8"
| "prim_packed U32 = 4"
| "prim_packed U16 = 2"
| "prim_packed U8 = 1"
| "prim_packed I256 = 32"
| "prim_packed I128 = 16"
| "prim_packed I64 = 8"
| "prim_packed I32 = 4"
| "prim_packed I16 = 2"
| "prim_packed I8 = 1"
| "prim_packed Bool = 1"
| "prim_packed Address = 20"
| "prim_packed (BytesN n) = n"

fun prim_pack_into :: "prim_val \<Rightarrow> bytes \<Rightarrow> nat \<Rightarrow> bytes option" where
  "prim_pack_into (VU256 v) buf off = Some (to_be v)"
| "prim_pack_into (VU128 v) buf off = copy_at buf off (to_be v)"
| "prim_pack_into (VU64 v) buf off = copy_at buf off (to_be v)"
| "prim_pack_into (VU32 v) buf off = copy_at buf off (to_be v)"
| "prim_pack_into (VU16 v) buf off = copy_at buf off (to_be v)"
| "prim_pack_into (VU8 v) buf off = copy_at buf off (to_be v)"
| "prim_pack_into (VI256 v) buf off = Some (to_be v)"
| "prim_pack_into (VI128 v) buf off = copy_at buf off (to_be v)"
| "prim_pack_into (VI64 v) buf off = copy_at buf off (to_be v)"
| "prim_pack_into (VI32 v) buf off = copy_at buf off (to_be v)"
| "prim_pack_into (VI16 v) buf off = copy_at buf off (to_be v)"
| "prim_pack_into (VI8 v) buf off = copy_at buf off (to_be v)"
| "prim_pack_into (VBool v) buf off =
     (if off < length buf then Some (buf[off := if v then 1 else 0]) else None)"
| "prim_pack_into (VAddress a) buf off = copy_at buf off a"
| "prim_pack_into (VBytesN bs) buf off = copy_at buf off bs"

fun prim_unpack_from :: "prim \<Rightarrow> bytes \<Rightarrow> nat \<Rightarrow> prim_val option" where
  "prim_unpack_from U256 buf off = Some (VU256 (from_be buf))"
| "prim_unpack_from U128 buf off = map_option (\<lambda>b. VU128 (from_be b)) (get_range buf off (off + 16))"
| "prim_unpack_from U64 buf off = map_option (\<lambda>b. VU64 (from_be b)) (get_range buf off (off + 8))"
| "prim_unpack_from U32 buf off = map_option (\<lambda>b. VU32 (from_be b)) (get_range buf off (off + 4))"
| "prim_unpack_from U16 buf off = map_option (\<lambda>b. VU16 (from_be b)) (get_range buf off (off + 2))"
| "prim_unpack_from U8 buf off = map_option (\<lambda>b. VU8 (from_be b)) (get_range buf off (off + 1))"
| "prim_unpack_from I256 buf off = Some (VI256 (from_be buf))"
| "prim_unpack_from I128 buf off = map_option (\<lambda>b. VI128 (from_be b)) (get_range buf off (off + 16))"
| "prim_unpack_from I64 buf off = map_option (\<lambda>b. VI64 (from_be b)) (get_range buf off (off + 8))"
| "prim_unpack_from I32 buf off = map_option (\<lambda>b. VI32 (from_be b)) (get_range buf off (off + 4))"
| "prim_unpack_from I16 buf off = map_option (\<lambda>b. VI16 (from_be b)) (get_range buf off (off + 2))"
| "prim_unpack_from I8 buf off = map_option (\<lambda>b. VI8 (from_be b)) (get_range buf off (off + 1))"
| "prim_unpack_from Bool buf off = map_option (\<lambda>b. VBool (b \<noteq> 0)) (get_idx buf off)"
| "prim_unpack_from Address buf off = map_option VAddress (get_range buf off (off + 20))"
| "prim_unpack_from (BytesN n) buf off = map_option VBytesN (get_range buf off (off + n))"

text \<open>\<open>encode_slot\<close> packs at the low end of a zeroed buffer; \<open>U256\<close> and \<open>I256\<close> overwrite it.\<close>

definition prim_encode_slot :: "prim \<Rightarrow> prim_val \<Rightarrow> nat \<Rightarrow> bytes \<Rightarrow> bytes option" where
  "prim_encode_slot p v idx buf =
     (if p = U256 \<or> p = I256 then prim_pack_into v buf 0
      else prim_pack_into v (replicate 32 0) (32 - prim_packed p))"

definition prim_from_slots :: "prim \<Rightarrow> bytes list \<Rightarrow> prim_val option" where
  "prim_from_slots p slots =
     Option.bind (get_idx slots 0) (\<lambda>slot0. prim_unpack_from p slot0 (32 - prim_packed p))"

definition static_prim :: "prim \<Rightarrow> static_codec" where
  "static_prim p =
     \<lparr> STORAGE_SLOTS = 1, PACKED_BYTES = prim_packed p,
       encode_slot = \<lambda>v idx buf. prim_encode_slot p (val_prim v) idx buf,
       from_slots = \<lambda>slots. map_option VPrim (prim_from_slots p slots),
       pack_into = \<lambda>v buf off. prim_pack_into (val_prim v) buf off,
       unpack_from = \<lambda>buf off. map_option VPrim (prim_unpack_from p buf off) \<rparr>"

section \<open>Fixed-size arrays\<close>

definition div_ceil :: "nat \<Rightarrow> nat \<Rightarrow> nat" where
  "div_ceil a b = (if a mod b > 0 then a div b + 1 else a div b)"

text \<open>The sub-word loop of \<open>encode_slot\<close>, over \<open>self[start..end]\<close> from position \<open>within\<close>.\<close>

fun array_pack :: "static_codec \<Rightarrow> sol_val list \<Rightarrow> nat \<Rightarrow> bytes \<Rightarrow> bytes option" where
  "array_pack c [] within buf = Some buf"
| "array_pack c (elem # es) within buf =
     (let p = PACKED_BYTES c; off = 32 - p * (within + 1); elem_start = 32 - p in
      Option.bind (encode_slot c elem 0 (replicate 32 0)) (\<lambda>tmp.
      Option.bind (get_range tmp elem_start (elem_start + p)) (\<lambda>w.
      Option.bind (copy_at buf off w) (\<lambda>buf.
      array_pack c es (within + 1) buf))))"

definition array_encode_slot :: "static_codec \<Rightarrow> nat \<Rightarrow> sol_val list \<Rightarrow> nat \<Rightarrow> bytes \<Rightarrow> bytes option" where
  "array_encode_slot c n self slot_idx buf =
     (let buf = replicate 32 0 in
      if PACKED_BYTES c < 32 then
        (let density = 32 div PACKED_BYTES c;
             start = slot_idx * density;
             stop = min ((slot_idx + 1) * density) n
         in if start \<le> stop \<and> stop \<le> length self
            then array_pack c (take (stop - start) (drop start self)) 0 buf else None)
      else if STORAGE_SLOTS c = 1 then
        Option.bind (get_idx self slot_idx) (\<lambda>elem. encode_slot c elem 0 buf)
      else
        Option.bind (get_idx self (slot_idx div STORAGE_SLOTS c)) (\<lambda>elem.
          encode_slot c elem (slot_idx mod STORAGE_SLOTS c) buf))"

text \<open>\<open>slots[i..j]\<close>.\<close>

definition slot_range :: "bytes list \<Rightarrow> nat \<Rightarrow> nat \<Rightarrow> bytes list option" where
  "slot_range slots i j = (if i \<le> j \<and> j \<le> length slots then Some (take (j - i) (drop i slots)) else None)"

definition array_elem_from :: "static_codec \<Rightarrow> bytes list \<Rightarrow> nat \<Rightarrow> sol_val option" where
  "array_elem_from c slots i =
     (if PACKED_BYTES c < 32 then
        (let p = PACKED_BYTES c; density = 32 div p; slot_idx = i div density; within = i mod density;
             off = 32 - p * (within + 1); elem_start = 32 - p
         in Option.bind (get_idx slots slot_idx) (\<lambda>sl.
            Option.bind (get_range sl off (off + p)) (\<lambda>w.
            Option.bind (copy_at (replicate 32 0) elem_start w) (\<lambda>tmp.
            from_slots c [tmp]))))
      else if STORAGE_SLOTS c = 1 then Option.bind (slot_range slots i (i + 1)) (from_slots c)
      else (let start = i * STORAGE_SLOTS c
            in Option.bind (slot_range slots start (start + STORAGE_SLOTS c)) (from_slots c)))"

fun array_from :: "static_codec \<Rightarrow> bytes list \<Rightarrow> nat \<Rightarrow> nat \<Rightarrow> sol_val list option" where
  "array_from c slots i 0 = Some []"
| "array_from c slots i (Suc r) =
     Option.bind (array_elem_from c slots i) (\<lambda>v.
       map_option ((#) v) (array_from c slots (i + 1) r))"

definition static_array :: "static_codec \<Rightarrow> nat \<Rightarrow> static_codec" where
  "static_array c n =
     \<lparr> STORAGE_SLOTS =
         (if PACKED_BYTES c < 32 then div_ceil n (32 div PACKED_BYTES c) else n * STORAGE_SLOTS c),
       PACKED_BYTES = 32,
       encode_slot = \<lambda>v idx buf. array_encode_slot c n (val_seq v) idx buf,
       from_slots = \<lambda>slots. map_option VSeq (array_from c slots 0 n),
       pack_into = \<lambda>_ _ _. None,
       unpack_from = \<lambda>_ _. None \<rparr>"

section \<open>Tuples\<close>

fun tuple_last :: "layout_state \<Rightarrow> static_codec list \<Rightarrow> layout_state" where
  "tuple_last st [] = st"
| "tuple_last st (c # cs) = tuple_last (layout_step_encode c st) cs"

fun tuple_pack ::
  "layout_state \<Rightarrow> static_codec list \<Rightarrow> sol_val list \<Rightarrow> nat \<Rightarrow> bytes \<Rightarrow> bytes option" where
  "tuple_pack st (c # cs) (v # vs) slot_idx buf =
     (let st = layout_step_encode c st in
      Option.bind (if slot st = slot_idx then pack_into c v buf (offset st) else Some buf) (\<lambda>buf.
        tuple_pack st cs vs slot_idx buf))"
| "tuple_pack st _ _ slot_idx buf = Some buf"

fun tuple_from :: "layout_state \<Rightarrow> static_codec list \<Rightarrow> bytes list \<Rightarrow> sol_val list option" where
  "tuple_from st [] slots = Some []"
| "tuple_from st (c # cs) slots =
     (let st = layout_step_encode c st in
      Option.bind (get_idx slots (slot st)) (\<lambda>sl.
      Option.bind (unpack_from c sl (offset st)) (\<lambda>v.
      map_option ((#) v) (tuple_from st cs slots))))"

definition static_tuple :: "static_codec list \<Rightarrow> static_codec" where
  "static_tuple cs =
     \<lparr> STORAGE_SLOTS = next_slot (tuple_last FIRST cs) + 1, PACKED_BYTES = 32,
       encode_slot = \<lambda>v idx buf. tuple_pack FIRST cs (val_seq v) idx (replicate 32 0),
       from_slots = \<lambda>slots. map_option VSeq (tuple_from FIRST cs slots),
       pack_into = \<lambda>_ _ _. None,
       unpack_from = \<lambda>_ _. None \<rparr>"

text \<open>The implementation the compiler selects, for the static storage types.\<close>

fun static_of :: "sol_ty \<Rightarrow> static_codec" where
  "static_of (TPrim p) = static_prim p"
| "static_of (TArr t n) = static_array (static_of t) n"
| "static_of (TTuple ts) = static_tuple (map static_of ts)"
| "static_of _ = static_tuple []"

text \<open>
  The types that have one: array elements are the \<open>StorageArrayElement\<close>s of the crate, and the
  tuples and arrays a downstream crate may mark; tuple elements are \<open>StoragePackable\<close>.
\<close>

definition array_prim :: "prim \<Rightarrow> bool" where
  "array_prim p = (case p of U8 \<Rightarrow> False | BytesN _ \<Rightarrow> False | _ \<Rightarrow> True)"

fun storable :: "sol_ty \<Rightarrow> bool" where
  "storable (TPrim p) = prim_wf p"
| "storable (TArr t n) = (1 \<le> n \<and> storable t \<and> (case t of TPrim p \<Rightarrow> array_prim p | _ \<Rightarrow> True))"
| "storable (TTuple ts) =
     (1 \<le> length ts \<and> length ts \<le> 8 \<and> list_all (\<lambda>t. case t of TPrim p \<Rightarrow> prim_wf p | _ \<Rightarrow> False) ts)"
| "storable _ = False"

section \<open>The slots of a value\<close>

text \<open>
  The rule of the Solidity compiler: items fill a slot from its low-order end, and one that does
  not fit starts the next slot. The accumulator is the used part of the current slot.
\<close>

definition slot_word :: "bytes \<Rightarrow> bytes" where
  "slot_word w = replicate (32 - length w) 0 @ w"

fun solc_pack :: "bytes \<Rightarrow> bytes list \<Rightarrow> bytes list" where
  "solc_pack used [] = [slot_word used]"
| "solc_pack used (w # ws) =
     (if length used + length w \<le> 32 then solc_pack (w @ used) ws
      else slot_word used # solc_pack w ws)"

text \<open>The bytes of a packed item.\<close>

fun prim_store :: "prim_val \<Rightarrow> bytes" where
  "prim_store (VU256 v) = to_be v"
| "prim_store (VU128 v) = to_be v"
| "prim_store (VU64 v) = to_be v"
| "prim_store (VU32 v) = to_be v"
| "prim_store (VU16 v) = to_be v"
| "prim_store (VU8 v) = to_be v"
| "prim_store (VI256 v) = to_be v"
| "prim_store (VI128 v) = to_be v"
| "prim_store (VI64 v) = to_be v"
| "prim_store (VI32 v) = to_be v"
| "prim_store (VI16 v) = to_be v"
| "prim_store (VI8 v) = to_be v"
| "prim_store (VBool v) = [if v then 1 else 0]"
| "prim_store (VAddress a) = a"
| "prim_store (VBytesN bs) = bs"

definition item :: "sol_val \<Rightarrow> bytes" where
  "item v = prim_store (val_prim v)"

text \<open>\<open>uint8[N]\<close> of a type whose elements share slots, else one element after the other.\<close>

fun slots_of :: "sol_ty \<Rightarrow> sol_val \<Rightarrow> bytes list" where
  "slots_of (TPrim p) v = [slot_word (item v)]"
| "slots_of (TArr (TPrim p) n) v = solc_pack [] (map item (val_seq v))"
| "slots_of (TArr t n) v = concat (map (slots_of t) (val_seq v))"
| "slots_of (TTuple ts) v = solc_pack [] (map item (val_seq v))"
| "slots_of _ v = []"

lemma length_slot_word [simp]: "length w \<le> 32 \<Longrightarrow> length (slot_word w) = 32"
  by (simp add: slot_word_def)

lemma length_prim_store [simp]: "prim_wt p v \<Longrightarrow> length (prim_store v) = prim_packed p"
  by (cases v) (auto simp: prim_wt_def)

lemma prim_packed_bounds: "prim_wf p \<Longrightarrow> 1 \<le> prim_packed p \<and> prim_packed p \<le> 32"
  by (cases p) auto

lemma solc_pack_lengths:
  "length used \<le> 32 \<Longrightarrow> list_all (\<lambda>w. length w \<le> 32) ws \<Longrightarrow> sl \<in> set (solc_pack used ws) \<Longrightarrow> length sl = 32"
  by (induction used ws rule: solc_pack.induct) (auto split: if_splits)

section \<open>What a static implementation promises\<close>

locale slot_codec =
  fixes c :: static_codec and wt :: "sol_val \<Rightarrow> bool" and img :: "sol_val \<Rightarrow> bytes list"
  assumes slots_pos: "wt v \<Longrightarrow> 1 \<le> STORAGE_SLOTS c"
    and packed_le: "wt v \<Longrightarrow> 1 \<le> PACKED_BYTES c \<and> PACKED_BYTES c \<le> 32"
    and img_len: "wt v \<Longrightarrow> length (img v) = STORAGE_SLOTS c"
    and img_slot: "wt v \<Longrightarrow> sl \<in> set (img v) \<Longrightarrow> length sl = 32"
    and encode: "wt v \<Longrightarrow> i < STORAGE_SLOTS c \<Longrightarrow> length buf = 32 \<Longrightarrow>
      encode_slot c v i buf = Some (img v ! i)"
    and decode: "wt v \<Longrightarrow> from_slots c (img v) = Some v"

text \<open>The \<open>StoragePackable\<close> types: one item, packed anywhere in a slot.\<close>

locale packable_codec = slot_codec +
  fixes word :: "sol_val \<Rightarrow> bytes"
  assumes one_slot: "STORAGE_SLOTS c = 1"
    and word_len: "wt v \<Longrightarrow> length (word v) = PACKED_BYTES c"
    and img_word: "wt v \<Longrightarrow> img v = [slot_word (word v)]"
    and pack: "wt v \<Longrightarrow> length buf = 32 \<Longrightarrow> off + PACKED_BYTES c \<le> 32 \<Longrightarrow>
      pack_into c v buf off = copy_at buf off (word v)"
    and unpack: "wt v \<Longrightarrow> length buf = 32 \<Longrightarrow> get_range buf off (off + PACKED_BYTES c) = Some (word v) \<Longrightarrow>
      unpack_from c buf off = Some v"
    and unpack_local: "length buf = 32 \<Longrightarrow> length buf' = 32 \<Longrightarrow> off + PACKED_BYTES c \<le> 32 \<Longrightarrow>
      get_range buf off (off + PACKED_BYTES c) = get_range buf' off (off + PACKED_BYTES c) \<Longrightarrow>
      unpack_from c buf off = unpack_from c buf' off"

section \<open>The primitives\<close>

definition prim_ok :: "prim \<Rightarrow> sol_val \<Rightarrow> bool" where
  "prim_ok p v \<longleftrightarrow> prim_wf p \<and> (\<exists>q. v = VPrim q \<and> prim_wt p q)"

lemma copy_at_full: "length w = length buf \<Longrightarrow> copy_at buf 0 w = Some w"
  by (simp add: copy_at_def)

lemma get_range_full: "get_range buf off (off + length buf) = Some w \<Longrightarrow> w = buf"
  by (auto simp: get_range_def split: if_splits)

lemma bool_copy: "off < length buf \<Longrightarrow> Some (buf[off := b]) = copy_at buf off [b]"
  by (simp add: copy_at_def upd_conv_take_nth_drop)

lemma prim_pack_copy:
  assumes "prim_wt p v" "length buf = 32" "off + prim_packed p \<le> 32"
  shows "prim_pack_into v buf off = copy_at buf off (prim_store v)"
  using assms by (cases v) (auto simp: prim_wt_def copy_at_full bool_copy)

lemma get_range_idx: "get_range buf off (Suc off) = Some [b] \<Longrightarrow> get_idx buf off = Some b"
proof -
  assume "get_range buf off (Suc off) = Some [b]"
  then have "off < length buf" "take 1 (drop off buf) = [b]" by (auto simp: get_range_def split: if_splits)
  then show ?thesis by (simp add: get_idx_def take_Suc hd_drop_conv_nth)
qed

lemma prim_unpack_copy:
  assumes "prim_wt p v" "length buf = 32" "get_range buf off (off + prim_packed p) = Some (prim_store v)"
  shows "prim_unpack_from p buf off = Some v"
  using assms by (cases v)
    (auto simp: prim_wt_def dest!: get_range_idx get_range_full [of buf off, simplified assms(2)])

lemma get_idx_range: "off < length buf \<Longrightarrow> get_idx buf off = map_option hd (get_range buf off (Suc off))"
  by (simp add: get_idx_def get_range_def hd_drop_conv_nth)

lemma prim_unpack_local:
  assumes "length buf = 32" "length buf' = 32" "off + prim_packed p \<le> 32"
    and "get_range buf off (off + prim_packed p) = get_range buf' off (off + prim_packed p)"
  shows "prim_unpack_from p buf off = prim_unpack_from p buf' off"
proof -
  have full: "buf = buf'" if "prim_packed p = 32"
    using assms that by (simp add: get_range_def)
  have idx: "get_idx buf off = get_idx buf' off" if "prim_packed p = 1"
    using assms that by (simp add: get_idx_range)
  show ?thesis using assms(4) full idx by (cases p) simp_all
qed

lemma prim_encode_slot_is:
  assumes "prim_wf p" "prim_wt p v" "length buf = 32"
  shows "prim_encode_slot p v i buf = Some (slot_word (prim_store v))"
proof (cases "p = U256 \<or> p = I256")
  case True
  then show ?thesis
    using assms by (cases v) (auto simp: prim_encode_slot_def prim_wt_def slot_word_def)
next
  case False
  have l: "length (prim_store v) = prim_packed p" "prim_packed p \<le> 32"
    using assms prim_packed_bounds by auto
  have "prim_encode_slot p v i buf = copy_at (replicate 32 0) (32 - prim_packed p) (prim_store v)"
    using False assms l by (simp add: prim_encode_slot_def prim_pack_copy)
  then show ?thesis using l by (simp add: copy_at_def slot_word_def)
qed

lemma prim_from_slots_is:
  assumes "prim_wf p" "prim_wt p v"
  shows "prim_from_slots p [slot_word (prim_store v)] = Some v"
proof -
  have l: "length (prim_store v) = prim_packed p" "prim_packed p \<le> 32"
    using assms prim_packed_bounds by auto
  then have "get_range (slot_word (prim_store v)) (32 - prim_packed p) (32 - prim_packed p + prim_packed p)
      = Some (prim_store v)"
    by (simp add: slot_word_def get_range_def)
  then show ?thesis
    using prim_unpack_copy [OF assms(2), of "slot_word (prim_store v)" "32 - prim_packed p"] l
    by (simp add: prim_from_slots_def get_idx_def)
qed

interpretation st_prim: packable_codec "static_prim p" "prim_ok p" "\<lambda>v. [slot_word (item v)]" item for p
proof unfold_locales
  show "unpack_from (static_prim p) buf off = unpack_from (static_prim p) buf' off"
    if "length buf = 32" "length buf' = 32" "off + PACKED_BYTES (static_prim p) \<le> 32"
      "get_range buf off (off + PACKED_BYTES (static_prim p)) = get_range buf' off (off + PACKED_BYTES (static_prim p))"
    for buf buf' off
  proof -
    have "prim_unpack_from p buf off = prim_unpack_from p buf' off"
      using that by (intro prim_unpack_local) (simp_all add: static_prim_def)
    then show ?thesis by (simp only: static_prim_def static_codec.simps)
  qed
qed (auto simp: static_prim_def prim_ok_def item_def prim_packed_bounds prim_encode_slot_is
      prim_from_slots_is prim_pack_copy prim_unpack_copy dest: prim_packed_bounds)

section \<open>Arrays\<close>

lemma div_ceil_less: "0 < d \<Longrightarrow> j < div_ceil n d \<longleftrightarrow> j * d < n"
proof -
  assume d: "0 < d"
  have n: "n = n div d * d + n mod d" "n mod d < d" using d by simp_all
  show ?thesis
  proof (cases "n mod d = 0")
    case True
    then have "n = n div d * d" using n(1) by simp
    then show ?thesis using d True by (metis div_ceil_def less_irrefl mult_less_cancel2)
  next
    case False
    have "j < n div d + 1 \<longleftrightarrow> j * d < n"
    proof
      assume "j < n div d + 1"
      then have "j * d \<le> n div d * d" by (intro mult_le_mono1) simp
      then show "j * d < n" using n False by linarith
    next
      assume "j * d < n"
      also have "n < (n div d + 1) * d" using n by (metis add.commute add_less_cancel_left mult.commute mult_Suc_right Suc_eq_plus1)
      finally have "j * d < (n div d + 1) * d" .
      then show "j < n div d + 1" by (metis mult_less_cancel2)
    qed
    then show ?thesis using False by (simp add: div_ceil_def)
  qed
qed

lemma div_ceil_step: "0 < d \<Longrightarrow> d < n \<Longrightarrow> div_ceil n d = Suc (div_ceil (n - d) d)"
  by (simp add: div_ceil_def le_div_geq le_mod_geq)

lemma div_ceil_one: "1 \<le> n \<Longrightarrow> n \<le> d \<Longrightarrow> div_ceil n d = 1"
  by (cases "n = d") (auto simp: div_ceil_def)

lemma density: "1 \<le> p \<Longrightarrow> p * (k + 1) \<le> 32 \<longleftrightarrow> k + 1 \<le> 32 div p" for p k :: nat
  by (metis less_eq_div_iff_mult_less_eq mult.commute not_one_le_zero gr0I)

lemma solc_pack_uniform:
  assumes "\<forall>w \<in> set ws. length w = p" "1 \<le> p" "p \<le> 32" "k \<le> 32 div p" "length used = p * k"
  shows "solc_pack used ws =
    (if k + length ws \<le> 32 div p then [slot_word (concat (rev ws) @ used)]
     else slot_word (concat (rev (take (32 div p - k) ws)) @ used) # solc_pack [] (drop (32 div p - k) ws))"
  using assms
proof (induction ws arbitrary: used k)
  case (Cons w ws)
  show ?case
  proof (cases "k + 1 \<le> 32 div p")
    case True
    have "p * (k + 1) \<le> 32" using density Cons.prems(2) True by blast
    then have "solc_pack used (w # ws) = solc_pack (w @ used) ws"
      using Cons.prems by (simp add: algebra_simps)
    also have "\<dots> = (if k + 1 + length ws \<le> 32 div p then [slot_word (concat (rev ws) @ w @ used)]
       else slot_word (concat (rev (take (32 div p - (k + 1)) ws)) @ w @ used) #
         solc_pack [] (drop (32 div p - (k + 1)) ws))"
      using Cons.prems True by (intro Cons.IH) (simp_all add: algebra_simps)
    moreover obtain m where "32 div p - k = Suc m" "32 div p - (k + 1) = m"
      using True by (metis Suc_diff_le Suc_eq_plus1 diff_Suc_Suc)
    ultimately show ?thesis by simp
  next
    case False
    then have k: "k = 32 div p" using Cons.prems(4) by linarith
    have "\<not> p * (k + 1) \<le> 32" using density Cons.prems(2) False by blast
    then show ?thesis using Cons.prems k by (simp add: algebra_simps slot_word_def)
  qed
qed simp

lemma solc_pack_chunks:
  assumes "\<forall>w \<in> set ws. length w = p" "1 \<le> p" "p \<le> 32" "ws \<noteq> []"
  shows "length (solc_pack [] ws) = div_ceil (length ws) (32 div p) \<and>
    (\<forall>j < div_ceil (length ws) (32 div p).
       solc_pack [] ws ! j = slot_word (concat (rev (take (32 div p) (drop (j * (32 div p)) ws)))))"
  using assms
proof (induction "length ws" arbitrary: ws rule: less_induct)
  case less
  let ?d = "32 div p"
  have d: "1 \<le> ?d" using less.prems(2,3) by (simp add: Suc_le_eq div_greater_zero_iff)
  have u: "solc_pack [] ws = (if length ws \<le> ?d then [slot_word (concat (rev ws))]
     else slot_word (concat (rev (take ?d ws))) # solc_pack [] (drop ?d ws))"
    using solc_pack_uniform [OF less.prems(1-3), of 0 "[]"] by simp
  show ?case
  proof (cases "length ws \<le> ?d")
    case True
    have "div_ceil (length ws) ?d = 1"
      using True less.prems(4) by (intro div_ceil_one) (simp_all add: Suc_le_eq)
    then show ?thesis using u True by simp
  next
    case False
    define r where "r = drop ?d ws"
    have r: "length r < length ws" "\<forall>w \<in> set r. length w = p" "r \<noteq> []" "length r = length ws - ?d"
      using False d less.prems(1) by (auto simp: r_def dest: in_set_dropD)
    note ih = less.hyps [OF r(1,2) less.prems(2,3) r(3)]
    have n: "div_ceil (length ws) ?d = Suc (div_ceil (length r) ?d)"
      using False d r(4) by (simp add: div_ceil_step)
    have e: "solc_pack [] ws = slot_word (concat (rev (take ?d ws))) # solc_pack [] r"
      using u False by (simp add: r_def)
    show ?thesis
      unfolding n e using ih by (auto simp: nth_Cons r_def add.commute split: nat.splits)
  qed
qed

definition arr_ok :: "(sol_val \<Rightarrow> bool) \<Rightarrow> nat \<Rightarrow> sol_val \<Rightarrow> bool" where
  "arr_ok wt n v \<longleftrightarrow> 1 \<le> n \<and> (\<exists>vs. v = VSeq vs \<and> length vs = n \<and> list_all wt vs)"

lemma length_concat_uniform: "\<forall>w \<in> set ws. length w = p \<Longrightarrow> length (concat ws) = p * length ws"
  by (induction ws) auto

lemma array_from_elems:
  "\<forall>j < length vs. array_elem_from c slots (i + j) = Some (vs ! j) \<Longrightarrow>
   array_from c slots i (length vs) = Some vs"
proof (induction vs arbitrary: i)
  case (Cons v vs)
  have "array_elem_from c slots i = Some v" using Cons.prems by (metis add_0_right length_greater_0_conv list.simps(3) nth_Cons_0)
  moreover have "array_from c slots (i + 1) (length vs) = Some vs"
  proof (rule Cons.IH, intro allI impI)
    fix j assume "j < length vs"
    then show "array_elem_from c slots (i + 1 + j) = Some (vs ! j)"
      using Cons.prems [rule_format, of "Suc j"] by simp
  qed
  ultimately show ?case by simp
qed simp

context packable_codec
begin

lemma encode_word: "wt v \<Longrightarrow> encode_slot c v 0 (replicate 32 0) = Some (slot_word (word v))"
  using encode [of v 0 "replicate 32 0"] one_slot img_word [of v] by simp

lemma word_bounds: "wt v \<Longrightarrow> 1 \<le> length (word v) \<and> length (word v) \<le> 32"
  using word_len packed_le by simp

lemma pack_front:
  assumes "wt v" "length w = length (word v)" "length used + length (word v) \<le> 32"
  shows "copy_at (slot_word used) (32 - (length used + length (word v))) (word v) =
    Some (slot_word (word v @ used))"
  using assms by (simp add: copy_at_def slot_word_def add.commute)

lemma array_pack_is:
  assumes "list_all wt es" "PACKED_BYTES c * (k + length es) \<le> 32" "length used = PACKED_BYTES c * k"
  shows "array_pack c es k (slot_word used) = Some (slot_word (concat (rev (map word es)) @ used))"
  using assms
proof (induction es arbitrary: k used)
  case (Cons e es)
  let ?p = "PACKED_BYTES c"
  have e: "wt e" and l: "length (word e) = ?p" "?p \<le> 32"
    using Cons.prems(1) word_len packed_le by auto
  have g: "get_range (slot_word (word e)) (32 - ?p) (32 - ?p + ?p) = Some (word e)"
    using l by (simp add: slot_word_def get_range_def)
  have fit: "length used + ?p \<le> 32" "?p * (k + 1) = length used + ?p"
    using Cons.prems(2,3) by (simp_all add: algebra_simps)
  have "copy_at (slot_word used) (32 - ?p * (k + 1)) (word e) = Some (slot_word (word e @ used))"
    unfolding fit(2) using pack_front [OF e, of "word e" used] fit l by simp
  moreover have "array_pack c es (k + 1) (slot_word (word e @ used)) =
      Some (slot_word (concat (rev (map word es)) @ word e @ used))"
    using Cons.prems l by (intro Cons.IH) (simp_all add: algebra_simps)
  ultimately show ?case
    using encode_word [OF e] g by (simp add: Let_def)
qed simp

lemma sub_word_elem:
  assumes "PACKED_BYTES c < 32" "list_all wt vs" "i < length vs"
  shows "array_elem_from c (solc_pack [] (map word vs)) i = Some (vs ! i)"
proof -
  let ?p = "PACKED_BYTES c" let ?d = "32 div ?p"
  let ?w = "word (vs ! i)"
  have vi: "wt (vs ! i)" using assms(2,3) by (simp add: list_all_length)
  have p: "1 \<le> ?p" "?p \<le> 32" using packed_le [OF vi] by simp_all
  then have d: "1 \<le> ?d" by (simp add: Suc_le_eq div_greater_zero_iff)
  have ws: "\<forall>w \<in> set (map word vs). length w = ?p" "map word vs \<noteq> []"
    using assms word_len by (auto simp: list_all_iff)
  define q where "q = i div ?d"
  define k where "k = i mod ?d"
  have i: "i = q * ?d + k" unfolding q_def k_def by (rule div_mult_mod_eq [symmetric])
  have "k < ?d" using d by (simp add: k_def)
  note ik = i this
  then have "q < div_ceil (length (map word vs)) ?d"
    using assms(3) d div_ceil_less [of ?d q] by simp
  then have slot: "get_idx (solc_pack [] (map word vs)) q =
      Some (slot_word (concat (rev (take ?d (drop (q * ?d) (map word vs))))))"
    using solc_pack_chunks [OF ws(1) p ws(2)] by (simp add: get_idx_def)
  define ch where "ch = take ?d (drop (q * ?d) (map word vs))"
  have ch: "k < length ch" "ch ! k = ?w" "\<forall>w \<in> set ch. length w = ?p" "length ch \<le> ?d"
    using ik assms(3) ws(1) by (auto simp: ch_def dest!: in_set_takeD in_set_dropD)
  then have split: "ch = take k ch @ ?w # drop (Suc k) ch"
    using id_take_nth_drop [of k ch] by simp
  define lo where "lo = concat (rev (take k ch))"
  define hi where "hi = concat (rev (drop (Suc k) ch))"
  have cr: "concat (rev ch) = hi @ ?w @ lo"
    by (subst split) (simp add: lo_def hi_def)
  have len: "length lo = ?p * k" "length ?w = ?p" "length (concat (rev ch)) = ?p * length ch"
    using ch length_concat_uniform [of "rev (take k ch)" ?p] length_concat_uniform [of "rev ch" ?p] vi word_len
    by (auto simp: lo_def dest: in_set_takeD)
  have "?p * length ch \<le> ?p * ?d" using ch(4) by (rule mult_le_mono2)
  also have "?p * ?d \<le> 32" by (rule times_div_less_eq_dividend)
  finally have le: "length hi + ?p + length lo \<le> 32" using len cr by simp
  define m where "m = 32 - (length hi + ?p + length lo)"
  have m: "32 - ?p * (k + 1) = m + length hi" "m + length hi + ?p + length lo = 32"
    using le len(1) by (simp_all add: m_def)
  have "slot_word (concat (rev ch)) = (replicate m 0 @ hi) @ ?w @ lo"
    using len(2) by (simp add: slot_word_def cr m_def add.assoc)
  then have "get_range (slot_word (concat (rev ch))) (32 - ?p * (k + 1)) (32 - ?p * (k + 1) + ?p) = Some ?w"
    using m len(2) get_range_append [of "m + length hi" "replicate m 0 @ hi" "m + length hi + ?p" ?w lo]
    by simp
  moreover have "copy_at (replicate 32 0) (32 - ?p) ?w = Some (slot_word ?w)"
    using len(2) p by (simp add: copy_at_def slot_word_def)
  moreover have "from_slots c [slot_word ?w] = Some (vs ! i)"
    using decode [OF vi] img_word [OF vi] by simp
  ultimately show ?thesis
    using assms(1) slot unfolding array_elem_from_def q_def [symmetric] k_def [symmetric] ch_def [symmetric] Let_def
    by simp
qed

lemma sub_word_from:
  assumes "PACKED_BYTES c < 32" "list_all wt vs"
  shows "array_from c (solc_pack [] (map word vs)) 0 (length vs) = Some vs"
  using array_from_elems [of vs c "solc_pack [] (map word vs)" 0] sub_word_elem [OF assms] by simp

lemma sub_word_array:
  assumes "PACKED_BYTES c < 32"
  shows "slot_codec (static_array c n) (arr_ok wt n) (\<lambda>v. solc_pack [] (map word (val_seq v)))"
proof
  let ?p = "PACKED_BYTES c" let ?d = "32 div ?p"
  fix v assume v: "arr_ok wt n v"
  then obtain vs where vs: "v = VSeq vs" "length vs = n" "list_all wt vs" "1 \<le> n"
    by (auto simp: arr_ok_def)
  obtain e where "e \<in> set vs" "wt e" using vs by (cases vs) auto
  then have p: "1 \<le> ?p" "?p \<le> 32" using packed_le by auto
  then have d: "1 \<le> ?d" by (simp add: Suc_le_eq div_greater_zero_iff)
  have ws: "\<forall>w \<in> set (map word vs). length w = ?p" "map word vs \<noteq> []"
    using vs word_len by (auto simp: list_all_iff)
  note chunks = solc_pack_chunks [OF ws(1) p ws(2)]
  have slots: "STORAGE_SLOTS (static_array c n) = div_ceil n ?d"
    using assms by (simp add: static_array_def)
  have pos: "1 \<le> div_ceil n ?d"
    using div_ceil_less [of ?d 0 n] d vs(4) by simp
  show "1 \<le> STORAGE_SLOTS (static_array c n)" using slots pos by simp
  show "1 \<le> PACKED_BYTES (static_array c n) \<and> PACKED_BYTES (static_array c n) \<le> 32"
    by (simp add: static_array_def)
  show "length (solc_pack [] (map word (val_seq v))) = STORAGE_SLOTS (static_array c n)"
    using chunks slots vs by simp
  show "length sl = 32" if "sl \<in> set (solc_pack [] (map word (val_seq v)))" for sl
    using that vs ws(1) p by (intro solc_pack_lengths) (auto simp: list_all_iff)
  show "encode_slot (static_array c n) v i buf = Some (solc_pack [] (map word (val_seq v)) ! i)"
    if i: "i < STORAGE_SLOTS (static_array c n)" for i buf
  proof -
    have lt: "i * ?d < n" using i slots div_ceil_less d by simp
    define es where "es = take ?d (drop (i * ?d) vs)"
    have "(i + 1) * ?d = i * ?d + ?d" by simp
    then have es: "take (min ((i + 1) * ?d) n - i * ?d) (drop (i * ?d) vs) = es"
      using vs(2) lt by (simp add: min_def es_def)
    have "?p * length es \<le> ?p * ?d" by (rule mult_le_mono2) (simp add: es_def)
    also have "?p * ?d \<le> 32" by (rule times_div_less_eq_dividend)
    finally have "?p * (0 + length es) \<le> 32" by simp
    moreover have "list_all wt es"
      using vs(3) unfolding es_def list_all_iff by (meson in_set_dropD in_set_takeD)
    ultimately have "array_pack c es 0 (slot_word []) = Some (slot_word (concat (rev (map word es))))"
      using array_pack_is [of es 0 "[]"] by simp
    moreover have "slot_word [] = replicate 32 0" by (simp add: slot_word_def)
    ultimately show ?thesis
      using chunks i slots assms lt vs es
      by (simp add: static_array_def array_encode_slot_def Let_def take_map drop_map es_def)
  qed
  show "from_slots (static_array c n) (solc_pack [] (map word (val_seq v))) = Some v"
    using sub_word_from [OF assms vs(3)] vs by (simp add: static_array_def)
qed

end

lemma concat_uniform:
  assumes "\<forall>xs \<in> set xss. length xs = m"
  shows "i < length xss \<Longrightarrow> take m (drop (i * m) (concat xss)) = xss ! i"
    and "0 < m \<Longrightarrow> i < m * length xss \<Longrightarrow> concat xss ! i = xss ! (i div m) ! (i mod m)"
proof -
  show a: "take m (drop (i * m) (concat xss)) = xss ! i" if "i < length xss" for i
    using assms that
  proof (induction xss arbitrary: i)
    case (Cons xs xss)
    then show ?case by (cases i) simp_all
  qed simp
  show "concat xss ! i = xss ! (i div m) ! (i mod m)" if m: "0 < m" and i: "i < m * length xss"
  proof -
    have q: "i div m < length xss" using m i by (simp add: div_less_iff_less_mult mult.commute)
    have im: "i = i div m * m + i mod m" by simp
    have l: "length (concat xss) = m * length xss" using assms by (rule length_concat_uniform)
    have "xss ! (i div m) ! (i mod m) = take m (drop (i div m * m) (concat xss)) ! (i mod m)"
      using a [OF q] by simp
    also have "\<dots> = drop (i div m * m) (concat xss) ! (i mod m)"
      using m by (intro nth_take) simp
    also have "\<dots> = concat xss ! (i div m * m + i mod m)"
      using m q l by (intro nth_drop) simp
    finally show ?thesis using im by simp
  qed
qed

context slot_codec
begin

lemma full_word_elem:
  assumes "PACKED_BYTES c = 32" "list_all wt vs" "i < length vs"
  shows "array_elem_from c (concat (map img vs)) i = Some (vs ! i)"
proof -
  let ?m = "STORAGE_SLOTS c"
  have u: "\<forall>xs \<in> set (map img vs). length xs = ?m"
    using assms(2) img_len by (auto simp: list_all_iff)
  have t: "take ?m (drop (i * ?m) (concat (map img vs))) = img (vs ! i)"
    using concat_uniform(1) [OF u, of i] assms(3) by simp
  have l: "length (concat (map img vs)) = ?m * length vs"
    using length_concat_uniform [OF u] by simp
  have "(i + 1) * ?m \<le> length vs * ?m" using assms(3) by (intro mult_le_mono1) simp
  then have r: "slot_range (concat (map img vs)) (i * ?m) (i * ?m + ?m) = Some (img (vs ! i))"
    using t l by (simp add: slot_range_def mult.commute)
  have "from_slots c (img (vs ! i)) = Some (vs ! i)"
    using assms(2,3) by (intro decode) (simp add: list_all_length)
  then show ?thesis using assms(1) r by (cases "?m = 1") (simp_all add: array_elem_from_def Let_def)
qed

lemma full_word_array:
  assumes "PACKED_BYTES c = 32"
  shows "slot_codec (static_array c n) (arr_ok wt n) (\<lambda>v. concat (map img (val_seq v)))"
proof
  let ?m = "STORAGE_SLOTS c"
  fix v assume v: "arr_ok wt n v"
  then obtain vs where vs: "v = VSeq vs" "length vs = n" "list_all wt vs" "1 \<le> n"
    by (auto simp: arr_ok_def)
  obtain e where "e \<in> set vs" "wt e" using vs by (cases vs) auto
  then have m: "1 \<le> ?m" using slots_pos by auto
  have u: "\<forall>xs \<in> set (map img vs). length xs = ?m"
    using vs img_len by (auto simp: list_all_iff)
  have slots: "STORAGE_SLOTS (static_array c n) = n * ?m"
    using assms by (simp add: static_array_def)
  show "1 \<le> STORAGE_SLOTS (static_array c n)" using slots m vs(4) by simp
  show "1 \<le> PACKED_BYTES (static_array c n) \<and> PACKED_BYTES (static_array c n) \<le> 32"
    by (simp add: static_array_def)
  show "length (concat (map img (val_seq v))) = STORAGE_SLOTS (static_array c n)"
    using length_concat_uniform [OF u] slots vs by simp
  show "length sl = 32" if "sl \<in> set (concat (map img (val_seq v)))" for sl
    using that vs img_slot by (auto simp: list_all_iff)
  show "encode_slot (static_array c n) v i buf = Some (concat (map img (val_seq v)) ! i)"
    if i: "i < STORAGE_SLOTS (static_array c n)" for i buf
  proof -
    have q: "i div ?m < length vs" "i mod ?m < ?m"
      using i slots m vs(2) by (simp_all add: div_less_iff_less_mult)
    then have w: "wt (vs ! (i div ?m))" using vs(3) by (simp add: list_all_length)
    have "encode_slot c (vs ! (i div ?m)) (i mod ?m) (replicate 32 0) = Some (img (vs ! (i div ?m)) ! (i mod ?m))"
      using encode [OF w q(2)] by simp
    moreover have "concat (map img vs) ! i = img (vs ! (i div ?m)) ! (i mod ?m)"
      using concat_uniform(2) [OF u, of i] m i slots vs(2) q by (simp add: mult.commute)
    ultimately show ?thesis
      using assms vs(1) q
      by (cases "?m = 1") (simp_all add: static_array_def array_encode_slot_def Let_def get_idx_def)
  qed
  show "from_slots (static_array c n) (concat (map img (val_seq v))) = Some v"
    using array_from_elems [of vs c "concat (map img vs)" 0] full_word_elem [OF assms vs(3)] vs
    by (simp add: static_array_def)
qed

end

section \<open>Tuples\<close>

text \<open>The walker's state after the items so far: the current slot holds \<open>used\<close>.\<close>

definition walker_at :: "layout_state \<Rightarrow> bytes \<Rightarrow> bool" where
  "walker_at st used \<longleftrightarrow> length used \<le> 32 \<and> next_space st = 32 - length used"

lemma walker_step:
  assumes "walker_at st used" "1 \<le> length w" "length w \<le> 32" "next_slot st + 1 < usize_limit"
  shows "length used + length w \<le> 32 \<Longrightarrow>
      walker_at (layout_step st (length w) 1) (w @ used) \<and>
      slot (layout_step st (length w) 1) = next_slot st \<and> next_slot (layout_step st (length w) 1) = next_slot st \<and>
      offset (layout_step st (length w) 1) = 32 - (length used + length w)"
    and "\<not> length used + length w \<le> 32 \<Longrightarrow>
      walker_at (layout_step st (length w) 1) w \<and>
      slot (layout_step st (length w) 1) = next_slot st + 1 \<and>
      next_slot (layout_step st (length w) 1) = next_slot st + 1 \<and>
      offset (layout_step st (length w) 1) = 32 - length w"
proof -
  have o1: "(32 - length used + 256 - length w) mod 256 = 32 - length used - length w"
    if "length used + length w \<le> 32"
    using u8_sub [of "length w" "32 - length used"] that by simp
  have o2: "(32 + 256 - length w) mod 256 = 32 - length w"
    using u8_sub [of "length w" 32] assms(3) by simp
  have s1: "\<not> 32 - length used < length w" if "length used + length w \<le> 32"
    using that by linarith
  have s2: "32 - length used < length w" if "\<not> length used + length w \<le> 32"
    using that assms(2) by linarith
  show "length used + length w \<le> 32 \<Longrightarrow>
      walker_at (layout_step st (length w) 1) (w @ used) \<and>
      slot (layout_step st (length w) 1) = next_slot st \<and> next_slot (layout_step st (length w) 1) = next_slot st \<and>
      offset (layout_step st (length w) 1) = 32 - (length used + length w)"
    using assms o1 s1 by (simp add: layout_step_def walker_at_def Let_def add.commute)
  show "\<not> length used + length w \<le> 32 \<Longrightarrow>
      walker_at (layout_step st (length w) 1) w \<and>
      slot (layout_step st (length w) 1) = next_slot st + 1 \<and>
      next_slot (layout_step st (length w) 1) = next_slot st + 1 \<and>
      offset (layout_step st (length w) 1) = 32 - length w"
    using assms o2 s2 by (simp add: layout_step_def walker_at_def Let_def)
qed

lemma step_prim:
  "prim_ok p v \<Longrightarrow> layout_step_encode (static_prim p) st = layout_step st (length (item v)) 1"
  using st_prim.word_len [of p v] by (simp add: layout_step_encode_def static_prim_def)

lemma item_bounds: "prim_ok p v \<Longrightarrow> 1 \<le> length (item v) \<and> length (item v) \<le> 32"
  using st_prim.word_bounds by blast

lemma prim_pack_front:
  assumes "prim_ok p v" "length used + length (item v) \<le> 32"
  shows "pack_into (static_prim p) v (slot_word used) (32 - (length used + length (item v))) =
    Some (slot_word (item v @ used))"
proof -
  have "length (item v) = prim_packed p"
    using st_prim.word_len [OF assms(1)] by (simp add: static_prim_def)
  then show ?thesis
    using st_prim.pack [OF assms(1), of "slot_word used"] st_prim.pack_front [OF assms(1) refl assms(2)] assms
    by (simp add: static_prim_def)
qed

lemma slot_word_Nil: "slot_word [] = replicate 32 0"
  by (simp add: slot_word_def)

definition slot_at :: "bytes list \<Rightarrow> nat \<Rightarrow> bytes" where
  "slot_at slots j = (if j < length slots then slots ! j else replicate 32 0)"

lemma slot_at_simps [simp]:
  "slot_at [] j = replicate 32 0" "slot_at (x # xs) 0 = x" "slot_at (x # xs) (Suc j) = slot_at xs j"
  by (simp_all add: slot_at_def)

lemma tuple_pack_is:
  assumes "list_all2 prim_ok ps vs" "walker_at st used" "next_slot st + length ps + 1 < usize_limit"
    and "j = next_slot st \<Longrightarrow> buf = slot_word used" "next_slot st < j \<Longrightarrow> buf = replicate 32 0"
  shows "tuple_pack st (map static_prim ps) vs j buf =
    Some (if j < next_slot st then buf else slot_at (solc_pack used (map item vs)) (j - next_slot st))"
  using assms
proof (induction ps vs arbitrary: st used buf rule: list_all2_induct)
  case Nil
  then show ?case by (cases "j = next_slot st") (auto simp: slot_at_def)
next
  case (Cons p ps v vs)
  let ?w = "item v"
  let ?st = "layout_step st (length ?w) 1"
  have w: "1 \<le> length ?w" "length ?w \<le> 32" using item_bounds [OF Cons.hyps(1)] by simp_all
  have lim: "next_slot st + 1 < usize_limit" using Cons.prems(2) by simp
  have buf32: "j = next_slot st \<Longrightarrow> length used \<le> 32" using Cons.prems(1) by (simp add: walker_at_def)
  show ?case
  proof (cases "length used + length ?w \<le> 32")
    case True
    note step = walker_step(1) [OF Cons.prems(1) w lim True]
    obtain buf' where b: "(if slot ?st = j then pack_into (static_prim p) v buf (offset ?st) else Some buf) = Some buf'"
      "j = next_slot st \<Longrightarrow> buf' = slot_word (?w @ used)" "j \<noteq> next_slot st \<Longrightarrow> buf' = buf"
      using step prim_pack_front [OF Cons.hyps(1) True] Cons.prems(3) by (cases "j = next_slot st") auto
    have "tuple_pack ?st (map static_prim ps) vs j buf' =
      Some (if j < next_slot ?st then buf' else slot_at (solc_pack (?w @ used) (map item vs)) (j - next_slot ?st))"
      using step b Cons.prems by (intro Cons.IH) auto
    then show ?thesis using b step True step_prim [OF Cons.hyps(1)] by (auto simp: Let_def)
  next
    case False
    note step = walker_step(2) [OF Cons.prems(1) w lim False]
    obtain buf' where b: "(if slot ?st = j then pack_into (static_prim p) v buf (offset ?st) else Some buf) = Some buf'"
      "j = next_slot st + 1 \<Longrightarrow> buf' = slot_word ?w" "j \<noteq> next_slot st + 1 \<Longrightarrow> buf' = buf"
      using step prim_pack_front [OF Cons.hyps(1), of "[]"] w Cons.prems(4)
      by (cases "j = next_slot st + 1") (auto simp: slot_word_Nil)
    have "tuple_pack ?st (map static_prim ps) vs j buf' =
      Some (if j < next_slot ?st then buf' else slot_at (solc_pack ?w (map item vs)) (j - next_slot ?st))"
      using step b Cons.prems by (intro Cons.IH) auto
    moreover have "\<not> j < next_slot ?st \<Longrightarrow> j - next_slot st = Suc (j - next_slot ?st)"
      using step by linarith
    moreover have "j < next_slot ?st \<Longrightarrow> \<not> j < next_slot st \<Longrightarrow> j = next_slot st"
      using step by linarith
    ultimately show ?thesis
      using b step False step_prim [OF Cons.hyps(1)] Cons.prems(3) by (auto simp: Let_def)
  qed
qed

lemma tuple_last_is:
  assumes "list_all2 prim_ok ps vs" "walker_at st used" "next_slot st + length ps + 1 < usize_limit"
  shows "next_slot (tuple_last st (map static_prim ps)) + 1 = next_slot st + length (solc_pack used (map item vs))"
  using assms
proof (induction ps vs arbitrary: st used rule: list_all2_induct)
  case (Cons p ps v vs)
  let ?w = "item v"
  let ?st = "layout_step st (length ?w) 1"
  have w: "1 \<le> length ?w" "length ?w \<le> 32" using item_bounds [OF Cons.hyps(1)] by simp_all
  have lim: "next_slot st + 1 < usize_limit" using Cons.prems(2) by simp
  show ?case
  proof (cases "length used + length ?w \<le> 32")
    case True
    note step = walker_step(1) [OF Cons.prems(1) w lim True]
    have "next_slot (tuple_last ?st (map static_prim ps)) + 1 =
        next_slot ?st + length (solc_pack (?w @ used) (map item vs))"
      using step Cons.prems by (intro Cons.IH) auto
    then show ?thesis using True step step_prim [OF Cons.hyps(1)] by simp
  next
    case False
    note step = walker_step(2) [OF Cons.prems(1) w lim False]
    have "next_slot (tuple_last ?st (map static_prim ps)) + 1 =
        next_slot ?st + length (solc_pack ?w (map item vs))"
      using step Cons.prems by (intro Cons.IH) auto
    then show ?thesis using False step step_prim [OF Cons.hyps(1)] by simp
  qed
qed simp

lemma solc_pack_hd:
  "length used \<le> 32 \<Longrightarrow>
   \<exists>hi rest. solc_pack used ws = slot_word (hi @ used) # rest \<and> length hi + length used \<le> 32"
proof (induction used ws rule: solc_pack.induct)
  case (1 used)
  then show ?case by (auto intro: exI [of _ "[]"])
next
  case (2 used w ws)
  show ?case
  proof (cases "length used + length w \<le> 32")
    case True
    then obtain hi rest where "solc_pack (w @ used) ws = slot_word (hi @ w @ used) # rest"
      "length hi + length (w @ used) \<le> 32"
      using 2(1) by auto
    then show ?thesis using True by (intro exI [of _ "hi @ w"] exI [of _ rest]) simp
  next
    case False
    then show ?thesis using 2(3) by (intro exI [of _ "[]"] exI [of _ "solc_pack w ws"]) simp
  qed
qed

lemma slot_window:
  assumes "length hi + length w + length used \<le> 32"
  shows "get_range (slot_word (hi @ w @ used)) (32 - (length used + length w))
    (32 - (length used + length w) + length w) = Some w"
proof -
  define m where "m = 32 - (length hi + length w + length used)"
  have e: "slot_word (hi @ w @ used) = (replicate m 0 @ hi) @ w @ used"
    by (simp add: slot_word_def m_def add.assoc)
  have "32 - (length used + length w) = m + length hi" using assms by (simp add: m_def)
  then show ?thesis unfolding e by (intro get_range_append) simp_all
qed

lemma prim_unpack_window:
  assumes "prim_ok p v" "length hi + length (item v) + length used \<le> 32"
  shows "unpack_from (static_prim p) (slot_word (hi @ item v @ used)) (32 - (length used + length (item v))) = Some v"
proof -
  have "PACKED_BYTES (static_prim p) = length (item v)"
    using st_prim.word_len [OF assms(1)] by simp
  then show ?thesis
    using st_prim.unpack [OF assms(1)] slot_window [OF assms(2)] assms(2) by simp
qed

lemma tuple_from_is:
  assumes "list_all2 prim_ok ps vs" "walker_at st used" "next_slot st + length ps + 1 < usize_limit"
    and "length pre = next_slot st"
  shows "tuple_from st (map static_prim ps) (pre @ solc_pack used (map item vs)) = Some vs"
  using assms
proof (induction ps vs arbitrary: st used pre rule: list_all2_induct)
  case (Cons p ps v vs)
  let ?w = "item v"
  let ?st = "layout_step st (length ?w) 1"
  have w: "1 \<le> length ?w" "length ?w \<le> 32" using item_bounds [OF Cons.hyps(1)] by simp_all
  have lim: "next_slot st + 1 < usize_limit" using Cons.prems(2) by simp
  show ?case
  proof (cases "length used + length ?w \<le> 32")
    case True
    note step = walker_step(1) [OF Cons.prems(1) w lim True]
    have ih: "tuple_from ?st (map static_prim ps) (pre @ solc_pack (?w @ used) (map item vs)) = Some vs"
      using step Cons.prems by (intro Cons.IH) auto
    obtain hi rest where hd: "solc_pack (?w @ used) (map item vs) = slot_word (hi @ ?w @ used) # rest"
      "length hi + length ?w + length used \<le> 32"
      using solc_pack_hd [of "?w @ used" "map item vs"] True by auto
    have "get_idx (pre @ solc_pack (?w @ used) (map item vs)) (slot ?st) = Some (slot_word (hi @ ?w @ used))"
      using hd Cons.prems(3) step by (simp add: get_idx_def nth_append)
    then show ?thesis
      using prim_unpack_window [OF Cons.hyps(1) hd(2)] ih step True step_prim [OF Cons.hyps(1)] by simp
  next
    case False
    note step = walker_step(2) [OF Cons.prems(1) w lim False]
    let ?pre = "pre @ [slot_word used]"
    have ih: "tuple_from ?st (map static_prim ps) (?pre @ solc_pack ?w (map item vs)) = Some vs"
      using step Cons.prems by (intro Cons.IH) auto
    obtain hi rest where hd: "solc_pack ?w (map item vs) = slot_word (hi @ ?w) # rest"
      "length hi + length ?w \<le> 32"
      using solc_pack_hd [of ?w "map item vs"] w by auto
    have "get_idx (?pre @ solc_pack ?w (map item vs)) (slot ?st) = Some (slot_word (hi @ ?w))"
      using hd Cons.prems(3) step by (simp add: get_idx_def nth_append)
    then show ?thesis
      using prim_unpack_window [OF Cons.hyps(1), of hi "[]"] hd(2) ih step False step_prim [OF Cons.hyps(1)]
      by simp
  qed
qed simp

definition tup_ok :: "prim list \<Rightarrow> sol_val \<Rightarrow> bool" where
  "tup_ok ps v \<longleftrightarrow> 1 \<le> length ps \<and> length ps + 1 < usize_limit \<and> (\<exists>vs. v = VSeq vs \<and> list_all2 prim_ok ps vs)"

lemma FIRST_walker: "walker_at FIRST []" "next_slot FIRST = 0"
  by (simp_all add: FIRST_def walker_at_def)

interpretation st_tuple: slot_codec "static_tuple (map static_prim ps)" "tup_ok ps"
  "\<lambda>v. solc_pack [] (map item (val_seq v))" for ps
proof
  fix v assume "tup_ok ps v"
  then obtain vs where vs: "v = VSeq vs" "list_all2 prim_ok ps vs" "1 \<le> length ps" "length ps + 1 < usize_limit"
    by (auto simp: tup_ok_def)
  have lim: "next_slot FIRST + length ps + 1 < usize_limit"
    using vs by (simp add: FIRST_def)
  have slots: "STORAGE_SLOTS (static_tuple (map static_prim ps)) = length (solc_pack [] (map item vs))"
    using tuple_last_is [OF vs(2) FIRST_walker(1) lim] by (simp add: static_tuple_def FIRST_def)
  show "1 \<le> STORAGE_SLOTS (static_tuple (map static_prim ps))"
    "1 \<le> PACKED_BYTES (static_tuple (map static_prim ps)) \<and> PACKED_BYTES (static_tuple (map static_prim ps)) \<le> 32"
    by (simp_all add: static_tuple_def)
  show "length (solc_pack [] (map item (val_seq v))) = STORAGE_SLOTS (static_tuple (map static_prim ps))"
    using slots vs by simp
  have "list_all (\<lambda>w. length w \<le> 32) (map item vs)"
    using vs(2) item_bounds by (auto simp: list_all2_conv_all_nth list_all_length)
  then show "length sl = 32" if "sl \<in> set (solc_pack [] (map item (val_seq v)))" for sl
    using that vs(1) by (intro solc_pack_lengths) simp_all
  show "encode_slot (static_tuple (map static_prim ps)) v i buf = Some (solc_pack [] (map item (val_seq v)) ! i)"
    if "i < STORAGE_SLOTS (static_tuple (map static_prim ps))" for i buf
    using tuple_pack_is [OF vs(2) FIRST_walker(1) lim, of i "replicate 32 0"] that slots vs(1)
    by (simp add: static_tuple_def slot_at_def slot_word_Nil FIRST_walker)
  show "from_slots (static_tuple (map static_prim ps)) (solc_pack [] (map item (val_seq v))) = Some v"
    using tuple_from_is [OF vs(2) FIRST_walker(1) lim, of "[]"] vs(1) by (simp add: static_tuple_def FIRST_def)
qed

section \<open>Every storable type\<close>

definition st_ok :: "sol_ty \<Rightarrow> sol_val \<Rightarrow> bool" where
  "st_ok t v \<longleftrightarrow> storable t \<and> sol_wt t v"

lemma slot_codec_mono:
  assumes "slot_codec c wt img" "\<And>v. wt' v \<Longrightarrow> wt v \<and> img' v = img v"
  shows "slot_codec c wt' img'"
  using assms unfolding slot_codec_def by fastforce

lemma slots_of_composite:
  "(\<And>p. t \<noteq> TPrim p) \<Longrightarrow> slots_of (TArr t n) v = concat (map (slots_of t) (val_seq v))"
  by (cases t) auto

lemma packed_composite: "(\<And>p. t \<noteq> TPrim p) \<Longrightarrow> PACKED_BYTES (static_of t) = 32"
  by (cases t) (auto simp: static_array_def static_tuple_def)

lemma solc_pack_full:
  "list_all (\<lambda>w. length w = 32) ws \<Longrightarrow> ws \<noteq> [] \<Longrightarrow> solc_pack [] ws = map slot_word ws"
proof -
  have "list_all (\<lambda>w. length w = 32) ws \<Longrightarrow> length used = 32 \<Longrightarrow>
    solc_pack used ws = slot_word used # map slot_word ws" for used
    by (induction ws arbitrary: used) auto
  then show "list_all (\<lambda>w. length w = 32) ws \<Longrightarrow> ws \<noteq> [] \<Longrightarrow> solc_pack [] ws = map slot_word ws"
    by (cases ws) auto
qed

lemma prim_array_codec:
  "slot_codec (static_array (static_prim p) n) (arr_ok (prim_ok p) n) (\<lambda>v. solc_pack [] (map item (val_seq v)))"
proof (cases "prim_packed p < 32")
  case True
  then have "PACKED_BYTES (static_prim p) < 32" by (simp add: static_prim_def)
  then show ?thesis by (rule st_prim.sub_word_array)
next
  case False
  have "slot_codec (static_array (static_prim p) n) (\<lambda>v. prim_packed p = 32 \<and> arr_ok (prim_ok p) n v)
    (\<lambda>v. solc_pack [] (map item (val_seq v)))"
  proof (cases "prim_packed p = 32")
    case True
    then have "PACKED_BYTES (static_prim p) = 32" by (simp add: static_prim_def)
    note full = st_prim.full_word_array [OF this, of n]
    show ?thesis
    proof (rule slot_codec_mono [OF full])
      fix v assume "prim_packed p = 32 \<and> arr_ok (prim_ok p) n v"
      moreover then obtain vs where "v = VSeq vs" "vs \<noteq> []" "list_all (prim_ok p) vs"
        unfolding arr_ok_def by fastforce
      moreover then have "list_all (\<lambda>w. length w = 32) (map item vs)"
        using True st_prim.word_len [of p] by (auto simp: list_all_iff static_prim_def)
      moreover have "concat (map (\<lambda>v. [slot_word (item v)]) vs) = map slot_word (map item vs)" for vs
        by (induction vs) simp_all
      ultimately show "arr_ok (prim_ok p) n v \<and>
        solc_pack [] (map item (val_seq v)) = concat (map (\<lambda>v. [slot_word (item v)]) (val_seq v))"
        using solc_pack_full [of "map item (val_seq v)"] by simp
    qed
  next
    case False
    then show ?thesis unfolding slot_codec_def by simp
  qed
  then show ?thesis
  proof (rule slot_codec_mono)
    fix v assume v: "arr_ok (prim_ok p) n v"
    then obtain e where "prim_ok p e" by (auto simp: arr_ok_def Suc_le_length_iff)
    then have "prim_packed p \<le> 32" using st_prim.packed_le [of p e] by (simp add: static_prim_def)
    then show "(prim_packed p = 32 \<and> arr_ok (prim_ok p) n v) \<and>
        solc_pack [] (map item (val_seq v)) = solc_pack [] (map item (val_seq v))"
      using False v by simp
  qed
qed

lemma st_ok_prim: "st_ok (TPrim p) v \<longleftrightarrow> prim_ok p v"
  by (cases v) (auto simp: st_ok_def prim_ok_def)

lemma st_ok_array: "st_ok (TArr t n) v \<Longrightarrow> arr_ok (st_ok t) n v"
  by (cases v) (auto simp: st_ok_def arr_ok_def list_all_iff)

lemma st_ok_tuple:
  assumes "st_ok (TTuple ts) v"
  shows "\<exists>ps. ts = map TPrim ps \<and> tup_ok ps v"
proof -
  have s: "storable (TTuple ts)" "sol_wt (TTuple ts) v" using assms by (auto simp: st_ok_def)
  define ps where "ps = map (\<lambda>t. case t of TPrim p \<Rightarrow> p | _ \<Rightarrow> U8) ts"
  have ts: "ts = map TPrim ps" "list_all prim_wf ps"
    using s(1) by (auto simp: ps_def list_all_iff map_idI split: sol_ty.splits)
  obtain vs where vs: "v = VSeq vs" "list_all2 sol_wt ts vs"
    using s(2) by (cases v) (auto simp: list_all2_map1)
  then have "list_all2 prim_ok ps vs"
    using ts st_ok_prim [unfolded st_ok_def storable.simps, THEN iffD1]
    by (auto simp: list_all2_conv_all_nth list_all_length simp del: sol_wt.simps)
  then show ?thesis using ts(1) s(1) vs(1) by (auto simp: tup_ok_def usize_limit_def)
qed

lemma static_of_codec: "slot_codec (static_of t) (st_ok t) (slots_of t)"
proof (induction t)
  case (TPrim p)
  show ?case
    by (rule slot_codec_mono [OF st_prim.slot_codec_axioms [of p], folded static_of.simps(1)])
      (simp add: st_ok_prim)
next
  case (TArr t n)
  show ?case
  proof (cases "\<exists>p. t = TPrim p")
    case True
    then obtain p where t: "t = TPrim p" by blast
    have ok: "st_ok t = prim_ok p" using st_ok_prim by (auto simp: t)
    show ?thesis
      unfolding t static_of.simps
    proof (rule slot_codec_mono [OF prim_array_codec [of p n]])
      fix v assume "st_ok (TArr (TPrim p) n) v"
      then show "arr_ok (prim_ok p) n v \<and> slots_of (TArr (TPrim p) n) v = solc_pack [] (map item (val_seq v))"
        using st_ok_array [of t n v] by (simp add: ok) (simp add: t)
    qed
  next
    case False
    then have "PACKED_BYTES (static_of t) = 32" using packed_composite by blast
    note full = slot_codec.full_word_array [OF TArr.IH this, of n]
    show ?thesis
      unfolding static_of.simps
      by (rule slot_codec_mono [OF full]) (use False slots_of_composite st_ok_array in auto)
  qed
next
  case (TTuple ts)
  show ?case
  proof (cases "\<exists>v. st_ok (TTuple ts) v")
    case True
    then obtain ps where ps: "ts = map TPrim ps" using st_ok_tuple by blast
    have "static_of (TTuple ts) = static_tuple (map static_prim ps)" by (simp add: ps o_def)
    moreover have "slot_codec (static_tuple (map static_prim ps)) (st_ok (TTuple ts)) (slots_of (TTuple ts))"
    proof (rule slot_codec_mono [OF st_tuple.slot_codec_axioms [of ps]])
      fix v assume "st_ok (TTuple ts) v"
      then obtain qs where "ts = map TPrim qs" "tup_ok qs v" using st_ok_tuple by blast
      moreover have "inj TPrim" by (simp add: inj_def)
      ultimately show "tup_ok ps v \<and> slots_of (TTuple ts) v = solc_pack [] (map item (val_seq v))"
        using ps inj_map_eq_map by auto
    qed
    ultimately show ?thesis by (simp only:)
  next
    case False
    then show ?thesis unfolding slot_codec_def by blast
  qed
qed (auto simp: slot_codec_def st_ok_def)

interpretation st: slot_codec "static_of t" "st_ok t" "slots_of t" for t
  by (rule static_of_codec)

section \<open>The layout is the compiler's\<close>

text \<open>
  C7: the storage layout of a static value is the Solidity compiler's. Every slot the code encodes
  is the one the packing rule gives (items right-aligned from the low-order end, elements of arrays
  and tuples sharing a slot while they fit, full-word elements one after the other), whatever the
  buffer held before, and the slots decode to the value.
\<close>

theorem static_layout_matches_solc:
  assumes "storable t" "sol_wt t v"
  shows "length (slots_of t v) = STORAGE_SLOTS (static_of t) \<and>
    (\<forall>i buf. i < STORAGE_SLOTS (static_of t) \<longrightarrow> length buf = 32 \<longrightarrow>
       encode_slot (static_of t) v i buf = Some (slots_of t v ! i)) \<and>
    from_slots (static_of t) (slots_of t v) = Some v"
proof -
  have "st_ok t v" using assms by (simp add: st_ok_def)
  then show ?thesis using st.img_len st.encode st.decode by blast
qed

theorem static_layout_matches_solc_witness:
  "let t = TTuple [TPrim (BytesN 2), TPrim Bool, TPrim U256, TPrim U8];
       v = VSeq [VPrim (VBytesN [0x12, 0x34]), VPrim (VBool True), VPrim (VU256 5), VPrim (VU8 7)]
   in STORAGE_SLOTS (static_of t) = 3 \<and>
      encode_slot (static_of t) v 0 (replicate 32 9) = Some (replicate 29 0 @ [1, 0x12, 0x34]) \<and>
      from_slots (static_of t) (slots_of t v) = Some v"
proof -
  let ?t = "TTuple [TPrim (BytesN 2), TPrim Bool, TPrim U256, TPrim U8]"
  let ?v = "VSeq [VPrim (VBytesN [0x12, 0x34]), VPrim (VBool True), VPrim (VU256 5), VPrim (VU8 7)]"
  have "storable ?t" "sol_wt ?t ?v" by (simp_all add: prim_wt_def)
  note r = static_layout_matches_solc [OF this]
  have n: "STORAGE_SLOTS (static_of ?t) = 3"
    by (simp add: static_tuple_def static_prim_def layout_step_encode_def layout_step_def FIRST_def usize_limit_def)
  have s: "slots_of ?t ?v ! 0 = replicate 29 0 @ [1, 0x12, 0x34]"
    by (simp add: item_def slot_word_def)
  show ?thesis using r n s by simp
qed

end
