(* ===== verification/HostApi.thy ===== *)
theory HostApi
  imports Int256
begin

text \<open>
  The host boundary of \<open>pvm-contract-types\<close>: \<open>dyn HostApi\<close> is a record of operations over a
  state (\<open>host_api\<close>), which the SDK's components take as an argument; \<open>Env\<close> decodes its
  little-endian numbers; \<open>MockHost\<close> (state, builder, implementation) is the implementation the
  repository itself ships, and \<open>mock_api\<close> its record. The riscv64 implementation forwards to
  the syscalls of \<open>pallet_revive_uapi\<close>, which is third-party. The locale \<open>host_store\<close> states
  what the storage layer relies on, and is interpreted on the mock.
\<close>

section \<open>The operations\<close>

text \<open>\<open>StorageFlags::empty()\<close> and \<open>StorageFlags::TRANSIENT\<close>, the two values the SDK passes.\<close>

datatype storage_flags = Persistent | Transient

datatype return_error =
    CalleeTrapped | CalleeReverted | KeyNotFound | TransferFailed | OutOfResources
  | DuplicateContractAddress | OtherError nat

type_synonym host_result = "return_error + unit"

text \<open>\<open>CallFlags\<close>: the two flags the SDK sets. The \<open>output\<close> argument of calls is always \<open>None\<close>.\<close>

record call_flags =
  READ_ONLY :: bool
  ALLOW_REENTRY :: bool

record 's host_api =
  api_address :: "'s \<Rightarrow> bytes"
  api_caller :: "'s \<Rightarrow> bytes"
  api_origin :: "'s \<Rightarrow> bytes"
  api_balance :: "'s \<Rightarrow> bytes"
  api_balance_of :: "bytes \<Rightarrow> 's \<Rightarrow> bytes"
  api_chain_id :: "'s \<Rightarrow> bytes"
  api_base_fee :: "'s \<Rightarrow> bytes"
  api_now :: "'s \<Rightarrow> bytes"
  api_block_number :: "'s \<Rightarrow> bytes"
  api_value_transferred :: "'s \<Rightarrow> bytes"
  api_code_size :: "bytes \<Rightarrow> 's \<Rightarrow> 64 word"
  api_call_data_size :: "'s \<Rightarrow> 64 word"
  api_call_data_copy :: "nat \<Rightarrow> 32 word \<Rightarrow> 's \<Rightarrow> bytes"
  api_get_storage_or_zero :: "storage_flags \<Rightarrow> bytes \<Rightarrow> 's \<Rightarrow> bytes"
  api_set_storage_or_clear :: "storage_flags \<Rightarrow> bytes \<Rightarrow> bytes \<Rightarrow> 's \<Rightarrow> nat option \<times> 's"
  api_hash_keccak_256 :: "bytes \<Rightarrow> bytes"
  api_deposit_event :: "bytes list \<Rightarrow> bytes \<Rightarrow> 's \<Rightarrow> 's"
  api_return_data_size :: "'s \<Rightarrow> 64 word"
  api_return_data_copy :: "nat \<Rightarrow> 32 word \<Rightarrow> 's \<Rightarrow> bytes"
  api_call :: "call_flags \<Rightarrow> bytes \<Rightarrow> 64 word \<Rightarrow> 64 word \<Rightarrow> bytes \<Rightarrow> bytes \<Rightarrow> bytes \<Rightarrow> 's \<Rightarrow> host_result \<times> 's"
  api_call_evm :: "call_flags \<Rightarrow> bytes \<Rightarrow> 64 word \<Rightarrow> bytes \<Rightarrow> bytes \<Rightarrow> 's \<Rightarrow> host_result \<times> 's"
  api_delegate_call :: "call_flags \<Rightarrow> bytes \<Rightarrow> 64 word \<Rightarrow> 64 word \<Rightarrow> bytes \<Rightarrow> bytes \<Rightarrow> 's \<Rightarrow> host_result \<times> 's"
  api_delegate_call_evm :: "call_flags \<Rightarrow> bytes \<Rightarrow> 64 word \<Rightarrow> bytes \<Rightarrow> 's \<Rightarrow> host_result \<times> 's"
  api_instantiate :: "64 word \<Rightarrow> 64 word \<Rightarrow> bytes \<Rightarrow> bytes \<Rightarrow> bytes \<Rightarrow> bytes \<Rightarrow> bytes option \<Rightarrow> 's \<Rightarrow> (host_result \<times> bytes) \<times> 's"
  api_return_value :: "bytes \<Rightarrow> 's \<Rightarrow> ('s, unit) res"
  api_revert :: "bytes \<Rightarrow> 's \<Rightarrow> halt \<times> 's"

text \<open>\<open>revert\<close> diverges, so it stands where a value of any type is expected.\<close>

definition hrevert :: "'s host_api \<Rightarrow> bytes \<Rightarrow> 's \<Rightarrow> ('s, 'a) res" where
  "hrevert H data s = (case api_revert H data s of (h, s) \<Rightarrow> (Inl h, s))"

lemma hrevert_bind [simp]: "hbind (hrevert H e s) f = hrevert H e s"
  by (simp add: hrevert_def split: prod.splits)

text \<open>Reads and writes with the value of a call that returns nothing but the state.\<close>

definition sload :: "'s host_api \<Rightarrow> bytes \<Rightarrow> 's \<Rightarrow> bytes" where
  "sload H key s = api_get_storage_or_zero H Persistent key s"

definition sstore :: "'s host_api \<Rightarrow> bytes \<Rightarrow> bytes \<Rightarrow> 's \<Rightarrow> 's" where
  "sstore H key v s = snd (api_set_storage_or_clear H Persistent key v s)"

section \<open>Env\<close>

definition u256_from_le :: "bytes \<Rightarrow> 256 word" where
  "u256_from_le b = from_be (rev b)"

definition u256_to_le :: "256 word \<Rightarrow> bytes" where
  "u256_to_le w = rev (to_be w)"

definition narrow_to_u64 :: "bytes \<Rightarrow> 64 word" where
  "narrow_to_u64 b = from_be (rev [b ! 0, b ! 1, b ! 2, b ! 3, b ! 4, b ! 5, b ! 6, b ! 7])"

definition env_caller :: "'s host_api \<Rightarrow> 's \<Rightarrow> bytes" where
  "env_caller H s = api_caller H s"

definition env_origin :: "'s host_api \<Rightarrow> 's \<Rightarrow> bytes" where
  "env_origin H s = api_origin H s"

definition env_address :: "'s host_api \<Rightarrow> 's \<Rightarrow> bytes" where
  "env_address H s = api_address H s"

definition env_value :: "'s host_api \<Rightarrow> 's \<Rightarrow> 256 word" where
  "env_value H s = u256_from_le (api_value_transferred H s)"

definition env_balance :: "'s host_api \<Rightarrow> 's \<Rightarrow> 256 word" where
  "env_balance H s = u256_from_le (api_balance H s)"

definition env_base_fee :: "'s host_api \<Rightarrow> 's \<Rightarrow> 256 word" where
  "env_base_fee H s = u256_from_le (api_base_fee H s)"

definition env_block_number :: "'s host_api \<Rightarrow> 's \<Rightarrow> 64 word" where
  "env_block_number H s = narrow_to_u64 (api_block_number H s)"

definition env_timestamp :: "'s host_api \<Rightarrow> 's \<Rightarrow> 64 word" where
  "env_timestamp H s = narrow_to_u64 (api_now H s)"

definition env_chain_id :: "'s host_api \<Rightarrow> 's \<Rightarrow> 64 word" where
  "env_chain_id H s = narrow_to_u64 (api_chain_id H s)"

definition env_balance_of :: "'s host_api \<Rightarrow> bytes \<Rightarrow> 's \<Rightarrow> 256 word" where
  "env_balance_of H addr s = u256_from_le (api_balance_of H addr s)"

definition env_has_code :: "'s host_api \<Rightarrow> bytes \<Rightarrow> 's \<Rightarrow> bool" where
  "env_has_code H addr s = (api_code_size H addr s > 0)"

section \<open>MockHost\<close>

datatype return_flags = FlagsEmpty | FlagsRevert

record mock_state =
  ms_caller :: bytes
  ms_origin :: bytes
  ms_address :: bytes
  ms_balance :: bytes
  ms_balances :: "bytes \<rightharpoonup> bytes"
  ms_chain_id :: bytes
  ms_base_fee :: bytes
  ms_code_sizes :: "bytes \<rightharpoonup> 64 word"
  ms_block_number :: bytes
  ms_block_timestamp :: bytes
  ms_block_author :: bytes
  ms_value_transferred :: bytes
  ms_calldata :: bytes
  ms_storage :: "bytes \<rightharpoonup> bytes"
  ms_events :: "(bytes list \<times> bytes) list"
  ms_immutable_data :: bytes
  ms_return_data :: bytes
  ms_return_value :: "(return_flags \<times> bytes) option"
  ms_call_returns :: "bytes \<rightharpoonup> unit + bytes"
  ms_instantiate_return :: "(bytes \<times> bytes) option"
  ms_recorded_calls :: "(bytes \<times> bytes) list"
  ms_recorded_call_values :: "bytes list"

definition mock_new :: mock_state where
  "mock_new =
     \<lparr> ms_caller = replicate 20 0, ms_origin = replicate 20 0, ms_address = replicate 20 0,
       ms_balance = replicate 32 0, ms_balances = Map.empty, ms_chain_id = replicate 32 0,
       ms_base_fee = replicate 32 0, ms_code_sizes = Map.empty, ms_block_number = replicate 32 0,
       ms_block_timestamp = replicate 32 0, ms_block_author = replicate 20 0,
       ms_value_transferred = replicate 32 0, ms_calldata = [], ms_storage = Map.empty,
       ms_events = [], ms_immutable_data = [], ms_return_data = [], ms_return_value = None,
       ms_call_returns = Map.empty, ms_instantiate_return = None, ms_recorded_calls = [],
       ms_recorded_call_values = [] \<rparr>"

definition resolve_balance :: "mock_state \<Rightarrow> bytes \<Rightarrow> bytes" where
  "resolve_balance st addr =
     (case ms_balances st addr of
        Some bal \<Rightarrow> bal
      | None \<Rightarrow> if addr = ms_address st then ms_balance st else replicate 32 0)"

text \<open>Configuration and inspection by the test.\<close>

definition mock_call :: "bytes \<Rightarrow> unit + bytes \<Rightarrow> mock_state \<Rightarrow> mock_state" where
  "mock_call callee result st = st \<lparr> ms_call_returns := (ms_call_returns st)(callee \<mapsto> result) \<rparr>"

definition mock_instantiate :: "bytes \<Rightarrow> bytes \<Rightarrow> mock_state \<Rightarrow> mock_state" where
  "mock_instantiate addr out st = st \<lparr> ms_instantiate_return := Some (addr, out) \<rparr>"

definition take_recorded_calls :: "mock_state \<Rightarrow> (bytes \<times> bytes) list \<times> mock_state" where
  "take_recorded_calls st = (ms_recorded_calls st, st \<lparr> ms_recorded_calls := [] \<rparr>)"

definition take_return_value :: "mock_state \<Rightarrow> (return_flags \<times> bytes) option \<times> mock_state" where
  "take_return_value st = (ms_return_value st, st \<lparr> ms_return_value := None \<rparr>)"

definition get_raw_storage :: "bytes \<Rightarrow> mock_state \<Rightarrow> bytes option" where
  "get_raw_storage key st = ms_storage st key"

definition set_raw_storage :: "bytes \<Rightarrow> bytes \<Rightarrow> mock_state \<Rightarrow> mock_state" where
  "set_raw_storage key v st = st \<lparr> ms_storage := (ms_storage st)(key \<mapsto> v) \<rparr>"

text \<open>The builder's typed setters encode little-endian.\<close>

definition build_balance :: "256 word \<Rightarrow> mock_state \<Rightarrow> mock_state" where
  "build_balance v st = st \<lparr> ms_balance := u256_to_le v \<rparr>"

definition build_balance_of :: "bytes \<Rightarrow> 256 word \<Rightarrow> mock_state \<Rightarrow> mock_state" where
  "build_balance_of addr v st = st \<lparr> ms_balances := (ms_balances st)(addr \<mapsto> u256_to_le v) \<rparr>"

definition build_base_fee :: "256 word \<Rightarrow> mock_state \<Rightarrow> mock_state" where
  "build_base_fee v st = st \<lparr> ms_base_fee := u256_to_le v \<rparr>"

definition build_code_size :: "bytes \<Rightarrow> 64 word \<Rightarrow> mock_state \<Rightarrow> mock_state" where
  "build_code_size addr len st = st \<lparr> ms_code_sizes := (ms_code_sizes st)(addr \<mapsto> len) \<rparr>"

definition build_chain_id :: "64 word \<Rightarrow> mock_state \<Rightarrow> mock_state" where
  "build_chain_id v st = st \<lparr> ms_chain_id := u256_to_le (ucast v) \<rparr>"

definition build_block_number :: "64 word \<Rightarrow> mock_state \<Rightarrow> mock_state" where
  "build_block_number v st = st \<lparr> ms_block_number := u256_to_le (ucast v) \<rparr>"

definition build_block_timestamp :: "64 word \<Rightarrow> mock_state \<Rightarrow> mock_state" where
  "build_block_timestamp v st = st \<lparr> ms_block_timestamp := u256_to_le (ucast v) \<rparr>"

definition build_value_transferred :: "256 word \<Rightarrow> mock_state \<Rightarrow> mock_state" where
  "build_value_transferred v st = st \<lparr> ms_value_transferred := u256_to_le v \<rparr>"

fun build_storage :: "(bytes \<times> bytes) list \<Rightarrow> mock_state \<Rightarrow> mock_state" where
  "build_storage [] st = st"
| "build_storage ((key, v) # es) st = build_storage es (st \<lparr> ms_storage := (ms_storage st)(key \<mapsto> v) \<rparr>)"

text \<open>The host operations.\<close>

definition mock_call_data_copy :: "nat \<Rightarrow> 32 word \<Rightarrow> mock_state \<Rightarrow> bytes" where
  "mock_call_data_copy n offset st =
     (let calldata = ms_calldata st;
          start = min (unat offset) (length calldata);
          len = min n (length calldata - start)
      in take len (drop start calldata) @ replicate (n - len) 0)"

definition mock_return_data_copy :: "nat \<Rightarrow> 32 word \<Rightarrow> mock_state \<Rightarrow> bytes" where
  "mock_return_data_copy n offset st =
     (let data = ms_return_data st;
          start = min (unat offset) (length data);
          len = min n (length data - start)
      in take len (drop start data))"

definition mock_code_size :: "bytes \<Rightarrow> mock_state \<Rightarrow> 64 word" where
  "mock_code_size addr st = (case ms_code_sizes st addr of Some n \<Rightarrow> n | None \<Rightarrow> 0)"

definition mock_deposit_event :: "bytes list \<Rightarrow> bytes \<Rightarrow> mock_state \<Rightarrow> mock_state" where
  "mock_deposit_event topics data st = st \<lparr> ms_events := ms_events st @ [(topics, data)] \<rparr>"

definition mock_get_storage_or_zero :: "storage_flags \<Rightarrow> bytes \<Rightarrow> mock_state \<Rightarrow> bytes" where
  "mock_get_storage_or_zero flags key st =
     (case ms_storage st key of
        Some value \<Rightarrow> (let len = min (length value) 32 in take len value @ replicate (32 - len) 0)
      | None \<Rightarrow> replicate 32 0)"

definition mock_set_storage_or_clear ::
  "storage_flags \<Rightarrow> bytes \<Rightarrow> bytes \<Rightarrow> mock_state \<Rightarrow> nat option \<times> mock_state" where
  "mock_set_storage_or_clear flags key value st =
     (let old = map_option length (ms_storage st key) in
      if value = replicate 32 0
      then (old, st \<lparr> ms_storage := (ms_storage st)(key := None) \<rparr>)
      else (old, st \<lparr> ms_storage := (ms_storage st)(key \<mapsto> value) \<rparr>))"

definition record_call_value :: "bytes \<Rightarrow> mock_state \<Rightarrow> mock_state" where
  "record_call_value value st = st \<lparr> ms_recorded_call_values := ms_recorded_call_values st @ [value] \<rparr>"

definition resolve_call :: "bytes \<Rightarrow> bytes \<Rightarrow> mock_state \<Rightarrow> host_result \<times> mock_state" where
  "resolve_call callee input st =
     (let st = st \<lparr> ms_recorded_calls := ms_recorded_calls st @ [(callee, input)] \<rparr> in
      case ms_call_returns st callee of
        Some (Inr data) \<Rightarrow> (Inr (), st \<lparr> ms_return_data := data \<rparr>)
      | Some (Inl _) \<Rightarrow> (Inl CalleeReverted, st \<lparr> ms_return_data := [] \<rparr>)
      | None \<Rightarrow> (Inr (), st \<lparr> ms_return_data := [] \<rparr>))"

definition mock_host_call ::
  "call_flags \<Rightarrow> bytes \<Rightarrow> 64 word \<Rightarrow> 64 word \<Rightarrow> bytes \<Rightarrow> bytes \<Rightarrow> bytes \<Rightarrow> mock_state \<Rightarrow> host_result \<times> mock_state" where
  "mock_host_call flags callee ref_time_limit proof_size_limit deposit value input_data st =
     resolve_call callee input_data (record_call_value value st)"

definition mock_call_evm ::
  "call_flags \<Rightarrow> bytes \<Rightarrow> 64 word \<Rightarrow> bytes \<Rightarrow> bytes \<Rightarrow> mock_state \<Rightarrow> host_result \<times> mock_state" where
  "mock_call_evm flags callee gas value input_data st = resolve_call callee input_data (record_call_value value st)"

definition mock_delegate_call ::
  "call_flags \<Rightarrow> bytes \<Rightarrow> 64 word \<Rightarrow> 64 word \<Rightarrow> bytes \<Rightarrow> bytes \<Rightarrow> mock_state \<Rightarrow> host_result \<times> mock_state" where
  "mock_delegate_call flags addr ref_time_limit proof_size_limit deposit_limit input_data st =
     resolve_call addr input_data st"

definition mock_delegate_call_evm ::
  "call_flags \<Rightarrow> bytes \<Rightarrow> 64 word \<Rightarrow> bytes \<Rightarrow> mock_state \<Rightarrow> host_result \<times> mock_state" where
  "mock_delegate_call_evm flags addr gas input_data st = resolve_call addr input_data st"

text \<open>The address buffer is \<open>Some\<close> in every call of the SDK; it is passed in and handed back.\<close>

definition mock_host_instantiate ::
  "64 word \<Rightarrow> 64 word \<Rightarrow> bytes \<Rightarrow> bytes \<Rightarrow> bytes \<Rightarrow> bytes \<Rightarrow> bytes option \<Rightarrow> mock_state \<Rightarrow>
   (host_result \<times> bytes) \<times> mock_state" where
  "mock_host_instantiate ref_time_limit proof_size_limit deposit value input address salt st =
     (let st = record_call_value value st in
      case ms_instantiate_return st of
        Some (addr, output) \<Rightarrow> ((Inr (), addr), st \<lparr> ms_return_data := output \<rparr>)
      | None \<Rightarrow> ((Inl OutOfResources, address), st))"

text \<open>The single-exit assertion, and the two doors that record.\<close>

definition record_return :: "return_flags \<Rightarrow> bytes \<Rightarrow> mock_state \<Rightarrow> (mock_state, unit) res" where
  "record_return flags data st =
     (if ms_return_value st = None then (Inr (), st \<lparr> ms_return_value := Some (flags, data) \<rparr>)
      else (Inl Trap, st))"

definition mock_return_value :: "bytes \<Rightarrow> mock_state \<Rightarrow> (mock_state, unit) res" where
  "mock_return_value data st = record_return FlagsEmpty data st"

definition mock_revert :: "bytes \<Rightarrow> mock_state \<Rightarrow> halt \<times> mock_state" where
  "mock_revert data st =
     (case record_return FlagsRevert data st of
        (Inl h, st) \<Rightarrow> (h, st)
      | (Inr _, st) \<Rightarrow> (Revert data, st))"

text \<open>Keccak-256 is third-party; its result type \<open>[u8; 32]\<close> is a 256-bit word, big-endian.\<close>

definition mock_api :: "(bytes \<Rightarrow> 256 word) \<Rightarrow> mock_state host_api" where
  "mock_api keccak256 =
     \<lparr> api_address = ms_address, api_caller = ms_caller, api_origin = ms_origin,
       api_balance = (\<lambda>st. resolve_balance st (ms_address st)),
       api_balance_of = (\<lambda>addr st. resolve_balance st addr),
       api_chain_id = ms_chain_id, api_base_fee = ms_base_fee, api_now = ms_block_timestamp,
       api_block_number = ms_block_number, api_value_transferred = ms_value_transferred,
       api_code_size = mock_code_size,
       api_call_data_size = (\<lambda>st. of_nat (length (ms_calldata st))),
       api_call_data_copy = mock_call_data_copy,
       api_get_storage_or_zero = mock_get_storage_or_zero,
       api_set_storage_or_clear = mock_set_storage_or_clear,
       api_hash_keccak_256 = (\<lambda>input. to_be (keccak256 input)), api_deposit_event = mock_deposit_event,
       api_return_data_size = (\<lambda>st. of_nat (length (ms_return_data st))),
       api_return_data_copy = mock_return_data_copy,
       api_call = mock_host_call, api_call_evm = mock_call_evm,
       api_delegate_call = mock_delegate_call, api_delegate_call_evm = mock_delegate_call_evm,
       api_instantiate = mock_host_instantiate,
       api_return_value = mock_return_value, api_revert = mock_revert \<rparr>"

section \<open>What the storage layer relies on\<close>

locale host_store =
  fixes H :: "'s host_api"
  assumes get_len: "length (api_get_storage_or_zero H f key s) = 32"
    and get_set_same: "length v = 32 \<Longrightarrow>
      api_get_storage_or_zero H f key (snd (api_set_storage_or_clear H f key v s)) = v"
    and get_set_other: "key' \<noteq> key \<Longrightarrow>
      api_get_storage_or_zero H g key' (snd (api_set_storage_or_clear H f key v s)) =
      api_get_storage_or_zero H g key' s"
begin

lemma sload_len [simp]: "length (sload H key s) = 32"
  by (simp add: sload_def get_len)

lemma sload_sstore: "length v = 32 \<Longrightarrow> sload H key' (sstore H key v s) = (if key' = key then v else sload H key' s)"
  by (simp add: sload_def sstore_def get_set_same get_set_other)

lemma sload_sstore_same [simp]: "length v = 32 \<Longrightarrow> sload H key (sstore H key v s) = v"
  by (simp add: sload_sstore)

lemma sload_sstore_other [simp]: "key' \<noteq> key \<Longrightarrow> sload H key' (sstore H key v s) = sload H key' s"
  by (simp add: sload_def sstore_def get_set_other)

end

locale keccak_host = host_store +
  assumes keccak_len [simp]: "length (api_hash_keccak_256 H x) = 32"

lemma mock_store:
  "length (mock_get_storage_or_zero f key s) = 32"
  "length v = 32 \<Longrightarrow> mock_get_storage_or_zero f key (snd (mock_set_storage_or_clear f key v s)) = v"
  "key' \<noteq> key \<Longrightarrow>
   mock_get_storage_or_zero g key' (snd (mock_set_storage_or_clear f key v s)) = mock_get_storage_or_zero g key' s"
  by (auto simp: mock_get_storage_or_zero_def mock_set_storage_or_clear_def Let_def split: option.splits)

interpretation mock: keccak_host "mock_api keccak256" for keccak256
  by unfold_locales (simp_all add: mock_api_def mock_store)

lemma mock_hrevert:
  "ms_return_value st = None \<Longrightarrow>
   hrevert (mock_api k) data st = (Inl (Revert data), st \<lparr> ms_return_value := Some (FlagsRevert, data) \<rparr>)"
  by (simp add: hrevert_def mock_api_def mock_revert_def record_return_def)

section \<open>Lemmas and properties\<close>

lemma u256_le_round [simp]: "u256_from_le (u256_to_le w) = w"
  by (simp add: u256_from_le_def u256_to_le_def)

lemma list_32:
  assumes "length xs = 32"
  shows "[xs ! 0, xs ! 1, xs ! 2, xs ! 3, xs ! 4, xs ! 5, xs ! 6, xs ! 7] = take 8 xs"
  using assms by (intro nth_equalityI) (auto simp: less_Suc_eq numeral_eq_Suc nth_Cons')

lemma narrow_ucast: "narrow_to_u64 (u256_to_le (ucast v)) = v"
proof -
  have "to_be (ucast v :: 256 word) = replicate 24 0 @ to_be v"
  proof -
    have "unat (ucast v :: 256 word) = unat v" by transfer simp
    then show ?thesis using prim_word_uint(2) [of v] by (simp add: to_be_def)
  qed
  then have "take 8 (u256_to_le (ucast v)) = rev (to_be v)"
    by (simp add: u256_to_le_def)
  then show ?thesis
    using list_32 [of "u256_to_le (ucast v)"] by (simp add: narrow_to_u64_def u256_to_le_def)
qed

text \<open>
  Every typed reading of the chain context gives the number that was seeded: the builder
  encodes little-endian, \<open>Env\<close> decodes little-endian, and the 64-bit accessors lose nothing of a
  64-bit quantity.
\<close>

theorem env_reads_seeded_values:
  "env_value (mock_api k) (build_value_transferred v st) = v \<and>
   env_balance_of (mock_api k) a (build_balance_of a v st) = v \<and>
   env_base_fee (mock_api k) (build_base_fee v st) = v \<and>
   env_block_number (mock_api k) (build_block_number n st) = n \<and>
   env_timestamp (mock_api k) (build_block_timestamp n st) = n \<and>
   env_chain_id (mock_api k) (build_chain_id n st) = n \<and>
   env_has_code (mock_api k) a (build_code_size a n st) = (0 < n)"
  by (simp add: env_value_def env_balance_of_def env_base_fee_def env_block_number_def
      env_timestamp_def env_chain_id_def env_has_code_def mock_api_def build_value_transferred_def
      build_balance_of_def build_base_fee_def build_block_number_def build_block_timestamp_def
      build_chain_id_def build_code_size_def resolve_balance_def mock_code_size_def narrow_ucast)

text \<open>
  The contract's own balance is one query, whichever way it is asked and however it was seeded.
\<close>

lemma own_balance_agrees:
  "env_balance (mock_api k) st = env_balance_of (mock_api k) (env_address (mock_api k) st) st"
  by (simp add: env_balance_def env_balance_of_def env_address_def mock_api_def)

end
