(* ===== verification/StorageCodec.thy ===== *)
theory StorageCodec
  imports StaticCodec HostApi
begin

text \<open>
  The host half of \<open>storage_codec.rs\<close>: the slot walk, the static reads and writes, the masked
  sweeps of derived structs, and the dynamic bodies of \<open>String\<close> and \<open>Bytes\<close>. A storage
  implementation is a dictionary (\<open>storage_codec\<close>) over a host; every operation passes the host
  state explicitly, and \<open>None\<close> is a panic. What the host promises is the locale \<open>host_store\<close>.
\<close>

section \<open>Walking slots\<close>

text \<open>\<open>inc_be_32\<close>: add one from the last byte, carrying while the byte overflows.\<close>

fun inc_rev :: "bytes \<Rightarrow> bytes" where
  "inc_rev [] = []"
| "inc_rev (b # bs) = (let next = b + 1; carry = (b = 0xff) in if \<not> carry then next # bs else next # inc_rev bs)"

definition inc_be_32 :: "bytes \<Rightarrow> bytes" where
  "inc_be_32 w = rev (inc_rev (rev w))"

text \<open>Slot \<open>i\<close> after \<open>key\<close>, modulo \<open>2^256\<close>.\<close>

definition slot_key :: "bytes \<Rightarrow> nat \<Rightarrow> bytes" where
  "slot_key key i = be_bytes 32 (be_nat key + i)"

definition zero_word :: bytes where
  "zero_word = replicate 32 0"

lemma length_zero_word [simp]: "length zero_word = 32"
  by (simp add: zero_word_def)

section \<open>Sweeps of derived structs\<close>

text \<open>\<open>dynamic_mask & (1u64 << i) != 0\<close>; a shift takes its count modulo 64.\<close>

definition mask_bit :: "64 word \<Rightarrow> nat \<Rightarrow> bool" where
  "mask_bit dyn i \<longleftrightarrow> (dyn AND push_bit (i mod 64) 1) \<noteq> 0"

fun write_static_slots ::
  "'s host_api \<Rightarrow> bytes \<Rightarrow> bytes list \<Rightarrow> 64 word \<Rightarrow> nat \<Rightarrow> 's \<Rightarrow> 's" where
  "write_static_slots H k [] dyn i s = s"
| "write_static_slots H k (sl # slots) dyn i s =
     write_static_slots H (inc_be_32 k) slots dyn (i + 1)
       (if \<not> mask_bit dyn i then sstore H k sl s else s)"

fun clear_static_slots :: "'s host_api \<Rightarrow> bytes \<Rightarrow> nat \<Rightarrow> 64 word \<Rightarrow> nat \<Rightarrow> 's \<Rightarrow> 's" where
  "clear_static_slots H k 0 dyn i s = s"
| "clear_static_slots H k (Suc n) dyn i s =
     clear_static_slots H (inc_be_32 k) n dyn (i + 1)
       (if \<not> mask_bit dyn i then sstore H k zero_word s else s)"

fun load_static_slots ::
  "'s host_api \<Rightarrow> bytes \<Rightarrow> 64 word \<Rightarrow> bytes list \<Rightarrow> nat \<Rightarrow> 's \<Rightarrow> bytes list" where
  "load_static_slots H k dyn [] i s = []"
| "load_static_slots H k dyn (sl # slots) i s =
     (if \<not> mask_bit dyn i then sload H k s else sl) #
       load_static_slots H (inc_be_32 k) dyn slots (i + 1) s"

fun try_load_static_slots ::
  "'s host_api \<Rightarrow> bytes \<Rightarrow> 64 word \<Rightarrow> bytes list \<Rightarrow> nat \<Rightarrow> 's \<Rightarrow> bool \<times> bytes list" where
  "try_load_static_slots H k dyn [] i s = (False, [])"
| "try_load_static_slots H k dyn (sl # slots) i s =
     (let buf = sload H k s;
          (any, rest) = try_load_static_slots H (inc_be_32 k) dyn slots (i + 1) s
      in (buf \<noteq> zero_word \<or> any, (if \<not> mask_bit dyn i then buf else sl) # rest))"

section \<open>Static values\<close>

fun write_slots_from :: "'s host_api \<Rightarrow> static_codec \<Rightarrow> sol_val \<Rightarrow> nat \<Rightarrow> nat \<Rightarrow> bytes \<Rightarrow> 's \<Rightarrow> 's option" where
  "write_slots_from H c v i 0 k s = Some s"
| "write_slots_from H c v i (Suc r) k s =
     Option.bind (encode_slot c v i zero_word) (\<lambda>buf.
       write_slots_from H c v (i + 1) r (inc_be_32 k) (sstore H k buf s))"

definition write_to_storage_static ::
  "'s host_api \<Rightarrow> static_codec \<Rightarrow> sol_val \<Rightarrow> bytes \<Rightarrow> 's \<Rightarrow> 's option" where
  "write_to_storage_static H c v base_key s =
     (if STORAGE_SLOTS c = 1
      then Option.bind (encode_slot c v 0 zero_word) (\<lambda>buf. Some (sstore H base_key buf s))
      else write_slots_from H c v 0 (STORAGE_SLOTS c) base_key s)"

fun clear_slots_from :: "'s host_api \<Rightarrow> nat \<Rightarrow> bytes \<Rightarrow> 's \<Rightarrow> 's" where
  "clear_slots_from H 0 k s = s"
| "clear_slots_from H (Suc r) k s = clear_slots_from H r (inc_be_32 k) (sstore H k zero_word s)"

definition clear_storage_static :: "'s host_api \<Rightarrow> static_codec \<Rightarrow> bytes \<Rightarrow> 's \<Rightarrow> 's" where
  "clear_storage_static H c base_key s =
     (if STORAGE_SLOTS c = 1 then sstore H base_key zero_word s
      else clear_slots_from H (STORAGE_SLOTS c) base_key s)"

fun load_slots :: "'s host_api \<Rightarrow> nat \<Rightarrow> bytes \<Rightarrow> 's \<Rightarrow> bytes list" where
  "load_slots H 0 k s = []"
| "load_slots H (Suc r) k s = sload H k s # load_slots H r (inc_be_32 k) s"

text \<open>The multi-slot paths \<open>const\<close>-assert \<open>STORAGE_SLOTS <= MAX_STATIC_SLOTS\<close>.\<close>

definition read_from_storage_static :: "'s host_api \<Rightarrow> static_codec \<Rightarrow> bytes \<Rightarrow> 's \<Rightarrow> sol_val option" where
  "read_from_storage_static H c base_key s =
     (if STORAGE_SLOTS c = 1 then from_slots c [sload H base_key s]
      else if STORAGE_SLOTS c \<le> MAX_STATIC_SLOTS
      then from_slots c (load_slots H (STORAGE_SLOTS c) base_key s) else None)"

definition try_read_from_storage_static ::
  "'s host_api \<Rightarrow> static_codec \<Rightarrow> bytes \<Rightarrow> 's \<Rightarrow> sol_val option option" where
  "try_read_from_storage_static H c base_key s =
     (if STORAGE_SLOTS c = 1 then
        (let buf = sload H base_key s in
         if buf = zero_word then Some None else map_option Some (from_slots c [buf]))
      else if STORAGE_SLOTS c \<le> MAX_STATIC_SLOTS then
        (let slots = load_slots H (STORAGE_SLOTS c) base_key s in
         if list_all (\<lambda>sl. sl = zero_word) slots then Some None
         else map_option Some (from_slots c slots))
      else None)"

section \<open>Dynamic bodies\<close>

definition EMPTY_INLINE_SENTINEL :: byte where
  "EMPTY_INLINE_SENTINEL = 0x01"

datatype dyn_header = Inline nat | Spilled nat

definition decode_dyn_header :: "bytes \<Rightarrow> dyn_header" where
  "decode_dyn_header slot_bytes =
     (if (slot_bytes ! 31) AND 1 = 0 then Inline (min (unat (drop_bit 1 (slot_bytes ! 31))) 31)
      else
        (let high_zero = list_all (\<lambda>b. b = 0) (take 16 slot_bytes) in
         if \<not> high_zero then Spilled 0
         else
           (let raw_len = drop_bit 1 (from_be (take 16 (drop 16 slot_bytes)) :: 128 word) in
            if unat raw_len > usize_limit - 1 then Spilled 0 else Spilled (unat raw_len))))"

definition encode_long_header :: "nat \<Rightarrow> bytes" where
  "encode_long_header len =
     (let raw = of_nat len * 2 + 1 :: 128 word
      in replicate 16 0 @ to_be raw)"

definition dyn_body_root :: "'s host_api \<Rightarrow> bytes \<Rightarrow> bytes" where
  "dyn_body_root H skey = api_hash_keccak_256 H skey"

fun read_body_from :: "'s host_api \<Rightarrow> bytes \<Rightarrow> nat \<Rightarrow> 's \<Rightarrow> bytes" where
  "read_body_from H body_slot remaining s =
     (if remaining > 0 then
        (let chunk = sload H body_slot s; n = (if remaining \<ge> 32 then 32 else remaining)
         in take n chunk @ read_body_from H (inc_be_32 body_slot) (remaining - n) s)
      else [])"

declare read_body_from.simps [simp del]

definition read_dyn_body :: "'s host_api \<Rightarrow> bytes \<Rightarrow> nat \<Rightarrow> 's \<Rightarrow> bytes" where
  "read_dyn_body H skey len s = read_body_from H (dyn_body_root H skey) len s"

definition clear_dyn_body_range :: "'s host_api \<Rightarrow> bytes \<Rightarrow> nat \<Rightarrow> nat \<Rightarrow> 's \<Rightarrow> 's" where
  "clear_dyn_body_range H skey start_chunk count s =
     (if count = 0 then s
      else clear_slots_from H count ((inc_be_32 ^^ start_chunk) (dyn_body_root H skey)) s)"

function write_body_from :: "'s host_api \<Rightarrow> bytes \<Rightarrow> bytes \<Rightarrow> nat \<Rightarrow> 's \<Rightarrow> 's" where
  "write_body_from H data body_slot offs s =
     (if offs < length data then
        (let remaining = length data - offs; n = (if remaining \<ge> 32 then 32 else remaining);
             chunk = take n (drop offs data) @ replicate (32 - n) 0
         in write_body_from H data (inc_be_32 body_slot) (offs + n) (sstore H body_slot chunk s))
      else s)"
  by pat_completeness auto
termination
  by (relation "measure (\<lambda>(H, data, k, offs, s). length data - offs)") auto

declare write_body_from.simps [simp del]

definition write_dynamic_bytes :: "'s host_api \<Rightarrow> bytes \<Rightarrow> bytes \<Rightarrow> 's \<Rightarrow> 's" where
  "write_dynamic_bytes H skey data s =
     (let new_len = length data;
          new_chunks = (if new_len < 32 then 0 else div_ceil new_len 32);
          s = (case decode_dyn_header (sload H skey s) of
                 Spilled old_len \<Rightarrow>
                   (let old_chunks = div_ceil old_len 32 in
                    if old_chunks > new_chunks
                    then clear_dyn_body_range H skey new_chunks (old_chunks - new_chunks) s else s)
               | Inline _ \<Rightarrow> s)
      in if new_len < 32 then
           (let packed = data @ replicate (32 - new_len) 0;
                packed = packed[31 := push_bit 1 (of_nat new_len)];
                packed = (if new_len = 0 then packed[30 := EMPTY_INLINE_SENTINEL] else packed)
            in sstore H skey packed s)
         else write_body_from H data (dyn_body_root H skey) 0 (sstore H skey (encode_long_header new_len) s))"

definition read_dynamic_bytes_from_header :: "'s host_api \<Rightarrow> bytes \<Rightarrow> bytes \<Rightarrow> 's \<Rightarrow> bytes" where
  "read_dynamic_bytes_from_header H skey header s =
     (case decode_dyn_header header of
        Inline len \<Rightarrow> take len header
      | Spilled len \<Rightarrow> read_dyn_body H skey len s)"

definition read_dynamic_bytes :: "'s host_api \<Rightarrow> bytes \<Rightarrow> 's \<Rightarrow> bytes" where
  "read_dynamic_bytes H skey s = read_dynamic_bytes_from_header H skey (sload H skey s) s"

definition clear_dynamic_bytes :: "'s host_api \<Rightarrow> bytes \<Rightarrow> 's \<Rightarrow> 's" where
  "clear_dynamic_bytes H skey s =
     (let s = (case decode_dyn_header (sload H skey s) of
                 Spilled len \<Rightarrow> clear_dyn_body_range H skey 0 (div_ceil len 32) s
               | Inline _ \<Rightarrow> s)
      in sstore H skey zero_word s)"

text \<open>
  \<open>String::from_utf8_lossy\<close> of the standard library: every maximal ill-formed subsequence
  becomes U+FFFD. \<open>utf8_step\<close> gives whether the bytes start with a character, and its length or
  that of the ill-formed subsequence.
\<close>

definition utf8_second :: "byte \<Rightarrow> byte \<Rightarrow> bool" where
  "utf8_second b c =
     (if b = 0xE0 then 0xA0 \<le> c \<and> c \<le> 0xBF else if b = 0xED then 0x80 \<le> c \<and> c \<le> 0x9F
      else if b = 0xF0 then 0x90 \<le> c \<and> c \<le> 0xBF else if b = 0xF4 then 0x80 \<le> c \<and> c \<le> 0x8F
      else utf8_cont c)"

fun utf8_step :: "bytes \<Rightarrow> bool \<times> nat" where
  "utf8_step [] = (True, 0)"
| "utf8_step (b # r) =
     (if b < 0x80 then (True, 1)
      else if 0xC2 \<le> b \<and> b \<le> 0xDF then
        (if r \<noteq> [] \<and> utf8_cont (r ! 0) then (True, 2) else (False, 1))
      else if 0xE0 \<le> b \<and> b \<le> 0xEF then
        (if \<not> (r \<noteq> [] \<and> utf8_second b (r ! 0)) then (False, 1)
         else if \<not> (1 < length r \<and> utf8_cont (r ! 1)) then (False, 2) else (True, 3))
      else if 0xF0 \<le> b \<and> b \<le> 0xF4 then
        (if \<not> (r \<noteq> [] \<and> utf8_second b (r ! 0)) then (False, 1)
         else if \<not> (1 < length r \<and> utf8_cont (r ! 1)) then (False, 2)
         else if \<not> (2 < length r \<and> utf8_cont (r ! 2)) then (False, 3) else (True, 4))
      else (False, 1))"

lemma utf8_step_pos: "(ok, n) = utf8_step bs \<Longrightarrow> bs \<noteq> [] \<Longrightarrow> 0 < n"
  by (cases bs) (auto split: if_splits)

function from_utf8_lossy :: "bytes \<Rightarrow> bytes" where
  "from_utf8_lossy bs =
     (if bs = [] then []
      else (case utf8_step bs of (ok, n) \<Rightarrow>
        (if ok then take n bs else [0xEF, 0xBF, 0xBD]) @ from_utf8_lossy (drop n bs)))"
  by pat_completeness auto
termination
  by (relation "measure length") (auto dest: utf8_step_pos)

declare from_utf8_lossy.simps [simp del]

section \<open>The storage implementation of a type\<close>

record 's storage_codec =
  st_slots :: nat
  st_packed :: nat
  HAS_DYNAMIC_BODY :: bool
  write_to_storage :: "sol_val \<Rightarrow> bytes \<Rightarrow> 's \<Rightarrow> 's option"
  clear_storage :: "bytes \<Rightarrow> 's \<Rightarrow> 's"
  read_from_storage :: "bytes \<Rightarrow> 's \<Rightarrow> sol_val option"
  try_read_from_storage :: "bytes \<Rightarrow> 's \<Rightarrow> sol_val option option"
  pack_into_dispatched :: "sol_val \<Rightarrow> bytes \<Rightarrow> nat \<Rightarrow> bytes option"
  unpack_from_dispatched :: "bytes \<Rightarrow> nat \<Rightarrow> sol_val option"

definition static_storage :: "'s host_api \<Rightarrow> static_codec \<Rightarrow> 's storage_codec" where
  "static_storage H c =
     \<lparr> st_slots = STORAGE_SLOTS c, st_packed = PACKED_BYTES c, HAS_DYNAMIC_BODY = False,
       write_to_storage = write_to_storage_static H c,
       clear_storage = clear_storage_static H c,
       read_from_storage = read_from_storage_static H c,
       try_read_from_storage = try_read_from_storage_static H c,
       pack_into_dispatched = pack_into c,
       unpack_from_dispatched = unpack_from c \<rparr>"

definition bytes_storage :: "'s host_api \<Rightarrow> 's storage_codec" where
  "bytes_storage H =
     \<lparr> st_slots = 1, st_packed = 32, HAS_DYNAMIC_BODY = True,
       write_to_storage = (\<lambda>v key s. Some (write_dynamic_bytes H key (val_data v) s)),
       clear_storage = clear_dynamic_bytes H,
       read_from_storage = (\<lambda>key s. Some (VData (read_dynamic_bytes H key s))),
       try_read_from_storage = (\<lambda>key s.
         let header = sload H key s in
         if header = zero_word then Some None
         else Some (Some (VData (read_dynamic_bytes_from_header H key header s)))),
       pack_into_dispatched = \<lambda>_ _ _. None,
       unpack_from_dispatched = \<lambda>_ _. None \<rparr>"

definition string_storage :: "'s host_api \<Rightarrow> 's storage_codec" where
  "string_storage H =
     \<lparr> st_slots = 1, st_packed = 32, HAS_DYNAMIC_BODY = True,
       write_to_storage = (\<lambda>v key s. Some (write_dynamic_bytes H key (val_data v) s)),
       clear_storage = clear_dynamic_bytes H,
       read_from_storage = (\<lambda>key s. Some (VData (from_utf8_lossy (read_dynamic_bytes H key s)))),
       try_read_from_storage = (\<lambda>key s.
         let header = sload H key s in
         if header = zero_word then Some None
         else Some (Some (VData (from_utf8_lossy (read_dynamic_bytes_from_header H key header s))))),
       pack_into_dispatched = \<lambda>_ _ _. None,
       unpack_from_dispatched = \<lambda>_ _. None \<rparr>"

fun storage_of :: "'s host_api \<Rightarrow> sol_ty \<Rightarrow> 's storage_codec" where
  "storage_of H TString = string_storage H"
| "storage_of H TBytes = bytes_storage H"
| "storage_of H t = static_storage H (static_of t)"

section \<open>Consecutive keys\<close>

definition key_space :: nat where
  "key_space = 256 ^ 32"

definition slot_keys :: "bytes \<Rightarrow> nat \<Rightarrow> bytes set" where
  "slot_keys key n = set (map (slot_key key) [0..<n])"

lemma length_inc_rev [simp]: "length (inc_rev bs) = length bs"
  by (induction bs) (auto simp: Let_def)

lemma length_inc [simp]: "length (inc_be_32 key) = length key"
  by (simp add: inc_be_32_def)

lemma unat_succ: "b \<noteq> (0xff :: byte) \<Longrightarrow> unat (b + 1) = unat b + 1"
proof -
  assume b: "b \<noteq> 0xff"
  have "unat b \<noteq> 255"
  proof
    assume "unat b = 255"
    then have "unat b = unat (0xff :: byte)" by simp
    then show False using b by (metis word_unat_eq_iff)
  qed
  then show ?thesis using unat_byte_less [of b] by (simp add: unat_word_ariths del: unat_byte_less)
qed

lemma be_nat_inc_rev: "be_nat (rev (inc_rev bs)) = (be_nat (rev bs) + 1) mod 256 ^ length bs"
proof (induction bs)
  case (Cons b bs)
  have lt: "be_nat (rev bs) < 256 ^ length bs" using be_nat_less [of "rev bs"] by simp
  show ?case
  proof (cases "b = 0xff")
    case True
    then have u: "unat b = 255" "unat (b + 1) = 0" by simp_all
    have "be_nat (rev (inc_rev (b # bs))) = (be_nat (rev bs) + 1) mod 256 ^ length bs * 256"
      using True Cons u by (simp add: be_nat_append Let_def)
    also have "\<dots> = ((be_nat (rev bs) + 1) * 256) mod (256 ^ length bs * 256)"
      by (rule mod_mult_mult2 [symmetric])
    also have "(be_nat (rev bs) + 1) * 256 = be_nat (rev (b # bs)) + 1"
      using u by (simp add: be_nat_append)
    finally show ?thesis by (simp add: mult.commute)
  next
    case False
    have "unat b + 1 < 256" using False unat_succ unat_byte_less [of "b + 1"] by (simp del: unat_byte_less)
    then have "be_nat (rev bs) * 256 + unat b + 1 < (be_nat (rev bs) + 1) * 256" by simp
    also have "\<dots> \<le> 256 ^ length bs * 256" using lt by (intro mult_le_mono1) simp
    finally show ?thesis using False by (simp add: be_nat_append Let_def unat_succ)
  qed
qed simp

lemma be_nat_inc: "length key = 32 \<Longrightarrow> be_nat (inc_be_32 key) = (be_nat key + 1) mod key_space"
  using be_nat_inc_rev [of "rev key"] by (simp add: inc_be_32_def key_space_def)

lemma length_slot_key [simp]: "length (slot_key key i) = 32"
  by (simp add: slot_key_def)

lemma slot_key_0 [simp]: "length key = 32 \<Longrightarrow> slot_key key 0 = key"
  by (simp add: slot_key_def)

lemma slot_key_inc: "length key = 32 \<Longrightarrow> slot_key (inc_be_32 key) i = slot_key key (Suc i)"
  unfolding slot_key_def be_nat_inc be_bytes_inj key_space_def by (simp add: mod_simps)

lemma inc_slot_key: "inc_be_32 (slot_key key i) = slot_key key (Suc i)"
proof (rule be_nat_inj)
  show "be_nat (inc_be_32 (slot_key key i)) = be_nat (slot_key key (Suc i))"
    unfolding be_nat_inc [OF length_slot_key] by (simp add: slot_key_def key_space_def mod_simps)
qed simp

lemma inc_funpow: "length key = 32 \<Longrightarrow> (inc_be_32 ^^ n) key = slot_key key n"
  by (induction n) (simp_all add: inc_slot_key)

lemma slot_key_inj:
  "i < key_space \<Longrightarrow> j < key_space \<Longrightarrow> slot_key key i = slot_key key j \<longleftrightarrow> i = j"
proof -
  have le: "i = j" if "i \<le> j" "j < key_space" "(a + i) mod key_space = (a + j) mod key_space" for a i j
  proof -
    have "key_space dvd a + j - (a + i)"
      using that by (intro mod_eq_dvd_iff_nat [THEN iffD1]) simp_all
    then show ?thesis using that(1,2) by (auto dest: dvd_imp_le)
  qed
  show "i < key_space \<Longrightarrow> j < key_space \<Longrightarrow> slot_key key i = slot_key key j \<longleftrightarrow> i = j"
    unfolding slot_key_def be_bytes_inj key_space_def [symmetric]
    using le [of i j "be_nat key"] le [of j i "be_nat key"] by (cases "i \<le> j") auto
qed

lemma slot_keys_simps [simp]:
  "slot_keys key 0 = {}"
  "length key = 32 \<Longrightarrow> slot_keys key (Suc n) = insert key (slot_keys (inc_be_32 key) n)"
proof -
  assume k: "length key = 32"
  have "[0..<Suc n] = 0 # map Suc [0..<n]" by (simp only: map_Suc_upt upt_conv_Cons)
  then show "slot_keys key (Suc n) = insert key (slot_keys (inc_be_32 key) n)"
    unfolding slot_keys_def by (simp add: k slot_key_inc del: upt_Suc)
qed (simp add: slot_keys_def)

lemma slot_keys_iff: "k \<in> slot_keys key n \<longleftrightarrow> (\<exists>i < n. k = slot_key key i)"
  by (auto simp: slot_keys_def)

lemma key_notin_next: "length key = 32 \<Longrightarrow> n < key_space \<Longrightarrow> key \<notin> slot_keys (inc_be_32 key) n"
proof
  assume k: "length key = 32" "n < key_space" and "key \<in> slot_keys (inc_be_32 key) n"
  then obtain i where i: "i < n" "slot_key key 0 = slot_key key (Suc i)"
    by (auto simp: slot_keys_iff slot_key_inc)
  then show False using k(2) slot_key_inj [of 0 "Suc i" key] by simp
qed

section \<open>Runs of slots\<close>

fun store_slots :: "'s host_api \<Rightarrow> bytes \<Rightarrow> bytes list \<Rightarrow> 's \<Rightarrow> 's" where
  "store_slots H k [] s = s"
| "store_slots H k (w # ws) s = store_slots H (inc_be_32 k) ws (sstore H k w s)"

lemma clear_is_store: "clear_slots_from H n k s = store_slots H k (replicate n zero_word) s"
  by (induction n arbitrary: k s) simp_all

lemma write_is_store:
  "(\<forall>j < length ws. encode_slot c v (i + j) zero_word = Some (ws ! j)) \<Longrightarrow>
   write_slots_from H c v i (length ws) k s = Some (store_slots H k ws s)"
proof (induction ws arbitrary: i k s)
  case (Cons w ws)
  have "encode_slot c v i zero_word = Some w" using Cons.prems by (metis add_0_right length_greater_0_conv list.simps(3) nth_Cons_0)
  moreover have "\<forall>j < length ws. encode_slot c v (i + 1 + j) zero_word = Some (ws ! j)"
    using Cons.prems by auto
  ultimately show ?case using Cons.IH by simp
qed simp

lemma length_load_slots [simp]: "length (load_slots H n k s) = n"
  by (induction n arbitrary: k) simp_all

lemma load_slots_nth: "length key = 32 \<Longrightarrow> i < n \<Longrightarrow> load_slots H n key s ! i = sload H (slot_key key i) s"
proof (induction n arbitrary: key i)
  case (Suc n)
  then show ?case by (cases i) (simp_all add: slot_key_inc)
qed simp

context host_store
begin

lemma store_slots_other:
  "length key = 32 \<Longrightarrow> k \<notin> slot_keys key (length ws) \<Longrightarrow> sload H k (store_slots H key ws s) = sload H k s"
  by (induction ws arbitrary: key s) simp_all

lemma load_store_slots:
  "length key = 32 \<Longrightarrow> \<forall>w \<in> set ws. length w = 32 \<Longrightarrow> length ws \<le> key_space \<Longrightarrow>
   load_slots H (length ws) key (store_slots H key ws s) = ws"
proof (induction ws arbitrary: key s)
  case (Cons w ws)
  have "sload H key (store_slots H (inc_be_32 key) ws (sstore H key w s)) = w"
    using Cons.prems key_notin_next [of key "length ws"] by (simp add: store_slots_other)
  then show ?case using Cons by simp
qed simp

lemma load_slots_other:
  "length key = 32 \<Longrightarrow> (\<And>k. k \<in> slot_keys key n \<Longrightarrow> sload H k s' = sload H k s) \<Longrightarrow>
   load_slots H n key s' = load_slots H n key s"
  by (rule nth_equalityI) (auto simp: load_slots_nth slot_keys_iff)

lemma load_slots_len: "w \<in> set (load_slots H n k s) \<Longrightarrow> length w = 32"
  by (induction n arbitrary: k) auto

lemma sload_cleared:
  "length key = 32 \<Longrightarrow>
   sload H k (clear_slots_from H n key s) = (if k \<in> slot_keys key n then zero_word else sload H k s)"
proof (induction n arbitrary: key s)
  case (Suc n)
  then show ?case by (auto simp: sload_sstore)
qed simp

end

section \<open>Static values in storage\<close>

context slot_codec
begin

lemma write_static_is:
  assumes "wt v"
  shows "write_to_storage_static H c v key s = Some (store_slots H key (img v) s)"
proof (cases "STORAGE_SLOTS c = 1")
  case True
  then have "length (img v) = 1" using img_len assms by simp
  then obtain w where w: "img v = [w]" by (auto simp: length_Suc_conv)
  then have "encode_slot c v 0 zero_word = Some w" using encode [OF assms, of 0 zero_word] True by simp
  then show ?thesis using True w by (simp add: write_to_storage_static_def)
next
  case False
  have "\<forall>j < length (img v). encode_slot c v (0 + j) zero_word = Some (img v ! j)"
    using encode [OF assms] img_len [OF assms] by simp
  note w = write_is_store [OF this, of H key s]
  show ?thesis using False w img_len [OF assms] by (simp add: write_to_storage_static_def)
qed

end

lemma clear_static_is:
  "clear_storage_static H c key s = store_slots H key (replicate (STORAGE_SLOTS c) zero_word) s"
  by (simp add: clear_storage_static_def clear_is_store)

lemma read_static_is:
  assumes "STORAGE_SLOTS c \<le> MAX_STATIC_SLOTS"
  shows "read_from_storage_static H c key s = from_slots c (load_slots H (STORAGE_SLOTS c) key s)"
    and "try_read_from_storage_static H c key s =
      (let ws = load_slots H (STORAGE_SLOTS c) key s in
       if list_all (\<lambda>w. w = zero_word) ws then Some None else map_option Some (from_slots c ws))"
  using assms
  by (simp_all add: read_from_storage_static_def try_read_from_storage_static_def Let_def)

lemma max_static_space: "n \<le> MAX_STATIC_SLOTS \<Longrightarrow> n \<le> key_space"
  by (simp add: MAX_STATIC_SLOTS_def key_space_def)

section \<open>Dynamic values in storage\<close>

text \<open>The chunks of a spilled body, the last one padded with zeros.\<close>

function chunks :: "bytes \<Rightarrow> bytes list" where
  "chunks data =
     (if data = [] then []
      else (take 32 data @ replicate (32 - length data) 0) # chunks (drop 32 data))"
  by pat_completeness auto
termination
  by (relation "measure length") auto

declare chunks.simps [simp del]

lemma chunks_Nil [simp]: "chunks [] = []"
  by (simp add: chunks.simps)

lemma chunks_step:
  "data \<noteq> [] \<Longrightarrow> chunks data = (take 32 data @ replicate (32 - length data) 0) # chunks (drop 32 data)"
  by (simp add: chunks.simps [of data])

lemma chunk_len: "w \<in> set (chunks data) \<Longrightarrow> length w = 32"
proof (induction data rule: chunks.induct)
  case (1 data)
  then show ?case by (cases "data = []") (auto simp: chunks_step)
qed

lemma div_ceil_0 [simp]: "div_ceil 0 d = 0"
  by (simp add: div_ceil_def)

lemma div_ceil_Suc: "0 < n \<Longrightarrow> 0 < d \<Longrightarrow> div_ceil n d = Suc (div_ceil (n - d) d)"
proof (cases "d < n")
  case False
  assume "0 < n" "0 < d"
  then show ?thesis using False div_ceil_one [of n d] by simp
qed (simp add: div_ceil_step)

lemma length_chunks: "length (chunks data) = div_ceil (length data) 32"
proof (induction data rule: chunks.induct)
  case (1 data)
  then show ?case by (cases "data = []") (simp_all add: chunks_step div_ceil_Suc)
qed

lemma take_concat_chunks: "take (length data) (concat (chunks data)) = data"
proof (induction data rule: chunks.induct)
  case (1 data)
  show ?case
  proof (cases "32 \<le> length data")
    case True
    then have ne: "data \<noteq> []" by auto
    have "take (length data) (concat (chunks data)) = take 32 data @ take (length data - 32) (concat (chunks (drop 32 data)))"
      using True by (simp add: chunks_step [OF ne])
    also have "\<dots> = take 32 data @ drop 32 data" using 1 ne by simp
    finally show ?thesis by simp
  next
    case False
    then show ?thesis by (cases "data = []") (simp_all add: chunks_step)
  qed
qed

lemma read_body_is:
  "length key = 32 \<Longrightarrow> host_store H \<Longrightarrow>
   read_body_from H key n s = take n (concat (load_slots H (div_ceil n 32) key s))"
proof (induction n arbitrary: key rule: less_induct)
  case (less n)
  have l: "length (sload H k s) = 32" for k using host_store.sload_len [OF less.prems(2)] by blast
  show ?case
  proof (cases "n = 0")
    case True
    then show ?thesis by (simp add: read_body_from.simps)
  next
    case False
    then have d: "div_ceil n 32 = Suc (div_ceil (n - 32) 32)" by (simp add: div_ceil_Suc)
    show ?thesis
    proof (cases "32 \<le> n")
      case True
      then show ?thesis
        using less.IH [of "n - 32" "inc_be_32 key"] less.prems False l
        by (simp add: d read_body_from.simps [of H key n])
    next
      case lt: False
      then show ?thesis using False less.prems(1) l
        by (simp add: d read_body_from.simps [of H key n] read_body_from.simps [of H _ 0])
    qed
  qed
qed

lemma write_body_is: "write_body_from H data key off s = store_slots H key (chunks (drop off data)) s"
proof (induction H data key off s rule: write_body_from.induct)
  case (1 H data key off s)
  show ?case
  proof (cases "off < length data")
    case True
    define n where "n = (if length data - off \<ge> 32 then 32 else length data - off)"
    define chunk where "chunk = take n (drop off data) @ replicate (32 - n) 0"
    have ih: "write_body_from H data (inc_be_32 key) (off + n) (sstore H key chunk s) =
        store_slots H (inc_be_32 key) (chunks (drop (off + n) data)) (sstore H key chunk s)"
      using 1 [OF True refl n_def chunk_def] .
    have e: "chunk = take 32 (drop off data) @ replicate (32 - length (drop off data)) 0"
      "drop (off + n) data = drop 32 (drop off data)"
      using True by (auto simp: chunk_def n_def add.commute)
    have "write_body_from H data key off s = write_body_from H data (inc_be_32 key) (off + n) (sstore H key chunk s)"
      using True by (subst write_body_from.simps) (simp only: if_True Let_def n_def chunk_def)
    also have "\<dots> = store_slots H key (chunks (drop off data)) s"
      unfolding ih using True chunks_step [of "drop off data"] by (simp add: e)
    finally show ?thesis .
  next
    case False
    then show ?thesis by (subst write_body_from.simps) simp
  qed
qed

text \<open>The header of a value, and how many body slots a header stands for.\<close>

definition inline_header :: "bytes \<Rightarrow> bytes" where
  "inline_header data =
     (let packed = (data @ replicate (32 - length data) 0)[31 := push_bit 1 (of_nat (length data))]
      in if data = [] then packed[30 := EMPTY_INLINE_SENTINEL] else packed)"

definition dyn_header_of :: "bytes \<Rightarrow> bytes" where
  "dyn_header_of data = (if length data < 32 then inline_header data else encode_long_header (length data))"

definition dyn_body_of :: "bytes \<Rightarrow> bytes list" where
  "dyn_body_of data = (if length data < 32 then [] else chunks data)"

definition body_slots :: "bytes \<Rightarrow> nat" where
  "body_slots header = (case decode_dyn_header header of Spilled n \<Rightarrow> div_ceil n 32 | Inline _ \<Rightarrow> 0)"

definition clear_stale :: "'s host_api \<Rightarrow> bytes \<Rightarrow> bytes \<Rightarrow> 's \<Rightarrow> 's" where
  "clear_stale H skey data s =
     (let old = body_slots (sload H skey s); new = length (dyn_body_of data)
      in clear_slots_from H (old - new) ((inc_be_32 ^^ new) (dyn_body_root H skey)) s)"

lemma write_dynamic_is:
  "write_dynamic_bytes H skey data s =
   store_slots H (dyn_body_root H skey) (dyn_body_of data)
     (sstore H skey (dyn_header_of data) (clear_stale H skey data s))"
  by (cases "decode_dyn_header (sload H skey s)")
    (auto simp: write_dynamic_bytes_def clear_stale_def body_slots_def dyn_body_of_def dyn_header_of_def
      inline_header_def clear_dyn_body_range_def write_body_is length_chunks Let_def)

lemma clear_dynamic_is:
  "clear_dynamic_bytes H skey s =
   sstore H skey zero_word (clear_slots_from H (body_slots (sload H skey s)) (dyn_body_root H skey) s)"
  by (cases "decode_dyn_header (sload H skey s)")
    (simp_all add: clear_dynamic_bytes_def body_slots_def clear_dyn_body_range_def Let_def)

lemma length_inline_header [simp]: "length data < 32 \<Longrightarrow> length (inline_header data) = 32"
  by (simp add: inline_header_def Let_def)

lemma length_long_header [simp]: "length (encode_long_header n) = 32"
  by (simp add: encode_long_header_def Let_def)

lemma length_dyn_header [simp]: "length (dyn_header_of data) = 32"
  by (simp add: dyn_header_of_def)

lemma inline_byte:
  "n < 32 \<Longrightarrow> (push_bit 1 (of_nat n :: byte)) AND 1 = 0 \<and>
    unat (drop_bit 1 (push_bit 1 (of_nat n :: byte))) = n"
proof -
  have "list_all (\<lambda>n. (push_bit 1 (of_nat n :: byte)) AND 1 = 0 \<and>
    unat (drop_bit 1 (push_bit 1 (of_nat n :: byte))) = n) [0..<32]"
    by code_simp
  then show "n < 32 \<Longrightarrow> ?thesis" by (simp add: list_all_iff del: upt_rec_numeral)
qed

lemma decode_inline:
  assumes "length data < 32"
  shows "decode_dyn_header (inline_header data) = Inline (length data)"
    and "take (length data) (inline_header data) = data"
    and "inline_header data \<noteq> zero_word"
proof -
  have b: "inline_header data ! 31 = push_bit 1 (of_nat (length data))"
    using assms by (simp add: inline_header_def Let_def)
  show "decode_dyn_header (inline_header data) = Inline (length data)"
    using inline_byte [OF assms] assms by (simp add: decode_dyn_header_def b)
  show "take (length data) (inline_header data) = data"
    using assms by (simp add: inline_header_def Let_def)
  show "inline_header data \<noteq> zero_word"
  proof
    assume z: "inline_header data = zero_word"
    then have "inline_header data ! 31 = 0" "inline_header data ! 30 = 0"
      by (simp_all add: zero_word_def)
    moreover then have "length data = 0" using inline_byte [OF assms] by (simp add: b)
    ultimately show False by (simp add: inline_header_def EMPTY_INLINE_SENTINEL_def)
  qed
qed

lemma decode_long:
  assumes "n < usize_limit"
  shows "decode_dyn_header (encode_long_header n) = Spilled n"
    and "encode_long_header n \<noteq> zero_word"
proof -
  define raw where "raw = (of_nat n * 2 + 1 :: 128 word)"
  have r: "raw = of_nat (2 * n + 1)" by (simp add: raw_def mult.commute)
  have u: "unat raw = 2 * n + 1"
    unfolding r unat_of_nat using assms by (intro mod_less) (simp add: usize_limit_def)
  have h: "encode_long_header n = replicate 16 0 @ to_be raw" by (simp add: encode_long_header_def raw_def)
  have "to_be raw = be_bytes (Suc 15) (2 * n + 1)" by (simp add: to_be_def u)
  then have t: "to_be raw = be_bytes 15 ((2 * n + 1) div 256) @ [of_nat (2 * n + 1)]"
    by (simp only: be_bytes.simps)
  have l: "encode_long_header n ! 31 = of_nat (2 * n + 1)" by (simp add: h t nth_append)
  have o: "(of_nat (2 * n + 1) :: byte) AND 1 = 1" by (simp add: and_one_eq mod_2_eq_odd)
  have d: "unat (drop_bit 1 raw) = n"
    unfolding unat_drop_bit_eq u by (simp add: drop_bit_eq_div)
  show "decode_dyn_header (encode_long_header n) = Spilled n"
  proof -
    have "(encode_long_header n ! 31) AND 1 \<noteq> 0" using l o by simp
    moreover have "list_all (\<lambda>b. b = 0) (take 16 (encode_long_header n))" by (simp add: h list_all_iff)
    moreover have "from_be (take 16 (drop 16 (encode_long_header n))) = raw" by (simp add: h)
    moreover have "\<not> n > usize_limit - 1" using assms by linarith
    ultimately show ?thesis unfolding decode_dyn_header_def Let_def using d by (simp only: if_False if_True not_True_eq_False)
  qed
  show "encode_long_header n \<noteq> zero_word"
  proof
    assume "encode_long_header n = zero_word"
    then have "encode_long_header n ! 31 = 0" by (simp add: zero_word_def)
    then show False using o l by simp
  qed
qed

lemma dyn_header_nonzero: "length data < usize_limit \<Longrightarrow> dyn_header_of data \<noteq> zero_word"
  by (simp add: dyn_header_of_def decode_inline decode_long)

lemma body_slots_header: "length data < usize_limit \<Longrightarrow> body_slots (dyn_header_of data) = length (dyn_body_of data)"
  by (simp add: body_slots_def dyn_header_of_def dyn_body_of_def decode_inline decode_long length_chunks)

lemma div_ceil_le: "div_ceil n 32 \<le> n"
proof -
  have "n div 32 * 32 + n mod 32 = n" by simp
  then show ?thesis by (auto simp: div_ceil_def)
qed

lemma dyn_body_space: "length data < usize_limit \<Longrightarrow> length (dyn_body_of data) \<le> key_space"
  using div_ceil_le [of "length data"]
  by (simp add: dyn_body_of_def length_chunks usize_limit_def key_space_def)

lemma dyn_body_len: "w \<in> set (dyn_body_of data) \<Longrightarrow> length w = 32"
  by (auto simp: dyn_body_of_def chunk_len split: if_splits)

text \<open>The cells of a dynamic value with \<open>n\<close> body slots.\<close>

definition dyn_cells :: "'s host_api \<Rightarrow> bytes \<Rightarrow> nat \<Rightarrow> bytes set" where
  "dyn_cells H skey n = insert skey (slot_keys (dyn_body_root H skey) n)"

text \<open>The body does not run into its own header: a collision of \<open>keccak256\<close>.\<close>

definition body_clear :: "'s host_api \<Rightarrow> bytes \<Rightarrow> nat \<Rightarrow> bool" where
  "body_clear H skey n \<longleftrightarrow> skey \<notin> slot_keys (dyn_body_root H skey) n"

lemma slot_keys_mono: "m \<le> n \<Longrightarrow> slot_keys key m \<subseteq> slot_keys key n"
  unfolding slot_keys_def set_map set_upt by (intro image_mono) auto

lemma slot_keys_shift: "slot_keys (slot_key key m) n \<subseteq> slot_keys key (m + n)"
proof
  fix k assume "k \<in> slot_keys (slot_key key m) n"
  then obtain i where i: "i < n" "k = slot_key (slot_key key m) i" by (auto simp: slot_keys_iff)
  have "slot_key (slot_key key m) i = slot_key key (m + i)"
    unfolding slot_key_def be_nat_be_bytes be_bytes_inj by (simp add: mod_simps add.assoc)
  moreover have "m + i < m + n" using i(1) by simp
  ultimately show "k \<in> slot_keys key (m + n)" unfolding slot_keys_iff using i(2) by metis
qed

lemma slot_keys_split: "m \<le> n \<Longrightarrow> slot_keys key n = slot_keys key m \<union> slot_keys (slot_key key m) (n - m)"
proof
  assume m: "m \<le> n"
  show "slot_keys key n \<subseteq> slot_keys key m \<union> slot_keys (slot_key key m) (n - m)"
  proof
    fix k assume "k \<in> slot_keys key n"
    then obtain i where i: "i < n" "k = slot_key key i" by (auto simp: slot_keys_iff)
    show "k \<in> slot_keys key m \<union> slot_keys (slot_key key m) (n - m)"
    proof (cases "i < m")
      case False
      have "slot_key (slot_key key m) (i - m) = slot_key key (m + (i - m))"
        unfolding slot_key_def be_nat_be_bytes be_bytes_inj by (simp add: mod_simps add.assoc)
      then show ?thesis using i False by (auto simp: slot_keys_iff intro!: exI [of _ "i - m"])
    qed (use i in \<open>auto simp: slot_keys_iff\<close>)
  qed
  show "slot_keys key m \<union> slot_keys (slot_key key m) (n - m) \<subseteq> slot_keys key n"
    using slot_keys_mono [OF m] slot_keys_shift [of key m "n - m"] m by simp
qed

context keccak_host
begin

lemma body_root_len [simp]: "length (dyn_body_root H k) = 32"
  by (simp add: dyn_body_root_def)

lemma sload_stale:
  "sload H k (clear_stale H skey data s) =
    (if k \<in> slot_keys (slot_key (dyn_body_root H skey) (length (dyn_body_of data)))
        (body_slots (sload H skey s) - length (dyn_body_of data))
     then zero_word else sload H k s)"
  by (simp add: clear_stale_def Let_def inc_funpow sload_cleared)

lemma dynamic_read_written:
  assumes "length skey = 32" "length data < usize_limit" "body_clear H skey (length (dyn_body_of data))"
  shows "sload H skey (write_dynamic_bytes H skey data s) = dyn_header_of data"
    and "read_dynamic_bytes_from_header H skey (dyn_header_of data) (write_dynamic_bytes H skey data s) = data"
proof -
  let ?s = "sstore H skey (dyn_header_of data) (clear_stale H skey data s)"
  show "sload H skey (write_dynamic_bytes H skey data s) = dyn_header_of data"
    unfolding write_dynamic_is using assms(3) by (simp add: store_slots_other body_clear_def)
  have b: "load_slots H (length (dyn_body_of data)) (dyn_body_root H skey) (write_dynamic_bytes H skey data s)
      = dyn_body_of data"
    unfolding write_dynamic_is using dyn_body_len dyn_body_space [OF assms(2)]
    by (intro load_store_slots) auto
  show "read_dynamic_bytes_from_header H skey (dyn_header_of data) (write_dynamic_bytes H skey data s) = data"
  proof (cases "length data < 32")
    case True
    then show ?thesis
      by (simp add: read_dynamic_bytes_from_header_def dyn_header_of_def decode_inline)
  next
    case False
    then have "load_slots H (div_ceil (length data) 32) (dyn_body_root H skey) (write_dynamic_bytes H skey data s)
      = chunks data"
      using b by (simp add: dyn_body_of_def length_chunks)
    then show ?thesis
      using False assms(2) host_store_axioms take_concat_chunks
      by (simp add: read_dynamic_bytes_from_header_def dyn_header_of_def decode_long read_dyn_body_def read_body_is)
  qed
qed

lemma dynamic_write_other:
  assumes "k \<notin> dyn_cells H skey (max (body_slots (sload H skey s)) (length (dyn_body_of data)))"
  shows "sload H k (write_dynamic_bytes H skey data s) = sload H k s"
proof -
  let ?old = "body_slots (sload H skey s)" and ?new = "length (dyn_body_of data)"
  have k: "k \<noteq> skey" "k \<notin> slot_keys (dyn_body_root H skey) (max ?old ?new)"
    using assms by (auto simp: dyn_cells_def)
  then have "k \<notin> slot_keys (dyn_body_root H skey) ?new"
    using slot_keys_mono [of ?new "max ?old ?new"] by auto
  moreover have "k \<notin> slot_keys (slot_key (dyn_body_root H skey) ?new) (?old - ?new)"
    using k(2) slot_keys_shift [of "dyn_body_root H skey" ?new "?old - ?new"]
    by (auto simp: max_def split: if_splits)
  ultimately show ?thesis
    unfolding write_dynamic_is using k(1) by (simp add: store_slots_other sload_stale)
qed

text \<open>No chunk of a longer previous value survives.\<close>

lemma dynamic_write_frees:
  assumes "length (dyn_body_of data) \<le> i" "i < body_slots (sload H skey s)" "body_slots (sload H skey s) \<le> key_space"
    and "slot_key (dyn_body_root H skey) i \<noteq> skey"
  shows "sload H (slot_key (dyn_body_root H skey) i) (write_dynamic_bytes H skey data s) = zero_word"
proof -
  let ?old = "body_slots (sload H skey s)" and ?new = "length (dyn_body_of data)"
  let ?k = "slot_key (dyn_body_root H skey) i"
  have "?k \<notin> slot_keys (dyn_body_root H skey) ?new"
    using assms slot_key_inj [of i] by (auto simp: slot_keys_iff)
  moreover have "?k \<in> slot_keys (dyn_body_root H skey) ?old"
    using assms(2) by (auto simp: slot_keys_iff)
  ultimately have "?k \<in> slot_keys (slot_key (dyn_body_root H skey) ?new) (?old - ?new)"
    using slot_keys_split [of ?new ?old "dyn_body_root H skey"] assms(1,2) by auto
  then show ?thesis
    unfolding write_dynamic_is using assms(4) \<open>?k \<notin> _\<close>
    by (simp add: store_slots_other sload_stale)
qed

lemma dynamic_cleared:
  "sload H k (clear_dynamic_bytes H skey s) =
    (if k \<in> dyn_cells H skey (body_slots (sload H skey s)) then zero_word else sload H k s)"
  by (simp add: clear_dynamic_is sload_sstore sload_cleared dyn_cells_def)

end

text \<open>A well-formed string is not changed by the lossy decoder.\<close>

lemma utf8_step_valid:
  assumes "valid_utf8 bs" "bs \<noteq> []"
  shows "\<exists>n. utf8_step bs = (True, n) \<and> valid_utf8 (drop n bs)"
proof -
  obtain b r where bs: "bs = b # r" using assms(2) by (cases bs) auto
  consider (one) "b < 0x80" | (two) "\<not> b < 0x80" "0xC2 \<le> b \<and> b \<le> 0xDF"
    | (three) "\<not> b < 0x80" "\<not> (0xC2 \<le> b \<and> b \<le> 0xDF)" "0xE0 \<le> b \<and> b \<le> 0xEF"
    | (four) "\<not> b < 0x80" "\<not> (0xC2 \<le> b \<and> b \<le> 0xDF)" "\<not> (0xE0 \<le> b \<and> b \<le> 0xEF)" "0xF0 \<le> b \<and> b \<le> 0xF4"
    using assms(1) unfolding bs valid_utf8.simps by presburger
  then show ?thesis
  proof cases
    case one
    then show ?thesis using assms(1) by (simp add: bs)
  next
    case two
    then obtain c1 r1 where "r = c1 # r1" "utf8_cont c1" "valid_utf8 r1"
      using assms(1) unfolding bs valid_utf8.simps by (simp split: list.splits)
    then show ?thesis using two by (simp add: bs)
  next
    case three
    then obtain c1 c2 r2 where r: "r = c1 # c2 # r2"
      "(if b = 0xE0 then 0xA0 else 0x80) \<le> c1 \<and> c1 \<le> (if b = 0xED then 0x9F else 0xBF)"
      "utf8_cont c2" "valid_utf8 r2"
      using assms(1) unfolding bs valid_utf8.simps by (simp only: if_False if_True split: list.splits) auto
    have "b \<noteq> 0xF0" "b \<noteq> 0xF4" using three(3) by auto
    then have "utf8_second b c1" using r(2) by (auto simp: utf8_second_def utf8_cont_def split: if_splits)
    then have "utf8_step bs = (True, 3)"
      using three r(3) by (auto simp: bs r(1))
    then show ?thesis using r(4) by (intro exI [of _ 3]) (simp add: bs r(1) del: valid_utf8.simps utf8_step.simps)
  next
    case four
    then obtain c1 c2 c3 r3 where r: "r = c1 # c2 # c3 # r3"
      "(if b = 0xF0 then 0x90 else 0x80) \<le> c1 \<and> c1 \<le> (if b = 0xF4 then 0x8F else 0xBF)"
      "utf8_cont c2" "utf8_cont c3" "valid_utf8 r3"
      using assms(1) unfolding bs valid_utf8.simps by (simp only: if_False if_True split: list.splits) auto
    have "b \<noteq> 0xE0" "b \<noteq> 0xED" using four(4) by auto
    then have "utf8_second b c1" using r(2) by (auto simp: utf8_second_def utf8_cont_def split: if_splits)
    then have "utf8_step bs = (True, 4)"
      using four r(3,4) by (auto simp: bs r(1))
    then show ?thesis using r(5) by (intro exI [of _ 4]) (simp add: bs r(1) del: valid_utf8.simps utf8_step.simps)
  qed
qed

lemma lossy_valid: "valid_utf8 bs \<Longrightarrow> from_utf8_lossy bs = bs"
proof (induction bs rule: from_utf8_lossy.induct)
  case (1 bs)
  show ?case
  proof (cases "bs = []")
    case True
    then show ?thesis by (simp add: from_utf8_lossy.simps [of "[]"])
  next
    case False
    obtain n where n: "utf8_step bs = (True, n)" "valid_utf8 (drop n bs)"
      using utf8_step_valid [OF 1(2) False] by blast
    have "from_utf8_lossy (drop n bs) = drop n bs"
      using 1(1) [OF False n(1) [symmetric] n(2)] .
    then show ?thesis using False n by (simp add: from_utf8_lossy.simps [of bs])
  qed
qed

section \<open>What a storage implementation promises\<close>

text \<open>
  The contract of \<open>StorageEncode\<close> and \<open>StorageDecode\<close> that \<open>Lazy\<close>, \<open>Mapping\<close> and \<open>StorageVec\<close>
  rely on: \<open>cells\<close> are the storage keys the value at a key occupies, \<open>new_cells\<close> those a given
  value will occupy, \<open>fits\<close> says the value's cells do not run into each other.
\<close>

locale storage_type = keccak_host H for H :: "'s host_api" +
  fixes c :: "'s storage_codec"
    and ok :: "sol_val \<Rightarrow> bool"
    and fits :: "bytes \<Rightarrow> sol_val \<Rightarrow> bool"
    and cells :: "bytes \<Rightarrow> 's \<Rightarrow> bytes set"
    and new_cells :: "bytes \<Rightarrow> sol_val \<Rightarrow> bytes set"
  assumes write_read: "ok v \<Longrightarrow> length key = 32 \<Longrightarrow> fits key v \<Longrightarrow>
      \<exists>s'. write_to_storage c v key s = Some s' \<and> read_from_storage c key s' = Some v \<and>
        cells key s' = new_cells key v"
    and write_frame: "ok v \<Longrightarrow> length key = 32 \<Longrightarrow> write_to_storage c v key s = Some s' \<Longrightarrow>
      k \<notin> cells key s \<Longrightarrow> k \<notin> new_cells key v \<Longrightarrow> sload H k s' = sload H k s"
    and read_local: "length key = 32 \<Longrightarrow> \<forall>k \<in> cells key s. sload H k s' = sload H k s \<Longrightarrow>
      read_from_storage c key s' = read_from_storage c key s \<and>
      try_read_from_storage c key s' = try_read_from_storage c key s \<and> cells key s' = cells key s"
    and clear: "length key = 32 \<Longrightarrow>
      sload H k (clear_storage c key s) = (if k \<in> cells key s then zero_word else sload H k s)"
    and clear_absent: "ok v \<Longrightarrow> length key = 32 \<Longrightarrow> try_read_from_storage c key (clear_storage c key s) = Some None"
begin

text \<open>A write or a clear changes nothing for a value that lies elsewhere.\<close>

lemma write_read_other:
  assumes "ok v" "length key = 32" "length key' = 32" "write_to_storage c v key s = Some s'"
    and "cells key' s \<inter> (cells key s \<union> new_cells key v) = {}"
  shows "read_from_storage c key' s' = read_from_storage c key' s"
    and "try_read_from_storage c key' s' = try_read_from_storage c key' s"
    and "cells key' s' = cells key' s"
proof -
  have "\<forall>k \<in> cells key' s. sload H k s' = sload H k s"
    using assms write_frame by blast
  then show "read_from_storage c key' s' = read_from_storage c key' s"
    "try_read_from_storage c key' s' = try_read_from_storage c key' s" "cells key' s' = cells key' s"
    using read_local [OF assms(3)] by blast+
qed

lemma clear_read_other:
  assumes "length key = 32" "length key' = 32" "cells key' s \<inter> cells key s = {}"
  shows "read_from_storage c key' (clear_storage c key s) = read_from_storage c key' s"
    and "cells key' (clear_storage c key s) = cells key' s"
proof -
  have "\<forall>k \<in> cells key' s. sload H k (clear_storage c key s) = sload H k s"
    using assms clear [OF assms(1)] by auto
  then show "read_from_storage c key' (clear_storage c key s) = read_from_storage c key' s"
    "cells key' (clear_storage c key s) = cells key' s"
    using read_local [OF assms(2)] by blast+
qed

end

text \<open>Static values, on any host.\<close>

context keccak_host
begin

lemma static_storage_type:
  assumes "slot_codec c ok img" "\<And>v. ok v \<Longrightarrow> STORAGE_SLOTS c \<le> MAX_STATIC_SLOTS"
  shows "storage_type H (static_storage H c) ok (\<lambda>_ _. True)
    (\<lambda>key _. slot_keys key (STORAGE_SLOTS c)) (\<lambda>key _. slot_keys key (STORAGE_SLOTS c))"
proof unfold_locales
  let ?n = "STORAGE_SLOTS c"
  let ?c = "static_storage H c"
  fix key k :: bytes and s s' :: 'a and v assume key: "length key = 32"
  show "\<exists>s'. write_to_storage ?c v key s = Some s' \<and> read_from_storage ?c key s' = Some v \<and>
      slot_keys key ?n = slot_keys key ?n" if "ok v"
  proof -
    have len: "length (img v) = ?n" "\<forall>w \<in> set (img v). length w = 32"
      using slot_codec.img_len [OF assms(1) that] slot_codec.img_slot [OF assms(1) that] by auto
    have "load_slots H ?n key (store_slots H key (img v) s) = img v"
      using load_store_slots [OF key len(2), of s] max_static_space [OF assms(2) [OF that]] len(1) by simp
    then show ?thesis
      using slot_codec.decode [OF assms(1) that]
      by (intro exI [of _ "store_slots H key (img v) s"])
        (simp add: static_storage_def read_static_is [OF assms(2) [OF that]] slot_codec.write_static_is [OF assms(1) that])
  qed
  show "sload H k s' = sload H k s"
    if "ok v" "write_to_storage ?c v key s = Some s'" "k \<notin> slot_keys key ?n"
    using that slot_codec.img_len [OF assms(1) that(1)] key
    by (auto simp: static_storage_def store_slots_other slot_codec.write_static_is [OF assms(1) that(1)])
  show "read_from_storage ?c key s' = read_from_storage ?c key s \<and>
      try_read_from_storage ?c key s' = try_read_from_storage ?c key s \<and> slot_keys key ?n = slot_keys key ?n"
    if "\<forall>k \<in> slot_keys key ?n. sload H k s' = sload H k s"
    using load_slots_other [OF key, of ?n s' s] that key
    by (simp add: static_storage_def read_from_storage_static_def try_read_from_storage_static_def)
  show c: "sload H k (clear_storage ?c key s) = (if k \<in> slot_keys key ?n then zero_word else sload H k s)" for k
    using key by (simp add: static_storage_def clear_static_is sload_cleared flip: clear_is_store)
  have "load_slots H ?n key (clear_storage ?c key s) = replicate ?n zero_word"
    by (rule nth_equalityI) (auto simp: load_slots_nth key c slot_keys_iff)
  then show "try_read_from_storage ?c key (clear_storage ?c key s) = Some None" if "ok v"
    by (simp add: static_storage_def read_static_is [OF assms(2) [OF that]] list_all_iff)
qed

lemma dynamic_read_local:
  assumes "\<forall>k \<in> dyn_cells H key (body_slots (sload H key s)). sload H k s' = sload H k s"
  shows "sload H key s' = sload H key s"
    and "read_dynamic_bytes_from_header H key (sload H key s) s' = read_dynamic_bytes_from_header H key (sload H key s) s"
proof -
  show "sload H key s' = sload H key s" using assms by (simp add: dyn_cells_def)
  show "read_dynamic_bytes_from_header H key (sload H key s) s' = read_dynamic_bytes_from_header H key (sload H key s) s"
  proof (cases "decode_dyn_header (sload H key s)")
    case (Spilled n)
    then have "load_slots H (div_ceil n 32) (dyn_body_root H key) s' = load_slots H (div_ceil n 32) (dyn_body_root H key) s"
      using assms by (intro load_slots_other) (auto simp: dyn_cells_def body_slots_def)
    then show ?thesis
      using Spilled host_store_axioms
      by (simp add: read_dynamic_bytes_from_header_def read_dyn_body_def read_body_is)
  qed (simp add: read_dynamic_bytes_from_header_def)
qed

lemma dynamic_storage_type:
  assumes "\<And>v. ok v \<Longrightarrow> \<exists>d. v = VData d \<and> length d < usize_limit \<and> f d = d"
    and "c = (bytes_storage H) \<lparr>
      read_from_storage := (\<lambda>key s. Some (VData (f (read_dynamic_bytes H key s)))),
      try_read_from_storage := (\<lambda>key s. let header = sload H key s in
         if header = zero_word then Some None
         else Some (Some (VData (f (read_dynamic_bytes_from_header H key header s))))) \<rparr>"
  shows "storage_type H c ok (\<lambda>key v. body_clear H key (length (dyn_body_of (val_data v))))
    (\<lambda>key s. dyn_cells H key (body_slots (sload H key s)))
    (\<lambda>key v. dyn_cells H key (length (dyn_body_of (val_data v))))"
proof unfold_locales
  fix key k :: bytes and s s' :: 'a and v assume key: "length key = 32"
  show "\<exists>s'. write_to_storage c v key s = Some s' \<and> read_from_storage c key s' = Some v \<and>
      dyn_cells H key (body_slots (sload H key s')) = dyn_cells H key (length (dyn_body_of (val_data v)))"
    if v: "ok v" "body_clear H key (length (dyn_body_of (val_data v)))"
  proof -
    obtain d where d: "v = VData d" "length d < usize_limit" "f d = d" using assms(1) [OF v(1)] by blast
    note r = dynamic_read_written [OF key d(2)]
    show ?thesis
      using v(2) r [of s] d body_slots_header [OF d(2)]
      by (simp add: assms(2) bytes_storage_def read_dynamic_bytes_def)
  qed
  show "sload H k s' = sload H k s"
    if "ok v" "write_to_storage c v key s = Some s'" "k \<notin> dyn_cells H key (body_slots (sload H key s))"
      "k \<notin> dyn_cells H key (length (dyn_body_of (val_data v)))"
    using that dynamic_write_other [of k key s "val_data v"]
    by (auto simp: assms(2) bytes_storage_def max_def)
  show "read_from_storage c key s' = read_from_storage c key s \<and>
      try_read_from_storage c key s' = try_read_from_storage c key s \<and>
      dyn_cells H key (body_slots (sload H key s')) = dyn_cells H key (body_slots (sload H key s))"
    if "\<forall>k \<in> dyn_cells H key (body_slots (sload H key s)). sload H k s' = sload H k s"
    using dynamic_read_local [OF that]
    by (simp add: assms(2) bytes_storage_def read_dynamic_bytes_def Let_def)
  show c: "sload H k (clear_storage c key s) =
      (if k \<in> dyn_cells H key (body_slots (sload H key s)) then zero_word else sload H k s)" for k
    by (simp add: assms(2) bytes_storage_def dynamic_cleared)
  show "try_read_from_storage c key (clear_storage c key s) = Some None"
    using c [of key] by (simp add: assms(2) bytes_storage_def dyn_cells_def)
qed

end

text \<open>All types: which values are stored, and where.\<close>

fun storage_ok :: "sol_ty \<Rightarrow> sol_val \<Rightarrow> bool" where
  "storage_ok TString v = (case v of VData d \<Rightarrow> length d < usize_limit \<and> valid_utf8 d | _ \<Rightarrow> False)"
| "storage_ok TBytes v = (case v of VData d \<Rightarrow> length d < usize_limit | _ \<Rightarrow> False)"
| "storage_ok t v = (st_ok t v \<and> STORAGE_SLOTS (static_of t) \<le> MAX_STATIC_SLOTS)"

definition is_dyn :: "sol_ty \<Rightarrow> bool" where
  "is_dyn t \<longleftrightarrow> t = TString \<or> t = TBytes"

definition storage_fits :: "'s host_api \<Rightarrow> sol_ty \<Rightarrow> bytes \<Rightarrow> sol_val \<Rightarrow> bool" where
  "storage_fits H t key v \<longleftrightarrow> (is_dyn t \<longrightarrow> body_clear H key (length (dyn_body_of (val_data v))))"

definition storage_cells :: "'s host_api \<Rightarrow> sol_ty \<Rightarrow> bytes \<Rightarrow> 's \<Rightarrow> bytes set" where
  "storage_cells H t key s =
     (if is_dyn t then dyn_cells H key (body_slots (sload H key s))
      else slot_keys key (STORAGE_SLOTS (static_of t)))"

definition storage_new_cells :: "'s host_api \<Rightarrow> sol_ty \<Rightarrow> bytes \<Rightarrow> sol_val \<Rightarrow> bytes set" where
  "storage_new_cells H t key v =
     (if is_dyn t then dyn_cells H key (length (dyn_body_of (val_data v)))
      else slot_keys key (STORAGE_SLOTS (static_of t)))"

lemma storage_of_static: "\<not> is_dyn t \<Longrightarrow> storage_of H t = static_storage H (static_of t)"
  "\<not> is_dyn t \<Longrightarrow> storage_ok t v \<longleftrightarrow> st_ok t v \<and> STORAGE_SLOTS (static_of t) \<le> MAX_STATIC_SLOTS"
  by (cases t; simp add: is_dyn_def)+

context keccak_host
begin

lemma storage_of_type:
  "storage_type H (storage_of H t) (storage_ok t) (storage_fits H t) (storage_cells H t) (storage_new_cells H t)"
proof (cases "is_dyn t")
  case True
  have b: "storage_type H (bytes_storage H) (storage_ok TBytes)
    (\<lambda>key v. body_clear H key (length (dyn_body_of (val_data v))))
    (\<lambda>key s. dyn_cells H key (body_slots (sload H key s)))
    (\<lambda>key v. dyn_cells H key (length (dyn_body_of (val_data v))))"
    by (rule dynamic_storage_type [where f = "\<lambda>d. d"]) (auto simp: bytes_storage_def split: sol_val.splits)
  have s: "storage_type H (string_storage H) (storage_ok TString)
    (\<lambda>key v. body_clear H key (length (dyn_body_of (val_data v))))
    (\<lambda>key s. dyn_cells H key (body_slots (sload H key s)))
    (\<lambda>key v. dyn_cells H key (length (dyn_body_of (val_data v))))"
    by (rule dynamic_storage_type [where f = from_utf8_lossy])
      (auto simp: bytes_storage_def string_storage_def lossy_valid split: sol_val.splits)
  show ?thesis
    using True b s unfolding storage_fits_def [abs_def] storage_cells_def [abs_def] storage_new_cells_def [abs_def]
    by (auto simp: is_dyn_def)
next
  case False
  have "slot_codec (static_of t) (storage_ok t) (slots_of t)"
    by (rule slot_codec_mono [OF static_of_codec]) (simp add: storage_of_static [OF False])
  then have "storage_type H (static_storage H (static_of t)) (storage_ok t) (\<lambda>_ _. True)
    (\<lambda>key _. slot_keys key (STORAGE_SLOTS (static_of t))) (\<lambda>key _. slot_keys key (STORAGE_SLOTS (static_of t)))"
    by (rule static_storage_type) (simp add: storage_of_static [OF False])
  then show ?thesis
    using False unfolding storage_fits_def [abs_def] storage_cells_def [abs_def] storage_new_cells_def [abs_def]
    by (simp add: storage_of_static [OF False])
qed

end

interpretation sto: storage_type "mock_api k" "storage_of (mock_api k) t" "storage_ok t"
  "storage_fits (mock_api k) t" "storage_cells (mock_api k) t" "storage_new_cells (mock_api k) t" for k t
  by (rule mock.storage_of_type)

section \<open>Masked sweeps\<close>

text \<open>A cell at or beyond \<open>key\<close>, and the ones between: what each sweep does at index \<open>i + j\<close>.\<close>

context host_store
begin

lemma write_sweep_other:
  "length key = 32 \<Longrightarrow> \<forall>j < length ws. \<not> mask_bit dyn (i + j) \<longrightarrow> k \<noteq> slot_key key j \<Longrightarrow>
   sload H k (write_static_slots H key ws dyn i s) = sload H k s"
proof (induction ws arbitrary: key i s)
  case (Cons w ws)
  have "\<not> mask_bit dyn i \<Longrightarrow> k \<noteq> key" using Cons.prems(1,2) by (auto dest: spec [of _ 0])
  moreover have "\<forall>j < length ws. \<not> mask_bit dyn (i + 1 + j) \<longrightarrow> k \<noteq> slot_key (inc_be_32 key) j"
    using Cons.prems by (auto simp: slot_key_inc dest: spec [of _ "Suc _"])
  ultimately show ?case using Cons.IH [of "inc_be_32 key" "i + 1"] Cons.prems(1) by simp
qed simp

lemma write_sweep_at:
  "length key = 32 \<Longrightarrow> \<forall>w \<in> set ws. length w = 32 \<Longrightarrow> length ws \<le> key_space \<Longrightarrow> j < length ws \<Longrightarrow>
   sload H (slot_key key j) (write_static_slots H key ws dyn i s) =
     (if mask_bit dyn (i + j) then sload H (slot_key key j) s else ws ! j)"
proof (induction ws arbitrary: key i j s)
  case (Cons w ws)
  have ne: "slot_key key a \<noteq> slot_key key b" if "a \<noteq> b" "a \<le> length ws" "b \<le> length ws" for a b
    using that Cons.prems(3) slot_key_inj [of a b key] by simp
  show ?case
  proof (cases j)
    case 0
    have "\<forall>l < length ws. \<not> mask_bit dyn (i + 1 + l) \<longrightarrow> key \<noteq> slot_key (inc_be_32 key) l"
      using ne [of 0 "Suc _"] Cons.prems(1) by (auto simp: slot_key_inc)
    then show ?thesis using 0 Cons.prems by (simp add: write_sweep_other)
  next
    case (Suc l)
    have "sload H (slot_key (inc_be_32 key) l) (write_static_slots H (inc_be_32 key) ws dyn (i + 1) s') =
        (if mask_bit dyn (i + 1 + l) then sload H (slot_key (inc_be_32 key) l) s' else ws ! l)" for s'
      using Cons.prems Suc by (intro Cons.IH) auto
    moreover have "slot_key key (Suc l) \<noteq> key" using ne [of "Suc l" 0] Cons.prems Suc by simp
    ultimately show ?thesis using Suc Cons.prems(1) by (simp add: slot_key_inc)
  qed
qed simp

lemma clear_is_write_sweep: "clear_static_slots H key n dyn i s = write_static_slots H key (replicate n zero_word) dyn i s"
  by (induction n arbitrary: key i s) simp_all

lemma load_sweep_nth:
  "length key = 32 \<Longrightarrow> j < length out \<Longrightarrow>
   load_static_slots H key dyn out i s ! j = (if mask_bit dyn (i + j) then out ! j else sload H (slot_key key j) s)"
proof (induction out arbitrary: key i j)
  case (Cons w out)
  then show ?case by (cases j) (simp_all add: slot_key_inc)
qed simp

lemma length_load_sweep [simp]: "length (load_static_slots H key dyn out i s) = length out"
  by (induction out arbitrary: key i) simp_all

lemma try_load_sweep:
  "length key = 32 \<Longrightarrow> try_load_static_slots H key dyn out i s =
     ((\<exists>j < length out. sload H (slot_key key j) s \<noteq> zero_word), load_static_slots H key dyn out i s)"
proof (induction out arbitrary: key i)
  case (Cons w out)
  have "(\<exists>j < length (w # out). sload H (slot_key key j) s \<noteq> zero_word) \<longleftrightarrow>
      sload H key s \<noteq> zero_word \<or> (\<exists>j < length out. sload H (slot_key (inc_be_32 key) j) s \<noteq> zero_word)"
    using Cons.prems by (auto simp: slot_key_inc less_Suc_eq_0_disj)
  then show ?case using Cons by (simp add: Let_def)
qed simp

end

section \<open>Properties\<close>

lemma inline_header_is:
  assumes "1 \<le> length data"
  shows "length data < 32 \<Longrightarrow> inline_header data = data @ replicate (31 - length data) 0 @ [of_nat (2 * length data)]"
proof -
  assume l: "length data < 32"
  have "replicate (32 - length data) (0 :: byte) = replicate (31 - length data) 0 @ [0]"
  proof -
    have "32 - length data = Suc (31 - length data)" using l by simp
    then show ?thesis by (simp add: replicate_append_same)
  qed
  moreover have "push_bit 1 (of_nat (length data)) = (of_nat (2 * length data) :: byte)"
    by (simp add: push_bit_eq_mult mult.commute)
  ultimately show ?thesis
    using assms l by (auto simp: inline_header_def Let_def list_update_append)
qed

lemma long_header_nat: "n < usize_limit \<Longrightarrow> be_nat (encode_long_header n) = 2 * n + 1"
proof -
  assume n: "n < usize_limit"
  have "of_nat n * 2 + 1 = (of_nat (2 * n + 1) :: 128 word)" by (simp add: mult.commute)
  moreover have "(2 * n + 1) mod 2 ^ LENGTH(128) = 2 * n + 1"
    using n by (intro mod_less) (simp add: usize_limit_def)
  ultimately have "unat (of_nat n * 2 + 1 :: 128 word) = 2 * n + 1" by (simp only: unat_of_nat)
  moreover have "2 * n + 1 < 256 ^ 16" using n by (simp add: usize_limit_def)
  ultimately show ?thesis by (simp add: encode_long_header_def Let_def be_nat_append to_be_def del: of_nat_mult)
qed

lemma concat_chunks: "concat (chunks data) = data @ replicate (32 * div_ceil (length data) 32 - length data) 0"
proof (induction data rule: chunks.induct)
  case (1 data)
  show ?case
  proof (cases "data = []")
    case False
    have d: "div_ceil (length data) 32 = Suc (div_ceil (length data - 32) 32)"
      using False by (intro div_ceil_Suc) simp_all
    show ?thesis
    proof (cases "32 \<le> length data")
      case True
      then show ?thesis using 1 [OF False] d append_take_drop_id [of 32 data]
        by (simp add: chunks_step [OF False] flip: append_assoc)
    next
      case lt: False
      then show ?thesis using d by (simp add: chunks_step [OF False])
    qed
  qed simp
qed

lemma load_slots_map:
  "length key = 32 \<Longrightarrow> load_slots H n key s = map (\<lambda>i. sload H (slot_key key i) s) [0..<n]"
  by (rule nth_equalityI) (simp_all add: load_slots_nth)

text \<open>
  C3: what is written to storage is read back. For every storable type, a write at a 32-byte key
  succeeds and reads back the value; it touches only the cells the old value occupied and those of
  the new one; clearing then zeroes exactly the new value's cells, and the type reads as absent.
\<close>

theorem storage_round_trip:
  assumes "storage_ok t v" "length key = 32" "storage_fits (mock_api h) t key v"
  shows "let c = storage_of (mock_api h) t; load = sload (mock_api h);
      old = storage_cells (mock_api h) t key s; new = storage_new_cells (mock_api h) t key v
    in \<exists>s'. write_to_storage c v key s = Some s' \<and> read_from_storage c key s' = Some v \<and>
      (\<forall>k. k \<notin> old \<union> new \<longrightarrow> load k s' = load k s) \<and>
      (\<forall>k. load k (clear_storage c key s') = (if k \<in> new then zero_word else load k s')) \<and>
      try_read_from_storage c key (clear_storage c key s') = Some None"
proof -
  obtain s' where w: "write_to_storage (storage_of (mock_api h) t) v key s = Some s'"
    "read_from_storage (storage_of (mock_api h) t) key s' = Some v"
    "storage_cells (mock_api h) t key s' = storage_new_cells (mock_api h) t key v"
    using sto.write_read [OF assms] by blast
  have "\<forall>k. k \<notin> storage_cells (mock_api h) t key s \<union> storage_new_cells (mock_api h) t key v \<longrightarrow>
      sload (mock_api h) k s' = sload (mock_api h) k s"
    using sto.write_frame [OF assms(1,2) w(1)] by blast
  then show ?thesis
    unfolding Let_def using w sto.clear [OF assms(2)] sto.clear_absent [OF assms(1,2)]
    by (intro exI [of _ s']) simp
qed

theorem storage_round_trip_witness:
  "let c = storage_of (mock_api (\<lambda>_. 7)) (TPrim Bool); key = be_bytes 32 5;
       v = VPrim (VBool True)
   in \<exists>s'. write_to_storage c v key mock_new = Some s' \<and> read_from_storage c key s' = Some v"
proof -
  have "storage_ok (TPrim Bool) (VPrim (VBool True))"
    by (simp add: st_ok_def prim_wt_def static_prim_def MAX_STATIC_SLOTS_def)
  moreover have "storage_fits (mock_api (\<lambda>_. 7)) (TPrim Bool) (be_bytes 32 5) (VPrim (VBool True))"
    by (simp add: storage_fits_def is_dyn_def)
  ultimately show ?thesis
    using storage_round_trip [of "TPrim Bool" "VPrim (VBool True)" "be_bytes 32 5" "\<lambda>_. 7" mock_new]
    unfolding Let_def by auto
qed

text \<open>
  Presence of static values is Solidity's. After a write, \<open>try_read_from_storage\<close> gives the
  value, except when every slot of its encoding is zero, in which case it reads as never written.
\<close>

theorem static_presence:
  assumes "\<not> is_dyn t" "storage_ok t v" "length key = 32"
  shows "\<exists>s'. write_to_storage (storage_of (mock_api h) t) v key s = Some s' \<and>
    try_read_from_storage (storage_of (mock_api h) t) key s' =
      Some (if list_all (\<lambda>w. w = zero_word) (slots_of t v) then None else Some v)"
proof -
  let ?c = "static_of t"
  have ok: "st_ok t v" "STORAGE_SLOTS ?c \<le> MAX_STATIC_SLOTS"
    using assms(2) storage_of_static(2) [OF assms(1)] by simp_all
  have len: "length (slots_of t v) = STORAGE_SLOTS ?c" "\<forall>w \<in> set (slots_of t v). length w = 32"
    using st.img_len [OF ok(1)] st.img_slot [OF ok(1)] by auto
  have "load_slots (mock_api h) (STORAGE_SLOTS ?c) key (store_slots (mock_api h) key (slots_of t v) s) = slots_of t v"
    using mock.load_store_slots [OF assms(3) len(2), of h s] max_static_space [OF ok(2)] len(1) by simp
  then show ?thesis
    using st.decode [OF ok(1)]
    by (simp add: storage_of_static(1) [OF assms(1)] static_storage_def read_static_is [OF ok(2)]
        st.write_static_is [OF ok(1)])
qed

theorem static_presence_witness:
  "\<exists>s'. write_to_storage (storage_of (mock_api (\<lambda>_. 7)) (TPrim Bool)) (VPrim (VBool False)) (be_bytes 32 5) mock_new = Some s' \<and>
    try_read_from_storage (storage_of (mock_api (\<lambda>_. 7)) (TPrim Bool)) (be_bytes 32 5) s' = Some None"
proof -
  have "\<not> is_dyn (TPrim Bool)" "storage_ok (TPrim Bool) (VPrim (VBool False))"
    by (simp_all add: is_dyn_def st_ok_def prim_wt_def static_prim_def MAX_STATIC_SLOTS_def)
  note p = static_presence [OF this, of "be_bytes 32 5" "\<lambda>_. 7" mock_new]
  have "slots_of (TPrim Bool) (VPrim (VBool False)) = [zero_word]"
    by (simp add: item_def slot_word_def zero_word_def numeral_eq_Suc)
  then show ?thesis using p by simp
qed

text \<open>
  C6: the storage layout of \<open>string\<close> and \<open>bytes\<close> is the compiler's. A value of 1 to 31 bytes is
  inline, left-aligned, with twice its length in the last byte; a longer one has twice its length
  plus one in its own slot and its bytes in the consecutive slots from \<open>keccak256\<close> of the key, the
  last one zero-padded; and no body slot of a longer previous value keeps its content.
\<close>

theorem dynamic_layout_matches_solc:
  assumes "length key = 32" "length data < usize_limit" "body_clear (mock_api h) key (length (dyn_body_of data))"
  shows "let s' = write_dynamic_bytes (mock_api h) key data s; load = (\<lambda>k. sload (mock_api h) k s');
      root = to_be (h key); old = body_slots (sload (mock_api h) key s)
    in (1 \<le> length data \<longrightarrow> length data < 32 \<longrightarrow>
          load key = data @ replicate (31 - length data) 0 @ [of_nat (2 * length data)]) \<and>
       (32 \<le> length data \<longrightarrow> be_nat (load key) = 2 * length data + 1 \<and>
          concat (map (\<lambda>i. load (slot_key root i)) [0..<div_ceil (length data) 32]) =
            data @ replicate (32 * div_ceil (length data) 32 - length data) 0) \<and>
       (\<forall>i. length (dyn_body_of data) \<le> i \<longrightarrow> i < old \<longrightarrow> old \<le> key_space \<longrightarrow>
          slot_key root i \<noteq> key \<longrightarrow> load (slot_key root i) = zero_word)"
proof -
  let ?H = "mock_api h"
  let ?s = "write_dynamic_bytes ?H key data s"
  have root: "dyn_body_root ?H key = to_be (h key)" by (simp add: dyn_body_root_def mock_api_def)
  have hdr: "sload ?H key ?s = dyn_header_of data"
    by (rule mock.dynamic_read_written(1) [OF assms])
  have short: "sload ?H key ?s = data @ replicate (31 - length data) 0 @ [of_nat (2 * length data)]"
    if "1 \<le> length data" "length data < 32"
    using inline_header_is [OF that(1)] that(2) hdr by (simp add: dyn_header_of_def)
  have long: "be_nat (sload ?H key ?s) = 2 * length data + 1 \<and>
      concat (map (\<lambda>i. sload ?H (slot_key (to_be (h key)) i) ?s) [0..<div_ceil (length data) 32]) =
        data @ replicate (32 * div_ceil (length data) 32 - length data) 0"
    if "32 \<le> length data"
  proof -
    have "load_slots ?H (length (chunks data)) (to_be (h key)) ?s = chunks data"
      unfolding write_dynamic_is root using that dyn_body_space [OF assms(2)] chunk_len
      by (simp add: dyn_body_of_def mock.load_store_slots)
    then show ?thesis
      using that hdr assms(2) long_header_nat [OF assms(2)] concat_chunks [of data]
        load_slots_map [of "to_be (h key)" ?H "div_ceil (length data) 32" ?s]
      by (simp add: dyn_header_of_def length_chunks)
  qed
  show ?thesis
    unfolding Let_def using short long mock.dynamic_write_frees [of data _ h key s] root by simp
qed

theorem dynamic_layout_matches_solc_witness:
  "sload (mock_api (\<lambda>_. 7)) (be_bytes 32 1) (write_dynamic_bytes (mock_api (\<lambda>_. 7)) (be_bytes 32 1) [0x61, 0x62] mock_new)
   = [0x61, 0x62] @ replicate 29 0 @ [4]"
proof -
  have "body_clear (mock_api (\<lambda>_. 7)) (be_bytes 32 1) (length (dyn_body_of [0x61, 0x62]))"
    by (simp add: body_clear_def dyn_body_of_def)
  then show ?thesis
    using dynamic_layout_matches_solc [of "be_bytes 32 1" "[0x61, 0x62]" "\<lambda>_. 7" mock_new]
    by (simp add: Let_def usize_limit_def)
qed

text \<open>
  The sweeps of a derived struct respect its mask. Writing the static slots puts each unmasked
  slot at its own consecutive key and leaves the masked keys alone; loading reads the unmasked ones
  back and leaves the masked entries of the buffer alone; clearing zeroes the unmasked ones; and the
  presence flag of \<open>try_load_static_slots\<close> says whether any slot, masked ones included, is nonzero.
\<close>

theorem masked_sweeps:
  assumes "length key = 32" "\<forall>w \<in> set ws. length w = 32" "length ws \<le> key_space" "j < length ws"
    and "length out = length ws"
  shows "let H = mock_api h; s' = write_static_slots H key ws dyn 0 s in
    sload H (slot_key key j) s' = (if mask_bit dyn j then sload H (slot_key key j) s else ws ! j) \<and>
    load_static_slots H key dyn out 0 s' ! j = (if mask_bit dyn j then out ! j else ws ! j) \<and>
    sload H (slot_key key j) (clear_static_slots H key (length ws) dyn 0 s) =
      (if mask_bit dyn j then sload H (slot_key key j) s else zero_word) \<and>
    fst (try_load_static_slots H key dyn out 0 s) = (\<exists>i < length ws. sload H (slot_key key i) s \<noteq> zero_word) \<and>
    snd (try_load_static_slots H key dyn out 0 s) = load_static_slots H key dyn out 0 s"
  unfolding Let_def
  using assms mock.write_sweep_at [OF assms(1-4), of h dyn 0 s]
    mock.write_sweep_at [OF assms(1), of "replicate (length ws) zero_word" j h dyn 0 s]
  by (simp add: mock.load_sweep_nth mock.try_load_sweep mock.clear_is_write_sweep)

theorem masked_sweeps_witness:
  "sload (mock_api (\<lambda>_. 7)) (slot_key (be_bytes 32 9) 1)
     (write_static_slots (mock_api (\<lambda>_. 7)) (be_bytes 32 9) [replicate 32 1, replicate 32 2] 1 0 mock_new)
   = replicate 32 2"
proof -
  have "2 \<le> key_space" by (simp add: key_space_def)
  moreover have "\<not> mask_bit 1 1" by code_simp
  ultimately show ?thesis
    using masked_sweeps [of "be_bytes 32 9" "[replicate 32 1, replicate 32 2]" 1 "[zero_word, zero_word]" "\<lambda>_. 7" 1 mock_new]
    by (simp add: Let_def)
qed

end
