(* ===== verification/StorageKeys.thy ===== *)
theory StorageKeys
  imports StorageCodec SolErrors
begin

text \<open>
  The storage keys of \<open>pvm-storage\<close>: the type-erased helpers, \<open>StorageKey\<close> (slot numbers,
  arithmetic), and \<open>AsStorageKey\<close>, the key derivations of Solidity's mappings. A key of a mapping
  is a \<open>map_key\<close>; nested tuples derive one level per component.
\<close>

section \<open>Helpers\<close>

definition storage_get_32 :: "'s host_api \<Rightarrow> bytes \<Rightarrow> 's \<Rightarrow> bytes" where
  "storage_get_32 H key s = sload H key s"

definition storage_set_32 :: "'s host_api \<Rightarrow> bytes \<Rightarrow> bytes \<Rightarrow> 's \<Rightarrow> 's" where
  "storage_set_32 H key v s = sstore H key v s"

definition storage_derive_key :: "'s host_api \<Rightarrow> bytes \<Rightarrow> bytes \<Rightarrow> bytes" where
  "storage_derive_key H root padded_key = api_hash_keccak_256 H (padded_key @ root)"

definition storage_derive_key_unpadded :: "'s host_api \<Rightarrow> bytes \<Rightarrow> bytes \<Rightarrow> bytes" where
  "storage_derive_key_unpadded H root key = api_hash_keccak_256 H (key @ root)"

definition storage_derive_body_base :: "'s host_api \<Rightarrow> bytes \<Rightarrow> bytes" where
  "storage_derive_body_base H skey = api_hash_keccak_256 H skey"

text \<open>\<open>inc_slot_by\<close>: add a \<open>u64\<close> from the last byte, with a \<open>u64\<close> carry.\<close>

fun add_rev :: "bytes \<Rightarrow> 64 word \<Rightarrow> bytes" where
  "add_rev [] carry = []"
| "add_rev (b # bs) carry =
     (if carry = 0 then b # bs
      else (let sum = ucast b + (carry AND 0xff)
            in ucast sum # add_rev bs (drop_bit 8 carry + drop_bit 8 sum)))"

definition inc_slot_by :: "bytes \<Rightarrow> 64 word \<Rightarrow> bytes" where
  "inc_slot_by k n = rev (add_rev (rev k) n)"

definition read_len :: "'s host_api \<Rightarrow> bytes \<Rightarrow> 's \<Rightarrow> ('s, 64 word) res" where
  "read_len H skey s =
     (let buf = storage_get_32 H skey s in
      if \<not> list_all (\<lambda>b. b = 0) (take 24 buf) then panic_revert StorageByteArrayEncoding s
      else (Inr (from_be (take 8 (drop 24 buf))), s))"

definition try_read_len :: "'s host_api \<Rightarrow> bytes \<Rightarrow> 's \<Rightarrow> 64 word option" where
  "try_read_len H skey s =
     (let buf = storage_get_32 H skey s in
      if \<not> list_all (\<lambda>b. b = 0) (take 24 buf) then None
      else Some (from_be (take 8 (drop 24 buf))))"

definition write_len_u64 :: "'s host_api \<Rightarrow> bytes \<Rightarrow> 64 word \<Rightarrow> 's \<Rightarrow> 's" where
  "write_len_u64 H skey n s = storage_set_32 H skey (replicate 24 0 @ to_be n) s"

section \<open>StorageKey\<close>

fun put_key_bytes :: "bytes \<Rightarrow> bytes \<Rightarrow> nat \<Rightarrow> bytes" where
  "put_key_bytes key [] i = key"
| "put_key_bytes key (b # bs) i = put_key_bytes (key[24 + i := b]) bs (i + 1)"

definition from_slot :: "64 word \<Rightarrow> bytes" where
  "from_slot n = put_key_bytes (replicate 32 0) (to_be n) 0"

definition key_add :: "bytes \<Rightarrow> 64 word \<Rightarrow> bytes" where
  "key_add self n = inc_slot_by self n"

section \<open>AsStorageKey\<close>

datatype map_key = KPrim prim_val | KBytes bytes | KTuple map_key "map_key list"

definition derive_prim :: "'s host_api \<Rightarrow> prim_val \<Rightarrow> bytes \<Rightarrow> bytes option" where
  "derive_prim H v root =
     map_option (storage_derive_key H root) (prim_encode_body_to v (replicate 32 0))"

fun derive_slot :: "'s host_api \<Rightarrow> map_key \<Rightarrow> bytes \<Rightarrow> bytes option"
and derive_rest :: "'s host_api \<Rightarrow> map_key list \<Rightarrow> bytes \<Rightarrow> bytes option" where
  "derive_slot H (KPrim v) root = derive_prim H v root"
| "derive_slot H (KBytes bs) root = Some (storage_derive_key_unpadded H root bs)"
| "derive_slot H (KTuple k ks) root = Option.bind (derive_slot H k root) (derive_rest H ks)"
| "derive_rest H [] root = Some root"
| "derive_rest H (k # ks) root = Option.bind (derive_slot H k root) (derive_rest H ks)"

section \<open>Lemmas\<close>

lemma length_add_rev [simp]: "length (add_rev bs c) = length bs"
  by (induction bs arbitrary: c) (auto simp: Let_def)

lemma carry_step:
  fixes b :: byte and c total :: "64 word"
  assumes total_def: "total = ucast b + (c AND 0xff)"
  shows "unat total = unat b + unat c mod 256"
    and "unat (ucast total :: byte) = (unat b + unat c mod 256) mod 256"
    and "unat (drop_bit 8 c + drop_bit 8 total) = unat c div 256 + (unat b + unat c mod 256) div 256"
proof -
  have m: "c AND 0xff = take_bit 8 c"
    by (simp add: take_bit_eq_mask mask_eq_decr_exp)
  have t: "unat (take_bit 8 c) = unat c mod 256"
    unfolding unsigned_take_bit_eq by (simp add: take_bit_eq_mod)
  have lt: "unat c mod 256 < 256" by simp
  have ub: "unat (ucast b :: 64 word) = unat b" by transfer simp
  show s: "unat total = unat b + unat c mod 256"
    using unat_byte_less [of b] lt unfolding total_def m
    by (subst unat_add_lem [THEN iffD1]) (simp_all add: ub t del: unat_byte_less)
  show "unat (ucast total :: byte) = (unat b + unat c mod 256) mod 256"
    unfolding s [symmetric] by (simp add: unsigned_ucast_eq take_bit_eq_mod)
  have d: "unat (drop_bit 8 c) = unat c div 256" "unat (drop_bit 8 total) = unat total div 256"
    unfolding unat_drop_bit_eq by (simp_all add: drop_bit_eq_div)
  have "unat c < 2 ^ 64" using unsigned_less [of c] by simp
  then have "unat c div 256 < 2 ^ 56" by (simp add: div_less_iff_less_mult)
  moreover have "unat total div 256 < 2" using s unat_byte_less [of b] lt by (simp add: div_less_iff_less_mult del: unat_byte_less)
  ultimately have "unat (drop_bit 8 c) + unat (drop_bit 8 total) < 2 ^ LENGTH(64)" unfolding d by simp
  then show "unat (drop_bit 8 c + drop_bit 8 total) = unat c div 256 + (unat b + unat c mod 256) div 256"
    using d s by (subst unat_add_lem [THEN iffD1]) simp_all
qed

lemma shift_mod: "r < 256 \<Longrightarrow> x mod m * 256 + r = (x * 256 + r) mod (m * 256)" for x r m :: nat
proof -
  assume r: "r < 256"
  have "(x * 256 + r) mod (256 * m) = 256 * ((x * 256 + r) div 256 mod m) + (x * 256 + r) mod 256"
    by (rule mod_mult2_eq)
  then show ?thesis using r by (simp add: mult.commute)
qed

lemma be_nat_add_rev: "be_nat (rev (add_rev bs c)) = (be_nat (rev bs) + unat c) mod 256 ^ length bs"
proof (induction bs arbitrary: c)
  case (Cons b bs)
  show ?case
  proof (cases "c = 0")
    case True
    then show ?thesis using be_nat_less [of "rev (b # bs)"] by simp
  next
    case False
    define S where "S = unat b + unat c mod 256"
    let ?sum = "ucast b + (c AND 0xff) :: 64 word"
    let ?n = "be_nat (rev bs)"
    have "be_nat (rev (add_rev (b # bs) c)) =
      (?n + (unat c div 256 + S div 256)) mod 256 ^ length bs * 256 + S mod 256"
      using False Cons carry_step(2,3) [OF refl [of ?sum]] by (simp add: Let_def be_nat_append S_def del: unat_byte_less)
    also have "\<dots> = ((?n + (unat c div 256 + S div 256)) * 256 + S mod 256) mod (256 ^ length bs * 256)"
      by (intro shift_mod) simp
    also have "(?n + (unat c div 256 + S div 256)) * 256 + S mod 256 = be_nat (rev (b # bs)) + unat c"
    proof -
      have "S div 256 * 256 + S mod 256 = S" "unat c div 256 * 256 + unat c mod 256 = unat c" by simp_all
      then show ?thesis by (simp add: be_nat_append S_def algebra_simps)
    qed
    finally show ?thesis by (simp add: mult.commute)
  qed
qed simp

lemma inc_slot_by_is: "length k = 32 \<Longrightarrow> inc_slot_by k n = slot_key k (unat n)"
proof (rule be_nat_inj)
  assume "length k = 32"
  then show "be_nat (inc_slot_by k n) = be_nat (slot_key k (unat n))"
    using be_nat_add_rev [of "rev k" n] by (simp add: inc_slot_by_def slot_key_def)
qed (simp add: inc_slot_by_def)

lemma length_inc_slot_by [simp]: "length (inc_slot_by k n) = length k"
  by (simp add: inc_slot_by_def)

lemma put_key_bytes_is: "length pre = 24 + i \<Longrightarrow> length xs = length bs \<Longrightarrow> put_key_bytes (pre @ xs) bs i = pre @ bs"
proof (induction bs arbitrary: pre xs i)
  case (Cons b bs)
  obtain x xs' where xs: "xs = x # xs'" using Cons.prems(2) by (cases xs) auto
  have "put_key_bytes (pre @ xs) (b # bs) i = put_key_bytes ((pre @ [b]) @ xs') bs (i + 1)"
    using Cons.prems by (simp add: xs list_update_append)
  also have "\<dots> = (pre @ [b]) @ bs" using Cons.prems xs by (intro Cons.IH) simp_all
  finally show ?case by simp
qed simp

lemma from_slot_is: "from_slot n = be_bytes 32 (unat n)"
proof -
  have "replicate 32 (0 :: byte) = replicate 24 0 @ replicate 8 0" by (simp flip: replicate_add)
  then have "from_slot n = replicate 24 0 @ to_be n"
    unfolding from_slot_def by (simp only:) (rule put_key_bytes_is, simp_all)
  then show ?thesis using prim_word_uint(2) [of n] by simp
qed

lemma prim_encode_zero:
  assumes "prim_wt p v" "prim_wf p"
  shows "prim_encode_body_to v (replicate 32 0) = Some (prim_word v)"
  using prim_encode_word [OF assms, of "replicate 32 0"] length_prim_word [OF assms] by simp

lemma prim_word_inj:
  assumes "prim_wt p v" "prim_wt p w" "prim_wf p" "prim_word v = prim_word w"
  shows "v = w"
proof -
  have d: "prim_decode_at p (prim_word x) 0 = Some x" if "prim_wt p x" for x
    using prim_decode_word(1) [OF that assms(3), of "[]" "[]"] by (simp add: usize_limit_def)
  show ?thesis using d [OF assms(1)] d [OF assms(2)] unfolding assms(4) by simp
qed

section \<open>Keys of the same type\<close>

text \<open>Two keys of one Rust type, well-typed.\<close>

fun same_key_type :: "map_key \<Rightarrow> map_key \<Rightarrow> bool"
and same_key_types :: "map_key list \<Rightarrow> map_key list \<Rightarrow> bool" where
  "same_key_type (KPrim v) (KPrim w) = (prim_wf (prim_of v) \<and> prim_wt (prim_of v) v \<and> prim_wt (prim_of v) w)"
| "same_key_type (KBytes _) (KBytes _) = True"
| "same_key_type (KTuple k ks) (KTuple l ls) = (same_key_type k l \<and> same_key_types ks ls)"
| "same_key_type _ _ = False"
| "same_key_types [] [] = True"
| "same_key_types (k # ks) (l # ls) = (same_key_type k l \<and> same_key_types ks ls)"
| "same_key_types _ _ = False"

text \<open>What the derivation hashes, level by level, and the Solidity slot it gives.\<close>

fun key_preimage :: "map_key \<Rightarrow> bytes \<Rightarrow> bytes" where
  "key_preimage (KPrim v) root = prim_word v @ root"
| "key_preimage (KBytes bs) root = bs @ root"
| "key_preimage (KTuple _ _) root = root"

fun solidity_slot :: "(bytes \<Rightarrow> bytes) \<Rightarrow> map_key \<Rightarrow> bytes \<Rightarrow> bytes"
and solidity_slots :: "(bytes \<Rightarrow> bytes) \<Rightarrow> map_key list \<Rightarrow> bytes \<Rightarrow> bytes" where
  "solidity_slot h (KTuple k ks) root = solidity_slots h ks (solidity_slot h k root)"
| "solidity_slot h k root = h (key_preimage k root)"
| "solidity_slots h [] root = root"
| "solidity_slots h (k # ks) root = solidity_slots h ks (solidity_slot h k root)"

fun hashed :: "(bytes \<Rightarrow> bytes) \<Rightarrow> map_key \<Rightarrow> bytes \<Rightarrow> bytes list"
and hashed_all :: "(bytes \<Rightarrow> bytes) \<Rightarrow> map_key list \<Rightarrow> bytes \<Rightarrow> bytes list" where
  "hashed h (KTuple k ks) root = hashed h k root @ hashed_all h ks (solidity_slot h k root)"
| "hashed h k root = [key_preimage k root]"
| "hashed_all h [] root = []"
| "hashed_all h (k # ks) root = hashed h k root @ hashed_all h ks (solidity_slot h k root)"

lemma derive_is_solidity:
  "same_key_type k l \<Longrightarrow> derive_slot H k root = Some (solidity_slot (api_hash_keccak_256 H) k root)"
  "same_key_types ks ls \<Longrightarrow> derive_rest H ks root = Some (solidity_slots (api_hash_keccak_256 H) ks root)"
proof (induction k l and ks ls arbitrary: root and root rule: same_key_type_same_key_types.induct)
  case (1 v w)
  then show ?case
    using prim_encode_zero [of "prim_of v" v] by (simp add: derive_prim_def storage_derive_key_def)
qed (simp_all add: storage_derive_key_unpadded_def)

definition collision :: "(bytes \<Rightarrow> bytes) \<Rightarrow> bytes list \<Rightarrow> bytes list \<Rightarrow> bool" where
  "collision h xs ys \<longleftrightarrow> (\<exists>x \<in> set xs. \<exists>y \<in> set ys. x \<noteq> y \<and> h x = h y)"

lemma collision_append:
  "collision h xs ys \<Longrightarrow> collision h (xs @ xs') (ys @ ys')"
  "collision h xs' ys' \<Longrightarrow> collision h (xs @ xs') (ys @ ys')"
  by (auto simp: collision_def)

lemma length_solidity:
  assumes "\<And>x. length (h x) = 32"
  shows "length root = 32 \<Longrightarrow> length (solidity_slot h k root) = 32"
    and "length root = 32 \<Longrightarrow> length (solidity_slots h ks root) = 32"
  using assms by (induction h k root and h ks root rule: solidity_slot_solidity_slots.induct) auto

lemma same_slot_cases:
  assumes "\<And>x. length (h x) = 32"
  shows "same_key_type k l \<Longrightarrow> length r1 = 32 \<Longrightarrow> length r2 = 32 \<Longrightarrow>
      solidity_slot h k r1 = solidity_slot h l r2 \<Longrightarrow>
      k = l \<and> r1 = r2 \<or> collision h (hashed h k r1) (hashed h l r2)"
    and "same_key_types ks ls \<Longrightarrow> length r1 = 32 \<Longrightarrow> length r2 = 32 \<Longrightarrow>
      solidity_slots h ks r1 = solidity_slots h ls r2 \<Longrightarrow>
      ks = ls \<and> r1 = r2 \<or> collision h (hashed_all h ks r1) (hashed_all h ls r2)"
proof (induction k l and ks ls arbitrary: r1 r2 and r1 r2 rule: same_key_type_same_key_types.induct)
  case (1 v w)
  have "prim_word v @ r1 = prim_word w @ r2 \<Longrightarrow> v = w \<and> r1 = r2"
    using 1 prim_word_inj [of "prim_of v" v w] by simp
  then show ?case using 1(4) by (auto simp: collision_def)
next
  case (2 v w)
  have "v @ r1 = w @ r2 \<Longrightarrow> v = w \<and> r1 = r2" using 2(2,3) by simp
  then show ?case using 2(4) by (auto simp: collision_def)
next
  case (3 k ks l ls)
  let ?a = "solidity_slot h k r1" and ?b = "solidity_slot h l r2"
  have len: "length ?a = 32" "length ?b = 32" using length_solidity assms 3(4,5) by auto
  have "ks = ls \<and> ?a = ?b \<or> collision h (hashed_all h ks ?a) (hashed_all h ls ?b)"
    using 3(2) [OF _ len] 3(3,6) by simp
  then show ?case
    using 3(1) [of r1 r2] 3(3,4,5) by (auto intro: collision_append)
next
  case (6 k ks l ls)
  let ?a = "solidity_slot h k r1" and ?b = "solidity_slot h l r2"
  have len: "length ?a = 32" "length ?b = 32" using length_solidity assms 6(4,5) by auto
  have "ks = ls \<and> ?a = ?b \<or> collision h (hashed_all h ks ?a) (hashed_all h ls ?b)"
    using 6(2) [OF _ len] 6(3,6) by simp
  then show ?case
    using 6(1) [of r1 r2] 6(3,4,5) by (auto intro: collision_append)
qed (auto simp: collision_def)

section \<open>Properties\<close>

text \<open>
  Key arithmetic. \<open>from_slot\<close> is the big-endian slot number; \<open>add\<close> and \<open>inc_be_32\<close> add modulo
  \<open>2^256\<close>, so walking slots one by one and jumping agree, and keys at different distances below
  \<open>2^256\<close> are different.
\<close>

theorem key_arithmetic:
  assumes "length key = 32"
  shows "from_slot n = be_bytes 32 (unat n) \<and>
    be_nat (key_add key n) = (be_nat key + unat n) mod 256 ^ 32 \<and>
    (inc_be_32 ^^ unat n) key = key_add key n \<and>
    (key_add key n = key_add key m \<longleftrightarrow> n = m)"
proof -
  have lt: "unat x < key_space" for x :: "64 word"
  proof -
    have "unat x < 2 ^ LENGTH(64)" by (rule unsigned_less)
    then show ?thesis by (simp add: key_space_def)
  qed
  have "key_add key n = key_add key m \<longleftrightarrow> n = m"
    unfolding key_add_def inc_slot_by_is [OF assms] slot_key_inj [OF lt lt] by (simp add: word_unat_eq_iff)
  then show ?thesis
    using assms from_slot_is [of n] by (simp add: key_add_def inc_slot_by_is inc_funpow slot_key_def)
qed

theorem key_arithmetic_witness:
  "key_add (replicate 32 0xff) 2 = replicate 31 0 @ [1]"
proof -
  have "be_nat (key_add (replicate 32 0xff) 2) = (be_nat (replicate 32 0xff) + unat (2 :: 64 word)) mod 256 ^ 32"
    using key_arithmetic [of "replicate 32 0xff" 2 0] by simp
  also have "be_nat (replicate 32 (0xff :: byte)) = 256 ^ 32 - 1"
    using be_nat_replicate_255 [of 32] by linarith
  also have "(256 ^ 32 - 1 + unat (2 :: 64 word)) mod 256 ^ 32 = be_nat (replicate 31 0 @ [1])"
    by (simp add: be_nat_append)
  finally show ?thesis
    by (intro be_nat_inj) (simp_all add: key_add_def)
qed

text \<open>
  The slot of a mapping entry is Solidity's: \<open>keccak256(pad32(key) ++ slot)\<close> for value types,
  \<open>keccak256(key ++ slot)\<close> for strings and bytes, and one such level per component of a tuple key,
  so that \<open>Mapping<(A, B), V>\<close> and \<open>Mapping<A, Mapping<B, V>>\<close> use the same slots.
\<close>

theorem mapping_slots_match_solidity:
  assumes "same_key_type k k" "same_key_type l l"
  shows "derive_slot (mock_api h) k root = Some (solidity_slot (\<lambda>x. to_be (h x)) k root) \<and>
    derive_slot (mock_api h) (KTuple k [l]) root =
      Option.bind (derive_slot (mock_api h) k root) (derive_slot (mock_api h) l)"
proof -
  have m: "api_hash_keccak_256 (mock_api h) = (\<lambda>x. to_be (h x))" by (simp add: mock_api_def)
  show ?thesis
    using derive_is_solidity(1) [OF assms(1), of "mock_api h" root]
      derive_is_solidity(1) [OF assms(2), of "mock_api h"] by (simp add: m)
qed

theorem mapping_slots_match_solidity_witness:
  "derive_slot (mock_api (\<lambda>x. of_nat (length x))) (KTuple (KPrim (VU8 3)) [KBytes [1, 2]]) (replicate 32 0) =
   Some (to_be (34 :: 256 word))"
proof -
  have "same_key_type (KPrim (VU8 3)) (KPrim (VU8 3))" "same_key_type (KBytes [1, 2]) (KBytes [1, 2])"
    by (simp_all add: prim_wt_def)
  note r = mapping_slots_match_solidity [OF this, of "\<lambda>x. of_nat (length x)" "replicate 32 0"]
  show ?thesis using r by (simp add: storage_derive_key_unpadded_def mock_api_def)
qed

text \<open>
  Two keys of the same type never share a slot unless \<open>keccak256\<close> collides: if their slots are
  equal the keys are equal, or two different byte strings among those the two derivations hash have
  the same hash.
\<close>

theorem mapping_slots_distinct:
  assumes "same_key_type k l" "length root = 32"
    and "solidity_slot (\<lambda>x. to_be (h x)) k root = solidity_slot (\<lambda>x. to_be (h x)) l root"
  shows "derive_slot (mock_api h) k root = Some (solidity_slot (\<lambda>x. to_be (h x)) k root) \<and>
    (k = l \<or> (\<exists>x \<in> set (hashed (\<lambda>x. to_be (h x)) k root). \<exists>y \<in> set (hashed (\<lambda>x. to_be (h x)) l root).
      x \<noteq> y \<and> h x = h y))"
proof -
  have "k = l \<or> collision (\<lambda>x. to_be (h x)) (hashed (\<lambda>x. to_be (h x)) k root) (hashed (\<lambda>x. to_be (h x)) l root)"
    using same_slot_cases(1) [OF _ assms(1,2,2,3)] by auto
  then show ?thesis
    using derive_is_solidity(1) [OF assms(1), of "mock_api h" root]
    by (simp add: collision_def mock_api_def to_be_inj)
qed

theorem mapping_slots_distinct_witness:
  "\<exists>x y. x \<noteq> y \<and> x \<in> set (hashed (\<lambda>_. to_be (7 :: 256 word)) (KBytes [1]) (replicate 32 0)) \<and>
     y \<in> set (hashed (\<lambda>_. to_be (7 :: 256 word)) (KBytes [2]) (replicate 32 0))"
  using mapping_slots_distinct [of "KBytes [1]" "KBytes [2]" "replicate 32 0" "\<lambda>_. 7"] by simp

end
