(* ===== verification/LazyCell.thy ===== *)
theory LazyCell
  imports StorageKeys
begin

text \<open>
  \<open>Lazy<T>\<close> of \<open>pvm-storage\<close>, and the value leaves of \<open>StorageType\<close> / \<open>SimpleStorageType\<close>, and
  \<open>Mapping<K, V>\<close> over them. A cell is the record \<open>lazy\<close>; its operations take the dictionary of
  \<open>T\<close>. Sub-word types read-modify-write their byte window of the slot, unless they are alone in it;
  full-slot and dynamic types go through the codec. \<open>None\<close> is a panic. The compile-time checks
  (\<open>_SIZE_CHECK\<close>, \<open>PACKED_BYTES == 32\<close> of \<open>try_get\<close>) are conditions of the statements.
\<close>

section \<open>Lazy\<close>

record lazy =
  lz_key :: bytes
  lz_offset :: nat
  lz_alone :: bool

definition lazy_new_at :: "bytes \<Rightarrow> nat \<Rightarrow> bool \<Rightarrow> lazy" where
  "lazy_new_at key off alone = \<lparr> lz_key = key, lz_offset = off, lz_alone = alone \<rparr>"

definition lazy_get :: "'s host_api \<Rightarrow> 's storage_codec \<Rightarrow> lazy \<Rightarrow> 's \<Rightarrow> sol_val option" where
  "lazy_get H c self s =
     (if st_packed c < 32
      then unpack_from_dispatched c (storage_get_32 H (lz_key self) s) (lz_offset self)
      else read_from_storage c (lz_key self) s)"

definition lazy_try_get :: "'s host_api \<Rightarrow> 's storage_codec \<Rightarrow> lazy \<Rightarrow> 's \<Rightarrow> sol_val option option" where
  "lazy_try_get H c self s =
     (if st_packed c = 32 then try_read_from_storage c (lz_key self) s else None)"

definition lazy_set :: "'s host_api \<Rightarrow> 's storage_codec \<Rightarrow> lazy \<Rightarrow> sol_val \<Rightarrow> 's \<Rightarrow> 's option" where
  "lazy_set H c self value s =
     (if st_packed c < 32 \<and> lz_alone self then
        Option.bind (pack_into_dispatched c value (replicate 32 0) (lz_offset self)) (\<lambda>buf.
          Some (storage_set_32 H (lz_key self) buf s))
      else if st_packed c < 32 then
        (let buf = storage_get_32 H (lz_key self) s; off = lz_offset self in
         Option.bind (fill_range buf off (off + st_packed c) 0) (\<lambda>buf.
         Option.bind (pack_into_dispatched c value buf off) (\<lambda>buf.
           Some (storage_set_32 H (lz_key self) buf s))))
      else write_to_storage c value (lz_key self) s)"

definition lazy_clear :: "'s host_api \<Rightarrow> 's storage_codec \<Rightarrow> lazy \<Rightarrow> 's \<Rightarrow> 's option" where
  "lazy_clear H c self s =
     (if st_packed c < 32 \<and> lz_alone self then Some (storage_set_32 H (lz_key self) (replicate 32 0) s)
      else if st_packed c < 32 then
        (let buf = storage_get_32 H (lz_key self) s; off = lz_offset self in
         Option.bind (fill_range buf off (off + st_packed c) 0) (\<lambda>buf.
           Some (storage_set_32 H (lz_key self) buf s)))
      else Some (clear_storage c (lz_key self) s))"

definition lazy_take :: "'s host_api \<Rightarrow> 's storage_codec \<Rightarrow> lazy \<Rightarrow> 's \<Rightarrow> (sol_val \<times> 's) option" where
  "lazy_take H c self s =
     (if st_packed c < 32 \<and> \<not> lz_alone self then
        (let buf = storage_get_32 H (lz_key self) s; off = lz_offset self in
         Option.bind (unpack_from_dispatched c buf off) (\<lambda>value.
         Option.bind (fill_range buf off (off + st_packed c) 0) (\<lambda>buf.
           Some (value, storage_set_32 H (lz_key self) buf s))))
      else
        Option.bind (lazy_get H c self s) (\<lambda>value.
        Option.bind (lazy_clear H c self s) (\<lambda>s. Some (value, s))))"

section \<open>Value leaves\<close>

definition leaf_get_at :: "'s host_api \<Rightarrow> 's storage_codec \<Rightarrow> bytes \<Rightarrow> nat \<Rightarrow> 's \<Rightarrow> sol_val option" where
  "leaf_get_at H c key off s =
     (if st_packed c = 32 then read_from_storage c key s
      else lazy_get H c (lazy_new_at key off False) s)"

definition leaf_clear_at :: "'s host_api \<Rightarrow> 's storage_codec \<Rightarrow> bytes \<Rightarrow> nat \<Rightarrow> bool \<Rightarrow> 's \<Rightarrow> 's option" where
  "leaf_clear_at H c key off alone s =
     (if st_packed c = 32 then Some (clear_storage c key s)
      else lazy_clear H c (lazy_new_at key off alone) s)"

definition leaf_try_read_value :: "'s host_api \<Rightarrow> 's storage_codec \<Rightarrow> bytes \<Rightarrow> nat \<Rightarrow> 's \<Rightarrow> sol_val option option" where
  "leaf_try_read_value H c key off s = try_read_from_storage c key s"

definition leaf_write_value ::
  "'s host_api \<Rightarrow> 's storage_codec \<Rightarrow> sol_val \<Rightarrow> bytes \<Rightarrow> nat \<Rightarrow> bool \<Rightarrow> 's \<Rightarrow> 's option" where
  "leaf_write_value H c value key off alone s =
     (if st_packed c = 32 then write_to_storage c value key s
      else lazy_set H c (lazy_new_at key off alone) value s)"

section \<open>Mapping\<close>

definition map_slot_of :: "'s host_api \<Rightarrow> bytes \<Rightarrow> map_key \<Rightarrow> bytes option" where
  "map_slot_of H root key = derive_slot H key root"

definition map_entry_offset :: "'s storage_codec \<Rightarrow> nat" where
  "map_entry_offset c = 32 - st_packed c"

definition map_get :: "'s host_api \<Rightarrow> 's storage_codec \<Rightarrow> bytes \<Rightarrow> map_key \<Rightarrow> 's \<Rightarrow> sol_val option" where
  "map_get H c root key s =
     Option.bind (map_slot_of H root key) (\<lambda>sl. leaf_get_at H c sl (map_entry_offset c) s)"

definition map_entry :: "'s host_api \<Rightarrow> 's storage_codec \<Rightarrow> bytes \<Rightarrow> map_key \<Rightarrow> lazy option" where
  "map_entry H c root key =
     map_option (\<lambda>sl. lazy_new_at sl (map_entry_offset c) True) (map_slot_of H root key)"

definition map_delete :: "'s host_api \<Rightarrow> 's storage_codec \<Rightarrow> bytes \<Rightarrow> map_key \<Rightarrow> 's \<Rightarrow> 's option" where
  "map_delete H c root key s =
     Option.bind (map_slot_of H root key) (\<lambda>sl. leaf_clear_at H c sl (map_entry_offset c) True s)"

definition map_try_get :: "'s host_api \<Rightarrow> 's storage_codec \<Rightarrow> bytes \<Rightarrow> map_key \<Rightarrow> 's \<Rightarrow> sol_val option option" where
  "map_try_get H c root key s =
     Option.bind (map_slot_of H root key) (\<lambda>sl. leaf_try_read_value H c sl (map_entry_offset c) s)"

definition map_insert :: "'s host_api \<Rightarrow> 's storage_codec \<Rightarrow> bytes \<Rightarrow> map_key \<Rightarrow> sol_val \<Rightarrow> 's \<Rightarrow> 's option" where
  "map_insert H c root key value s =
     Option.bind (map_slot_of H root key) (\<lambda>sl. leaf_write_value H c value sl (map_entry_offset c) True s)"

definition map_remove :: "'s host_api \<Rightarrow> 's storage_codec \<Rightarrow> bytes \<Rightarrow> map_key \<Rightarrow> 's \<Rightarrow> 's option" where
  "map_remove H c root key s = map_delete H c root key s"

section \<open>Byte windows of a slot\<close>

definition window :: "bytes \<Rightarrow> nat \<Rightarrow> nat \<Rightarrow> bytes" where
  "window buf off n = take n (drop off buf)"

lemma get_range_window: "off + n \<le> length buf \<Longrightarrow> get_range buf off (off + n) = Some (window buf off n)"
  by (simp add: get_range_def window_def)

lemma length_window: "off + n \<le> length buf \<Longrightarrow> length (window buf off n) = n"
  by (simp add: window_def)

lemma copy_at_window:
  assumes "off + length w \<le> length buf"
  shows "\<exists>b. copy_at buf off w = Some b \<and> length b = length buf \<and> window b off (length w) = w \<and>
    (\<forall>o' n. o' + n \<le> off \<or> off + length w \<le> o' \<longrightarrow> window b o' n = window buf o' n)"
proof -
  obtain pre mid post where buf: "buf = pre @ mid @ post" "length pre = off" "length mid = length w"
    using split_at3 [OF assms] by blast
  have c: "copy_at buf off w = Some (pre @ w @ post)"
    using buf by (simp add: copy_at_append)
  have "window (pre @ w @ post) o' n = window buf o' n" if "o' + n \<le> off" for o' n
    using that buf by (simp add: window_def)
  moreover have "window (pre @ w @ post) o' n = window buf o' n" if "off + length w \<le> o'" for o' n
    using that buf by (simp add: window_def)
  ultimately show ?thesis using c buf by (auto simp: window_def)
qed

lemma window_nth: "off \<le> i \<Longrightarrow> i < off + n \<Longrightarrow> off + n \<le> length buf \<Longrightarrow> window buf off n ! (i - off) = buf ! i"
  by (simp add: window_def)

lemma window_eq:
  "off + n \<le> length b \<Longrightarrow> length b = length b' \<Longrightarrow> \<forall>i. off \<le> i \<and> i < off + n \<longrightarrow> b' ! i = b ! i \<Longrightarrow>
   window b' off n = window b off n"
  by (rule nth_equalityI) (auto simp: window_def)

text \<open>Overwriting \<open>[off, off + n)\<close>, byte by byte.\<close>

lemma copy_at_nth:
  assumes "copy_at buf off w = Some b"
  shows "length b = length buf" "off + length w \<le> length buf"
    "i < length buf \<Longrightarrow> b ! i = (if off \<le> i \<and> i < off + length w then w ! (i - off) else buf ! i)"
  using assms by (auto simp: copy_at_def nth_append min_def split: if_splits)

lemma fill_range_copy: "fill_range buf a (a + n) v = copy_at buf a (replicate n v)"
  by (simp add: fill_range_def copy_at_def)

lemma fill_at_nth:
  assumes "copy_at buf off (replicate n v) = Some b" "i < length buf"
  shows "b ! i = (if off \<le> i \<and> i < off + n then v else buf ! i)"
  using copy_at_nth(3) [OF assms] by auto

section \<open>Cells\<close>

text \<open>
  A cell owns bytes of storage, pairs of a slot key and a position. \<open>byte_at\<close> reads one. What a
  client of \<open>Lazy<T>\<close> relies on is the contract \<open>cell_type\<close>: a set is read back, sets and clears
  change no byte outside the footprint, and a get depends on nothing else. A packed cell owns its
  window of the slot, or the slot when it is alone; the others own whole slots.
\<close>

definition byte_at :: "'s host_api \<Rightarrow> 's \<Rightarrow> bytes \<times> nat \<Rightarrow> byte" where
  "byte_at H s x = sload H (fst x) s ! snd x"

definition lazy_ok :: "'s host_api \<Rightarrow> sol_ty \<Rightarrow> lazy \<Rightarrow> bool" where
  "lazy_ok H t l \<longleftrightarrow> length (lz_key l) = 32 \<and> lz_offset l + st_packed (storage_of H t) \<le> 32"

definition lazy_window :: "'s host_api \<Rightarrow> sol_ty \<Rightarrow> lazy \<Rightarrow> nat set" where
  "lazy_window H t l =
     (if lz_alone l then {..<32} else {lz_offset l ..< lz_offset l + st_packed (storage_of H t)})"

definition lazy_foot :: "'s host_api \<Rightarrow> sol_ty \<Rightarrow> lazy \<Rightarrow> 's \<Rightarrow> (bytes \<times> nat) set" where
  "lazy_foot H t l s =
     (if st_packed (storage_of H t) < 32 then {lz_key l} \<times> lazy_window H t l
      else storage_cells H t (lz_key l) s \<times> {..<32})"

definition lazy_new_foot :: "'s host_api \<Rightarrow> sol_ty \<Rightarrow> lazy \<Rightarrow> sol_val \<Rightarrow> (bytes \<times> nat) set" where
  "lazy_new_foot H t l v =
     (if st_packed (storage_of H t) < 32 then {lz_key l} \<times> lazy_window H t l
      else storage_new_cells H t (lz_key l) v \<times> {..<32})"

definition lazy_fits :: "'s host_api \<Rightarrow> sol_ty \<Rightarrow> lazy \<Rightarrow> sol_val \<Rightarrow> bool" where
  "lazy_fits H t l v \<longleftrightarrow> storage_fits H t (lz_key l) v"

locale cell_type = keccak_host H for H :: "'s host_api" +
  fixes c :: "'s storage_codec"
    and ok :: "sol_val \<Rightarrow> bool"
    and valid :: "lazy \<Rightarrow> bool"
    and fits :: "lazy \<Rightarrow> sol_val \<Rightarrow> bool"
    and foot :: "lazy \<Rightarrow> 's \<Rightarrow> (bytes \<times> nat) set"
    and new_foot :: "lazy \<Rightarrow> sol_val \<Rightarrow> (bytes \<times> nat) set"
  assumes set_get: "ok v \<Longrightarrow> valid l \<Longrightarrow> fits l v \<Longrightarrow>
      \<exists>s'. lazy_set H c l v s = Some s' \<and> lazy_get H c l s' = Some v \<and> foot l s' = new_foot l v"
    and set_frame: "ok v \<Longrightarrow> valid l \<Longrightarrow> lazy_set H c l v s = Some s' \<Longrightarrow> snd x < 32 \<Longrightarrow>
      x \<notin> foot l s \<Longrightarrow> x \<notin> new_foot l v \<Longrightarrow> byte_at H s' x = byte_at H s x"
    and get_local: "valid l \<Longrightarrow> \<forall>x \<in> foot l s. byte_at H s' x = byte_at H s x \<Longrightarrow>
      lazy_get H c l s' = lazy_get H c l s \<and> foot l s' = foot l s"
    and clear_foot: "valid l \<Longrightarrow> \<exists>s'. lazy_clear H c l s = Some s' \<and>
      (\<forall>x. snd x < 32 \<longrightarrow> byte_at H s' x = (if x \<in> foot l s then 0 else byte_at H s x))"
    and foot_bytes: "valid l \<Longrightarrow> x \<in> foot l s \<Longrightarrow> snd x < 32"
begin

lemma set_get_other:
  assumes "ok v" "valid l" "valid l'" "lazy_set H c l v s = Some s'"
    and "foot l' s \<inter> (foot l s \<union> new_foot l v) = {}"
  shows "lazy_get H c l' s' = lazy_get H c l' s" "foot l' s' = foot l' s"
proof -
  have "\<forall>x \<in> foot l' s. byte_at H s' x = byte_at H s x"
    using assms set_frame foot_bytes by blast
  then show "lazy_get H c l' s' = lazy_get H c l' s" "foot l' s' = foot l' s"
    using get_local [OF assms(3)] by blast+
qed

end

section \<open>Lazy cells are cells\<close>

lemma packed_prim:
  assumes "st_packed (storage_of H t) < 32"
  obtains p where "t = TPrim p" "storage_of H t = static_storage H (static_prim p)" "prim_packed p < 32"
proof (cases t)
  case (TPrim p)
  then show ?thesis using that assms by (simp add: static_storage_def static_prim_def)
qed (use assms in \<open>simp_all add: static_storage_def static_array_def static_tuple_def
    bytes_storage_def string_storage_def\<close>)

lemma st_packed_le: "storage_ok t v \<Longrightarrow> st_packed (storage_of H t) \<le> 32"
proof (cases "is_dyn t")
  case True
  then show ?thesis by (auto simp: is_dyn_def bytes_storage_def string_storage_def)
next
  case False
  assume "storage_ok t v"
  then have "st_ok t v" using storage_of_static(2) [OF False] by simp
  then have "PACKED_BYTES (static_of t) \<le> 32" using st.packed_le by blast
  then show ?thesis unfolding storage_of_static(1) [OF False] by (simp add: static_storage_def)
qed

context keccak_host
begin

lemma byte_sstore:
  "length b = 32 \<Longrightarrow> byte_at H (sstore H key b s) x = (if fst x = key then b ! snd x else byte_at H s x)"
  by (simp add: byte_at_def sload_sstore)

text \<open>Packed writes and clears, whichever path they take: the bytes of the slot afterwards.\<close>

lemma lazy_set_packed:
  assumes v: "prim_ok p v" and n: "prim_packed p < 32" and l: "lz_offset l + prim_packed p \<le> 32"
  shows "\<exists>b. lazy_set H (static_storage H (static_prim p)) l v s = Some (sstore H (lz_key l) b s) \<and>
    length b = 32 \<and>
    (\<forall>i < 32. b ! i = (if lz_offset l \<le> i \<and> i < lz_offset l + prim_packed p then item v ! (i - lz_offset l)
                     else if lz_alone l then 0 else sload H (lz_key l) s ! i))"
proof -
  let ?off = "lz_offset l" and ?n = "prim_packed p"
  have pk: "PACKED_BYTES (static_prim p) = ?n" by (simp add: static_prim_def)
  have w: "length (item v) = ?n" using st_prim.word_len [OF v] by (simp add: pk)
  have put: "\<exists>b. pack_into (static_prim p) v buf ?off = Some b \<and> copy_at buf ?off (item v) = Some b"
    if "length buf = 32" for buf
    using st_prim.pack [OF v that, of ?off] l pk w that copy_at_window [of ?off "item v" buf] by auto
  show ?thesis
  proof (cases "lz_alone l")
    case True
    obtain b where b: "pack_into (static_prim p) v (replicate 32 0) ?off = Some b"
      "copy_at (replicate 32 0) ?off (item v) = Some b"
      using put [of "replicate 32 0"] by auto
    have "lazy_set H (static_storage H (static_prim p)) l v s = Some (sstore H (lz_key l) b s)"
      using True n b(1) by (simp add: lazy_set_def static_storage_def pk storage_set_32_def)
    then show ?thesis
      using copy_at_nth [OF b(2)] True w by (intro exI [of _ b]) simp
  next
    case False
    let ?buf = "sload H (lz_key l) s"
    obtain z where z: "fill_range ?buf ?off (?off + ?n) 0 = Some z" "copy_at ?buf ?off (replicate ?n 0) = Some z"
      using l copy_at_window [of ?off "replicate ?n 0" ?buf] by (auto simp: fill_range_copy)
    have z32: "length z = 32" using copy_at_nth(1) [OF z(2)] by simp
    obtain b where b: "pack_into (static_prim p) v z ?off = Some b" "copy_at z ?off (item v) = Some b"
      using put [OF z32] by auto
    have "lazy_set H (static_storage H (static_prim p)) l v s = Some (sstore H (lz_key l) b s)"
      using False n b(1) z(1)
      by (simp add: lazy_set_def static_storage_def pk storage_set_32_def storage_get_32_def Let_def)
    then show ?thesis
      using copy_at_nth [OF b(2)] copy_at_nth(3) [OF z(2)] False w z32 by (intro exI [of _ b]) simp
  qed
qed

lemma lazy_clear_packed:
  assumes n: "prim_packed p < 32" and l: "lz_offset l + prim_packed p \<le> 32"
  shows "\<exists>b. lazy_clear H (static_storage H (static_prim p)) l s = Some (sstore H (lz_key l) b s) \<and>
    length b = 32 \<and>
    (\<forall>i < 32. b ! i = (if lz_alone l \<or> lz_offset l \<le> i \<and> i < lz_offset l + prim_packed p then 0
                     else sload H (lz_key l) s ! i))"
proof (cases "lz_alone l")
  case True
  then show ?thesis
    using n by (intro exI [of _ "replicate 32 0"])
      (simp add: lazy_clear_def static_storage_def static_prim_def storage_set_32_def)
next
  case False
  let ?off = "lz_offset l" and ?n = "prim_packed p" and ?buf = "sload H (lz_key l) s"
  obtain z where z: "fill_range ?buf ?off (?off + ?n) 0 = Some z" "copy_at ?buf ?off (replicate ?n 0) = Some z"
    using l copy_at_window [of ?off "replicate ?n 0" ?buf] by (auto simp: fill_range_copy)
  have "lazy_clear H (static_storage H (static_prim p)) l s = Some (sstore H (lz_key l) z s)"
    using False n z(1)
    by (simp add: lazy_clear_def static_storage_def static_prim_def storage_set_32_def storage_get_32_def Let_def)
  then show ?thesis
    using copy_at_nth(1) [OF z(2)] fill_at_nth [OF z(2)] False by (intro exI [of _ z]) simp
qed

lemma lazy_get_packed:
  assumes n: "prim_packed p < 32" and l: "lz_offset l + prim_packed p \<le> 32"
  shows "prim_ok p v \<Longrightarrow> \<forall>i < prim_packed p. sload H (lz_key l) s ! (lz_offset l + i) = item v ! i \<Longrightarrow>
      lazy_get H (static_storage H (static_prim p)) l s = Some v"
    and "\<forall>i < prim_packed p. sload H (lz_key l) s' ! (lz_offset l + i) = sload H (lz_key l) s ! (lz_offset l + i) \<Longrightarrow>
      lazy_get H (static_storage H (static_prim p)) l s' = lazy_get H (static_storage H (static_prim p)) l s"
proof -
  let ?off = "lz_offset l" and ?n = "prim_packed p"
  have pk: "PACKED_BYTES (static_prim p) = ?n" by (simp add: static_prim_def)
  have g: "lazy_get H (static_storage H (static_prim p)) l s =
      unpack_from (static_prim p) (sload H (lz_key l) s) ?off" for s
    using n by (simp add: lazy_get_def static_storage_def pk storage_get_32_def)
  have r: "get_range (sload H (lz_key l) s) ?off (?off + ?n) = Some (window (sload H (lz_key l) s) ?off ?n)" for s
    using l by (simp add: get_range_window)
  show "lazy_get H (static_storage H (static_prim p)) l s = Some v"
    if "prim_ok p v" "\<forall>i < ?n. sload H (lz_key l) s ! (?off + i) = item v ! i"
  proof -
    have "window (sload H (lz_key l) s) ?off ?n = item v"
      using st_prim.word_len [OF that(1)] that(2) l
      by (intro nth_equalityI) (simp_all add: window_def pk)
    then show ?thesis using st_prim.unpack [OF that(1), of "sload H (lz_key l) s" ?off] r g pk by simp
  qed
  show "lazy_get H (static_storage H (static_prim p)) l s' = lazy_get H (static_storage H (static_prim p)) l s"
    if "\<forall>i < ?n. sload H (lz_key l) s' ! (?off + i) = sload H (lz_key l) s ! (?off + i)"
  proof -
    have "window (sload H (lz_key l) s') ?off ?n = window (sload H (lz_key l) s) ?off ?n"
      using that l by (intro nth_equalityI) (simp_all add: window_def)
    then show ?thesis
      using st_prim.unpack_local [of "sload H (lz_key l) s'" "sload H (lz_key l) s" ?off p] r g pk l by simp
  qed
qed

text \<open>Full-slot cells delegate to the codec, so their laws are those of \<open>storage_type\<close>.\<close>

lemma lazy_full:
  assumes "\<not> st_packed c < 32"
  shows "lazy_get H c l s = read_from_storage c (lz_key l) s"
    and "lazy_set H c l v s = write_to_storage c v (lz_key l) s"
    and "lazy_clear H c l s = Some (clear_storage c (lz_key l) s)"
  using assms by (simp_all add: lazy_get_def lazy_set_def lazy_clear_def)

lemma full_cell_type:
  assumes f: "\<not> st_packed (storage_of H t) < 32"
  shows "cell_type H (storage_of H t) (storage_ok t) (lazy_ok H t) (lazy_fits H t) (lazy_foot H t) (lazy_new_foot H t)"
proof -
  note T = storage_of_type [of t]
  have ft: "lazy_foot H t l s = storage_cells H t (lz_key l) s \<times> {..<32}"
    "lazy_new_foot H t l v = storage_new_cells H t (lz_key l) v \<times> {..<32}" for l s v
    using f by (simp_all add: lazy_foot_def lazy_new_foot_def)
  have bytes: "sload H k s' = sload H k s" if "\<And>i. i < 32 \<Longrightarrow> byte_at H s' (k, i) = byte_at H s (k, i)" for k s s'
    using that by (intro nth_equalityI) (simp_all add: byte_at_def)
  show ?thesis
  proof unfold_locales
    fix v l s assume a: "storage_ok t v" "lazy_ok H t l" "lazy_fits H t l v"
    then show "\<exists>s'. lazy_set H (storage_of H t) l v s = Some s' \<and> lazy_get H (storage_of H t) l s' = Some v \<and>
        lazy_foot H t l s' = lazy_new_foot H t l v"
      using storage_type.write_read [OF T a(1), of "lz_key l" s]
      by (auto simp: lazy_full [OF f] ft lazy_ok_def lazy_fits_def)
  next
    fix v l s s' x
    assume a: "storage_ok t v" "lazy_ok H t l" "lazy_set H (storage_of H t) l v s = Some s'"
      "snd x < 32" "x \<notin> lazy_foot H t l s" "x \<notin> lazy_new_foot H t l v"
    then have "sload H (fst x) s' = sload H (fst x) s"
      using storage_type.write_frame [OF T a(1), of "lz_key l" s s' "fst x"]
      by (cases x) (auto simp: lazy_full [OF f] ft lazy_ok_def)
    then show "byte_at H s' x = byte_at H s x" by (simp add: byte_at_def)
  next
    fix l s s' assume a: "lazy_ok H t l" "\<forall>x \<in> lazy_foot H t l s. byte_at H s' x = byte_at H s x"
    have "\<forall>k \<in> storage_cells H t (lz_key l) s. sload H k s' = sload H k s"
      using a(2) by (auto simp: ft intro!: bytes)
    then show "lazy_get H (storage_of H t) l s' = lazy_get H (storage_of H t) l s \<and> lazy_foot H t l s' = lazy_foot H t l s"
      using storage_type.read_local [OF T, of "lz_key l" s s'] a(1) by (simp add: lazy_full [OF f] ft lazy_ok_def)
  next
    fix l s assume a: "lazy_ok H t l"
    show "\<exists>s'. lazy_clear H (storage_of H t) l s = Some s' \<and>
        (\<forall>x. snd x < 32 \<longrightarrow> byte_at H s' x = (if x \<in> lazy_foot H t l s then 0 else byte_at H s x))"
      using storage_type.clear [OF T, of "lz_key l"] a
      by (auto simp: lazy_full [OF f] ft lazy_ok_def byte_at_def zero_word_def)
  next
    show "snd x < 32" if "x \<in> lazy_foot H t l s" for x l s using that by (auto simp: ft)
  qed
qed

lemma packed_cell_type:
  assumes p: "prim_packed p < 32"
  shows "cell_type H (storage_of H (TPrim p)) (storage_ok (TPrim p)) (lazy_ok H (TPrim p)) (lazy_fits H (TPrim p))
    (lazy_foot H (TPrim p)) (lazy_new_foot H (TPrim p))"
proof -
  let ?t = "TPrim p" and ?n = "prim_packed p"
  have c: "storage_of H ?t = static_storage H (static_prim p)" "st_packed (storage_of H ?t) = ?n"
    by (simp_all add: static_storage_def static_prim_def)
  have ft: "lazy_foot H ?t l s = {lz_key l} \<times> (if lz_alone l then {..<32} else {lz_offset l ..< lz_offset l + ?n})"
    "lazy_new_foot H ?t l v = {lz_key l} \<times> (if lz_alone l then {..<32} else {lz_offset l ..< lz_offset l + ?n})" for l s v
    using p by (simp_all add: lazy_foot_def lazy_new_foot_def lazy_window_def c(2) del: storage_of.simps)
  have ok: "prim_ok p v" if "storage_ok ?t v" for v
    using that st_ok_prim storage_of_static(2) [of ?t v] by (auto simp: is_dyn_def)
  have off: "lz_offset l + ?n \<le> 32" if "lazy_ok H ?t l" for l
    using that by (simp add: lazy_ok_def c(2) del: storage_of.simps)
  show ?thesis unfolding c(1)
  proof unfold_locales
    fix v l s assume a: "storage_ok ?t v" "lazy_ok H ?t l" "lazy_fits H ?t l v"
    obtain b where b: "lazy_set H (static_storage H (static_prim p)) l v s = Some (sstore H (lz_key l) b s)" "length b = 32"
      "\<forall>i < 32. b ! i = (if lz_offset l \<le> i \<and> i < lz_offset l + ?n then item v ! (i - lz_offset l)
                       else if lz_alone l then 0 else sload H (lz_key l) s ! i)"
      using lazy_set_packed [OF ok [OF a(1)] p off [OF a(2)]] by blast
    have "lazy_get H (static_storage H (static_prim p)) l (sstore H (lz_key l) b s) = Some v"
      using b(2,3) off [OF a(2)] by (intro lazy_get_packed(1) [OF p off [OF a(2)] ok [OF a(1)]]) simp
    then show "\<exists>s'. lazy_set H (static_storage H (static_prim p)) l v s = Some s' \<and>
        lazy_get H (static_storage H (static_prim p)) l s' = Some v \<and> lazy_foot H ?t l s' = lazy_new_foot H ?t l v"
      using b(1) by (simp add: ft)
  next
    fix v l s s' x
    assume a: "storage_ok ?t v" "lazy_ok H ?t l" "lazy_set H (static_storage H (static_prim p)) l v s = Some s'"
      "snd x < 32" "x \<notin> lazy_foot H ?t l s" "x \<notin> lazy_new_foot H ?t l v"
    obtain b where b: "s' = sstore H (lz_key l) b s" "length b = 32"
      "\<forall>i < 32. b ! i = (if lz_offset l \<le> i \<and> i < lz_offset l + ?n then item v ! (i - lz_offset l)
                       else if lz_alone l then 0 else sload H (lz_key l) s ! i)"
      using lazy_set_packed [OF ok [OF a(1)] p off [OF a(2)], of s] a(3) by auto
    show "byte_at H s' x = byte_at H s x"
      using a(4-6) b(3) unfolding b(1) byte_sstore [OF b(2)]
      by (cases x) (auto simp: ft byte_at_def split: if_splits)
  next
    fix l s s' assume a: "lazy_ok H ?t l" "\<forall>x \<in> lazy_foot H ?t l s. byte_at H s' x = byte_at H s x"
    have "sload H (lz_key l) s' ! (lz_offset l + i) = sload H (lz_key l) s ! (lz_offset l + i)" if "i < ?n" for i
      using a(2) that off [OF a(1)] by (auto simp: ft byte_at_def split: if_splits)
    then show "lazy_get H (static_storage H (static_prim p)) l s' = lazy_get H (static_storage H (static_prim p)) l s \<and>
        lazy_foot H ?t l s' = lazy_foot H ?t l s"
      using lazy_get_packed(2) [OF p off [OF a(1)]] by (simp add: ft)
  next
    fix l s assume a: "lazy_ok H ?t l"
    obtain b where b: "lazy_clear H (static_storage H (static_prim p)) l s = Some (sstore H (lz_key l) b s)" "length b = 32"
      "\<forall>i < 32. b ! i = (if lz_alone l \<or> lz_offset l \<le> i \<and> i < lz_offset l + ?n then 0 else sload H (lz_key l) s ! i)"
      using lazy_clear_packed [OF p off [OF a], of s] by blast
    show "\<exists>s'. lazy_clear H (static_storage H (static_prim p)) l s = Some s' \<and>
        (\<forall>x. snd x < 32 \<longrightarrow> byte_at H s' x = (if x \<in> lazy_foot H ?t l s then 0 else byte_at H s x))"
      unfolding b(1) using b(3)
      by (intro exI [of _ "sstore H (lz_key l) b s"]) (auto simp: sload_sstore [OF b(2)] ft byte_at_def)
  next
    fix x l s assume "lazy_ok H ?t l" "x \<in> lazy_foot H ?t l s"
    then show "snd x < 32" using off by (fastforce simp: ft split: if_splits)
  qed
qed

lemma lazy_cell_type:
  "cell_type H (storage_of H t) (storage_ok t) (lazy_ok H t) (lazy_fits H t) (lazy_foot H t) (lazy_new_foot H t)"
proof (cases "st_packed (storage_of H t) < 32")
  case True
  then obtain p where "t = TPrim p" "prim_packed p < 32" by (rule packed_prim)
  then show ?thesis using packed_cell_type by simp
qed (rule full_cell_type)

end

interpretation cell: cell_type "mock_api k" "storage_of (mock_api k) t" "storage_ok t" "lazy_ok (mock_api k) t"
  "lazy_fits (mock_api k) t" "lazy_foot (mock_api k) t" "lazy_new_foot (mock_api k) t" for k t
  by (rule mock.lazy_cell_type)

text \<open>\<open>take\<close> fuses the two steps over one load; it is \<open>get\<close> followed by \<open>clear\<close>.\<close>

lemma lazy_take_is:
  "lazy_take H c l s = Option.bind (lazy_get H c l s) (\<lambda>v. map_option (Pair v) (lazy_clear H c l s))"
  by (auto simp: lazy_take_def lazy_get_def lazy_clear_def Let_def split: Option.bind_split)

text \<open>The leaf operations of the containers are the cell's.\<close>

lemma leaf_is_lazy:
  "leaf_get_at H c key off s = lazy_get H c (lazy_new_at key off alone) s"
  "leaf_write_value H c v key off alone s = lazy_set H c (lazy_new_at key off alone) v s"
  "leaf_clear_at H c key off alone s = lazy_clear H c (lazy_new_at key off alone) s"
  by (simp_all add: leaf_get_at_def leaf_write_value_def leaf_clear_at_def lazy_get_def lazy_set_def
      lazy_clear_def lazy_new_at_def)

text \<open>A cell alone in its slot owns the slots of the codec, packed or not.\<close>

lemma slot_keys_one: "length key = 32 \<Longrightarrow> slot_keys key 1 = {key}"
  by (simp add: slot_keys_def slot_key_def)

lemma alone_foot:
  assumes "lz_alone l" "lazy_ok H t l"
  shows "lazy_foot H t l s = storage_cells H t (lz_key l) s \<times> {..<32}"
    and "lazy_new_foot H t l v = storage_new_cells H t (lz_key l) v \<times> {..<32}"
proof -
  have "st_packed (storage_of H t) < 32 \<Longrightarrow>
    storage_cells H t (lz_key l) s = {lz_key l} \<and> storage_new_cells H t (lz_key l) v = {lz_key l}"
    using assms(2) slot_keys_one [of "lz_key l"]
    by (auto simp: storage_cells_def storage_new_cells_def is_dyn_def static_prim_def lazy_ok_def elim!: packed_prim)
  then show "lazy_foot H t l s = storage_cells H t (lz_key l) s \<times> {..<32}"
    and "lazy_new_foot H t l v = storage_new_cells H t (lz_key l) v \<times> {..<32}"
    using assms(1) by (auto simp: lazy_foot_def lazy_new_foot_def lazy_window_def)
qed

text \<open>Two cells with disjoint footprints, possibly of different types.\<close>

lemma cells_are_variables:
  assumes "storage_ok t v" "lazy_ok (mock_api h) t l" "lazy_fits (mock_api h) t l v" "lazy_ok (mock_api h) t' l'"
    and "lazy_foot (mock_api h) t' l' s \<inter> (lazy_foot (mock_api h) t l s \<union> lazy_new_foot (mock_api h) t l v) = {}"
  shows "let H = mock_api h; c = storage_of H t; c' = storage_of H t' in
    \<exists>s1 s2. lazy_set H c l v s = Some s1 \<and> lazy_get H c l s1 = Some v \<and>
      lazy_take H c l s1 = Some (v, s2) \<and> (\<forall>x \<in> lazy_new_foot H t l v. byte_at H s2 x = 0) \<and>
      lazy_get H c' l' s1 = lazy_get H c' l' s \<and> lazy_get H c' l' s2 = lazy_get H c' l' s"
proof -
  let ?H = "mock_api h"
  obtain s1 where s1: "lazy_set ?H (storage_of ?H t) l v s = Some s1" "lazy_get ?H (storage_of ?H t) l s1 = Some v"
    "lazy_foot ?H t l s1 = lazy_new_foot ?H t l v"
    using cell.set_get [OF assms(1-3)] by blast
  obtain s2 where s2: "lazy_clear ?H (storage_of ?H t) l s1 = Some s2"
    "\<forall>x. snd x < 32 \<longrightarrow> byte_at ?H s2 x = (if x \<in> lazy_foot ?H t l s1 then 0 else byte_at ?H s1 x)"
    using cell.clear_foot [OF assms(2)] by blast
  have in32: "x \<in> lazy_foot ?H t' l' s \<Longrightarrow> snd x < 32" for x by (rule cell.foot_bytes [OF assms(4)])
  have f1: "\<forall>x \<in> lazy_foot ?H t' l' s. byte_at ?H s1 x = byte_at ?H s x"
    using cell.set_frame [OF assms(1,2) s1(1)] in32 assms(5) by blast
  have f2: "\<forall>x \<in> lazy_foot ?H t' l' s. byte_at ?H s2 x = byte_at ?H s x"
    using f1 s2(2) in32 assms(5) s1(3) by auto
  have "\<forall>x \<in> lazy_new_foot ?H t l v. byte_at ?H s2 x = 0"
    using s2(2) s1(3) cell.foot_bytes [OF assms(2), of _ s1] by auto
  moreover have "lazy_take ?H (storage_of ?H t) l s1 = Some (v, s2)"
    using s1(2) s2(1) by (simp add: lazy_take_is)
  ultimately show ?thesis
    using s1(1,2) cell.get_local [OF assms(4) f1] cell.get_local [OF assms(4) f2] unfolding Let_def by blast
qed

section \<open>Properties\<close>

text \<open>
  C30: storage cells behave as variables. For every storable type, \<open>set\<close> on a well-placed cell
  succeeds and \<open>get\<close> returns the value; \<open>take\<close> returns it too and clears the cell; and neither
  changes what a cell of any type reads whose bytes are disjoint: the neighbours packed into the
  same slot keep their values.
\<close>

theorem lazy_cells_are_variables:
  assumes "storage_ok t v" "lazy_ok (mock_api h) t l" "lazy_fits (mock_api h) t l v" "lazy_ok (mock_api h) t' l'"
    and "lazy_foot (mock_api h) t' l' s \<inter> (lazy_foot (mock_api h) t l s \<union> lazy_new_foot (mock_api h) t l v) = {}"
  shows "let H = mock_api h; c = storage_of H t; c' = storage_of H t' in
    \<exists>s1 s2. lazy_set H c l v s = Some s1 \<and> lazy_get H c l s1 = Some v \<and>
      lazy_take H c l s1 = Some (v, s2) \<and> (\<forall>x \<in> lazy_new_foot H t l v. byte_at H s2 x = 0) \<and>
      lazy_get H c' l' s1 = lazy_get H c' l' s \<and> lazy_get H c' l' s2 = lazy_get H c' l' s"
  by (rule cells_are_variables [OF assms])

lemma storage_ok_prim: "storage_ok (TPrim p) v \<longleftrightarrow> prim_ok p v"
  by (auto simp: st_ok_prim static_prim_def MAX_STATIC_SLOTS_def)

theorem lazy_cells_are_variables_witness:
  "let H = mock_api (\<lambda>_. 0); c = storage_of H (TPrim U64); key = be_bytes 32 3;
       l = lazy_new_at key 24 False; l' = lazy_new_at key 16 False
   in \<exists>s0 s1 s2. lazy_set H c l' (VPrim (VU64 9)) mock_new = Some s0 \<and>
     lazy_set H c l (VPrim (VU64 5)) s0 = Some s1 \<and> lazy_take H c l s1 = Some (VPrim (VU64 5), s2) \<and>
     lazy_get H c l' s2 = Some (VPrim (VU64 9))"
proof -
  let ?H = "mock_api (\<lambda>_. 0)" and ?key = "be_bytes 32 3"
  let ?l = "lazy_new_at ?key 24 False" and ?l' = "lazy_new_at ?key 16 False"
  have p: "st_packed (storage_of ?H (TPrim U64)) = 8" by (simp add: static_storage_def static_prim_def)
  have ok: "storage_ok (TPrim U64) (VPrim (VU64 x))" for x
    by (simp add: storage_ok_prim prim_ok_def prim_wt_def del: storage_ok.simps)
  have l: "lazy_ok ?H (TPrim U64) ?l" "lazy_ok ?H (TPrim U64) ?l'" "lazy_fits ?H (TPrim U64) ?l v" "lazy_fits ?H (TPrim U64) ?l' v" for v
    by (simp_all add: lazy_ok_def lazy_fits_def storage_fits_def is_dyn_def lazy_new_at_def p del: storage_of.simps)
  obtain s0 where s0: "lazy_set ?H (storage_of ?H (TPrim U64)) ?l' (VPrim (VU64 9)) mock_new = Some s0"
      "lazy_get ?H (storage_of ?H (TPrim U64)) ?l' s0 = Some (VPrim (VU64 9))"
    using cell.set_get [OF ok l(2,4)] by blast
  have "lazy_foot ?H (TPrim U64) ?l' s0 \<inter> (lazy_foot ?H (TPrim U64) ?l s0 \<union>
      lazy_new_foot ?H (TPrim U64) ?l (VPrim (VU64 5))) = {}"
    by (auto simp: lazy_foot_def lazy_new_foot_def lazy_window_def lazy_new_at_def p simp del: storage_of.simps)
  from lazy_cells_are_variables [OF ok [of 5] l(1) l(3) l(2) this, unfolded Let_def]
  obtain s1 s2 where "lazy_set ?H (storage_of ?H (TPrim U64)) ?l (VPrim (VU64 5)) s0 = Some s1"
      "lazy_take ?H (storage_of ?H (TPrim U64)) ?l s1 = Some (VPrim (VU64 5), s2)"
      "lazy_get ?H (storage_of ?H (TPrim U64)) ?l' s2 = lazy_get ?H (storage_of ?H (TPrim U64)) ?l' s0" by blast
  then show ?thesis using s0 unfolding Let_def by (intro exI conjI) simp_all
qed

text \<open>
  C31: \<open>Mapping\<close> is a map. Inserting a value under a key succeeds and is read back; removing it makes
  \<open>try_get\<close> return nothing; and both leave the entry of any other key unchanged whose slots are
  disjoint from those the entry uses (which two keys have unless the hash collides).
\<close>

theorem mapping_is_a_map:
  assumes "same_key_type k k" "same_key_type l l" "length root = 32" "storage_ok t v"
    and "a = solidity_slot (\<lambda>x. to_be (h x)) k root" "b = solidity_slot (\<lambda>x. to_be (h x)) l root"
    and "storage_fits (mock_api h) t a v"
    and "storage_cells (mock_api h) t b s \<inter> (storage_cells (mock_api h) t a s \<union> storage_new_cells (mock_api h) t a v) = {}"
  shows "let H = mock_api h; c = storage_of H t in
    \<exists>s1 s2. map_insert H c root k v s = Some s1 \<and> map_get H c root k s1 = Some v \<and>
      map_remove H c root k s1 = Some s2 \<and> map_try_get H c root k s2 = Some None \<and>
      map_get H c root l s1 = map_get H c root l s \<and> map_get H c root l s2 = map_get H c root l s"
proof -
  let ?H = "mock_api h" and ?c = "storage_of (mock_api h) t"
  let ?cell = "\<lambda>sl. lazy_new_at sl (map_entry_offset ?c) True"
  have hash: "api_hash_keccak_256 ?H = (\<lambda>x. to_be (h x))" by (simp add: mock_api_def)
  have sl: "map_slot_of ?H root k = Some a" "map_slot_of ?H root l = Some b"
    using assms(1,2,5,6) by (simp_all add: map_slot_of_def derive_is_solidity hash)
  have len: "length a = 32" "length b = 32"
    using length_solidity(1) [of "\<lambda>x. to_be (h x)" root] assms(3,5,6) by simp_all
  have ok: "lazy_ok ?H t (?cell a)" "lazy_ok ?H t (?cell b)"
    using len st_packed_le [OF assms(4), of ?H] by (simp_all add: lazy_ok_def lazy_new_at_def map_entry_offset_def)
  have al: "lz_alone (?cell x)" "lz_key (?cell x) = x" for x by (simp_all add: lazy_new_at_def)
  have foot: "lazy_foot ?H t (?cell a) s = storage_cells ?H t a s \<times> {..<32}"
    "lazy_new_foot ?H t (?cell a) v = storage_new_cells ?H t a v \<times> {..<32}"
    "lazy_foot ?H t (?cell b) s = storage_cells ?H t b s \<times> {..<32}" for s
    using alone_foot [OF al(1) ok(1)] alone_foot(1) [OF al(1) ok(2)] by (simp_all add: al(2))
  have ops: "map_get ?H ?c root k = lazy_get ?H ?c (?cell a)" "map_get ?H ?c root l = lazy_get ?H ?c (?cell b)"
    "map_insert ?H ?c root k v = lazy_set ?H ?c (?cell a) v" "map_remove ?H ?c root k = lazy_clear ?H ?c (?cell a)"
    "map_try_get ?H ?c root k = try_read_from_storage ?c a"
    by (simp_all add: fun_eq_iff map_get_def map_insert_def map_remove_def map_delete_def map_try_get_def sl
        leaf_is_lazy(1) [where alone = True] leaf_is_lazy(2,3) leaf_try_read_value_def)
  have "lazy_fits ?H t (?cell a) v" using assms(7) by (simp add: lazy_fits_def lazy_new_at_def)
  moreover have "lazy_foot ?H t (?cell b) s \<inter> (lazy_foot ?H t (?cell a) s \<union> lazy_new_foot ?H t (?cell a) v) = {}"
    using assms(8) by (auto simp: foot)
  ultimately obtain s1 s2 where s12: "lazy_set ?H ?c (?cell a) v s = Some s1" "lazy_get ?H ?c (?cell a) s1 = Some v"
      "lazy_take ?H ?c (?cell a) s1 = Some (v, s2)" "lazy_get ?H ?c (?cell b) s1 = lazy_get ?H ?c (?cell b) s"
      "lazy_get ?H ?c (?cell b) s2 = lazy_get ?H ?c (?cell b) s"
    using cells_are_variables [OF assms(4) ok(1) _ ok(2)] unfolding Let_def by blast
  then have clr: "lazy_clear ?H ?c (?cell a) s1 = Some s2" by (auto simp: lazy_take_is)
  have z: "\<forall>x. snd x < 32 \<longrightarrow> byte_at ?H s2 x = (if x \<in> lazy_foot ?H t (?cell a) s1 then 0 else byte_at ?H s1 x)"
    using cell.clear_foot [OF ok(1), of s1] clr by auto
  have same: "sload ?H y s2 = sload ?H y (clear_storage ?c a s1)" for y
    using z len sto.clear [OF len(1), of h y t s1]
    by (intro nth_equalityI) (auto simp: foot byte_at_def zero_word_def)
  have "try_read_from_storage ?c a s2 = try_read_from_storage ?c a (clear_storage ?c a s1)"
    using sto.read_local [OF len(1)] same by blast
  then show ?thesis
    unfolding Let_def ops using s12 clr sto.clear_absent [OF assms(4) len(1)] by auto
qed

theorem mapping_is_a_map_witness:
  "let H = mock_api (\<lambda>x. ucast (hd x)); c = storage_of H (TPrim Bool); root = be_bytes 32 0 in
    \<exists>s1. map_insert H c root (KBytes [1]) (VPrim (VBool True)) mock_new = Some s1 \<and>
      map_get H c root (KBytes [1]) s1 = Some (VPrim (VBool True)) \<and>
      map_get H c root (KBytes [2]) s1 = map_get H c root (KBytes [2]) mock_new"
proof -
  let ?H = "mock_api (\<lambda>x. ucast (hd x))"
  have ne: "to_be (2 :: 256 word) \<noteq> to_be (1 :: 256 word)" using to_be_inj [of "2 :: 256 word" 1] by simp
  have cells: "storage_cells ?H (TPrim Bool) (to_be (x :: 256 word)) s = {to_be x}"
    "storage_new_cells ?H (TPrim Bool) (to_be (x :: 256 word)) v = {to_be x}" for x s v
    using slot_keys_one [of "to_be x"] by (simp_all add: storage_cells_def storage_new_cells_def is_dyn_def static_prim_def)
  have "storage_ok (TPrim Bool) (VPrim (VBool True))"
    by (simp add: storage_ok_prim prim_ok_def prim_wt_def del: storage_ok.simps)
  moreover have "storage_fits ?H (TPrim Bool) (to_be (1 :: 256 word)) (VPrim (VBool True))" by (simp add: storage_fits_def is_dyn_def)
  ultimately show ?thesis
    using mapping_is_a_map [of "KBytes [1]" "KBytes [2]" "be_bytes 32 0" "TPrim Bool" "VPrim (VBool True)" "to_be (1 :: 256 word)"
        "\<lambda>x. ucast (hd x)" "to_be (2 :: 256 word)" mock_new] ne
    unfolding Let_def by (auto simp: cells)
qed

end
