(* ===== verification/StorageStruct.thy ===== *)
theory StorageStruct
  imports LazyCell
begin

text \<open>
  The placement of storage fields by the \<open>#[contract]\<close> and \<open>#[storage]\<close> macros: the chain of
  layout steps over the fields, the \<open>alone\<close> flags, the constructors, and the compile-time checks of
  \<open>#[slot(N)]\<close> fields. A field is given by its type \<open>T\<close> in \<open>Lazy<T>\<close>. The macros emit the
  computation as constants; the definitions here are those constants' values.
\<close>

section \<open>The generated constants\<close>

definition layout_step_component :: "'s storage_codec \<Rightarrow> layout_state \<Rightarrow> layout_state" where
  "layout_step_component c prev = layout_step prev (st_packed c) (st_slots c)"

fun slot_chain_consts :: "layout_state \<Rightarrow> 's storage_codec list \<Rightarrow> layout_state list" where
  "slot_chain_consts prev [] = []"
| "slot_chain_consts prev (c # cs) =
     (let step = layout_step_component c prev in step # slot_chain_consts step cs)"

definition alone_chain_consts :: "layout_state list \<Rightarrow> bool list" where
  "alone_chain_consts steps =
     map (\<lambda>i. (if i = 0 then True else slot (steps ! i) \<noteq> slot (steps ! (i - 1))) \<and>
              (if i + 1 = length steps then True else slot (steps ! i) \<noteq> slot (steps ! (i + 1))))
       [0..<length steps]"

text \<open>\<open>SLOTS\<close> of a \<open>#[storage]\<close> struct.\<close>

definition slots_expr :: "'s storage_codec list \<Rightarrow> nat" where
  "slots_expr cs = next_slot (fold layout_step_component cs FIRST) + 1"

text \<open>The cells of a \<open>#[storage]\<close> struct at a base key, and those of a contract.\<close>

definition struct_new_at :: "bytes \<Rightarrow> 's storage_codec list \<Rightarrow> lazy list" where
  "struct_new_at base cs =
     (let steps = slot_chain_consts FIRST cs in
      map2 (\<lambda>step alone. lazy_new_at (key_add base (of_nat (slot step))) (offset step) alone)
        steps (alone_chain_consts steps))"

datatype slot_attr = Explicit nat | ExplicitRaw bytes | Auto layout_state bool

fun slot_field_init :: "slot_attr \<Rightarrow> 's storage_codec \<Rightarrow> lazy" where
  "slot_field_init (Explicit n) c = lazy_new_at (from_slot (of_nat n)) 0 True"
| "slot_field_init (ExplicitRaw key) c = lazy_new_at key (32 - st_packed c) True"
| "slot_field_init (Auto step alone) c = lazy_new_at (from_slot (of_nat (slot step))) (offset step) alone"

definition contract_fields :: "'s storage_codec list \<Rightarrow> lazy list" where
  "contract_fields cs =
     (let steps = slot_chain_consts FIRST cs in
      map2 (\<lambda>attr c. slot_field_init attr c) (map2 Auto steps (alone_chain_consts steps)) cs)"

fun struct_clear :: "'s host_api \<Rightarrow> 's storage_codec list \<Rightarrow> lazy list \<Rightarrow> 's \<Rightarrow> 's option" where
  "struct_clear H (c # cs) (l # ls) s = Option.bind (lazy_clear H c l s) (struct_clear H cs ls)"
| "struct_clear H _ _ s = Some s"

text \<open>The checks of explicitly numbered fields, given by slot and type.\<close>

definition explicit_slot_full_slot_only_checks :: "(nat \<times> 's storage_codec) list \<Rightarrow> bool" where
  "explicit_slot_full_slot_only_checks fs = list_all (\<lambda>(n, c). st_packed c = 32) fs"

definition overlap_check :: "nat \<times> 's storage_codec \<Rightarrow> nat \<times> 's storage_codec \<Rightarrow> bool" where
  "overlap_check a b =
     (case (checked_add (fst a) (st_slots (snd a)), checked_add (fst b) (st_slots (snd b))) of
        (Some a_end, Some b_end) \<Rightarrow> \<not> (fst a < b_end \<and> fst b < a_end)
      | _ \<Rightarrow> False)"

fun explicit_slot_overlap_checks :: "(nat \<times> 's storage_codec) list \<Rightarrow> bool" where
  "explicit_slot_overlap_checks [] = True"
| "explicit_slot_overlap_checks (a # fs) = (list_all (overlap_check a) fs \<and> explicit_slot_overlap_checks fs)"

definition explicit_field :: "nat \<times> 's storage_codec \<Rightarrow> lazy" where
  "explicit_field f = slot_field_init (Explicit (fst f)) (snd f)"

section \<open>The chain\<close>

definition shape_of :: "'s storage_codec \<Rightarrow> nat \<times> nat" where
  "shape_of c = (st_packed c, st_slots c)"

lemma slot_chain_is: "slot_chain_consts prev cs = layout_chain prev (map shape_of cs)"
  by (induction cs arbitrary: prev) (simp_all add: shape_of_def layout_step_component_def Let_def)

text \<open>The end of a field, past all its slots, is at most the start of any later one.\<close>

definition field_size :: "nat \<times> nat \<Rightarrow> nat" where
  "field_size f = (if snd f > 1 then 32 * snd f else fst f)"

lemma solc_chain_apart:
  assumes "i < j" "j < length fs"
  shows "fst (solc_chain cur fs ! i) + field_size (fs ! i) \<le> fst (solc_chain cur fs ! j)"
  using assms
proof (induction fs arbitrary: cur i j)
  case (Cons f fs)
  obtain b n where f: "f = (b, n)" by (cases f)
  obtain l where j: "j = Suc l" using Cons.prems(1) by (cases j) auto
  show ?case
  proof (cases i)
    case 0
    have "solc_end cur b n \<le> fst (solc_chain (solc_end cur b n) fs ! l)"
      using Cons.prems(2) j by (intro solc_chain_ge) simp
    then show ?thesis using f j 0 by (simp add: field_size_def solc_end_def split: if_splits)
  next
    case (Suc k)
    then show ?thesis using Cons.IH [of k l] Cons.prems f j by simp
  qed
qed simp

text \<open>Two fields in one slot have windows one below the other; otherwise all slots of the first come before.\<close>

lemma chain_apart:
  assumes fs: "list_all field_ok fs" "chain_size fs + 64 < usize_limit" and ij: "i < j" "j < length fs"
    and st: "a = layout_chain FIRST fs ! i" "b = layout_chain FIRST fs ! j"
  shows "slot a \<le> slot b"
    and "slot a = slot b \<Longrightarrow> offset b + fst (fs ! j) \<le> offset a \<and> snd (fs ! i) = 1 \<and> snd (fs ! j) = 1 \<and>
      fst (fs ! i) < 32 \<and> fst (fs ! j) < 32"
    and "slot a \<noteq> slot b \<Longrightarrow> slot a + snd (fs ! i) \<le> slot b"
proof -
  have "space_ok FIRST" "cursor FIRST = 0" by (simp_all add: FIRST_def space_ok_def cursor_def)
  then have pl: "placed (layout_chain FIRST fs ! k) (solc_chain 0 fs ! k) (fst (fs ! k))" if "k < length fs" for k
    using layout_chain_solc [of fs FIRST] fs that by simp
  define p q where "p = fst (solc_chain 0 fs ! i)" and "q = fst (solc_chain 0 fs ! j)"
  have i: "slot a = p div 32" "offset a + fst (fs ! i) + p mod 32 = 32"
    and j: "slot b = q div 32" "offset b + fst (fs ! j) + q mod 32 = 32"
    using pl [of i] pl [of j] ij st by (simp_all add: placed_def p_def q_def)
  have f: "field_ok (fs ! i)" "field_ok (fs ! j)" using fs(1) ij by (simp_all add: list_all_length)
  have o: "p + field_size (fs ! i) \<le> q" unfolding p_def q_def by (rule solc_chain_apart [OF ij])
  have d: "p = 32 * slot a + p mod 32" "q = 32 * slot b + q mod 32" "q mod 32 < 32" "p mod 32 < 32"
    using i(1) j(1) by simp_all
  show le: "slot a \<le> slot b" unfolding i(1) j(1) using o by (intro div_le_mono) simp
  show "offset b + fst (fs ! j) \<le> offset a \<and> snd (fs ! i) = 1 \<and> snd (fs ! j) = 1 \<and> fst (fs ! i) < 32 \<and> fst (fs ! j) < 32"
    if eq: "slot a = slot b"
  proof -
    have pq: "p mod 32 + field_size (fs ! i) \<le> q mod 32" using d o eq by linarith
    then have n1: "snd (fs ! i) = 1" using f(1) d(3) by (auto simp: field_size_def field_ok_def split: if_splits)
    then have w: "p mod 32 + fst (fs ! i) \<le> q mod 32" using pq by (simp add: field_size_def)
    moreover have "1 \<le> fst (fs ! i)" "1 \<le> fst (fs ! j)" using f by (auto simp: field_ok_def)
    ultimately have "fst (fs ! j) < 32" "fst (fs ! i) < 32" "offset b + fst (fs ! j) \<le> offset a"
      using i(2) j(2) d(3) by linarith+
    then show ?thesis using n1 f(2) by (auto simp: field_ok_def)
  qed
  show "slot a + snd (fs ! i) \<le> slot b" if ne: "slot a \<noteq> slot b"
  proof (cases "snd (fs ! i) > 1")
    case True
    then have "p mod 32 = 0" using f(1) i(2) by (auto simp: field_ok_def)
    then show ?thesis using True d o by (simp add: field_size_def)
  next
    case False
    then show ?thesis using le ne f(1) by (auto simp: field_ok_def)
  qed
qed

lemma chain_bound:
  assumes "list_all field_ok fs" "chain_size fs + 64 < usize_limit" "i < length fs"
    and "a = layout_chain FIRST fs ! i"
  shows "slot a + snd (fs ! i) < usize_limit" "offset a + fst (fs ! i) \<le> 32"
proof -
  have "space_ok FIRST" "cursor FIRST = 0" by (simp_all add: FIRST_def space_ok_def cursor_def)
  then have pl: "placed a (solc_chain 0 fs ! i) (fst (fs ! i))"
    using layout_chain_solc [of fs FIRST] assms by simp
  then show "offset a + fst (fs ! i) \<le> 32" by (simp add: placed_def)
  have "fst (solc_chain cur fs ! i) + field_size (fs ! i) \<le> cur + chain_size fs"
    if "list_all field_ok fs" "i < length fs" for cur fs i
    using that
  proof (induction fs arbitrary: cur i)
    case (Cons f fs)
    obtain b n where f: "f = (b, n)" by (cases f)
    have e: "solc_end cur b n \<le> cur + 32 * n + 32" using Cons.prems(1) f by (intro solc_end_le) simp
    show ?case
    proof (cases i)
      case 0
      then show ?thesis using e f by (simp add: solc_end_def field_size_def chain_size_def split: if_splits)
    next
      case (Suc k)
      have "fst (solc_chain (solc_end cur b n) fs ! k) + field_size (fs ! k) \<le> solc_end cur b n + chain_size fs"
        using Cons.prems Suc by (intro Cons.IH) simp_all
      then show ?thesis using e f Suc by (simp add: chain_size_def)
    qed
  qed simp
  from this [OF assms(1,3), of 0] have "fst (solc_chain 0 fs ! i) + field_size (fs ! i) \<le> chain_size fs" by simp
  moreover have "field_ok (fs ! i)" using assms(1,3) by (simp add: list_all_length)
  ultimately show "slot a + snd (fs ! i) < usize_limit"
    using pl assms(2) by (auto simp: placed_def field_size_def field_ok_def split: if_splits)
qed

text \<open>A field alone in its slot shares it with no field at all, not only with its neighbours.\<close>

lemma alone_apart:
  assumes fs: "list_all field_ok fs" "chain_size fs + 64 < usize_limit" and ij: "i < j" "j < length fs"
    and st: "steps = layout_chain FIRST fs" and eq: "slot (steps ! i) = slot (steps ! j)"
  shows "\<not> alone_chain_consts steps ! i" "\<not> alone_chain_consts steps ! j"
proof -
  have len: "length steps = length fs" "\<And>k. k < length fs \<Longrightarrow> k < length steps"
    using layout_chain_solc [of fs FIRST] fs st by (simp_all add: FIRST_def space_ok_def cursor_def)
  have mono: "slot (steps ! k) \<le> slot (steps ! m)" if "k \<le> m" "m < length fs" for k m
    using chain_apart(1) [OF fs _ that(2) refl refl, of k] that(1) st by (cases "k = m") auto
  have "slot (steps ! i) = slot (steps ! Suc i)"
    using mono [of i "Suc i"] mono [of "Suc i" j] ij eq by simp
  then show "\<not> alone_chain_consts steps ! i"
    using ij len by (simp add: alone_chain_consts_def)
  have "slot (steps ! j) = slot (steps ! (j - 1))"
    using mono [of i "j - 1"] mono [of "j - 1" j] ij eq by simp
  then show "\<not> alone_chain_consts steps ! j"
    using ij len by (simp add: alone_chain_consts_def)
qed

section \<open>The cells\<close>

lemma slot_key_add: "slot_key (slot_key key m) i = slot_key key (m + i)"
  unfolding slot_key_def be_nat_be_bytes be_bytes_inj by (simp add: mod_simps add.assoc)

lemma key_add_slot: "length base = 32 \<Longrightarrow> n < usize_limit \<Longrightarrow> key_add base (of_nat n) = slot_key base n"
  by (simp add: key_add_def inc_slot_by_is unat_of_nat usize_limit_def)

lemma from_slot_key_add: "from_slot n = key_add (replicate 32 0) n"
  using from_slot_is [of n] by (simp add: key_add_def inc_slot_by_is slot_key_def)

lemma length_slot_chain_consts: "length (slot_chain_consts prev cs) = length cs"
  by (induction cs arbitrary: prev) (simp_all add: Let_def)

lemma contract_is_struct: "contract_fields cs = struct_new_at (replicate 32 0) cs"
  unfolding contract_fields_def struct_new_at_def Let_def
  by (intro nth_equalityI)
    (simp_all add: length_slot_chain_consts alone_chain_consts_def from_slot_key_add)

text \<open>The types of fields whose storage is within the struct: all but \<open>String\<close> and \<open>Bytes\<close>, whose bodies lie elsewhere.\<close>

definition static_field :: "'s host_api \<Rightarrow> sol_ty \<Rightarrow> bool" where
  "static_field H t \<longleftrightarrow> \<not> is_dyn t \<and> field_ok (shape_of (storage_of H t))"

definition struct_ok :: "'s host_api \<Rightarrow> sol_ty list \<Rightarrow> bool" where
  "struct_ok H ts \<longleftrightarrow> list_all (static_field H) ts \<and> chain_size (map (\<lambda>t. shape_of (storage_of H t)) ts) + 64 < usize_limit"

definition struct_cell :: "'s host_api \<Rightarrow> bytes \<Rightarrow> sol_ty list \<Rightarrow> nat \<Rightarrow> lazy" where
  "struct_cell H base ts i = struct_new_at base (map (storage_of H) ts) ! i"

text \<open>Where field \<open>i\<close> lies.\<close>

definition steps_of :: "'s host_api \<Rightarrow> sol_ty list \<Rightarrow> layout_state list" where
  "steps_of H ts = layout_chain FIRST (map (\<lambda>t. shape_of (storage_of H t)) ts)"

lemma struct_cell_at:
  assumes "struct_ok H ts" "length base = 32" "i < length ts"
  shows "struct_cell H base ts i = lazy_new_at (slot_key base (slot (steps_of H ts ! i))) (offset (steps_of H ts ! i))
      (alone_chain_consts (steps_of H ts) ! i)"
    and "lazy_ok H (ts ! i) (struct_cell H base ts i)"
    and "slot (steps_of H ts ! i) + st_slots (storage_of H (ts ! i)) < usize_limit"
proof -
  let ?fs = "map (\<lambda>t. shape_of (storage_of H t)) ts"
  have fs: "list_all field_ok ?fs" "chain_size ?fs + 64 < usize_limit"
    using assms(1) by (simp_all add: struct_ok_def static_field_def list_all_iff)
  have len: "length (steps_of H ts) = length ts"
    using layout_chain_solc [of ?fs FIRST] fs by (simp add: steps_of_def FIRST_def space_ok_def cursor_def)
  have b: "slot (steps_of H ts ! i) + snd (?fs ! i) < usize_limit" "offset (steps_of H ts ! i) + fst (?fs ! i) \<le> 32"
    using chain_bound [OF fs, of i "steps_of H ts ! i"] assms(3) by (simp_all add: steps_of_def)
  then show "slot (steps_of H ts ! i) + st_slots (storage_of H (ts ! i)) < usize_limit"
    using assms(3) by (simp add: shape_of_def)
  have "slot_chain_consts FIRST (map (storage_of H) ts) = steps_of H ts"
    by (simp add: slot_chain_is steps_of_def o_def)
  then show c: "struct_cell H base ts i = lazy_new_at (slot_key base (slot (steps_of H ts ! i))) (offset (steps_of H ts ! i))
      (alone_chain_consts (steps_of H ts) ! i)"
    using len assms(2,3) b(1) key_add_slot [OF assms(2), of "slot (steps_of H ts ! i)"]
    by (simp add: struct_cell_def struct_new_at_def Let_def alone_chain_consts_def)
  show "lazy_ok H (ts ! i) (struct_cell H base ts i)"
    using b(2) assms(3) by (simp add: lazy_ok_def c lazy_new_at_def shape_of_def)
qed

text \<open>The bytes of a static cell: whole slots from its key on, or its window when it shares the slot.\<close>

lemma static_cell_foot:
  assumes t: "static_field H t" and l: "l = lazy_new_at (slot_key base m) off alone"
    and x: "x \<in> lazy_foot H t l s \<or> x \<in> lazy_new_foot H t l v"
  shows "\<exists>k < st_slots (storage_of H t). fst x = slot_key base (m + k)"
    and "st_packed (storage_of H t) < 32 \<Longrightarrow> \<not> alone \<Longrightarrow> off \<le> snd x \<and> snd x < off + st_packed (storage_of H t)"
proof -
  have nd: "\<not> is_dyn t" and sl: "1 \<le> st_slots (storage_of H t)"
    using t by (auto simp: static_field_def field_ok_def shape_of_def)
  have "storage_cells H t key s = slot_keys key (st_slots (storage_of H t))"
    "storage_new_cells H t key v = slot_keys key (st_slots (storage_of H t))" for key s v
    using nd storage_of_static(1) [OF nd, of H]
    by (simp_all add: storage_cells_def storage_new_cells_def static_storage_def)
  then have "x \<in> {slot_key base m} \<times> UNIV \<or> fst x \<in> slot_keys (slot_key base m) (st_slots (storage_of H t))"
    using x by (auto simp: l lazy_new_at_def lazy_foot_def lazy_new_foot_def split: if_splits)
  then obtain k where "k < st_slots (storage_of H t)" "fst x = slot_key base (m + k)"
  proof
    assume "x \<in> {slot_key base m} \<times> UNIV"
    then show ?thesis using sl by (intro that [of 0]) auto
  qed (auto simp: slot_keys_iff slot_key_add intro: that)
  then show "\<exists>k < st_slots (storage_of H t). fst x = slot_key base (m + k)" by blast
  show "off \<le> snd x \<and> snd x < off + st_packed (storage_of H t)"
    if "st_packed (storage_of H t) < 32" "\<not> alone"
    using x that by (auto simp: l lazy_new_at_def lazy_foot_def lazy_new_foot_def lazy_window_def split: if_splits)
qed

lemma struct_cell_foot:
  assumes ok: "struct_ok H ts" "length base = 32" "i < length ts"
    and x: "x \<in> lazy_foot H (ts ! i) (struct_cell H base ts i) s \<or> x \<in> lazy_new_foot H (ts ! i) (struct_cell H base ts i) v"
  shows "\<exists>k < st_slots (storage_of H (ts ! i)). fst x = slot_key base (slot (steps_of H ts ! i) + k)"
    and "st_packed (storage_of H (ts ! i)) < 32 \<Longrightarrow> \<not> alone_chain_consts (steps_of H ts) ! i \<Longrightarrow>
      offset (steps_of H ts ! i) \<le> snd x \<and> snd x < offset (steps_of H ts ! i) + st_packed (storage_of H (ts ! i))"
proof -
  have t: "static_field H (ts ! i)" using ok(1,3) by (simp add: struct_ok_def list_all_length)
  note ft = static_cell_foot [OF t struct_cell_at(1) [OF ok] x]
  show "\<exists>k < st_slots (storage_of H (ts ! i)). fst x = slot_key base (slot (steps_of H ts ! i) + k)" by (rule ft(1))
  show "offset (steps_of H ts ! i) \<le> snd x \<and> snd x < offset (steps_of H ts ! i) + st_packed (storage_of H (ts ! i))"
    if "st_packed (storage_of H (ts ! i)) < 32" "\<not> alone_chain_consts (steps_of H ts) ! i"
    by (rule ft(2) [OF that])
qed

lemma struct_cells_apart:
  assumes ok: "struct_ok H ts" "length base = 32" and ij: "i < length ts" "j < length ts" "i \<noteq> j"
    and x: "x \<in> lazy_foot H (ts ! i) (struct_cell H base ts i) s \<or> x \<in> lazy_new_foot H (ts ! i) (struct_cell H base ts i) v"
    and y: "y \<in> lazy_foot H (ts ! j) (struct_cell H base ts j) s' \<or> y \<in> lazy_new_foot H (ts ! j) (struct_cell H base ts j) w"
  shows "x \<noteq> y"
proof -
  have main: False
    if ij: "i < j" "j < length ts" and xy: "x = y"
      and x: "x \<in> lazy_foot H (ts ! i) (struct_cell H base ts i) s \<or> x \<in> lazy_new_foot H (ts ! i) (struct_cell H base ts i) v"
      and y: "y \<in> lazy_foot H (ts ! j) (struct_cell H base ts j) s' \<or> y \<in> lazy_new_foot H (ts ! j) (struct_cell H base ts j) w"
    for i j x y s s' v w
  proof -
    let ?fs = "map (\<lambda>t. shape_of (storage_of H t)) ts"
    let ?a = "steps_of H ts ! i" and ?b = "steps_of H ts ! j"
    have i: "i < length ts" using ij by simp
    have fs: "list_all field_ok ?fs" "chain_size ?fs + 64 < usize_limit" "j < length ?fs"
      using ok(1) ij(2) by (simp_all add: struct_ok_def static_field_def list_all_iff)
    have ab: "?a = layout_chain FIRST ?fs ! i" "?b = layout_chain FIRST ?fs ! j" by (simp_all add: steps_of_def)
    note ap = chain_apart [OF fs(1,2) ij(1) fs(3) ab]
    obtain k m where k: "k < st_slots (storage_of H (ts ! i))" "fst x = slot_key base (slot ?a + k)"
      and m: "m < st_slots (storage_of H (ts ! j))" "fst y = slot_key base (slot ?b + m)"
      using struct_cell_foot(1) [OF ok i x] struct_cell_foot(1) [OF ok ij(2) y] by blast
    have "usize_limit \<le> key_space" by (simp add: usize_limit_def key_space_def)
    then have "slot ?a + k < key_space" "slot ?b + m < key_space"
      using k(1) m(1) struct_cell_at(3) [OF ok i] struct_cell_at(3) [OF ok ij(2)] by linarith+
    then have eq: "slot ?a + k = slot ?b + m"
      using xy k(2) m(2) slot_key_inj by metis
    show False
    proof (cases "slot ?a = slot ?b")
      case False
      then show False using ap(3) [OF False] eq k(1) ij i by (simp add: shape_of_def)
    next
      case True
      have "\<not> alone_chain_consts (steps_of H ts) ! i" "\<not> alone_chain_consts (steps_of H ts) ! j"
        using alone_apart [OF fs(1,2) ij(1) fs(3) steps_of_def] True by simp_all
      then show False
        using ap(2) [OF True] struct_cell_foot(2) [OF ok i x] struct_cell_foot(2) [OF ok ij(2) y] xy ij i
        by (auto simp: shape_of_def)
    qed
  qed
  show ?thesis using main [OF _ ij(2) _ x y] main [OF _ ij(1) _ y x] ij(3) by (meson linorder_neqE_nat)
qed

lemma foot_static: "\<not> is_dyn t \<Longrightarrow> lazy_foot H t l s' = lazy_foot H t l s"
  by (simp add: lazy_foot_def storage_cells_def)

lemma length_struct_new: "struct_ok H ts \<Longrightarrow> length (struct_new_at base (map (storage_of H) ts)) = length ts"
  using layout_chain_solc [of "map (\<lambda>t. shape_of (storage_of H t)) ts" FIRST]
  by (simp add: struct_ok_def static_field_def list_all_iff struct_new_at_def slot_chain_is alone_chain_consts_def
      Let_def o_def FIRST_def space_ok_def cursor_def)

lemma struct_clear_cells:
  assumes "list_all2 (\<lambda>t l. lazy_ok (mock_api h) t l \<and> \<not> is_dyn t) ts ls"
  shows "\<exists>s'. struct_clear (mock_api h) (map (storage_of (mock_api h)) ts) ls s = Some s' \<and>
    (\<forall>x. snd x < 32 \<longrightarrow> byte_at (mock_api h) s' x =
      (if \<exists>j < length ts. x \<in> lazy_foot (mock_api h) (ts ! j) (ls ! j) s then 0 else byte_at (mock_api h) s x))"
  using assms
proof (induction ts ls arbitrary: s rule: list_all2_induct)
  case (Cons t ts l ls)
  let ?H = "mock_api h"
  have l: "lazy_ok ?H t l" using Cons.hyps by simp
  obtain s1 where s1: "lazy_clear ?H (storage_of ?H t) l s = Some s1"
    "\<forall>x. snd x < 32 \<longrightarrow> byte_at ?H s1 x = (if x \<in> lazy_foot ?H t l s then 0 else byte_at ?H s x)"
    using cell.clear_foot [OF l, of s] by blast
  obtain s2 where s2: "struct_clear ?H (map (storage_of ?H) ts) ls s1 = Some s2"
    "\<forall>x. snd x < 32 \<longrightarrow> byte_at ?H s2 x =
      (if \<exists>j < length ts. x \<in> lazy_foot ?H (ts ! j) (ls ! j) s1 then 0 else byte_at ?H s1 x)"
    using Cons.IH [of s1] by blast
  have st: "lazy_foot ?H (ts ! j) (ls ! j) s1 = lazy_foot ?H (ts ! j) (ls ! j) s" if "j < length ts" for j
    using Cons.hyps(2) that by (intro foot_static) (simp add: list_all2_conv_all_nth)
  have ex: "(\<exists>j < length (t # ts). x \<in> lazy_foot ?H ((t # ts) ! j) ((l # ls) ! j) s) \<longleftrightarrow>
      x \<in> lazy_foot ?H t l s \<or> (\<exists>j < length ts. x \<in> lazy_foot ?H (ts ! j) (ls ! j) s1)" for x
    using st by (auto simp: Ex_less_Suc2)
  show ?case unfolding ex using s1 s2 by auto
qed simp

lemma explicit_pair:
  "explicit_slot_overlap_checks fs \<Longrightarrow> i < j \<Longrightarrow> j < length fs \<Longrightarrow> overlap_check (fs ! i) (fs ! j)"
proof (induction fs arbitrary: i j)
  case (Cons a fs)
  then show ?case by (cases i; cases j) (auto simp: list_all_length)
qed simp

lemma explicit_apart:
  assumes chk: "overlap_check (m, storage_of H t) (n, storage_of H u)"
    and full: "st_packed (storage_of H t) = 32" "st_packed (storage_of H u) = 32" and nd: "\<not> is_dyn t" "\<not> is_dyn u"
  shows "lazy_foot H t (explicit_field (m, storage_of H t)) s \<inter> lazy_foot H u (explicit_field (n, storage_of H u)) s' = {}"
proof -
  let ?z = "replicate 32 (0 :: byte)" and ?st = "st_slots (storage_of H t)" and ?su = "st_slots (storage_of H u)"
  have lim: "m + ?st < usize_limit" "n + ?su < usize_limit" and sep: "\<not> (m < n + ?su \<and> n < m + ?st)"
    using chk by (auto simp: overlap_check_def checked_add_def split: if_splits)
  have key: "from_slot (of_nat k) = slot_key ?z k" if "k < usize_limit" for k
    by (simp add: from_slot_key_add key_add_slot [OF _ that])
  have ft: "lazy_foot H t (explicit_field (m, storage_of H t)) s = slot_keys (slot_key ?z m) ?st \<times> {..<32}"
    "lazy_foot H u (explicit_field (n, storage_of H u)) s' = slot_keys (slot_key ?z n) ?su \<times> {..<32}"
    using full nd lim key [of m] key [of n] storage_of_static(1) [OF nd(1), of H] storage_of_static(1) [OF nd(2), of H]
    by (simp_all add: lazy_foot_def explicit_field_def lazy_new_at_def storage_cells_def static_storage_def)
  have ks: "usize_limit \<le> key_space" by (simp add: usize_limit_def key_space_def)
  have "slot_key ?z (m + a) \<noteq> slot_key ?z (n + b)" if "a < ?st" "b < ?su" for a b
  proof -
    have "m + a < key_space" "n + b < key_space" using that lim ks by linarith+
    then show ?thesis using slot_key_inj [of "m + a" "n + b" ?z] sep that by auto
  qed
  then show ?thesis unfolding ft by (auto simp: slot_keys_iff slot_key_add)
qed

section \<open>Properties\<close>

text \<open>
  C32: the fields of a contract, and of a \<open>#[storage]\<close> struct at any base key, are independent
  variables. For every list of static field types that fits the slot range, with the slots, offsets
  and \<open>alone\<close> flags the macro computes, setting field \<open>i\<close> succeeds, is read back, and changes no
  other field, also when the two share a slot; and the contract's own fields are those of a struct
  at slot zero.
\<close>

theorem struct_fields_are_variables:
  assumes "struct_ok (mock_api h) ts" "length base = 32" "i < length ts" "j < length ts" "i \<noteq> j"
    and "storage_ok (ts ! i) v" "cs = map (storage_of (mock_api h)) ts" "flds = struct_new_at base cs"
  shows "\<exists>s'. lazy_set (mock_api h) (cs ! i) (flds ! i) v s = Some s' \<and>
      lazy_get (mock_api h) (cs ! i) (flds ! i) s' = Some v \<and>
      lazy_get (mock_api h) (cs ! j) (flds ! j) s' = lazy_get (mock_api h) (cs ! j) (flds ! j) s \<and>
      contract_fields cs = struct_new_at (replicate 32 0) cs"
proof -
  let ?H = "mock_api h" and ?l = "\<lambda>k. struct_cell (mock_api h) base ts k"
  have f: "flds ! k = ?l k" for k by (simp add: assms(7,8) struct_cell_def)
  have nd: "\<not> is_dyn (ts ! i)" using assms(1,3) by (simp add: struct_ok_def static_field_def list_all_length)
  have "lazy_fits ?H (ts ! i) (?l i) v" using nd by (simp add: lazy_fits_def storage_fits_def)
  moreover have "lazy_foot ?H (ts ! j) (?l j) s \<inter> (lazy_foot ?H (ts ! i) (?l i) s \<union> lazy_new_foot ?H (ts ! i) (?l i) v) = {}"
    using struct_cells_apart [OF assms(1,2,3,4,5), of _ s v _ s] by blast
  ultimately have "\<exists>s'. lazy_set ?H (storage_of ?H (ts ! i)) (?l i) v s = Some s' \<and>
      lazy_get ?H (storage_of ?H (ts ! i)) (?l i) s' = Some v \<and>
      lazy_get ?H (storage_of ?H (ts ! j)) (?l j) s' = lazy_get ?H (storage_of ?H (ts ! j)) (?l j) s"
    using cells_are_variables [OF assms(6) struct_cell_at(2) [OF assms(1,2,3)] _ struct_cell_at(2) [OF assms(1,2,4)]]
    unfolding Let_def by blast
  then show ?thesis using assms(3,4,7) by (simp add: f contract_is_struct)
qed

theorem struct_fields_are_variables_witness:
  "let H = mock_api (\<lambda>_. 0); cs = map (storage_of H) [TPrim Address, TPrim U64, TPrim U256];
       flds = struct_new_at (replicate 32 0) cs
   in map lz_alone flds = [False, False, True] \<and>
     (\<exists>s'. lazy_set H (cs ! 1) (flds ! 1) (VPrim (VU64 7)) mock_new = Some s' \<and>
       lazy_get H (cs ! 0) (flds ! 0) s' = lazy_get H (cs ! 0) (flds ! 0) mock_new)"
proof -
  let ?H = "mock_api (\<lambda>_. 0)" and ?ts = "[TPrim Address, TPrim U64, TPrim U256]"
  have sh: "shape_of (storage_of ?H (TPrim p)) = (prim_packed p, 1)" for p
    by (simp add: shape_of_def static_storage_def static_prim_def)
  have ok: "struct_ok ?H ?ts"
    by (simp add: struct_ok_def static_field_def sh field_ok_def is_dyn_def chain_size_def usize_limit_def
        del: storage_of.simps)
  have "storage_ok (?ts ! 1) (VPrim (VU64 7))"
    by (simp add: storage_ok_prim prim_ok_def prim_wt_def del: storage_ok.simps)
  note r = struct_fields_are_variables [OF ok, of "replicate 32 0" 1 0 "VPrim (VU64 7)", OF _ _ _ _ this refl refl, of mock_new]
  have "map lz_alone (struct_new_at (replicate 32 0) (map (storage_of ?H) ?ts)) = [False, False, True]"
    by (simp add: struct_new_at_def slot_chain_is sh alone_chain_consts_def upt_rec layout_step_def FIRST_def Let_def
        lazy_new_at_def usize_limit_def del: storage_of.simps)
  then show ?thesis using r unfolding Let_def by auto
qed

text \<open>
  \<open>delete\<close> of a \<open>#[storage]\<close> struct clears it and nothing else. For static fields, \<open>clear\<close>
  succeeds, every byte that belongs to one of the fields is zero afterwards, and every other byte of
  storage keeps its value.
\<close>

theorem struct_clear_exact:
  assumes "struct_ok (mock_api h) ts" "length base = 32" "cs = map (storage_of (mock_api h)) ts"
  shows "\<exists>s'. struct_clear (mock_api h) cs (struct_new_at base cs) s = Some s' \<and>
    (\<forall>k i. i < 32 \<longrightarrow> byte_at (mock_api h) s' (k, i) =
      (if \<exists>j < length ts. (k, i) \<in> lazy_foot (mock_api h) (ts ! j) (struct_new_at base cs ! j) s then 0
       else byte_at (mock_api h) s (k, i)))"
proof -
  let ?H = "mock_api h" and ?ls = "struct_new_at base cs"
  have cell: "struct_new_at base (map (storage_of ?H) ts) ! k = struct_cell ?H base ts k" for k
    by (simp add: struct_cell_def)
  have "list_all2 (\<lambda>t l. lazy_ok ?H t l \<and> \<not> is_dyn t) ts ?ls"
    unfolding list_all2_conv_all_nth
    using struct_cell_at(2) [OF assms(1,2)] length_struct_new [OF assms(1), of base] assms(1)
    unfolding assms(3) cell by (auto simp: struct_ok_def static_field_def list_all_length)
  from struct_clear_cells [OF this, of s] show ?thesis unfolding assms(3) by force
qed

theorem struct_clear_exact_witness:
  "\<exists>s'. struct_clear (mock_api (\<lambda>_. 0)) (map (storage_of (mock_api (\<lambda>_. 0))) [TPrim U256])
      (struct_new_at (replicate 32 0) (map (storage_of (mock_api (\<lambda>_. 0))) [TPrim U256])) mock_new = Some s'"
proof -
  let ?H = "mock_api (\<lambda>_. 0)"
  have sh: "shape_of (storage_of ?H (TPrim p)) = (prim_packed p, 1)" for p
    by (simp add: shape_of_def static_storage_def static_prim_def)
  have "struct_ok ?H [TPrim U256]"
    by (simp add: struct_ok_def static_field_def sh field_ok_def is_dyn_def chain_size_def usize_limit_def
        del: storage_of.simps)
  from struct_clear_exact [OF this, of "replicate 32 0", OF _ refl, of mock_new] show ?thesis by auto
qed

text \<open>
  C35: explicitly numbered fields do not collide. If the checks the macro emits for \<open>#[slot(N)]\<close>
  fields accept, then for any two static fields, setting one is read back and leaves the other
  unchanged.
\<close>

theorem explicit_slots_are_variables:
  assumes "explicit_slot_overlap_checks fs" "explicit_slot_full_slot_only_checks fs"
    and "fs = map (\<lambda>(n, t). (n, storage_of (mock_api h) t)) nts"
    and "i < j" "j < length nts" "nts ! i = (m, t)" "nts ! j = (n, u)" "\<not> is_dyn t" "\<not> is_dyn u"
    and "storage_ok t v" "storage_ok u w"
  shows "\<exists>s1 s2. lazy_set (mock_api h) (snd (fs ! i)) (explicit_field (fs ! i)) v s = Some s1 \<and>
      lazy_set (mock_api h) (snd (fs ! j)) (explicit_field (fs ! j)) w s1 = Some s2 \<and>
      lazy_get (mock_api h) (snd (fs ! i)) (explicit_field (fs ! i)) s2 = Some v \<and>
      lazy_get (mock_api h) (snd (fs ! j)) (explicit_field (fs ! j)) s2 = Some w"
proof -
  let ?H = "mock_api h" and ?a = "explicit_field (m, storage_of (mock_api h) t)" and ?b = "explicit_field (n, storage_of (mock_api h) u)"
  have f: "fs ! i = (m, storage_of ?H t)" "fs ! j = (n, storage_of ?H u)" "length fs = length nts"
    using assms(3-7) by simp_all
  have chk: "overlap_check (m, storage_of ?H t) (n, storage_of ?H u)"
    using explicit_pair [OF assms(1,4)] assms(5) f by simp
  have full: "st_packed (storage_of ?H t) = 32" "st_packed (storage_of ?H u) = 32"
    using assms(2,4,5) f by (auto simp: explicit_slot_full_slot_only_checks_def list_all_length dest: spec [of _ i] spec [of _ j])
  have ok: "lazy_ok ?H t ?a" "lazy_ok ?H u ?b" and fits: "lazy_fits ?H t ?a v" "lazy_fits ?H u ?b w"
    using full assms(8,9) by (simp_all add: lazy_ok_def explicit_field_def lazy_new_at_def from_slot_is lazy_fits_def storage_fits_def)
  have dj: "lazy_foot ?H t ?a s \<inter> lazy_foot ?H u ?b s' = {}" for s s'
    by (rule explicit_apart [OF chk full assms(8,9)])
  have new: "lazy_new_foot ?H t ?a x = lazy_foot ?H t ?a s" "lazy_new_foot ?H u ?b x = lazy_foot ?H u ?b s" for x s
    using assms(8,9) by (simp_all add: lazy_foot_def lazy_new_foot_def storage_cells_def storage_new_cells_def)
  obtain s1 where s1: "lazy_set ?H (storage_of ?H t) ?a v s = Some s1" "lazy_get ?H (storage_of ?H t) ?a s1 = Some v"
    using cell.set_get [OF assms(10) ok(1) fits(1), of s] by blast
  have d1: "lazy_foot ?H t ?a s1 \<inter> (lazy_foot ?H u ?b s1 \<union> lazy_new_foot ?H u ?b w) = {}"
    using dj new by blast
  from cells_are_variables [OF assms(11) ok(2) fits(2) ok(1) d1, unfolded Let_def]
  obtain s2 where "lazy_set ?H (storage_of ?H u) ?b w s1 = Some s2" "lazy_get ?H (storage_of ?H u) ?b s2 = Some w"
    "lazy_get ?H (storage_of ?H t) ?a s2 = lazy_get ?H (storage_of ?H t) ?a s1" by blast
  then show ?thesis using s1 by (simp add: f)
qed

theorem explicit_slots_are_variables_witness:
  "\<exists>s1 s2. lazy_set (mock_api (\<lambda>_. 0)) (storage_of (mock_api (\<lambda>_. 0)) (TPrim U256))
        (explicit_field (5, storage_of (mock_api (\<lambda>_. 0)) (TPrim U256))) (VPrim (VU256 1)) mock_new = Some s1 \<and>
      lazy_set (mock_api (\<lambda>_. 0)) (storage_of (mock_api (\<lambda>_. 0)) (TPrim U256))
        (explicit_field (6, storage_of (mock_api (\<lambda>_. 0)) (TPrim U256))) (VPrim (VU256 2)) s1 = Some s2 \<and>
      lazy_get (mock_api (\<lambda>_. 0)) (storage_of (mock_api (\<lambda>_. 0)) (TPrim U256))
        (explicit_field (5, storage_of (mock_api (\<lambda>_. 0)) (TPrim U256))) s2 = Some (VPrim (VU256 1))"
proof -
  let ?H = "mock_api (\<lambda>_. 0)" and ?fs = "map (\<lambda>(n, t). (n, storage_of (mock_api (\<lambda>_. 0)) t)) [(5, TPrim U256), (6, TPrim U256)]"
  have c: "st_packed (storage_of ?H (TPrim U256)) = 32" "st_slots (storage_of ?H (TPrim U256)) = 1"
    by (simp_all add: static_storage_def static_prim_def)
  have chk: "explicit_slot_overlap_checks ?fs" "explicit_slot_full_slot_only_checks ?fs"
    by (simp_all add: overlap_check_def explicit_slot_full_slot_only_checks_def c checked_add_def usize_limit_def
        del: storage_of.simps)
  have ok: "storage_ok (TPrim U256) (VPrim (VU256 x))" for x
    by (simp add: storage_ok_prim prim_ok_def prim_wt_def del: storage_ok.simps)
  show ?thesis
    using explicit_slots_are_variables [OF chk refl, of 0 1 5 "TPrim U256" 6 "TPrim U256" "VPrim (VU256 1)" "VPrim (VU256 2)" mock_new]
      ok by (auto simp: is_dyn_def simp del: storage_of.simps storage_ok.simps)
qed

end
