(* ===== verification/StorageVec.thy ===== *)
theory StorageVec
  imports StorageStruct
begin

text \<open>
  \<open>StorageVec<S>\<close> of \<open>pvm-storage\<close>, over any element type: the trait \<open>StorageType\<close> is the
  dictionary \<open>storage_ty\<close>, with the value leaves, \<open>Mapping\<close>, \<open>StorageVec\<close> and \<open>#[storage]\<close> structs
  as its instances. \<open>get\<close> of a leaf yields its value, of a container a handle, which is its root
  key. Lengths and indices are \<open>u64\<close>. The \<open>OnceCell\<close> cache of the body base holds a function of the
  root and is not state.
\<close>

section \<open>StorageType\<close>

datatype got = GVal sol_val | GRef bytes
datatype cursor_mut = MCell lazy | MRef bytes

record 's storage_ty =
  SLOTS :: nat
  PACKED :: nat
  NEEDS_RECURSIVE_CLEAR :: bool
  get_at :: "bytes \<Rightarrow> nat \<Rightarrow> 's \<Rightarrow> ('s, got) res"
  get_mut_at :: "bytes \<Rightarrow> nat \<Rightarrow> bool \<Rightarrow> cursor_mut"
  clear_at :: "bytes \<Rightarrow> nat \<Rightarrow> bool \<Rightarrow> 's \<Rightarrow> ('s, unit) res"

text \<open>A leaf operation that panics traps; it has stored nothing then.\<close>

definition value_or_trap :: "('a \<Rightarrow> 'b) \<Rightarrow> 'a option \<Rightarrow> 's \<Rightarrow> ('s, 'b) res" where
  "value_or_trap f r s = (case r of None \<Rightarrow> (Inl Trap, s) | Some a \<Rightarrow> (Inr (f a), s))"

definition store_or_trap :: "'s option \<Rightarrow> 's \<Rightarrow> ('s, unit) res" where
  "store_or_trap r s = (case r of None \<Rightarrow> (Inl Trap, s) | Some s' \<Rightarrow> (Inr (), s'))"

definition leaf_storage_type :: "'s host_api \<Rightarrow> 's storage_codec \<Rightarrow> 's storage_ty" where
  "leaf_storage_type H c =
     \<lparr> SLOTS = st_slots c, PACKED = st_packed c, NEEDS_RECURSIVE_CLEAR = HAS_DYNAMIC_BODY c,
       get_at = \<lambda>key off s. value_or_trap GVal (leaf_get_at H c key off s) s,
       get_mut_at = \<lambda>key off alone. MCell (lazy_new_at key off alone),
       clear_at = \<lambda>key off alone s. store_or_trap (leaf_clear_at H c key off alone s) s \<rparr>"

definition mapping_storage_type :: "'s storage_ty" where
  "mapping_storage_type =
     \<lparr> SLOTS = 1, PACKED = 32, NEEDS_RECURSIVE_CLEAR = True,
       get_at = \<lambda>key off s. (Inr (GRef key), s),
       get_mut_at = \<lambda>key off alone. MRef key,
       clear_at = \<lambda>key off alone s. (Inr (), s) \<rparr>"

section \<open>Addressing\<close>

definition body_base :: "'s host_api \<Rightarrow> bytes \<Rightarrow> bytes" where
  "body_base H root = storage_derive_body_base H root"

definition per_slot :: "'s storage_ty \<Rightarrow> 64 word" where
  "per_slot S = (if PACKED S = 32 then 1 else of_nat (32 div PACKED S))"

definition checked_mul64 :: "64 word \<Rightarrow> nat \<Rightarrow> 64 word option" where
  "checked_mul64 a n = (if unat a * n < 2 ^ 64 then Some (of_nat (unat a * n)) else None)"

definition slot_index_for :: "'s storage_ty \<Rightarrow> 64 word \<Rightarrow> 's \<Rightarrow> ('s, 64 word) res" where
  "slot_index_for S i s =
     (if PACKED S < 32 then (Inr (i div per_slot S), s)
      else if SLOTS S > 1 then
        (case checked_mul64 i (SLOTS S) of Some v \<Rightarrow> (Inr v, s) | None \<Rightarrow> panic_revert Overflow s)
      else (Inr i, s))"

definition element_offset :: "'s storage_ty \<Rightarrow> 64 word \<Rightarrow> nat" where
  "element_offset S i =
     (if PACKED S < 32 then (let within = unat (i mod per_slot S) in 32 - PACKED S * (within + 1)) else 0)"

definition element_slot :: "'s host_api \<Rightarrow> 's storage_ty \<Rightarrow> bytes \<Rightarrow> 64 word \<Rightarrow> 's \<Rightarrow> ('s, bytes) res" where
  "element_slot H S root i s =
     hbind (slot_index_for S i s) (\<lambda>n s. (Inr (inc_slot_by (body_base H root) n), s))"

section \<open>Reading\<close>

definition vec_len :: "'s host_api \<Rightarrow> bytes \<Rightarrow> 's \<Rightarrow> ('s, 64 word) res" where
  "vec_len H root s = read_len H root s"

definition vec_checked_len :: "'s host_api \<Rightarrow> bytes \<Rightarrow> 's \<Rightarrow> 64 word option" where
  "vec_checked_len H root s = try_read_len H root s"

definition vec_is_empty :: "'s host_api \<Rightarrow> bytes \<Rightarrow> 's \<Rightarrow> bool" where
  "vec_is_empty H root s = (case vec_checked_len H root s of None \<Rightarrow> True | Some n \<Rightarrow> n = 0)"

text \<open>\<open>S::get_at(self.element_slot(i), Self::element_offset(i), &self.host)\<close>.\<close>

definition elem_get :: "'s host_api \<Rightarrow> 's storage_ty \<Rightarrow> bytes \<Rightarrow> 64 word \<Rightarrow> 's \<Rightarrow> ('s, got) res" where
  "elem_get H S root i s =
     hbind (element_slot H S root i s) (\<lambda>key s. get_at S key (element_offset S i) s)"

definition vec_get :: "'s host_api \<Rightarrow> 's storage_ty \<Rightarrow> bytes \<Rightarrow> 64 word \<Rightarrow> 's \<Rightarrow> ('s, got) res" where
  "vec_get H S root index s =
     hbind (vec_len H root s) (\<lambda>len s.
     if index \<ge> len then panic_revert OutOfBoundsAccess s else elem_get H S root index s)"

definition vec_try_get :: "'s host_api \<Rightarrow> 's storage_ty \<Rightarrow> bytes \<Rightarrow> 64 word \<Rightarrow> 's \<Rightarrow> ('s, got option) res" where
  "vec_try_get H S root index s =
     (case vec_checked_len H root s of None \<Rightarrow> (Inr None, s)
      | Some len \<Rightarrow> if index \<ge> len then (Inr None, s)
                  else hbind (elem_get H S root index s) (\<lambda>g s. (Inr (Some g), s)))"

definition vec_first :: "'s host_api \<Rightarrow> 's storage_ty \<Rightarrow> bytes \<Rightarrow> 's \<Rightarrow> ('s, got option) res" where
  "vec_first H S root s = vec_try_get H S root 0 s"

definition vec_last :: "'s host_api \<Rightarrow> 's storage_ty \<Rightarrow> bytes \<Rightarrow> 's \<Rightarrow> ('s, got option) res" where
  "vec_last H S root s =
     (case vec_checked_len H root s of None \<Rightarrow> (Inr None, s)
      | Some len \<Rightarrow> if len = 0 then (Inr None, s)
                  else hbind (elem_get H S root (len - 1) s) (\<lambda>g s. (Inr (Some g), s)))"

section \<open>Writing\<close>

definition elem_mut :: "'s host_api \<Rightarrow> 's storage_ty \<Rightarrow> bytes \<Rightarrow> 64 word \<Rightarrow> 's \<Rightarrow> ('s, cursor_mut) res" where
  "elem_mut H S root i s =
     (let alone = (per_slot S = 1) in
      hbind (element_slot H S root i s) (\<lambda>key s. (Inr (get_mut_at S key (element_offset S i) alone), s)))"

definition elem_alone :: "'s storage_ty \<Rightarrow> 64 word \<Rightarrow> bool" where
  "elem_alone S i = (if PACKED S < 32 then i mod per_slot S = 0 else True)"

definition elem_clear :: "'s host_api \<Rightarrow> 's storage_ty \<Rightarrow> bytes \<Rightarrow> 64 word \<Rightarrow> 's \<Rightarrow> ('s, unit) res" where
  "elem_clear H S root i s =
     (let alone = elem_alone S i in
      hbind (element_slot H S root i s) (\<lambda>key s. clear_at S key (element_offset S i) alone s))"

definition vec_entry :: "'s host_api \<Rightarrow> 's storage_ty \<Rightarrow> bytes \<Rightarrow> 64 word \<Rightarrow> 's \<Rightarrow> ('s, cursor_mut) res" where
  "vec_entry H S root index s =
     hbind (vec_len H root s) (\<lambda>len s.
     if index \<ge> len then panic_revert OutOfBoundsAccess s else elem_mut H S root index s)"

definition checked_add64 :: "64 word \<Rightarrow> 64 word \<Rightarrow> 64 word option" where
  "checked_add64 a b = (if unat a + unat b < 2 ^ 64 then Some (a + b) else None)"

definition vec_grow :: "'s host_api \<Rightarrow> 's storage_ty \<Rightarrow> bytes \<Rightarrow> 's \<Rightarrow> ('s, cursor_mut) res" where
  "vec_grow H S root s =
     hbind (vec_len H root s) (\<lambda>len s.
     case checked_add64 len 1 of None \<Rightarrow> panic_revert OOM s
     | Some new_len \<Rightarrow> elem_mut H S root len (write_len_u64 H root new_len s))"

definition vec_erase_last :: "'s host_api \<Rightarrow> 's storage_ty \<Rightarrow> bytes \<Rightarrow> 's \<Rightarrow> ('s, bool) res" where
  "vec_erase_last H S root s =
     hbind (vec_len H root s) (\<lambda>len s.
     if len = 0 then (Inr False, s)
     else (let new_len = len - 1 in
       hbind (elem_clear H S root new_len s) (\<lambda>_ s. (Inr True, write_len_u64 H root new_len s))))"

primrec clear_elems :: "'s host_api \<Rightarrow> 's storage_ty \<Rightarrow> bytes \<Rightarrow> 64 word \<Rightarrow> nat \<Rightarrow> 's \<Rightarrow> ('s, unit) res" where
  "clear_elems H S root i 0 s = (Inr (), s)"
| "clear_elems H S root i (Suc n) s =
     hbind (elem_clear H S root i s) (\<lambda>_. clear_elems H S root (i + 1) n)"

primrec zero_slots :: "'s host_api \<Rightarrow> nat \<Rightarrow> bytes \<Rightarrow> 's \<Rightarrow> 's" where
  "zero_slots H 0 key s = s"
| "zero_slots H (Suc n) key s = zero_slots H n (inc_be_32 key) (storage_set_32 H key (replicate 32 0) s)"

definition vec_clear :: "'s host_api \<Rightarrow> 's storage_ty \<Rightarrow> bytes \<Rightarrow> 's \<Rightarrow> ('s, unit) res" where
  "vec_clear H S root s =
     hbind (vec_len H root s) (\<lambda>len s.
     hbind (if len > 0 then
              if NEEDS_RECURSIVE_CLEAR S then clear_elems H S root 0 (unat len) s
              else if PACKED S < 32 then
                (Inr (), zero_slots H (div_ceil (unat len) (unat (per_slot S))) (body_base H root) s)
              else (case checked_mul64 len (SLOTS S) of
                  None \<Rightarrow> panic_revert Overflow s
                | Some total_slots \<Rightarrow> (Inr (), zero_slots H (unat total_slots) (body_base H root) s))
            else (Inr (), s)) (\<lambda>_ s.
     (Inr (), storage_set_32 H root (replicate 32 0) s)))"

section \<open>Writing values\<close>

text \<open>By-value operations, for a leaf element with codec \<open>c\<close>.\<close>

definition vec_write_value_at ::
  "'s host_api \<Rightarrow> 's storage_codec \<Rightarrow> bytes \<Rightarrow> 64 word \<Rightarrow> sol_val \<Rightarrow> 's \<Rightarrow> ('s, unit) res" where
  "vec_write_value_at H c root i value s =
     (let S = leaf_storage_type H c; alone = (per_slot S = 1) in
      hbind (element_slot H S root i s) (\<lambda>key s.
        store_or_trap (leaf_write_value H c value key (element_offset S i) alone s) s))"

definition vec_set :: "'s host_api \<Rightarrow> 's storage_codec \<Rightarrow> bytes \<Rightarrow> 64 word \<Rightarrow> sol_val \<Rightarrow> 's \<Rightarrow> ('s, unit) res" where
  "vec_set H c root index value s =
     hbind (vec_len H root s) (\<lambda>len s.
     if index \<ge> len then panic_revert OutOfBoundsAccess s
     else vec_write_value_at H c root index value s)"

definition vec_push :: "'s host_api \<Rightarrow> 's storage_codec \<Rightarrow> bytes \<Rightarrow> sol_val \<Rightarrow> 's \<Rightarrow> ('s, unit) res" where
  "vec_push H c root value s =
     hbind (vec_len H root s) (\<lambda>len s.
     case checked_add64 len 1 of None \<Rightarrow> panic_revert OOM s
     | Some new_len \<Rightarrow>
         hbind (vec_write_value_at H c root len value s) (\<lambda>_ s.
           (Inr (), write_len_u64 H root new_len s)))"

definition vec_pop :: "'s host_api \<Rightarrow> 's storage_codec \<Rightarrow> bytes \<Rightarrow> 's \<Rightarrow> ('s, sol_val option) res" where
  "vec_pop H c root s =
     (let S = leaf_storage_type H c in
      hbind (vec_len H root s) (\<lambda>len s.
      if len = 0 then (Inr None, s)
      else (let new_len = len - 1 in
        hbind (element_slot H S root new_len s) (\<lambda>key s.
        case lazy_take H c (lazy_new_at key (element_offset S new_len) (elem_alone S new_len)) s of
          None \<Rightarrow> (Inl Trap, s)
        | Some (value, s) \<Rightarrow> (Inr (Some value), write_len_u64 H root new_len s)))))"

section \<open>Iteration\<close>

record vec_iter =
  it_pos :: "64 word"
  it_len :: "64 word"

definition iter_new :: "'s host_api \<Rightarrow> bytes \<Rightarrow> 's \<Rightarrow> vec_iter" where
  "iter_new H root s =
     \<lparr> it_pos = 0, it_len = (case vec_checked_len H root s of Some n \<Rightarrow> n | None \<Rightarrow> 0) \<rparr>"

definition iter_next :: "'s host_api \<Rightarrow> 's storage_ty \<Rightarrow> bytes \<Rightarrow> vec_iter \<Rightarrow> 's \<Rightarrow> ('s, got option \<times> vec_iter) res" where
  "iter_next H S root it s =
     (if it_pos it \<ge> it_len it then (Inr (None, it), s)
      else hbind (elem_get H S root (it_pos it) s) (\<lambda>item s.
        (Inr (Some item, it\<lparr>it_pos := it_pos it + 1\<rparr>), s)))"

definition iter_next_back :: "'s host_api \<Rightarrow> 's storage_ty \<Rightarrow> bytes \<Rightarrow> vec_iter \<Rightarrow> 's \<Rightarrow> ('s, got option \<times> vec_iter) res" where
  "iter_next_back H S root it s =
     (if it_pos it \<ge> it_len it then (Inr (None, it), s)
      else (let it = it\<lparr>it_len := it_len it - 1\<rparr> in
        hbind (elem_get H S root (it_len it) s) (\<lambda>item s. (Inr (Some item, it), s))))"

definition iter_size_hint :: "vec_iter \<Rightarrow> 64 word" where
  "iter_size_hint it = it_len it - it_pos it"

section \<open>Containers of containers\<close>

definition vec_storage_type :: "'s host_api \<Rightarrow> 's storage_ty \<Rightarrow> 's storage_ty" where
  "vec_storage_type H S =
     \<lparr> SLOTS = 1, PACKED = 32, NEEDS_RECURSIVE_CLEAR = True,
       get_at = \<lambda>key off s. (Inr (GRef key), s),
       get_mut_at = \<lambda>key off alone. MRef key,
       clear_at = \<lambda>key off alone s. vec_clear H S key s \<rparr>"

section \<open>Where the elements lie\<close>

text \<open>
  For static leaf elements, in natural numbers: element \<open>i\<close> starts at slot \<open>vec_idx\<close> of the body and
  byte \<open>vec_off\<close> of that slot. \<open>vec_room\<close> says that \<open>n\<close> elements can be addressed, and that their
  slots do not meet the length slot (which the hash of the root makes so).
\<close>

definition vec_per :: "'s host_api \<Rightarrow> sol_ty \<Rightarrow> nat" where
  "vec_per H t = 32 div st_packed (storage_of H t)"

definition vec_idx :: "'s host_api \<Rightarrow> sol_ty \<Rightarrow> nat \<Rightarrow> nat" where
  "vec_idx H t i = (if st_packed (storage_of H t) < 32 then i div vec_per H t else i * st_slots (storage_of H t))"

definition vec_off :: "'s host_api \<Rightarrow> sol_ty \<Rightarrow> nat \<Rightarrow> nat" where
  "vec_off H t i =
     (if st_packed (storage_of H t) < 32 then 32 - st_packed (storage_of H t) * (i mod vec_per H t + 1) else 0)"

definition vec_cell :: "'s host_api \<Rightarrow> sol_ty \<Rightarrow> bytes \<Rightarrow> nat \<Rightarrow> bool \<Rightarrow> lazy" where
  "vec_cell H t root i alone = lazy_new_at (slot_key (body_base H root) (vec_idx H t i)) (vec_off H t i) alone"

definition vec_region :: "'s host_api \<Rightarrow> sol_ty \<Rightarrow> bytes \<Rightarrow> nat \<Rightarrow> bytes set" where
  "vec_region H t root n =
     (\<Union>i < n. \<Union>k < st_slots (storage_of H t). {slot_key (body_base H root) (vec_idx H t i + k)})"

definition vec_room :: "'s host_api \<Rightarrow> sol_ty \<Rightarrow> bytes \<Rightarrow> nat \<Rightarrow> bool" where
  "vec_room H t root n \<longleftrightarrow> static_field H t \<and> n * st_slots (storage_of H t) < 2 ^ 64 \<and> root \<notin> vec_region H t root n"

lemma leaf_consts [simp]:
  "SLOTS (leaf_storage_type H c) = st_slots c" "PACKED (leaf_storage_type H c) = st_packed c"
  "NEEDS_RECURSIVE_CLEAR (leaf_storage_type H c) = HAS_DYNAMIC_BODY c"
  "get_at (leaf_storage_type H c) key off s = value_or_trap GVal (leaf_get_at H c key off s) s"
  by (simp_all add: leaf_storage_type_def)

lemma static_field_facts:
  assumes "static_field H t"
  shows "1 \<le> st_packed (storage_of H t)" "st_packed (storage_of H t) \<le> 32" "1 \<le> st_slots (storage_of H t)"
    "st_packed (storage_of H t) < 32 \<Longrightarrow> st_slots (storage_of H t) = 1" "\<not> HAS_DYNAMIC_BODY (storage_of H t)"
    "\<not> is_dyn t"
  using assms storage_of_static(1) [of t H]
  by (auto simp: static_field_def field_ok_def shape_of_def static_storage_def)

lemma vec_per_bounds:
  assumes "static_field H t"
  shows "1 \<le> vec_per H t" "vec_per H t \<le> 32" "vec_per H t * st_packed (storage_of H t) \<le> 32"
  using static_field_facts(1,2) [OF assms] by (simp_all add: vec_per_def div_le_dividend div_greater_zero_iff Suc_le_eq)

lemma window_fits:
  assumes "static_field H t"
  shows "st_packed (storage_of H t) * (k mod vec_per H t + 1) \<le> 32"
proof -
  let ?p = "st_packed (storage_of H t)"
  have "k mod vec_per H t + 1 \<le> vec_per H t" using vec_per_bounds(1) [OF assms] by (simp add: Suc_le_eq)
  then have "(k mod vec_per H t + 1) * ?p \<le> vec_per H t * ?p" by (rule mult_le_mono1)
  then have "(k mod vec_per H t + 1) * ?p \<le> 32" using vec_per_bounds(3) [OF assms] by (rule order_trans)
  then show ?thesis by (simp only: mult.commute)
qed

lemma unat64: "n < 2 ^ 64 \<Longrightarrow> unat (of_nat n :: 64 word) = n"
  by (simp add: unat_of_nat)

lemma unat_per_slot:
  assumes "static_field H t"
  shows "unat (per_slot (leaf_storage_type H (storage_of H t))) = vec_per H t"
proof (cases "st_packed (storage_of H t) = 32")
  case False
  have "vec_per H t < 2 ^ 64" using vec_per_bounds(2) [OF assms] by simp
  then show ?thesis using False by (simp add: per_slot_def vec_per_def [symmetric] unat64)
qed (simp add: per_slot_def vec_per_def)

lemma vec_room_less:
  assumes "vec_room H t root n" "i < n"
  shows "i < 2 ^ 64" "vec_idx H t i + st_slots (storage_of H t) < 2 ^ 64" "i * st_slots (storage_of H t) < 2 ^ 64"
proof -
  let ?m = "st_slots (storage_of H t)"
  have t: "static_field H t" and n: "n * ?m < 2 ^ 64" using assms(1) by (simp_all add: vec_room_def)
  note f = static_field_facts [OF t]
  have "(i + 1) * ?m \<le> n * ?m" using assms(2) by (intro mult_right_mono) simp_all
  then have m: "i * ?m + ?m < 2 ^ 64" using n by simp
  then show "i * ?m < 2 ^ 64" by simp
  have "i \<le> i * ?m" using f(3) by (cases ?m) auto
  then show "i < 2 ^ 64" using m by linarith
  show "vec_idx H t i + ?m < 2 ^ 64"
  proof (cases "st_packed (storage_of H t) < 32")
    case True
    then have "vec_idx H t i = i div vec_per H t" "?m = 1" "i + 1 < 2 ^ 64"
      using f(4) m by (simp_all add: vec_idx_def)
    then show ?thesis using div_le_dividend [of i "vec_per H t"] by linarith
  qed (use m in \<open>simp add: vec_idx_def\<close>)
qed

context keccak_host
begin

lemma length_body_base [simp]: "length (body_base H root) = 32"
  by (simp add: body_base_def storage_derive_body_base_def)

lemma element_slot_is:
  assumes r: "vec_room H t root n" "i < n"
  shows "element_slot H (leaf_storage_type H (storage_of H t)) root (of_nat i) s =
      (Inr (slot_key (body_base H root) (vec_idx H t i)), s)"
    and "element_offset (leaf_storage_type H (storage_of H t)) (of_nat i) = vec_off H t i"
    and "elem_alone (leaf_storage_type H (storage_of H t)) (of_nat i) \<longleftrightarrow>
      (st_packed (storage_of H t) < 32 \<longrightarrow> i mod vec_per H t = 0)"
proof -
  let ?S = "leaf_storage_type H (storage_of H t)"
  have t: "static_field H t" using r(1) by (simp add: vec_room_def)
  note lt = vec_room_less [OF r]
  have i: "unat (of_nat i :: 64 word) = i" by (rule unat64 [OF lt(1)])
  have d: "unat (of_nat i div per_slot ?S) = i div vec_per H t" "unat (of_nat i mod per_slot ?S) = i mod vec_per H t"
    by (simp_all add: unat_div_distrib unat_mod_distrib unat_per_slot [OF t] i)
  show "element_offset ?S (of_nat i) = vec_off H t i"
    by (simp add: element_offset_def vec_off_def d)
  show "elem_alone ?S (of_nat i) \<longleftrightarrow> (st_packed (storage_of H t) < 32 \<longrightarrow> i mod vec_per H t = 0)"
    using d(2) by (simp add: elem_alone_def unat_eq_0 [symmetric] del: unat_eq_0)
  have mul: "checked_mul64 (of_nat i) (st_slots (storage_of H t)) = Some (of_nat (i * st_slots (storage_of H t)))"
    using lt(3) by (simp add: checked_mul64_def i)
  have "slot_index_for ?S (of_nat i) s = (Inr (of_nat (vec_idx H t i)), s)"
  proof (cases "st_packed (storage_of H t) < 32")
    case True
    have "i div vec_per H t < 2 ^ 64" using lt(1) div_le_dividend [of i "vec_per H t"] by linarith
    then have "of_nat i div per_slot ?S = of_nat (i div vec_per H t)"
      unfolding word_unat_eq_iff by (simp only: d unat64)
    then show ?thesis using True by (simp add: slot_index_for_def vec_idx_def)
  next
    case False
    then show ?thesis
      using mul static_field_facts(3) [OF t] by (auto simp: slot_index_for_def vec_idx_def not_less le_Suc_eq)
  qed
  moreover have "vec_idx H t i < 2 ^ 64" using lt(2) by simp
  ultimately show "element_slot H ?S root (of_nat i) s = (Inr (slot_key (body_base H root) (vec_idx H t i)), s)"
    by (simp add: element_slot_def inc_slot_by_is unat64)
qed

end

section \<open>Elements do not meet\<close>

text \<open>
  Element \<open>i\<close> occupies its own bytes. A flag \<open>alone\<close> on a packed element claims the whole slot, which
  is harmless when no other element of concern lies in it.
\<close>

lemma vec_cell_ok:
  assumes "vec_room H t root n" "i < n"
  shows "lazy_ok H t (vec_cell H t root i alone)"
proof -
  have t: "static_field H t" using assms(1) by (simp add: vec_room_def)
  have "vec_off H t i + st_packed (storage_of H t) \<le> 32"
  proof (cases "st_packed (storage_of H t) < 32")
    case True
    let ?p = "st_packed (storage_of H t)" and ?w = "i mod vec_per H t"
    have "?p * (?w + 1) \<le> 32" by (rule window_fits [OF t])
    moreover have "?p \<le> ?p * (?w + 1)" by simp
    ultimately show ?thesis using True by (simp add: vec_off_def)
  qed (use static_field_facts(2) [OF t] in \<open>simp add: vec_off_def\<close>)
  then show ?thesis by (simp add: lazy_ok_def vec_cell_def lazy_new_at_def)
qed

definition vec_apart :: "'s host_api \<Rightarrow> sol_ty \<Rightarrow> nat \<Rightarrow> bool \<Rightarrow> nat \<Rightarrow> bool \<Rightarrow> bool" where
  "vec_apart H t i a j b \<longleftrightarrow>
     (st_packed (storage_of H t) < 32 \<longrightarrow> a \<or> b \<longrightarrow> i div vec_per H t \<noteq> j div vec_per H t)"

lemma vec_cells_apart:
  assumes r: "vec_room H t root n" "i < n" "j < n" "i \<noteq> j" "vec_apart H t i a j b"
    and x: "x \<in> lazy_foot H t (vec_cell H t root i a) s \<or> x \<in> lazy_new_foot H t (vec_cell H t root i a) v"
    and y: "y \<in> lazy_foot H t (vec_cell H t root j b) s' \<or> y \<in> lazy_new_foot H t (vec_cell H t root j b) w"
  shows "x \<noteq> y"
proof
  assume xy: "x = y"
  let ?p = "st_packed (storage_of H t)" and ?m = "st_slots (storage_of H t)" and ?per = "vec_per H t"
  have t: "static_field H t" using r(1) by (simp add: vec_room_def)
  obtain k where k: "k < ?m" "fst x = slot_key (body_base H root) (vec_idx H t i + k)"
    using static_cell_foot(1) [OF t vec_cell_def x] by blast
  obtain l where l: "l < ?m" "fst y = slot_key (body_base H root) (vec_idx H t j + l)"
    using static_cell_foot(1) [OF t vec_cell_def y] by blast
  have "(2 :: nat) ^ 64 \<le> key_space" by (simp add: key_space_def)
  then have "vec_idx H t i + k < key_space" "vec_idx H t j + l < key_space"
    using k(1) l(1) vec_room_less(2) [OF r(1,2)] vec_room_less(2) [OF r(1,3)] by linarith+
  then have eq: "vec_idx H t i + k = vec_idx H t j + l" using xy k(2) l(2) slot_key_inj by metis
  show False
  proof (cases "?p < 32")
    case True
    then have same: "i div ?per = j div ?per"
      using eq k(1) l(1) static_field_facts(4) [OF t] by (simp add: vec_idx_def)
    then have ab: "\<not> a" "\<not> b" using r(5) True by (auto simp: vec_apart_def)
    have w: "vec_off H t i \<le> snd x" "snd x < vec_off H t i + ?p" "vec_off H t j \<le> snd y" "snd y < vec_off H t j + ?p"
      using static_cell_foot(2) [OF t vec_cell_def x True ab(1)] static_cell_foot(2) [OF t vec_cell_def y True ab(2)] by simp_all
    have ne: "i mod ?per \<noteq> j mod ?per" using same r(4) by (metis div_mult_mod_eq)
    have o: "vec_off H t k + ?p * (k mod ?per + 1) = 32" for k using window_fits [OF t, of k] True by (simp add: vec_off_def)
    have "?p * (i mod ?per + 1) + ?p \<le> ?p * (j mod ?per + 1) \<or> ?p * (j mod ?per + 1) + ?p \<le> ?p * (i mod ?per + 1)"
    proof (cases "i mod ?per < j mod ?per")
      case True
      then have "?p * (i mod ?per + 2) \<le> ?p * (j mod ?per + 1)" by (intro mult_left_mono) simp_all
      then show ?thesis by simp
    next
      case False
      then have "?p * (j mod ?per + 2) \<le> ?p * (i mod ?per + 1)" using ne by (intro mult_left_mono) simp_all
      then show ?thesis by simp
    qed
    then show False using w [unfolded xy] o [of i] o [of j] by linarith
  next
    case False
    then have "i * ?m + k = j * ?m + l" using eq by (simp add: vec_idx_def)
    then have "(i * ?m + k) div ?m = (j * ?m + l) div ?m" by simp
    then show False using k(1) l(1) r(4) by simp
  qed
qed

section \<open>A vector represents a list\<close>

definition vec_repr :: "'s host_api \<Rightarrow> sol_ty \<Rightarrow> bytes \<Rightarrow> sol_val list \<Rightarrow> 's \<Rightarrow> bool" where
  "vec_repr H t root vs s \<longleftrightarrow>
     sload H root s = replicate 24 0 @ to_be (of_nat (length vs) :: 64 word) \<and>
     (\<forall>i < length vs. lazy_get H (storage_of H t) (vec_cell H t root i False) s = Some (vs ! i))"

lemma vec_cell_flag: "lazy_get H c (vec_cell H t root i a) s = lazy_get H c (vec_cell H t root i False) s"
  by (simp add: lazy_get_def vec_cell_def lazy_new_at_def)

lemma vec_foot_region:
  assumes "vec_room H t root n" "i < n"
    and "x \<in> lazy_foot H t (vec_cell H t root i a) s \<or> x \<in> lazy_new_foot H t (vec_cell H t root i a) v"
  shows "fst x \<in> vec_region H t root n" "fst x \<noteq> root"
proof -
  have t: "static_field H t" and root: "root \<notin> vec_region H t root n" using assms(1) by (simp_all add: vec_room_def)
  show "fst x \<in> vec_region H t root n"
    using static_cell_foot(1) [OF t vec_cell_def assms(3)] assms(2) by (fastforce simp: vec_region_def)
  then show "fst x \<noteq> root" using root by blast
qed

lemma byte_eq_slot:
  assumes "length (sload H k s') = 32" "length (sload H k s) = 32" "\<And>i. i < 32 \<Longrightarrow> byte_at H s' (k, i) = byte_at H s (k, i)"
  shows "sload H k s' = sload H k s"
  using assms by (intro nth_equalityI) (simp_all add: byte_at_def)

text \<open>Changes within element \<open>i\<close> keep the other elements and the length.\<close>

lemma vec_frame:
  fixes h s s'
  defines "H \<equiv> mock_api h"
  assumes r: "vec_room H t root n" "i < n"
    and x: "\<And>x. snd x < 32 \<Longrightarrow> x \<notin> lazy_foot H t (vec_cell H t root i a) s \<Longrightarrow>
      x \<notin> lazy_new_foot H t (vec_cell H t root i a) v \<Longrightarrow> byte_at H s' x = byte_at H s x"
  shows "j < n \<Longrightarrow> j \<noteq> i \<Longrightarrow> vec_apart H t i a j False \<Longrightarrow>
      lazy_get H (storage_of H t) (vec_cell H t root j False) s' = lazy_get H (storage_of H t) (vec_cell H t root j False) s"
    and "sload H root s' = sload H root s"
proof -
  show "sload H root s' = sload H root s"
    using vec_foot_region(2) [OF r] x unfolding H_def by (intro byte_eq_slot) fastforce+
  show "lazy_get H (storage_of H t) (vec_cell H t root j False) s' = lazy_get H (storage_of H t) (vec_cell H t root j False) s"
    if j: "j < n" "j \<noteq> i" "vec_apart H t i a j False"
  proof -
    have ok: "lazy_ok (mock_api h) t (vec_cell H t root j False)" using vec_cell_ok [OF r(1) j(1)] by (simp add: H_def)
    have "byte_at H s' y = byte_at H s y" if "y \<in> lazy_foot H t (vec_cell H t root j False) s" for y
    proof (rule x)
      show "snd y < 32" using cell.foot_bytes [OF ok] that by (simp add: H_def)
      show "y \<notin> lazy_foot H t (vec_cell H t root i a) s" "y \<notin> lazy_new_foot H t (vec_cell H t root i a) v"
        using vec_cells_apart [OF r j(1) j(2) [symmetric] j(3), of _ s _ y s] that by blast+
    qed
    then show ?thesis using cell.get_local [OF ok] unfolding H_def by blast
  qed
qed

lemma vec_write_elem:
  fixes h s
  defines "H \<equiv> mock_api h"
  assumes r: "vec_room H t root n" "i < n" and v: "storage_ok t v"
  shows "\<exists>s'. vec_write_value_at H (storage_of H t) root (of_nat i) v s = (Inr (), s') \<and>
    lazy_get H (storage_of H t) (vec_cell H t root i False) s' = Some v \<and>
    (\<forall>j < n. j \<noteq> i \<longrightarrow> lazy_get H (storage_of H t) (vec_cell H t root j False) s' =
      lazy_get H (storage_of H t) (vec_cell H t root j False) s) \<and>
    sload H root s' = sload H root s"
proof -
  let ?S = "leaf_storage_type H (storage_of H t)"
  define a where "a = (per_slot ?S = 1)"
  let ?c = "vec_cell H t root i a"
  have t: "static_field H t" using r(1) by (simp add: vec_room_def)
  have ok: "lazy_ok (mock_api h) t ?c" using vec_cell_ok [OF r] by (simp add: H_def)
  have fits: "lazy_fits (mock_api h) t ?c v" using static_field_facts(6) [OF t] by (simp add: lazy_fits_def storage_fits_def)
  obtain s' where s': "lazy_set H (storage_of H t) ?c v s = Some s'" "lazy_get H (storage_of H t) ?c s' = Some v"
    using cell.set_get [OF v ok fits, of s] by (auto simp: H_def)
  have x: "byte_at H s' x = byte_at H s x"
    if "snd x < 32" "x \<notin> lazy_foot H t ?c s" "x \<notin> lazy_new_foot H t ?c v" for x
    using cell.set_frame [OF v ok, of s s' x] s'(1) that by (simp add: H_def)
  have "a \<Longrightarrow> st_packed (storage_of H t) < 32 \<Longrightarrow> vec_per H t = 1"
    using unat_per_slot [OF t] by (simp add: a_def)
  then have ap: "vec_apart H t i a j False" if "j \<noteq> i" for j
    using that by (auto simp: vec_apart_def)
  have "vec_write_value_at H (storage_of H t) root (of_nat i) v s = (Inr (), s')"
    using mock.element_slot_is(1,2) [of h t root n i] r s'(1)
    by (simp add: H_def vec_write_value_at_def Let_def store_or_trap_def leaf_is_lazy(2) a_def vec_cell_def)
  then show ?thesis
    using s'(2) vec_frame [OF r [unfolded H_def] x [unfolded H_def]] ap
    unfolding H_def by (auto simp: vec_cell_flag [where a = a])
qed

text \<open>Writing the length changes no element.\<close>

lemma vec_write_len:
  fixes h s
  defines "H \<equiv> mock_api h"
  assumes r: "vec_room H t root n"
  shows "sload H root (write_len_u64 H root m s) = replicate 24 0 @ to_be m"
    and "j < n \<Longrightarrow> lazy_get H (storage_of H t) (vec_cell H t root j a) (write_len_u64 H root m s) =
      lazy_get H (storage_of H t) (vec_cell H t root j a) s"
proof -
  let ?s = "write_len_u64 H root m s"
  have sl: "sload H k ?s = (if k = root then replicate 24 0 @ to_be m else sload H k s)" for k
    unfolding H_def write_len_u64_def storage_set_32_def by (rule mock.sload_sstore) simp
  then show "sload H root ?s = replicate 24 0 @ to_be m" by simp
  assume j: "j < n"
  have ok: "lazy_ok (mock_api h) t (vec_cell H t root j a)" using vec_cell_ok [OF r j] by (simp add: H_def)
  have "\<forall>x \<in> lazy_foot H t (vec_cell H t root j a) s. byte_at H ?s x = byte_at H s x"
    using vec_foot_region(2) [OF r j disjI1] by (simp add: byte_at_def sl)
  then show "lazy_get H (storage_of H t) (vec_cell H t root j a) ?s = lazy_get H (storage_of H t) (vec_cell H t root j a) s"
    using cell.get_local [OF ok] unfolding H_def by blast
qed

lemma vec_room_len: "vec_room H t root n \<Longrightarrow> n < 2 ^ 64"
proof -
  assume "vec_room H t root n"
  then have "static_field H t" "n * st_slots (storage_of H t) < 2 ^ 64" by (simp_all add: vec_room_def)
  then show ?thesis using mult_le_mono2 [OF static_field_facts(3) [of H t], of n] by linarith
qed

lemma index_in: "n < 2 ^ 64 \<Longrightarrow> i < n \<Longrightarrow> \<not> of_nat i \<ge> (of_nat n :: 64 word)"
  by (simp add: word_le_nat_alt unat64 del: of_nat_le_iff)

lemma take_drop_len:
  "list_all (\<lambda>b. b = 0) (take 24 (replicate 24 (0 :: byte) @ xs))" "take 8 (drop 24 (replicate 24 (0 :: byte) @ xs)) = take 8 xs"
  by (simp_all add: list_all_iff)

lemma vec_len_repr:
  assumes "vec_repr H t root vs s"
  shows "vec_len H root s = (Inr (of_nat (length vs)), s)" "vec_checked_len H root s = Some (of_nat (length vs))"
  using assms take_drop_len
  by (simp_all add: vec_repr_def vec_len_def read_len_def vec_checked_len_def try_read_len_def storage_get_32_def Let_def)

lemma vec_push_repr:
  assumes "vec_repr (mock_api h) t root vs s" "vec_room (mock_api h) t root (length vs + 1)" "storage_ok t v"
  shows "\<exists>s'. vec_push (mock_api h) (storage_of (mock_api h) t) root v s = (Inr (), s') \<and>
    vec_repr (mock_api h) t root (vs @ [v]) s'"
proof -
  let ?H = "mock_api h" and ?n = "length vs"
  obtain s1 where s1: "vec_write_value_at ?H (storage_of ?H t) root (of_nat ?n) v s = (Inr (), s1)"
    "lazy_get ?H (storage_of ?H t) (vec_cell ?H t root ?n False) s1 = Some v"
    "\<forall>j < ?n + 1. j \<noteq> ?n \<longrightarrow> lazy_get ?H (storage_of ?H t) (vec_cell ?H t root j False) s1 =
      lazy_get ?H (storage_of ?H t) (vec_cell ?H t root j False) s"
    using vec_write_elem [OF assms(2) _ assms(3), of ?n s] by auto
  have "?n + 1 < 2 ^ 64" by (rule vec_room_len [OF assms(2)])
  then have len: "checked_add64 (of_nat ?n) 1 = Some (of_nat (?n + 1))"
    by (simp add: checked_add64_def unat64)
  let ?s2 = "write_len_u64 ?H root (of_nat (?n + 1)) s1"
  have "vec_push ?H (storage_of ?H t) root v s = (Inr (), ?s2)"
    using s1(1) len by (simp add: vec_push_def vec_len_repr [OF assms(1)])
  moreover have "vec_repr ?H t root (vs @ [v]) ?s2"
    using vec_write_len [OF assms(2)] s1 assms(1) unfolding vec_repr_def
    by (auto simp: nth_append less_Suc_eq)
  ultimately show ?thesis by blast
qed

lemma vec_set_repr:
  assumes "vec_repr (mock_api h) t root vs s" "vec_room (mock_api h) t root (length vs)" "storage_ok t v" "i < length vs"
  shows "\<exists>s'. vec_set (mock_api h) (storage_of (mock_api h) t) root (of_nat i) v s = (Inr (), s') \<and>
    vec_repr (mock_api h) t root (vs[i := v]) s'"
proof -
  let ?H = "mock_api h" and ?n = "length vs"
  obtain s1 where s1: "vec_write_value_at ?H (storage_of ?H t) root (of_nat i) v s = (Inr (), s1)"
    "lazy_get ?H (storage_of ?H t) (vec_cell ?H t root i False) s1 = Some v"
    "\<forall>j < ?n. j \<noteq> i \<longrightarrow> lazy_get ?H (storage_of ?H t) (vec_cell ?H t root j False) s1 =
      lazy_get ?H (storage_of ?H t) (vec_cell ?H t root j False) s"
    "sload ?H root s1 = sload ?H root s"
    using vec_write_elem [OF assms(2,4,3), of s] by blast
  have "\<not> of_nat i \<ge> (of_nat ?n :: 64 word)" by (rule index_in [OF vec_room_len [OF assms(2)] assms(4)])
  then have "vec_set ?H (storage_of ?H t) root (of_nat i) v s = (Inr (), s1)"
    using s1(1) by (simp add: vec_set_def vec_len_repr [OF assms(1)])
  moreover have "vec_repr ?H t root (vs[i := v]) s1"
    unfolding vec_repr_def
  proof (intro conjI allI impI)
    fix j assume "j < length (vs[i := v])"
    then show "lazy_get ?H (storage_of ?H t) (vec_cell ?H t root j False) s1 = Some (vs[i := v] ! j)"
      using s1(2,3) assms(1) by (cases "j = i") (simp_all add: vec_repr_def)
  qed (use s1(4) assms(1) in \<open>simp add: vec_repr_def\<close>)
  ultimately show ?thesis by blast
qed

lemma vec_room_mono: "vec_room H t root n \<Longrightarrow> m \<le> n \<Longrightarrow> vec_room H t root m"
proof -
  assume r: "vec_room H t root n" and m: "m \<le> n"
  have "m * st_slots (storage_of H t) \<le> n * st_slots (storage_of H t)" using m by (rule mult_le_mono1)
  moreover have "vec_region H t root m \<subseteq> vec_region H t root n" using m by (fastforce simp: vec_region_def)
  ultimately show ?thesis using r unfolding vec_room_def by (metis order_le_less_trans subsetD)
qed

lemma vec_pop_repr:
  assumes "vec_repr (mock_api h) t root (vs @ [v]) s" "vec_room (mock_api h) t root (length vs + 1)"
  shows "\<exists>s'. vec_pop (mock_api h) (storage_of (mock_api h) t) root s = (Inr (Some v), s') \<and>
    vec_repr (mock_api h) t root vs s' \<and>
    (\<forall>x \<in> lazy_foot (mock_api h) t (vec_cell (mock_api h) t root (length vs) False) s. byte_at (mock_api h) s' x = 0)"
proof -
  let ?H = "mock_api h" and ?n = "length vs" and ?c = "storage_of (mock_api h) t"
  let ?S = "leaf_storage_type ?H ?c"
  define a where "a = elem_alone ?S (of_nat ?n)"
  let ?l = "vec_cell ?H t root ?n a"
  note r = assms(2)
  note el = mock.element_slot_is [OF r, of ?n]
  have t: "static_field ?H t" using r by (simp add: vec_room_def)
  have ok: "lazy_ok ?H t ?l" by (rule vec_cell_ok [OF r]) simp
  have get: "lazy_get ?H ?c ?l s = Some v" using assms(1) by (simp add: vec_repr_def vec_cell_flag [where a = a])
  obtain s1 where s1: "lazy_clear ?H ?c ?l s = Some s1"
    "\<forall>x. snd x < 32 \<longrightarrow> byte_at ?H s1 x = (if x \<in> lazy_foot ?H t ?l s then 0 else byte_at ?H s x)"
    using cell.clear_foot [OF ok, of s] by blast
  have fr: "byte_at ?H s1 x = byte_at ?H s x"
    if "snd x < 32" "x \<notin> lazy_foot ?H t ?l s" "x \<notin> lazy_new_foot ?H t ?l v" for x
    using that s1(2) by (cases x) auto
  have ap: "vec_apart ?H t ?n a j False" if "j < ?n" for j
  proof -
    have "?n div vec_per ?H t \<noteq> j div vec_per ?H t" if "?n mod vec_per ?H t = 0"
    proof -
      have "?n = vec_per ?H t * (?n div vec_per ?H t)" using that by (metis add_0_right mult_div_mod_eq)
      then show ?thesis using \<open>j < ?n\<close> by (metis div_times_less_eq_dividend leD mult.commute)
    qed
    then show ?thesis using el(3) by (simp add: vec_apart_def a_def)
  qed
  let ?s2 = "write_len_u64 ?H root (of_nat ?n) s1"
  have n: "?n + 1 < 2 ^ 64" by (rule vec_room_len [OF r])
  have ne: "(of_nat (?n + 1) :: 64 word) \<noteq> 0" using n by (metis unat64 unat_0 add_is_0 one_neq_zero)
  have "vec_len ?H root s = (Inr (of_nat (?n + 1)), s)" using vec_len_repr(1) [OF assms(1)] by simp
  moreover have "(of_nat (?n + 1) :: 64 word) - 1 = of_nat ?n" by simp
  moreover have "lazy_take ?H ?c ?l s = Some (v, s1)" using get s1(1) by (simp add: lazy_take_is)
  ultimately have "vec_pop ?H ?c root s = (Inr (Some v), ?s2)"
    using ne el(1,2) by (simp add: vec_pop_def Let_def a_def [symmetric] vec_cell_def)
  moreover have "vec_repr ?H t root vs ?s2"
    unfolding vec_repr_def
  proof (intro conjI allI impI)
    fix j assume j: "j < ?n"
    then have "lazy_get ?H ?c (vec_cell ?H t root j False) s1 = lazy_get ?H ?c (vec_cell ?H t root j False) s"
      using ap [OF j] by (intro vec_frame(1) [OF r _ fr]) simp_all
    then show "lazy_get ?H ?c (vec_cell ?H t root j False) ?s2 = Some (vs ! j)"
      using vec_write_len(2) [OF r, of j] assms(1) j by (simp add: vec_repr_def nth_append)
  qed (rule vec_write_len(1) [OF r])
  moreover have "byte_at ?H ?s2 x = 0" if "x \<in> lazy_foot ?H t (vec_cell ?H t root ?n False) s" for x
  proof -
    have okF: "lazy_ok ?H t (vec_cell ?H t root ?n False)" by (rule vec_cell_ok [OF r]) simp
    have "x \<in> lazy_foot ?H t ?l s"
      using that okF by (auto simp: lazy_foot_def vec_cell_def lazy_new_at_def lazy_window_def lazy_ok_def split: if_splits)
    moreover have "fst x \<noteq> root" using vec_foot_region(2) [OF r _ disjI1 [OF that]] by simp
    moreover have "snd x < 32" by (rule cell.foot_bytes [OF okF that])
    ultimately show ?thesis
      using s1(2) unfolding write_len_u64_def storage_set_32_def
      by (simp add: byte_at_def mock.sload_sstore)
  qed
  ultimately show ?thesis by blast
qed

text \<open>Clearing a vector of static leaves sweeps exactly the slots of its elements.\<close>

lemma vec_region_iff:
  "x \<in> vec_region H t root n \<longleftrightarrow>
     (\<exists>i < n. \<exists>k < st_slots (storage_of H t). x = slot_key (body_base H root) (vec_idx H t i + k))"
  by (auto simp: vec_region_def)

lemma vec_region_slots:
  assumes "static_field H t"
  shows "vec_region H t root n = slot_keys (body_base H root)
    (if st_packed (storage_of H t) < 32 then div_ceil n (vec_per H t) else n * st_slots (storage_of H t))"
proof (cases "st_packed (storage_of H t) < 32")
  case True
  let ?per = "vec_per H t"
  have m: "st_slots (storage_of H t) = 1" and per: "0 < ?per"
    using static_field_facts(4) [OF assms True] vec_per_bounds(1) [OF assms] by simp_all
  have "(\<exists>i < n. k = slot_key b (i div ?per)) \<longleftrightarrow> (\<exists>j < div_ceil n ?per. k = slot_key b j)" for k b
  proof
    assume "\<exists>i < n. k = slot_key b (i div ?per)"
    then obtain i where i: "i < n" "k = slot_key b (i div ?per)" by blast
    have "i div ?per * ?per \<le> i" by simp
    then have "i div ?per < div_ceil n ?per" unfolding div_ceil_less [OF per] using i(1) by linarith
    then show "\<exists>j < div_ceil n ?per. k = slot_key b j" using i(2) by blast
  next
    assume "\<exists>j < div_ceil n ?per. k = slot_key b j"
    then obtain j where j: "j < div_ceil n ?per" "k = slot_key b j" by blast
    have "j * ?per < n" using j(1) div_ceil_less [OF per, of j n] by simp
    moreover have "j * ?per div ?per = j" using per by simp
    ultimately show "\<exists>i < n. k = slot_key b (i div ?per)" using j(2) by metis
  qed
  then show ?thesis using True m by (simp add: set_eq_iff vec_region_iff vec_idx_def slot_keys_iff)
next
  case False
  let ?m = "st_slots (storage_of H t)"
  have m: "0 < ?m" using static_field_facts(3) [OF assms] by simp
  have "(\<exists>i < n. \<exists>k < ?m. x = slot_key b (i * ?m + k)) \<longleftrightarrow> (\<exists>j < n * ?m. x = slot_key b j)" for x b
  proof
    assume "\<exists>i < n. \<exists>k < ?m. x = slot_key b (i * ?m + k)"
    then obtain i k where i: "i < n" "k < ?m" "x = slot_key b (i * ?m + k)" by blast
    have "Suc i * ?m \<le> n * ?m" using i(1) by (intro mult_le_mono1) simp
    then show "\<exists>j < n * ?m. x = slot_key b j" using i(2,3) by (intro exI [of _ "i * ?m + k"]) simp
  next
    assume "\<exists>j < n * ?m. x = slot_key b j"
    then obtain j where j: "j < n * ?m" "x = slot_key b j" by blast
    then have "j div ?m < n" "j mod ?m < ?m" using m by (simp_all add: less_mult_imp_div_less)
    then show "\<exists>i < n. \<exists>k < ?m. x = slot_key b (i * ?m + k)"
      using j(2) by (intro exI [of _ "j div ?m"] exI [of _ "j mod ?m"] conjI) simp_all
  qed
  then show ?thesis using False by (simp add: set_eq_iff vec_region_iff vec_idx_def slot_keys_iff)
qed

context host_store
begin

lemma sload_zero_slots:
  "length key = 32 \<Longrightarrow> sload H k (zero_slots H n key s) = (if k \<in> slot_keys key n then replicate 32 0 else sload H k s)"
  by (induction n arbitrary: key s) (auto simp: storage_set_32_def sload_sstore)

end

lemma vec_clear_repr:
  assumes "vec_repr (mock_api h) t root vs s" "vec_room (mock_api h) t root (length vs)"
  shows "\<exists>s'. vec_clear (mock_api h) (leaf_storage_type (mock_api h) (storage_of (mock_api h) t)) root s = (Inr (), s') \<and>
    (\<forall>k. sload (mock_api h) k s' =
      (if k = root \<or> k \<in> vec_region (mock_api h) t root (length vs) then replicate 32 0 else sload (mock_api h) k s))"
proof -
  let ?H = "mock_api h" and ?n = "length vs"
  let ?c = "storage_of ?H t"
  let ?S = "leaf_storage_type ?H ?c" and ?b = "body_base ?H root"
  let ?N = "if st_packed ?c < 32 then div_ceil ?n (vec_per ?H t) else ?n * st_slots ?c"
  have t: "static_field ?H t" and room: "?n * st_slots ?c < 2 ^ 64" using assms(2) by (simp_all add: vec_room_def)
  have n: "?n < 2 ^ 64" by (rule vec_room_len [OF assms(2)])
  have len: "vec_len ?H root s = (Inr (of_nat ?n), s)" by (rule vec_len_repr(1) [OF assms(1)])
  let ?s1 = "zero_slots ?H ?N ?b s" and ?z = "\<lambda>s. storage_set_32 ?H root (replicate 32 0) s"
  have b: "length ?b = 32" by (rule mock.length_body_base)
  have z: "sload ?H k (?z ?s1) = (if k = root \<or> k \<in> vec_region ?H t root ?n then replicate 32 0 else sload ?H k s)" for k
    unfolding vec_region_slots [OF t] by (simp add: storage_set_32_def mock.sload_sstore mock.sload_zero_slots [OF b])
  have mul: "checked_mul64 (of_nat ?n) (st_slots ?c) = Some (of_nat (?n * st_slots ?c))"
    using room n by (simp add: checked_mul64_def unat64)
  have "vec_clear ?H ?S root s = (Inr (), ?z ?s1)"
  proof (cases "?n = 0")
    case True
    then have "?N = 0" by (simp add: div_ceil_def)
    then show ?thesis using True len by (simp add: vec_clear_def)
  next
    case False
    then have pos: "(of_nat ?n :: 64 word) > 0" using n by (simp add: word_gt_0 unat_eq_zero [symmetric] unat64 del: unat_eq_zero)
    have "unat ((of_nat ?n :: 64 word) * of_nat (st_slots ?c)) = ?n * st_slots ?c"
      using unat64 [OF room] by simp
    then show ?thesis
      using pos len mul n static_field_facts(5) [OF t]
      by (simp add: vec_clear_def unat64 unat_per_slot [OF t])
  qed
  then show ?thesis using z by blast
qed

section \<open>Iteration\<close>

text \<open>A run of the iterator: \<open>True\<close> for \<open>next\<close>, \<open>False\<close> for \<open>next_back\<close>.\<close>

primrec iter_run :: "'s host_api \<Rightarrow> 's storage_ty \<Rightarrow> bytes \<Rightarrow> bool list \<Rightarrow> vec_iter \<Rightarrow> 's \<Rightarrow> ('s, got option list) res" where
  "iter_run H S root [] it s = (Inr [], s)"
| "iter_run H S root (d # ds) it s =
     hbind (if d then iter_next H S root it s else iter_next_back H S root it s) (\<lambda>(g, it) s.
     hbind (iter_run H S root ds it s) (\<lambda>gs s. (Inr (g # gs), s)))"

text \<open>The same run on a list.\<close>

fun deque_run :: "bool list \<Rightarrow> 'a list \<Rightarrow> 'a option list" where
  "deque_run [] xs = []"
| "deque_run (d # ds) [] = None # deque_run ds []"
| "deque_run (True # ds) (x # xs) = Some x # deque_run ds xs"
| "deque_run (False # ds) (x # xs) = Some (last (x # xs)) # deque_run ds (butlast (x # xs))"

lemma elem_get_repr:
  assumes "vec_repr (mock_api h) t root vs s" "vec_room (mock_api h) t root (length vs)" "i < length vs"
  shows "elem_get (mock_api h) (leaf_storage_type (mock_api h) (storage_of (mock_api h) t)) root (of_nat i) s =
    (Inr (GVal (vs ! i)), s)"
  using assms mock.element_slot_is(1,2) [OF assms(2,3)]
  by (simp add: elem_get_def vec_repr_def value_or_trap_def leaf_is_lazy(1) [where alone = False] vec_cell_def)

lemma iter_run_repr:
  assumes r: "vec_repr (mock_api h) t root vs s" "vec_room (mock_api h) t root (length vs)"
    and "p \<le> l" "l \<le> length vs"
  shows "iter_run (mock_api h) (leaf_storage_type (mock_api h) (storage_of (mock_api h) t)) root ds
      \<lparr> it_pos = of_nat p, it_len = of_nat l \<rparr> s =
    (Inr (map (map_option GVal) (deque_run ds (take (l - p) (drop p vs)))), s)"
  using assms(3,4)
proof (induction ds arbitrary: p l)
  case (Cons d ds)
  let ?xs = "take (l - p) (drop p vs)"
  have l: "l < 2 ^ 64" "p < 2 ^ 64" using Cons.prems vec_room_len [OF r(2)] by simp_all
  show ?case
  proof (cases "p = l")
    case True
    then show ?thesis using Cons.IH [OF Cons.prems] by (simp add: iter_next_def iter_next_back_def)
  next
    case False
    then have pl: "p < l" using Cons.prems(1) by simp
    have lt: "\<not> of_nat p \<ge> (of_nat l :: 64 word)" by (rule index_in [OF l(1) pl])
    show ?thesis
    proof (cases d)
      case True
      have "?xs = vs ! p # take (l - Suc p) (drop (Suc p) vs)"
        using pl Cons.prems(2) by (simp add: Cons_nth_drop_Suc [symmetric] take_Cons' )
      moreover have "elem_get (mock_api h) (leaf_storage_type (mock_api h) (storage_of (mock_api h) t)) root (of_nat p) s =
          (Inr (GVal (vs ! p)), s)"
        using pl Cons.prems(2) by (intro elem_get_repr [OF r]) simp
      ultimately show ?thesis
        using True lt Cons.IH [of "Suc p" l] pl Cons.prems(2) by (simp add: iter_next_def add.commute)
    next
      case False
      have "of_nat l - 1 = (of_nat (l - 1) :: 64 word)" using pl by (simp add: of_nat_diff)
      moreover have "elem_get (mock_api h) (leaf_storage_type (mock_api h) (storage_of (mock_api h) t)) root (of_nat (l - 1)) s =
          (Inr (GVal (vs ! (l - 1))), s)"
        using pl Cons.prems(2) by (intro elem_get_repr [OF r]) simp
      moreover have "?xs \<noteq> []" "last ?xs = vs ! (l - 1)" "butlast ?xs = take (l - 1 - p) (drop p vs)"
        using pl Cons.prems(2) by (simp_all add: last_conv_nth butlast_take)
      ultimately show ?thesis
        using False lt Cons.IH [of p "l - 1"] pl Cons.prems(2)
        by (cases ?xs) (simp_all add: iter_next_back_def)
    qed
  qed
qed simp

section \<open>Properties\<close>

text \<open>
  C29: \<open>StorageVec\<close> implements a list. For a vector of any static leaf type (elements packed into a
  slot, one per slot, or over several slots) that represents the list \<open>vs\<close> in storage: \<open>len\<close> is the
  length of \<open>vs\<close>; \<open>get\<close> and \<open>try_get\<close> return an element, and past the end \<open>try_get\<close> returns
  \<open>None\<close>; \<open>push\<close> appends and \<open>set\<close> replaces, and the vector represents the resulting list; \<open>pop\<close>
  returns the last element of a non-empty \<open>vs\<close> and leaves the others, with the bytes of the popped one
  zeroed, and on an empty vector returns \<open>None\<close> and changes nothing. So any sequence of these
  operations does to storage what it does to the list.
\<close>

theorem vec_refines_list:
  assumes "vec_repr (mock_api h) t root vs s" "vec_room (mock_api h) t root (length vs + 1)" "storage_ok t v"
    and "c = storage_of (mock_api h) t" "S = leaf_storage_type (mock_api h) c"
  shows "vec_len (mock_api h) root s = (Inr (of_nat (length vs)), s) \<and>
    (\<exists>s'. vec_push (mock_api h) c root v s = (Inr (), s') \<and> vec_repr (mock_api h) t root (vs @ [v]) s') \<and>
    (\<forall>i < length vs. vec_get (mock_api h) S root (of_nat i) s = (Inr (GVal (vs ! i)), s) \<and>
      vec_try_get (mock_api h) S root (of_nat i) s = (Inr (Some (GVal (vs ! i))), s) \<and>
      (\<exists>s'. vec_set (mock_api h) c root (of_nat i) v s = (Inr (), s') \<and> vec_repr (mock_api h) t root (vs[i := v]) s')) \<and>
    (\<forall>index. length vs \<le> unat index \<longrightarrow> vec_try_get (mock_api h) S root index s = (Inr None, s)) \<and>
    (vs \<noteq> [] \<longrightarrow> (\<exists>s'. vec_pop (mock_api h) c root s = (Inr (Some (last vs)), s') \<and>
      vec_repr (mock_api h) t root (butlast vs) s' \<and>
      (\<forall>x \<in> lazy_foot (mock_api h) t (vec_cell (mock_api h) t root (length vs - 1) False) s. byte_at (mock_api h) s' x = 0))) \<and>
    (vs = [] \<longrightarrow> vec_pop (mock_api h) c root s = (Inr None, s))"
proof -
  let ?H = "mock_api h"
  note r = vec_room_mono [OF assms(2) le_add1] and n = vec_room_len [OF assms(2)]
  have get: "vec_get ?H S root (of_nat i) s = (Inr (GVal (vs ! i)), s) \<and>
      vec_try_get ?H S root (of_nat i) s = (Inr (Some (GVal (vs ! i))), s)" if "i < length vs" for i
    using elem_get_repr [OF assms(1) r that] index_in [OF vec_room_len [OF r] that]
    by (simp add: vec_get_def vec_try_get_def vec_len_repr [OF assms(1)] assms(4,5))
  have past: "vec_try_get ?H S root index s = (Inr None, s)" if "length vs \<le> unat index" for index
    using that n by (simp add: vec_try_get_def vec_len_repr [OF assms(1)] word_le_nat_alt unat64)
  have pop: "\<exists>s'. vec_pop ?H c root s = (Inr (Some (last vs)), s') \<and> vec_repr ?H t root (butlast vs) s' \<and>
      (\<forall>x \<in> lazy_foot ?H t (vec_cell ?H t root (length vs - 1) False) s. byte_at ?H s' x = 0)" if "vs \<noteq> []"
  proof -
    have "length (butlast vs) + 1 = length vs" using that by simp
    then show ?thesis
      using vec_pop_repr [of h t root "butlast vs" "last vs" s] assms(1,4) r that by simp
  qed
  have "vs = [] \<longrightarrow> vec_pop ?H c root s = (Inr None, s)"
    using vec_len_repr(1) [OF assms(1)] by (auto simp: vec_pop_def)
  then show ?thesis
    using vec_len_repr(1) [OF assms(1)] vec_push_repr [OF assms(1,2,3)] vec_set_repr [OF assms(1) r assms(3)] get past pop
    unfolding assms(4) by blast
qed

lemma mock_new_load: "sload (mock_api h) k mock_new = replicate 32 0"
  by (simp add: sload_def mock_api_def mock_get_storage_or_zero_def mock_new_def)

lemma to_be_zero: "to_be (0 :: 64 word) = replicate 8 0"
  by (simp add: to_be_def)

lemma vec_new: "vec_repr (mock_api h) t root [] mock_new"
  by (simp add: vec_repr_def mock_new_load to_be_zero flip: replicate_add)

lemma vec_room_u64: "vec_room (mock_api (\<lambda>_. 9)) (TPrim U64) (replicate 32 0) 3"
proof -
  let ?H = "mock_api (\<lambda>_. 9)"
  have c: "st_packed (storage_of ?H (TPrim U64)) = 8" "st_slots (storage_of ?H (TPrim U64)) = 1"
    by (simp_all add: static_storage_def static_prim_def)
  have b: "body_base ?H (replicate 32 0) = to_be (9 :: 256 word)"
    by (simp add: body_base_def storage_derive_body_base_def mock_api_def)
  have "to_be (0 :: 256 word) \<noteq> to_be (9 :: 256 word)" using to_be_inj [of "0 :: 256 word" 9] by simp
  then have "replicate 32 (0 :: byte) \<noteq> to_be (9 :: 256 word)" by (simp add: to_be_def)
  then show ?thesis
    by (simp add: vec_room_def static_field_def is_dyn_def shape_of_def field_ok_def c vec_region_iff b vec_idx_def
        vec_per_def del: storage_of.simps)
qed

lemma storage_ok_u64: "storage_ok (TPrim U64) (VPrim (VU64 n))"
  by (simp add: storage_ok_prim prim_ok_def prim_wt_def del: storage_ok.simps)

text \<open>A vector holding one element, as \<open>push\<close> on a new mock leaves it.\<close>

lemma vec_one: "\<exists>s. vec_repr (mock_api (\<lambda>_. 9)) (TPrim U64) (replicate 32 0) [VPrim (VU64 5)] s"
  using vec_push_repr [OF vec_new vec_room_mono [OF vec_room_u64] storage_ok_u64, of 5] by fastforce

text \<open>\<open>push\<close> twice, \<open>pop\<close> twice.\<close>

theorem vec_refines_list_witness:
  "let H = mock_api (\<lambda>_. 9); c = storage_of H (TPrim U64); root = replicate 32 0 in
    \<exists>s1 s2 s3 s4. vec_push H c root (VPrim (VU64 5)) mock_new = (Inr (), s1) \<and>
      vec_push H c root (VPrim (VU64 6)) s1 = (Inr (), s2) \<and> vec_len H root s2 = (Inr 2, s2) \<and>
      vec_pop H c root s2 = (Inr (Some (VPrim (VU64 6))), s3) \<and>
      vec_pop H c root s3 = (Inr (Some (VPrim (VU64 5))), s4)"
proof -
  let ?H = "mock_api (\<lambda>_. 9)" and ?root = "replicate 32 (0 :: byte)"
  let ?c = "storage_of ?H (TPrim U64)" and ?u = "\<lambda>n. VPrim (VU64 n)"
  note law = vec_refines_list [OF _ vec_room_mono [OF vec_room_u64] storage_ok_u64 refl refl]
  obtain s1 where s1: "vec_push ?H ?c ?root (?u 5) mock_new = (Inr (), s1)"
    "vec_repr ?H (TPrim U64) ?root [?u 5] s1"
    using law [OF vec_new, of 5] by auto
  obtain s2 where s2: "vec_push ?H ?c ?root (?u 6) s1 = (Inr (), s2)"
    "vec_repr ?H (TPrim U64) ?root [?u 5, ?u 6] s2"
    using law [OF s1(2), of 6] by auto
  obtain s3 where s3: "vec_pop ?H ?c ?root s2 = (Inr (Some (?u 6)), s3)" "vec_repr ?H (TPrim U64) ?root [?u 5] s3"
    using law [OF s2(2), of 0] by auto
  moreover obtain s4 where "vec_pop ?H ?c ?root s3 = (Inr (Some (?u 5)), s4)"
    using law [OF s3(2), of 0] by auto
  ultimately show ?thesis using s1(1) s2 law [OF s2(2), of 0] unfolding Let_def by auto
qed

text \<open>
  C34: iteration is a double-ended traversal of the list. Whatever the order of \<open>next\<close> and
  \<open>next_back\<close> calls on a fresh iterator, each returns the first or last element not yet delivered,
  and \<open>None\<close> once all are; storage is not changed.
\<close>

theorem vec_iter_is_deque:
  assumes "vec_repr (mock_api h) t root vs s" "vec_room (mock_api h) t root (length vs)"
  shows "iter_run (mock_api h) (leaf_storage_type (mock_api h) (storage_of (mock_api h) t)) root ds
      (iter_new (mock_api h) root s) s = (Inr (map (map_option GVal) (deque_run ds vs)), s)"
  using iter_run_repr [OF assms, of 0 "length vs" ds] by (simp add: iter_new_def vec_len_repr [OF assms(1)])

theorem vec_iter_is_deque_witness:
  "\<exists>s. vec_repr (mock_api (\<lambda>_. 9)) (TPrim U64) (replicate 32 0) [VPrim (VU64 5)] s \<and>
   iter_run (mock_api (\<lambda>_. 9)) (leaf_storage_type (mock_api (\<lambda>_. 9)) (storage_of (mock_api (\<lambda>_. 9)) (TPrim U64)))
     (replicate 32 0) [False, True] (iter_new (mock_api (\<lambda>_. 9)) (replicate 32 0) s) s =
   (Inr [Some (GVal (VPrim (VU64 5))), None], s)"
proof -
  obtain s where s: "vec_repr (mock_api (\<lambda>_. 9)) (TPrim U64) (replicate 32 0) [VPrim (VU64 5)] s" using vec_one by blast
  show ?thesis using vec_iter_is_deque [OF s vec_room_mono [OF vec_room_u64], of "[False, True]"] s by auto
qed

text \<open>
  C33: \<open>clear\<close> empties the vector and nothing else: for static leaf elements, every slot of an element
  and the length slot are zero afterwards, and all other slots keep their contents.
\<close>

theorem vec_clear_exact:
  assumes "vec_repr (mock_api h) t root vs s" "vec_room (mock_api h) t root (length vs)"
  shows "\<exists>s'. vec_clear (mock_api h) (leaf_storage_type (mock_api h) (storage_of (mock_api h) t)) root s = (Inr (), s') \<and>
    vec_repr (mock_api h) t root [] s' \<and>
    (\<forall>k. sload (mock_api h) k s' =
      (if k = root \<or> k \<in> vec_region (mock_api h) t root (length vs) then replicate 32 0 else sload (mock_api h) k s))"
  using vec_clear_repr [OF assms] by (auto simp: vec_repr_def to_be_zero simp flip: replicate_add)

theorem vec_clear_exact_witness:
  "\<exists>s s'. vec_repr (mock_api (\<lambda>_. 9)) (TPrim U64) (replicate 32 0) [VPrim (VU64 5)] s \<and>
    vec_clear (mock_api (\<lambda>_. 9)) (leaf_storage_type (mock_api (\<lambda>_. 9)) (storage_of (mock_api (\<lambda>_. 9)) (TPrim U64)))
      (replicate 32 0) s = (Inr (), s')"
proof -
  obtain s where s: "vec_repr (mock_api (\<lambda>_. 9)) (TPrim U64) (replicate 32 0) [VPrim (VU64 5)] s" using vec_one by blast
  show ?thesis using vec_clear_exact [OF s vec_room_mono [OF vec_room_u64]] s by auto
qed

lemma panic_revert_is:
  "panic_revert code s = (Inl (Revert (PANIC_SELECTOR @ be_bytes 32 (unat (panic_code code)))), s)"
  using panic_encode_is [of "replicate 36 0" code] by (simp add: panic_revert_def)

lemma read_len_cases:
  "read_len H root s = (case try_read_len H root s of None \<Rightarrow> panic_revert StorageByteArrayEncoding s | Some n \<Rightarrow> (Inr n, s))"
  by (simp add: read_len_def try_read_len_def Let_def)

text \<open>
  The error exits of \<open>StorageVec\<close>, for every element type. On an index at or past the length
  \<open>get\<close>, \<open>set\<close> and \<open>entry\<close> revert with \<open>Panic(0x32)\<close>, while \<open>try_get\<close> returns \<open>None\<close>; on a length
  slot above \<open>u64::MAX\<close> the reverting accessors revert with \<open>Panic(0x22)\<close>, and the others treat the
  vector as empty; \<open>push\<close> and \<open>grow\<close> on a full vector revert with \<open>Panic(0x41)\<close>. Storage is unchanged.
\<close>

theorem vec_error_exits:
  "(\<forall>len. try_read_len H root s = Some len \<longrightarrow> index \<ge> len \<longrightarrow>
      vec_get H S root index s = (Inl (Revert (PANIC_SELECTOR @ be_bytes 32 0x32)), s) \<and>
      vec_set H c root index v s = (Inl (Revert (PANIC_SELECTOR @ be_bytes 32 0x32)), s) \<and>
      vec_entry H S root index s = (Inl (Revert (PANIC_SELECTOR @ be_bytes 32 0x32)), s) \<and>
      vec_try_get H S root index s = (Inr None, s)) \<and>
    (try_read_len H root s = None \<longrightarrow>
      vec_get H S root index s = (Inl (Revert (PANIC_SELECTOR @ be_bytes 32 0x22)), s) \<and>
      vec_push H c root v s = (Inl (Revert (PANIC_SELECTOR @ be_bytes 32 0x22)), s) \<and>
      vec_pop H c root s = (Inl (Revert (PANIC_SELECTOR @ be_bytes 32 0x22)), s) \<and>
      vec_clear H S root s = (Inl (Revert (PANIC_SELECTOR @ be_bytes 32 0x22)), s) \<and>
      vec_try_get H S root index s = (Inr None, s) \<and> vec_last H S root s = (Inr None, s) \<and>
      vec_is_empty H root s \<and> it_len (iter_new H root s) = 0) \<and>
    (try_read_len H root s = Some (- 1) \<longrightarrow>
      vec_push H c root v s = (Inl (Revert (PANIC_SELECTOR @ be_bytes 32 0x41)), s) \<and>
      vec_grow H S root s = (Inl (Revert (PANIC_SELECTOR @ be_bytes 32 0x41)), s))"
proof -
  have full: "checked_add64 (- 1) 1 = None"
    by (simp add: checked_add64_def unsigned_minus_1_eq_mask mask_eq_exp_minus_1)
  have codes: "unat (panic_code OutOfBoundsAccess) = 0x32" "unat (panic_code StorageByteArrayEncoding) = 0x22"
    "unat (panic_code OOM) = 0x41" by simp_all
  show ?thesis
    by (auto simp: vec_get_def vec_set_def vec_entry_def vec_try_get_def vec_push_def vec_pop_def vec_clear_def
        vec_last_def vec_is_empty_def iter_new_def vec_grow_def vec_len_def vec_checked_len_def read_len_cases
        panic_revert_is codes full Let_def)
qed

theorem vec_error_exits_witness:
  "vec_get (mock_api (\<lambda>_. 9)) mapping_storage_type (replicate 32 0) 3 mock_new =
     (Inl (Revert (PANIC_SELECTOR @ be_bytes 32 0x32)), mock_new) \<and>
   vec_try_get (mock_api (\<lambda>_. 9)) mapping_storage_type (replicate 32 0) 3 mock_new = (Inr None, mock_new)"
proof -
  have "try_read_len (mock_api (\<lambda>_. 9)) (replicate 32 0) mock_new = Some 0"
    using vec_len_repr(2) [OF vec_new] by (simp add: vec_checked_len_def)
  then show ?thesis
    using vec_error_exits [where H = "mock_api (\<lambda>_. 9)" and S = mapping_storage_type and root = "replicate 32 0"
        and index = 3 and s = mock_new] by simp
qed

end
