(* ===== verification/Boundary.thy ===== *)
theory Boundary
  imports Names SolErrors HostApi
begin

text \<open>
  The frame boundary shared by the two dispatchers: \<open>framework_errors\<close> (selectors computed at
  compile time from their signatures, with Keccak a parameter), the payable check, \<open>OutSink\<close>
  with its two implementations (the slice and the stack-or-heap buffer the macro emits), and
  \<open>finalize_outcome\<close>.
\<close>

section \<open>Framework errors\<close>

definition INVALID_CALLDATA :: "(bytes \<Rightarrow> bytes) \<Rightarrow> bytes" where
  "INVALID_CALLDATA keccak = const_selector keccak (ascii ''InvalidCalldata()'')"

definition CALLDATA_TOO_LARGE :: "(bytes \<Rightarrow> bytes) \<Rightarrow> bytes" where
  "CALLDATA_TOO_LARGE keccak = const_selector keccak (ascii ''CalldataTooLarge()'')"

definition NO_SELECTOR :: "(bytes \<Rightarrow> bytes) \<Rightarrow> bytes" where
  "NO_SELECTOR keccak = const_selector keccak (ascii ''NoSelector()'')"

definition UNKNOWN_SELECTOR :: "(bytes \<Rightarrow> bytes) \<Rightarrow> bytes" where
  "UNKNOWN_SELECTOR keccak = const_selector keccak (ascii ''UnknownSelector()'')"

definition NON_PAYABLE_VALUE_RECEIVED :: "(bytes \<Rightarrow> bytes) \<Rightarrow> bytes" where
  "NON_PAYABLE_VALUE_RECEIVED keccak = const_selector keccak (ascii ''NonPayableValueReceived()'')"

lemma length_const_selector [simp]: "length (const_selector keccak sig) = 4"
  by (simp add: const_selector_def Let_def)

lemma length_framework_errors [simp]:
  "length (INVALID_CALLDATA keccak) = 4" "length (CALLDATA_TOO_LARGE keccak) = 4"
  "length (NO_SELECTOR keccak) = 4" "length (UNKNOWN_SELECTOR keccak) = 4"
  "length (NON_PAYABLE_VALUE_RECEIVED keccak) = 4"
  by (simp_all add: INVALID_CALLDATA_def CALLDATA_TOO_LARGE_def NO_SELECTOR_def UNKNOWN_SELECTOR_def
      NON_PAYABLE_VALUE_RECEIVED_def)

definition value_transferred_is_nonzero :: "'s host_api \<Rightarrow> 's \<Rightarrow> bool" where
  "value_transferred_is_nonzero H s = value_is_nonzero_bytes (api_value_transferred H s)"

section \<open>Output sinks\<close>

text \<open>
  \<open>reserve\<close> hands out a \<open>&mut [u8]\<close>: the bytes it points to, and the sink once the borrower
  has written them back.
\<close>

record 'b out_sink =
  reserve :: "'b \<Rightarrow> nat \<Rightarrow> (bytes \<times> (bytes \<Rightarrow> 'b)) option"
  view :: "'b \<Rightarrow> nat \<Rightarrow> bytes option"

definition slice_reserve :: "bytes \<Rightarrow> nat \<Rightarrow> (bytes \<times> (bytes \<Rightarrow> bytes)) option" where
  "slice_reserve self len = map_option (\<lambda>sl. (sl, \<lambda>d. d @ drop len self)) (sink_reserve self len)"

definition slice_sink :: "bytes out_sink" where
  "slice_sink = \<lparr> reserve = slice_reserve, view = sink_view \<rparr>"

text \<open>\<open>__OutBuf\<close> of the alloc build; \<open>Vec::resize(len, 0)\<close> truncates or extends with zeros.\<close>

record out_buf =
  ob_stack :: bytes
  ob_spill :: bytes

definition vec_resize :: "bytes \<Rightarrow> nat \<Rightarrow> bytes" where
  "vec_resize v len = take len v @ replicate (len - length v) 0"

definition out_buf_reserve :: "out_buf \<Rightarrow> nat \<Rightarrow> (bytes \<times> (bytes \<Rightarrow> out_buf)) option" where
  "out_buf_reserve self len =
     (if len \<le> length (ob_stack self)
      then Some (take len (ob_stack self), \<lambda>d. self\<lparr>ob_stack := d @ drop len (ob_stack self)\<rparr>)
      else (let spill = vec_resize (ob_spill self) len in
            Some (take len spill, \<lambda>d. self\<lparr>ob_spill := d @ drop len spill\<rparr>)))"

definition out_buf_view :: "out_buf \<Rightarrow> nat \<Rightarrow> bytes option" where
  "out_buf_view self len =
     (if len \<le> length (ob_stack self) then Some (take len (ob_stack self))
      else if len \<le> length (ob_spill self) then Some (take len (ob_spill self)) else None)"

definition out_buf_sink :: "out_buf out_sink" where
  "out_buf_sink = \<lparr> reserve = out_buf_reserve, view = out_buf_view \<rparr>"

text \<open>What dispatch relies on: what was written into the \<open>len\<close> bytes reserved is what is viewed.\<close>

locale sink_law =
  fixes B :: "'b out_sink" and room :: "'b \<Rightarrow> nat \<Rightarrow> bool"
  assumes reserve_ok: "room b len \<Longrightarrow> \<exists>sl put. reserve B b len = Some (sl, put) \<and> length sl = len \<and>
      (\<forall>d. length d = len \<longrightarrow> view B (put d) len = Some d)"
begin

lemma reserve_put:
  assumes "room b len"
  obtains sl put where "reserve B b len = Some (sl, put)" "length sl = len"
    "\<And>d. length d = len \<Longrightarrow> view B (put d) len = Some d"
  using reserve_ok [OF assms] by auto

end

interpretation slice: sink_law slice_sink "\<lambda>b len. len \<le> length b"
  by unfold_locales (auto simp: slice_sink_def slice_reserve_def sink_reserve_def sink_view_def)

interpretation out_buf: sink_law out_buf_sink "\<lambda>b len. True"
  by unfold_locales
    (auto simp: out_buf_sink_def out_buf_reserve_def out_buf_view_def vec_resize_def Let_def)

section \<open>The success exit\<close>

definition finalize_outcome :: "'s host_api \<Rightarrow> outcome \<Rightarrow> 'b out_sink \<Rightarrow> 'b \<Rightarrow> 's \<Rightarrow> ('s, unit) res" where
  "finalize_outcome H outcome B out s =
     (case outcome of
        Return n \<Rightarrow> (case view B out n of Some d \<Rightarrow> api_return_value H d s | None \<Rightarrow> (Inl Trap, s))
      | Unhandled \<Rightarrow> (Inr (), s))"

section \<open>Calldata\<close>

text \<open>The calldata of the frame; \<open>usize\<close> is 64 bits, so it is shorter than \<open>2^64\<close>.\<close>

locale calldata_host =
  fixes H :: "'s host_api" and calldata :: "'s \<Rightarrow> bytes"
  assumes call_data_size: "length (calldata s) < 2 ^ 64 \<Longrightarrow> unat (api_call_data_size H s) = length (calldata s)"
    and call_data_copy: "api_call_data_copy H (length (calldata s)) 0 s = calldata s"

interpretation mock_data: calldata_host "mock_api k" ms_calldata for k
  by unfold_locales (simp_all add: mock_api_def mock_call_data_copy_def Let_def unat_of_nat)

end
