(* ===== verification/BuilderDsl.thy ===== *)
theory BuilderDsl
  imports Boundary
begin

text \<open>
  \<open>pvm-contract-builder-dsl\<close>: the table of at most 16 methods with its bit set of payable ones,
  selector routing, and the two dispatchers, with and without fallback and receive handlers. A
  handler is a function of the calldata and the output buffer over the host state. The contract of
  the component is \<open>dsl_spec\<close>, over the list of registrations.
\<close>

section \<open>The builder\<close>

datatype handler_result = HOk nat | HRevert nat

type_synonym 's handler = "bytes \<Rightarrow> bytes \<Rightarrow> 's \<Rightarrow> ('s, handler_result \<times> bytes) res"

definition MAX_METHODS :: nat where
  "MAX_METHODS = 16"

definition noop_handler :: "'s handler" where
  "noop_handler input output s = (Inr (HOk 0, output), s)"

record 's contract_builder =
  cb_methods :: "(bytes \<times> 's handler) list"
  cb_len :: nat
  cb_payable_bits :: "64 word"

definition builder_new :: "'s contract_builder" where
  "builder_new =
     \<lparr> cb_methods = replicate MAX_METHODS (replicate 4 0, noop_handler), cb_len = 0, cb_payable_bits = 0 \<rparr>"

definition builder_method :: "'s contract_builder \<Rightarrow> bytes \<Rightarrow> 's handler \<Rightarrow> 's contract_builder option" where
  "builder_method self selector handler =
     (if cb_len self < MAX_METHODS then
        Some (self\<lparr>cb_methods := (cb_methods self)[cb_len self := (selector, handler)],
                   cb_len := cb_len self + 1\<rparr>)
      else None)"

definition builder_payable_method ::
  "'s contract_builder \<Rightarrow> bytes \<Rightarrow> 's handler \<Rightarrow> 's contract_builder option" where
  "builder_payable_method self selector handler =
     (if cb_len self < MAX_METHODS then
        Some (self\<lparr>cb_methods := (cb_methods self)[cb_len self := (selector, handler)],
                   cb_payable_bits := or (cb_payable_bits self) (push_bit (cb_len self) 1),
                   cb_len := cb_len self + 1\<rparr>)
      else None)"

record 's builder_with_handlers =
  bh_inner :: "'s contract_builder"
  bh_fallback :: "'s handler option"
  bh_fallback_is_payable :: bool
  bh_receive :: "'s handler option"

text \<open>The transitions out of \<open>ContractBuilder\<close>.\<close>

definition builder_fallback :: "'s contract_builder \<Rightarrow> 's handler \<Rightarrow> 's builder_with_handlers" where
  "builder_fallback self handler =
     \<lparr> bh_inner = self, bh_fallback = Some handler, bh_fallback_is_payable = False, bh_receive = None \<rparr>"

definition builder_payable_fallback :: "'s contract_builder \<Rightarrow> 's handler \<Rightarrow> 's builder_with_handlers" where
  "builder_payable_fallback self handler =
     \<lparr> bh_inner = self, bh_fallback = Some handler, bh_fallback_is_payable = True, bh_receive = None \<rparr>"

definition builder_receive :: "'s contract_builder \<Rightarrow> 's handler \<Rightarrow> 's builder_with_handlers" where
  "builder_receive self handler =
     \<lparr> bh_inner = self, bh_fallback = None, bh_fallback_is_payable = False, bh_receive = Some handler \<rparr>"

text \<open>The methods of \<open>ContractBuilderWithHandlers\<close>.\<close>

definition handlers_method ::
  "'s builder_with_handlers \<Rightarrow> bytes \<Rightarrow> 's handler \<Rightarrow> 's builder_with_handlers option" where
  "handlers_method self selector handler =
     map_option (\<lambda>b. self\<lparr>bh_inner := b\<rparr>) (builder_method (bh_inner self) selector handler)"

definition handlers_payable_method ::
  "'s builder_with_handlers \<Rightarrow> bytes \<Rightarrow> 's handler \<Rightarrow> 's builder_with_handlers option" where
  "handlers_payable_method self selector handler =
     map_option (\<lambda>b. self\<lparr>bh_inner := b\<rparr>) (builder_payable_method (bh_inner self) selector handler)"

definition handlers_fallback :: "'s builder_with_handlers \<Rightarrow> 's handler \<Rightarrow> 's builder_with_handlers" where
  "handlers_fallback self handler = self\<lparr>bh_fallback := Some handler, bh_fallback_is_payable := False\<rparr>"

definition handlers_payable_fallback :: "'s builder_with_handlers \<Rightarrow> 's handler \<Rightarrow> 's builder_with_handlers" where
  "handlers_payable_fallback self handler = self\<lparr>bh_fallback := Some handler, bh_fallback_is_payable := True\<rparr>"

definition handlers_receive :: "'s builder_with_handlers \<Rightarrow> 's handler \<Rightarrow> 's builder_with_handlers" where
  "handlers_receive self handler = self\<lparr>bh_receive := Some handler\<rparr>"

definition assert_non_payable_deploy :: "(bytes \<Rightarrow> bytes) \<Rightarrow> 's host_api \<Rightarrow> 's \<Rightarrow> ('s, unit) res" where
  "assert_non_payable_deploy keccak H s =
     (if value_transferred_is_nonzero H s then hrevert H (NON_PAYABLE_VALUE_RECEIVED keccak) s
      else (Inr (), s))"

section \<open>Routing\<close>

text \<open>
  The \<open>while\<close> loop from index \<open>i\<close>. The result carries the output buffer; \<open>methods[i]\<close> and
  \<open>output[..4]\<close> panic out of range.
\<close>

function try_route_from ::
  "(bytes \<Rightarrow> bytes) \<Rightarrow> 's host_api \<Rightarrow> 's contract_builder \<Rightarrow> nat \<Rightarrow> bytes \<Rightarrow> bytes \<Rightarrow> bytes \<Rightarrow> 's \<Rightarrow>
   ('s, (handler_result \<times> bytes) option) res" where
  "try_route_from keccak H self i selector input output s =
     (if i < cb_len self then
        (case get_idx (cb_methods self) i of
           None \<Rightarrow> (Inl Trap, s)
         | Some (sel, handler) \<Rightarrow>
             if sel = selector then
               (let is_payable = (and (drop_bit i (cb_payable_bits self)) 1 = 1) in
                if \<not> is_payable \<and> value_transferred_is_nonzero H s then
                  (case copy_at output 0 (NON_PAYABLE_VALUE_RECEIVED keccak) of
                     None \<Rightarrow> (Inl Trap, s)
                   | Some output \<Rightarrow> (Inr (Some (HRevert 4, output)), s))
                else hbind (handler input output s) (\<lambda>r s. (Inr (Some r), s)))
             else try_route_from keccak H self (i + 1) selector input output s)
      else (Inr None, s))"
  by auto
termination by (relation "measure (\<lambda>(keccak, H, self, i, _). cb_len self - i)") auto

declare try_route_from.simps [simp del]

definition try_route ::
  "(bytes \<Rightarrow> bytes) \<Rightarrow> 's host_api \<Rightarrow> 's contract_builder \<Rightarrow> bytes \<Rightarrow> bytes \<Rightarrow> bytes \<Rightarrow> 's \<Rightarrow>
   ('s, (handler_result \<times> bytes) option) res" where
  "try_route keccak H self selector input output s = try_route_from keccak H self 0 selector input output s"

section \<open>Dispatch\<close>

definition finalize_response :: "'s host_api \<Rightarrow> handler_result \<times> bytes \<Rightarrow> 's \<Rightarrow> ('s, unit) res" where
  "finalize_response H r s =
     (case r of
        (HOk n, output) \<Rightarrow> finalize_outcome H (Return (min n (length output))) slice_sink output s
      | (HRevert n, output) \<Rightarrow> (let len = min n (length output) in hrevert H (take len output) s))"

text \<open>\<open>let mut calldata = [0u8; BUF_SIZE]; host.call_data_copy(&mut calldata[..len], 0)\<close>.\<close>

definition read_calldata :: "'s host_api \<Rightarrow> nat \<Rightarrow> nat \<Rightarrow> 's \<Rightarrow> bytes" where
  "read_calldata H buf_size call_data_len s =
     api_call_data_copy H call_data_len 0 s @ replicate (buf_size - call_data_len) 0"

definition dispatch_impl :: "(bytes \<Rightarrow> bytes) \<Rightarrow> 's host_api \<Rightarrow> nat \<Rightarrow> 's contract_builder \<Rightarrow> 's \<Rightarrow> ('s, unit) res" where
  "dispatch_impl keccak H buf_size self s =
     (let call_data_len = unat (api_call_data_size H s) in
      if call_data_len > buf_size then hrevert H (CALLDATA_TOO_LARGE keccak) s
      else (let calldata = read_calldata H buf_size call_data_len s in
        if call_data_len < 4 then hrevert H (NO_SELECTOR keccak) s
        else (let selector = take 4 calldata; input = take (call_data_len - 4) (drop 4 calldata);
                  output = replicate buf_size 0 in
          hbind (try_route keccak H self selector input output s) (\<lambda>r s.
          case r of Some result \<Rightarrow> finalize_response H result s
          | None \<Rightarrow> hrevert H (UNKNOWN_SELECTOR keccak) s))))"

text \<open>
  The dispatcher with handlers; its tail, reached with the default error when no method matched,
  is \<open>fallback_or_revert\<close>.
\<close>

definition fallback_or_revert ::
  "(bytes \<Rightarrow> bytes) \<Rightarrow> 's host_api \<Rightarrow> 's builder_with_handlers \<Rightarrow> bytes \<Rightarrow> bytes \<Rightarrow> bytes \<Rightarrow> 's \<Rightarrow> ('s, unit) res" where
  "fallback_or_revert keccak H self default_err calldata output s =
     (case bh_fallback self of
        Some handler \<Rightarrow>
          if \<not> bh_fallback_is_payable self \<and> value_transferred_is_nonzero H s then
            (case copy_at output 0 (NON_PAYABLE_VALUE_RECEIVED keccak) of
               None \<Rightarrow> (Inl Trap, s)
             | Some output \<Rightarrow> hrevert H (take 4 output) s)
          else hbind (handler calldata output s) (\<lambda>result s. finalize_response H result s)
      | None \<Rightarrow> hrevert H default_err s)"

definition handlers_dispatch_impl ::
  "(bytes \<Rightarrow> bytes) \<Rightarrow> 's host_api \<Rightarrow> nat \<Rightarrow> 's builder_with_handlers \<Rightarrow> 's \<Rightarrow> ('s, unit) res" where
  "handlers_dispatch_impl keccak H buf_size self s =
     (let call_data_len = unat (api_call_data_size H s) in
      if call_data_len > buf_size then hrevert H (CALLDATA_TOO_LARGE keccak) s
      else (let calldata = read_calldata H buf_size call_data_len s;
                output = replicate buf_size 0;
                rest = (\<lambda>s.
                  if call_data_len < 4
                  then fallback_or_revert keccak H self (NO_SELECTOR keccak) (take call_data_len calldata) output s
                  else (let selector = take 4 calldata; input = take (call_data_len - 4) (drop 4 calldata) in
                    hbind (try_route keccak H (bh_inner self) selector input output s) (\<lambda>r s.
                    case r of Some result \<Rightarrow> finalize_response H result s
                    | None \<Rightarrow> fallback_or_revert keccak H self (UNKNOWN_SELECTOR keccak)
                               (take call_data_len calldata) output s))) in
        if call_data_len = 0 then
          (case bh_receive self of
             Some receive \<Rightarrow> hbind (receive [] output s) (\<lambda>result s. finalize_response H result s)
           | None \<Rightarrow> rest s)
        else rest s))"

section \<open>The contract of the component\<close>

text \<open>A registration: payable or not, the selector, the handler.\<close>

type_synonym 's registration = "bool \<times> bytes \<times> 's handler"

definition register :: "'s registration \<Rightarrow> 's contract_builder \<Rightarrow> 's contract_builder option" where
  "register r b =
     (case r of (payable, sel, h) \<Rightarrow> if payable then builder_payable_method b sel h else builder_method b sel h)"

primrec register_all :: "'s registration list \<Rightarrow> 's contract_builder \<Rightarrow> 's contract_builder option" where
  "register_all [] b = Some b"
| "register_all (r # rs) b = Option.bind (register r b) (register_all rs)"

definition finish :: "'s host_api \<Rightarrow> handler_result \<times> bytes \<Rightarrow> 's \<Rightarrow> ('s, unit) res" where
  "finish H r s =
     (case r of (HOk n, out) \<Rightarrow> api_return_value H (take n out) s
      | (HRevert n, out) \<Rightarrow> hrevert H (take n out) s)"

definition run_handler ::
  "(bytes \<Rightarrow> bytes) \<Rightarrow> 's host_api \<Rightarrow> nat \<Rightarrow> bool \<Rightarrow> 's handler \<Rightarrow> bytes \<Rightarrow> 's \<Rightarrow> ('s, unit) res" where
  "run_handler keccak H buf_size payable h input s =
     (if \<not> payable \<and> value_transferred_is_nonzero H s then hrevert H (NON_PAYABLE_VALUE_RECEIVED keccak) s
      else hbind (h input (replicate buf_size 0) s) (finish H))"

definition dsl_spec ::
  "(bytes \<Rightarrow> bytes) \<Rightarrow> 's host_api \<Rightarrow> nat \<Rightarrow> 's registration list \<Rightarrow> (bool \<times> 's handler) option \<Rightarrow>
   's handler option \<Rightarrow> bytes \<Rightarrow> 's \<Rightarrow> ('s, unit) res" where
  "dsl_spec keccak H buf_size regs fallback receive data s =
     (if length data > buf_size then hrevert H (CALLDATA_TOO_LARGE keccak) s
      else case (if data = [] then receive else None) of
        Some h \<Rightarrow> run_handler keccak H buf_size True h [] s
      | None \<Rightarrow>
        (case (if length data < 4 then None else find (\<lambda>(p, sel, h). sel = take 4 data) regs) of
           Some (p, sel, h) \<Rightarrow> run_handler keccak H buf_size p h (drop 4 data) s
         | None \<Rightarrow>
           (case fallback of
              Some (p, h) \<Rightarrow> run_handler keccak H buf_size p h data s
            | None \<Rightarrow> hrevert H (if length data < 4 then NO_SELECTOR keccak else UNKNOWN_SELECTOR keccak) s)))"

section \<open>The table represents the registrations\<close>

definition table_of :: "'s contract_builder \<Rightarrow> 's registration list \<Rightarrow> bool" where
  "table_of b regs \<longleftrightarrow>
     cb_len b = length regs \<and> length regs \<le> MAX_METHODS \<and> length (cb_methods b) = MAX_METHODS \<and>
     (\<forall>i. bit (cb_payable_bits b) i = (i < length regs \<and> fst (regs ! i))) \<and>
     (\<forall>i < length regs. cb_methods b ! i = snd (regs ! i))"

lemma table_new: "table_of builder_new []"
  by (simp add: table_of_def builder_new_def MAX_METHODS_def)

lemma register_table:
  assumes "table_of b regs"
  shows "register r b = None \<longleftrightarrow> length regs = MAX_METHODS"
    and "register r b = Some b' \<Longrightarrow> table_of b' (regs @ [r])"
proof -
  obtain p sel h where r: "r = (p, sel, h)" by (cases r)
  show "register r b = None \<longleftrightarrow> length regs = MAX_METHODS"
    using assms by (auto simp: r register_def table_of_def builder_method_def builder_payable_method_def)
  show "table_of b' (regs @ [r])" if "register r b = Some b'"
    using assms that
    by (auto simp: r register_def table_of_def builder_method_def builder_payable_method_def MAX_METHODS_def
        bit_simps nth_append nth_list_update less_Suc_eq split: if_splits)
qed

lemma register_all_table:
  assumes "table_of b regs"
  shows "(length regs + length rs > MAX_METHODS \<longrightarrow> register_all rs b = None) \<and>
    (length regs + length rs \<le> MAX_METHODS \<longrightarrow> (\<exists>b'. register_all rs b = Some b' \<and> table_of b' (regs @ rs)))"
  using assms
proof (induction rs arbitrary: b regs)
  case Nil
  then show ?case by (auto simp: table_of_def)
next
  case (Cons r rs)
  show ?case
  proof (cases "register r b")
    case None
    then show ?thesis using register_table(1) [OF Cons.prems, of r] by simp
  next
    case (Some b')
    then have "table_of b' (regs @ [r])" "length regs < MAX_METHODS"
      using register_table [OF Cons.prems, of r] Cons.prems by (auto simp: table_of_def)
    then show ?thesis using Cons.IH [of b' "regs @ [r]"] Some by simp
  qed
qed

lemma drop_bit_is_payable: "(and (drop_bit i w) 1 = (1 :: 64 word)) \<longleftrightarrow> bit w i"
  by (simp add: and_one_eq bit_iff_odd_drop_bit odd_iff_mod_2_eq_one)

lemma try_route_table:
  assumes "table_of b regs" "i \<le> length regs" "4 \<le> length output"
  shows "try_route_from keccak H b i selector input output s =
    (case find (\<lambda>(p, sel, h). sel = selector) (drop i regs) of
       None \<Rightarrow> (Inr None, s)
     | Some (p, sel, h) \<Rightarrow>
         if \<not> p \<and> value_transferred_is_nonzero H s
         then (Inr (Some (HRevert 4, NON_PAYABLE_VALUE_RECEIVED keccak @ drop 4 output)), s)
         else hbind (h input output s) (\<lambda>r s. (Inr (Some r), s)))"
  using assms(2)
proof (induction "length regs - i" arbitrary: i)
  case 0
  then show ?case using assms(1) by (simp add: try_route_from.simps table_of_def)
next
  case (Suc n)
  then have i: "i < length regs" by simp
  obtain p sel h where r: "regs ! i = (p, sel, h)" by (cases "regs ! i")
  have b: "i < cb_len b" "get_idx (cb_methods b) i = Some (sel, h)" "bit (cb_payable_bits b) i = p"
    using assms(1) i r by (auto simp: table_of_def get_idx_def)
  have c: "copy_at output 0 (NON_PAYABLE_VALUE_RECEIVED keccak) = Some (NON_PAYABLE_VALUE_RECEIVED keccak @ drop 4 output)"
    using assms(3) by (simp add: copy_at_def)
  have "drop i regs = (p, sel, h) # drop (i + 1) regs"
    using Cons_nth_drop_Suc [OF i] r by simp
  then show ?case
    using Suc.hyps(1) [of "i + 1"] Suc.hyps(2) i
    by (simp add: try_route_from.simps [of keccak H b i] b c drop_bit_is_payable)
qed

lemma finalize_is_finish: "finalize_response H = finish H"
proof (intro ext)
  fix r s
  show "finalize_response H r s = finish H r s"
    by (cases r; cases "fst r")
      (auto simp: finalize_response_def finish_def finalize_outcome_def slice_sink_def sink_view_def Let_def min_def)
qed

lemma finish_error: "length e = 4 \<Longrightarrow> finish H (HRevert 4, e @ out) s = hrevert H e s"
  by (simp add: finish_def)

context calldata_host
begin

lemma read_calldata_is:
  "read_calldata H buf_size (length (calldata s)) s = calldata s @ replicate (buf_size - length (calldata s)) 0"
  by (simp add: read_calldata_def call_data_copy)

lemma routed:
  assumes "table_of b regs" "4 \<le> length (calldata s)" "length (calldata s) \<le> buf_size"
  shows "hbind (try_route keccak H b (take 4 (calldata s)) (drop 4 (calldata s)) (replicate buf_size 0) s)
      (\<lambda>r s. case r of Some result \<Rightarrow> finalize_response H result s | None \<Rightarrow> k s) =
    (case find (\<lambda>(p, sel, h). sel = take 4 (calldata s)) regs of
       Some (p, sel, h) \<Rightarrow> run_handler keccak H buf_size p h (drop 4 (calldata s)) s
     | None \<Rightarrow> k s)"
  using assms(2,3)
  by (auto simp: try_route_def try_route_table [OF assms(1)] run_handler_def finalize_is_finish finish_error
      split: option.splits)

lemma dispatch_is_spec:
  assumes "table_of b regs" "length (calldata s) < 2 ^ 64"
  shows "dispatch_impl keccak H buf_size b s = dsl_spec keccak H buf_size regs None None (calldata s) s"
proof (cases "length (calldata s) < 4 \<or> buf_size < length (calldata s)")
  case True
  then show ?thesis
    using assms(2) by (auto simp: dispatch_impl_def dsl_spec_def call_data_size Let_def read_calldata_is)
next
  case False
  then have "calldata s \<noteq> []" by auto
  with False show ?thesis
    using assms(2) routed [OF assms(1), of s buf_size keccak]
    by (simp add: dispatch_impl_def dsl_spec_def call_data_size Let_def read_calldata_is split: option.splits)
qed

lemma fallback_is_spec:
  assumes "4 \<le> buf_size"
  shows "fallback_or_revert keccak H hs e data (replicate buf_size 0) s =
    (case bh_fallback hs of
       Some h \<Rightarrow> run_handler keccak H buf_size (bh_fallback_is_payable hs) h data s
     | None \<Rightarrow> hrevert H e s)"
  using assms
  by (auto simp: fallback_or_revert_def run_handler_def copy_at_def finalize_is_finish split: option.splits)

lemma handlers_dispatch_is_spec:
  assumes "table_of (bh_inner hs) regs" "4 \<le> buf_size" "length (calldata s) < 2 ^ 64"
  shows "handlers_dispatch_impl keccak H buf_size hs s =
    dsl_spec keccak H buf_size regs (map_option (\<lambda>h. (bh_fallback_is_payable hs, h)) (bh_fallback hs))
      (bh_receive hs) (calldata s) s"
proof -
  consider "buf_size < length (calldata s)" | "length (calldata s) < 4" "length (calldata s) \<le> buf_size"
    | "4 \<le> length (calldata s)" "length (calldata s) \<le> buf_size" by linarith
  then show ?thesis
  proof cases
    case 1
    then show ?thesis using assms(3) by (simp add: handlers_dispatch_impl_def dsl_spec_def call_data_size Let_def)
  next
    case 2
    then show ?thesis
      using assms(3)
      by (auto simp: handlers_dispatch_impl_def dsl_spec_def call_data_size Let_def read_calldata_is
          fallback_is_spec [OF assms(2)] run_handler_def finalize_is_finish split: option.splits)
  next
    case 3
    then show ?thesis
      using assms(3) routed [OF assms(1), of s buf_size keccak]
      by (auto simp: handlers_dispatch_impl_def dsl_spec_def call_data_size Let_def read_calldata_is
          fallback_is_spec [OF assms(2)] split: option.splits)
  qed
qed

end

text \<open>
  C27: the DSL dispatches as specified. At most 16 methods can be registered, a seventeenth panics.
  Otherwise, whatever the handlers do, the dispatcher runs the first registered method with the
  selector of the calldata, on the rest of it and a zeroed buffer, and returns or reverts with the
  prefix of that buffer the handler announced, clamped to it. Oversized calldata, calldata without
  a selector, an unknown selector, and value sent to a non-payable method revert with the framework
  error and run no handler. With handlers attached, empty calldata goes to \<open>receive\<close>, what no method
  matches to \<open>fallback\<close> with the whole calldata.
\<close>

theorem dsl_dispatch_refines_spec:
  assumes "length (ms_calldata s) < 2 ^ 64" "4 \<le> buf_size"
  shows "(16 < length regs \<longrightarrow> register_all regs builder_new = None) \<and>
    (length regs \<le> 16 \<longrightarrow> (\<exists>b. register_all regs builder_new = Some b \<and>
      dispatch_impl keccak (mock_api k) buf_size b s =
        dsl_spec keccak (mock_api k) buf_size regs None None (ms_calldata s) s \<and>
      (\<forall>hs. bh_inner hs = b \<longrightarrow> handlers_dispatch_impl keccak (mock_api k) buf_size hs s =
        dsl_spec keccak (mock_api k) buf_size regs
          (map_option (\<lambda>h. (bh_fallback_is_payable hs, h)) (bh_fallback hs)) (bh_receive hs) (ms_calldata s) s)))"
  using register_all_table [OF table_new, of regs] mock_data.dispatch_is_spec [OF _ assms(1)]
    mock_data.handlers_dispatch_is_spec [OF _ assms(2,1)]
  by (auto simp: MAX_METHODS_def)

theorem dsl_dispatch_refines_spec_witness:
  "let s = mock_new\<lparr>ms_calldata := [1, 2, 3, 4, 9]\<rparr>; regs = [(False, [1, 2, 3, 4], \<lambda>input out s. (Inr (HOk 1, input @ out), s))] in
    \<exists>b. register_all regs builder_new = Some b \<and>
      dispatch_impl (\<lambda>_. replicate 32 0) (mock_api (\<lambda>_. 9)) 64 b s = (Inr (), s\<lparr>ms_return_value := Some (FlagsEmpty, [9])\<rparr>)"
proof -
  let ?regs = "[(False, [1, 2, 3, 4], \<lambda>input out s :: mock_state. (Inr (HOk 1, input @ out), s))]"
  let ?s = "mock_new\<lparr>ms_calldata := [1, 2, 3, 4, 9]\<rparr>"
  have "dsl_spec (\<lambda>_. replicate 32 0) (mock_api (\<lambda>_. 9)) 64 ?regs None None [1, 2, 3, 4, 9] ?s =
      (Inr (), ?s\<lparr>ms_return_value := Some (FlagsEmpty, [9])\<rparr>)"
    by (simp add: dsl_spec_def run_handler_def value_transferred_is_nonzero_def value_is_nonzero_bytes_def
        mock_api_def mock_new_def finish_def mock_return_value_def record_return_def)
  then show ?thesis
    using dsl_dispatch_refines_spec [of ?s 64 ?regs "\<lambda>_. replicate 32 0" "\<lambda>_. 9"] unfolding Let_def by auto
qed

end
