(* ===== verification/BumpAlloc.thy ===== *)
theory BumpAlloc
  imports Prelude
begin

text \<open>
  \<open>pvm-bump-allocator\<close>: the global allocator of contracts built with \<open>allocator = "bump"\<close>. The
  offset is a machine word and the alignment mask works on its bits. The contract of the component
  is that of an arena: the locale \<open>arena\<close> says what one allocation promises, and its lemmas that
  the blocks of any sequence of allocations are disjoint. A block is the offset in the heap and the
  length; the pointer the caller gets is the heap's address plus the offset. \<open>None\<close> is the panic
  \<open>"exhausted heap limit"\<close>.
\<close>

unbundle bit_operations_syntax

section \<open>The allocator\<close>

text \<open>\<open>core::alloc::Layout\<close>: a power of two and a size that, rounded up to it, is at most \<open>isize::MAX\<close>.\<close>

record layout =
  layout_size :: "64 word"
  layout_align :: "64 word"

definition layout_valid :: "layout \<Rightarrow> bool" where
  "layout_valid L \<longleftrightarrow>
     (\<exists>k < 64. layout_align L = 2 ^ k) \<and> unat (layout_size L) + unat (layout_align L) \<le> 2 ^ 63"

record bump_allocator =
  ba_offset :: "64 word"
  ba_heap :: bytes

definition bump_new :: "64 word \<Rightarrow> bump_allocator" where
  "bump_new HEAP_SIZE = \<lparr> ba_offset = 0, ba_heap = replicate (unat HEAP_SIZE) 0 \<rparr>"

definition word_checked_add :: "64 word \<Rightarrow> 64 word \<Rightarrow> 64 word option" where
  "word_checked_add a b = (if unat a + unat b < 2 ^ 64 then Some (a + b) else None)"

definition bump_alloc ::
  "64 word \<Rightarrow> 64 word \<Rightarrow> layout \<Rightarrow> bump_allocator \<Rightarrow> (64 word \<times> bump_allocator) option" where
  "bump_alloc HEAP_SIZE heap_ptr layout self =
     (let align = layout_align layout; size = layout_size layout; current = ba_offset self;
          aligned = (current + align - 1) AND NOT (align - 1) in
      case word_checked_add aligned size of
        None \<Rightarrow> None
      | Some next \<Rightarrow>
          if next > HEAP_SIZE then None
          else Some (heap_ptr + aligned, self\<lparr>ba_offset := next\<rparr>))"

definition bump_alloc_zeroed ::
  "64 word \<Rightarrow> 64 word \<Rightarrow> layout \<Rightarrow> bump_allocator \<Rightarrow> (64 word \<times> bump_allocator) option" where
  "bump_alloc_zeroed = bump_alloc"

definition bump_dealloc :: "64 word \<Rightarrow> layout \<Rightarrow> bump_allocator \<Rightarrow> bump_allocator" where
  "bump_dealloc ptr layout self = self"

section \<open>Rounding up\<close>

definition round_up :: "nat \<Rightarrow> nat \<Rightarrow> nat" where
  "round_up a n = a * ((n + a - 1) div a)"

lemma round_up_least:
  assumes "0 < a"
  shows "a dvd round_up a n" "n \<le> round_up a n" "a dvd m \<Longrightarrow> n \<le> m \<Longrightarrow> round_up a n \<le> m"
    "round_up a n < n + a"
proof -
  show "a dvd round_up a n" by (simp add: round_up_def)
  have d: "round_up a n + (n + a - 1) mod a = n + a - 1" by (simp add: round_up_def)
  moreover have "(n + a - 1) mod a < a" using assms by simp
  ultimately show "n \<le> round_up a n" "round_up a n < n + a" using assms by linarith+
  show "round_up a n \<le> m" if m: "a dvd m" "n \<le> m"
  proof -
    obtain j where j: "m = a * j" using m by auto
    have "(n + a - 1) div a \<le> (a * j + (a - 1)) div a" using m j assms by (intro div_le_mono) simp
    also have "\<dots> = j" by (rule div_nat_eqI) (use assms in simp_all)
    finally show ?thesis by (simp add: round_up_def j)
  qed
qed

lemma unat_and_not_mask: "unat (w AND NOT (2 ^ k - 1) :: 64 word) = 2 ^ k * (unat w div 2 ^ k)"
proof -
  have "w AND NOT (2 ^ k - 1) = w AND NOT (mask k)" by (simp add: mask_eq_exp_minus_1)
  also have "\<dots> = push_bit k (drop_bit k w)"
    by (rule bit_eqI) (auto simp: bit_simps)
  finally have e: "w AND NOT (2 ^ k - 1) = push_bit k (drop_bit k w)" .
  have "unat (drop_bit k w) = unat w div 2 ^ k"
    using drop_bit_eq_div [of k "unat w"] by (simp only: unat_drop_bit_eq)
  moreover have "2 ^ k * (unat w div 2 ^ k) < 2 ^ 64"
    by (rule le_less_trans [OF times_div_less_eq_dividend]) (use unsigned_less [of w] in simp)
  ultimately show ?thesis
    by (simp add: e unsigned_push_bit_eq take_bit_nat_eq_self push_bit_nat_def mult.commute
        del: push_bit_eq_mult)
qed

lemma layout_validD:
  assumes "layout_valid L"
  obtains k where "k < 64" "layout_align L = 2 ^ k" "unat (layout_align L) = 2 ^ k"
    "2 ^ k \<le> (2 ^ 63 :: nat)" "unat (layout_size L) + 2 ^ k \<le> 2 ^ 63"
proof -
  obtain k where k: "k < 64" "layout_align L = 2 ^ k" using assms by (auto simp: layout_valid_def)
  then have "(2 :: nat) ^ k < 2 ^ 64" by (intro power_strict_increasing) simp_all
  then have "unat (of_nat (2 ^ k) :: 64 word) = 2 ^ k" by (simp only: unat_of_nat) simp
  then show thesis using that k assms by (auto simp: layout_valid_def)
qed

text \<open>One allocation, in arithmetic: the least aligned block above the offset, if it fits.\<close>

definition alloc_spec ::
  "64 word \<Rightarrow> 64 word \<Rightarrow> layout \<Rightarrow> bump_allocator \<Rightarrow> (64 word \<times> bump_allocator) option" where
  "alloc_spec HEAP_SIZE heap_ptr L self =
     (let p = round_up (unat (layout_align L)) (unat (ba_offset self)); e = p + unat (layout_size L) in
      if e \<le> unat HEAP_SIZE then Some (heap_ptr + of_nat p, self\<lparr>ba_offset := of_nat e\<rparr>) else None)"

lemma bump_alloc_spec:
  assumes L: "layout_valid L" and off: "ba_offset self \<le> HEAP_SIZE" and H: "unat HEAP_SIZE < 2 ^ 63"
  shows "bump_alloc HEAP_SIZE heap_ptr L self = alloc_spec HEAP_SIZE heap_ptr L self"
proof -
  obtain k where k: "k < 64" "layout_align L = 2 ^ k" "unat (layout_align L) = 2 ^ k"
    "2 ^ k \<le> (2 ^ 63 :: nat)" "unat (layout_size L) + 2 ^ k \<le> 2 ^ 63"
    using L by (rule layout_validD)
  define p where "p = round_up (2 ^ k) (unat (ba_offset self))"
  have o: "unat (ba_offset self) < 2 ^ 63" using off H by (simp add: word_le_nat_alt)
  have p: "p < unat (ba_offset self) + 2 ^ k" using round_up_least(4) [of "2 ^ k"] by (simp add: p_def)
  have w: "unat (ba_offset self + 2 ^ k - 1) = unat (ba_offset self) + 2 ^ k - 1"
  proof -
    have "unat (ba_offset self + 2 ^ k) = unat (ba_offset self) + 2 ^ k"
      using o k by (simp add: unat_word_ariths)
    moreover have "Suc 0 \<le> unat (ba_offset self) + 2 ^ k" by (simp add: Suc_le_eq)
    ultimately show ?thesis by (simp add: unat_sub_if_size)
  qed
  define a where "a = (ba_offset self + 2 ^ k - 1) AND NOT (2 ^ k - 1)"
  have a: "unat a = p" by (simp add: a_def unat_and_not_mask w p_def round_up_def)
  have n: "p + unat (layout_size L) < 2 ^ 64" using p o k by simp
  have u: "unat (a + layout_size L) = p + unat (layout_size L)" using a n by (simp add: unat_word_ariths)
  have e: "a = of_nat p" "a + layout_size L = of_nat (p + unat (layout_size L))"
    unfolding a [symmetric] by simp_all
  have "bump_alloc HEAP_SIZE heap_ptr L self =
    (if a + layout_size L > HEAP_SIZE then None
     else Some (heap_ptr + a, self\<lparr>ba_offset := a + layout_size L\<rparr>))"
    using n a by (simp add: bump_alloc_def k(2) Let_def word_checked_add_def flip: a_def)
  then show ?thesis
    by (auto simp: alloc_spec_def k(3) Let_def p_def [symmetric] word_less_nat_alt u)
      (simp_all add: e)
qed


section \<open>Arenas\<close>

type_synonym blocks = "(nat \<times> layout) list"

text \<open>The blocks handed out, newest first: each is aligned and below \<open>used\<close>, and above the older ones.\<close>

definition blocks_ok :: "nat \<Rightarrow> blocks \<Rightarrow> bool" where
  "blocks_ok used bs \<longleftrightarrow>
     sorted_wrt (\<lambda>(p, L) (q, M). q + unat (layout_size M) \<le> p) bs \<and>
     (\<forall>(p, L) \<in> set bs. unat (layout_align L) dvd p \<and> p + unat (layout_size L) \<le> used)"

definition zero_above :: "nat \<Rightarrow> bytes \<Rightarrow> bool" where
  "zero_above used mem \<longleftrightarrow> (\<forall>i < length mem. used \<le> i \<longrightarrow> mem ! i = 0)"

locale arena =
  fixes alloc :: "layout \<Rightarrow> 'a \<Rightarrow> (nat \<times> 'a) option"
    and used :: "'a \<Rightarrow> nat"
    and memory :: "'a \<Rightarrow> bytes"
    and limit :: nat
  assumes block: "\<lbrakk>layout_valid L; used a \<le> limit; limit < 2 ^ 63; alloc L a = Some (p, b)\<rbrakk> \<Longrightarrow>
      used a \<le> p \<and> p + unat (layout_size L) \<le> used b \<and> used b \<le> limit \<and> unat (layout_align L) dvd p"
    and keeps_memory: "alloc L a = Some (p, b) \<Longrightarrow> memory b = memory a"
begin

lemma blocks_ok_alloc:
  assumes "blocks_ok (used a) bs" "layout_valid L" "used a \<le> limit" "limit < 2 ^ 63" "alloc L a = Some (p, b)"
  shows "blocks_ok (used b) ((p, L) # bs)" "used b \<le> limit"
proof -
  have b: "used a \<le> p" "p + unat (layout_size L) \<le> used b" "used b \<le> limit" "unat (layout_align L) dvd p"
    using block [OF assms(2-5)] by auto
  then show "blocks_ok (used b) ((p, L) # bs)" "used b \<le> limit"
    using assms(1) by (fastforce simp: blocks_ok_def)+
qed

lemma alloc_zero:
  assumes "layout_valid L" "used a \<le> limit" "limit < 2 ^ 63" "alloc L a = Some (p, b)" "zero_above (used a) (memory a)"
    "length (memory a) = limit"
  shows "take (unat (layout_size L)) (drop p (memory b)) = replicate (unat (layout_size L)) 0" "zero_above (used b) (memory b)"
proof -
  have b: "used a \<le> p" "p + unat (layout_size L) \<le> used b" "used b \<le> limit"
    using block [OF assms(1-4)] by auto
  show "take (unat (layout_size L)) (drop p (memory b)) = replicate (unat (layout_size L)) 0"
    using assms(5,6) b keeps_memory [OF assms(4)] by (intro nth_equalityI) (auto simp: zero_above_def)
  show "zero_above (used b) (memory b)" using assms(5) b keeps_memory [OF assms(4)] by (auto simp: zero_above_def)
qed

end

definition heap_offset :: "64 word \<Rightarrow> 64 word \<Rightarrow> nat" where
  "heap_offset heap_ptr ptr = unat (ptr - heap_ptr)"

interpretation bump: arena
  "\<lambda>L a. map_option (\<lambda>(ptr, b). (heap_offset heap_ptr ptr, b)) (bump_alloc HEAP_SIZE heap_ptr L a)"
  "\<lambda>a. unat (ba_offset a)" ba_heap "unat HEAP_SIZE"
  for HEAP_SIZE heap_ptr
proof (unfold_locales, goal_cases)
  case (1 L a p b)
  then have s: "map_option (\<lambda>(ptr, b). (heap_offset heap_ptr ptr, b)) (alloc_spec HEAP_SIZE heap_ptr L a) = Some (p, b)"
    by (simp add: bump_alloc_spec word_le_nat_alt)
  have "0 < unat (layout_align L)" using layout_validD [OF 1(1)] by fastforce
  then show ?case
    using round_up_least(1,2) [of "unat (layout_align L)" "unat (ba_offset a)"] s 1(3)
    by (auto simp: alloc_spec_def Let_def heap_offset_def unat_of_nat unat_word_ariths split: if_splits)
next
  case (2 L a p b)
  then show ?case by (auto simp: bump_alloc_def Let_def split: option.splits if_splits)
qed


section \<open>A heap in use\<close>

text \<open>
  What a program does with the allocator, and with the memory it got: it writes to its blocks, also
  to blocks it has given back, which the allocator never reuses.
\<close>

inductive heap_step :: "64 word \<Rightarrow> 64 word \<Rightarrow> bump_allocator \<times> blocks \<Rightarrow> bump_allocator \<times> blocks \<Rightarrow> bool"
  for HEAP_SIZE heap_ptr where
  step_alloc: "\<lbrakk>layout_valid L; bump_alloc HEAP_SIZE heap_ptr L a = Some (ptr, b)\<rbrakk> \<Longrightarrow>
    heap_step HEAP_SIZE heap_ptr (a, bs) (b, (heap_offset heap_ptr ptr, L) # bs)"
| step_alloc_zeroed: "\<lbrakk>layout_valid L; bump_alloc_zeroed HEAP_SIZE heap_ptr L a = Some (ptr, b)\<rbrakk> \<Longrightarrow>
    heap_step HEAP_SIZE heap_ptr (a, bs) (b, (heap_offset heap_ptr ptr, L) # bs)"
| step_dealloc: "heap_step HEAP_SIZE heap_ptr (a, bs) (bump_dealloc ptr L a, bs)"
| step_write: "\<lbrakk>(p, L) \<in> set bs; i + length data \<le> unat (layout_size L); copy_at (ba_heap a) (p + i) data = Some m\<rbrakk> \<Longrightarrow>
    heap_step HEAP_SIZE heap_ptr (a, bs) (a\<lparr>ba_heap := m\<rparr>, bs)"

definition heap_inv :: "64 word \<Rightarrow> bump_allocator \<times> blocks \<Rightarrow> bool" where
  "heap_inv HEAP_SIZE c \<longleftrightarrow>
     blocks_ok (unat (ba_offset (fst c))) (snd c) \<and> unat (ba_offset (fst c)) \<le> unat HEAP_SIZE \<and>
     length (ba_heap (fst c)) = unat HEAP_SIZE \<and> zero_above (unat (ba_offset (fst c))) (ba_heap (fst c))"

lemma heap_inv_alloc:
  assumes "heap_inv HEAP_SIZE (a, bs)" "unat HEAP_SIZE < 2 ^ 63" "layout_valid L"
    "bump_alloc HEAP_SIZE heap_ptr L a = Some (ptr, b)"
  shows "heap_inv HEAP_SIZE (b, (heap_offset heap_ptr ptr, L) # bs)"
    "take (unat (layout_size L)) (drop (heap_offset heap_ptr ptr) (ba_heap b)) = replicate (unat (layout_size L)) 0"
  using assms bump.blocks_ok_alloc [of a bs L HEAP_SIZE heap_ptr "heap_offset heap_ptr ptr" b]
    bump.alloc_zero [of L a HEAP_SIZE heap_ptr "heap_offset heap_ptr ptr" b]
    bump.keeps_memory [of heap_ptr HEAP_SIZE L a "heap_offset heap_ptr ptr" b]
  by (auto simp: heap_inv_def)

lemma heap_inv_write:
  assumes "heap_inv HEAP_SIZE (a, bs)" "(p, L) \<in> set bs" "i + length data \<le> unat (layout_size L)"
    "copy_at (ba_heap a) (p + i) data = Some m"
  shows "heap_inv HEAP_SIZE (a\<lparr>ba_heap := m\<rparr>, bs)"
proof -
  have "p + unat (layout_size L) \<le> unat (ba_offset a)"
    using assms(1,2) by (fastforce simp: heap_inv_def blocks_ok_def)
  moreover have "m = take (p + i) (ba_heap a) @ data @ drop (p + i + length data) (ba_heap a)"
    "p + i + length data \<le> length (ba_heap a)"
    using assms(4) by (auto simp: copy_at_def split: if_splits)
  ultimately show ?thesis
    using assms(1,3) by (auto simp: heap_inv_def zero_above_def nth_append)
qed

lemma heap_inv_step:
  assumes "heap_step HEAP_SIZE heap_ptr c c'" "heap_inv HEAP_SIZE c" "unat HEAP_SIZE < 2 ^ 63"
  shows "heap_inv HEAP_SIZE c'"
  using assms
proof cases
  case (step_write p L bs i data a m)
  then show ?thesis using heap_inv_write assms(2) by simp
qed (use assms(2,3) heap_inv_alloc(1) in \<open>auto simp: bump_alloc_zeroed_def bump_dealloc_def\<close>)

lemma heap_inv_run:
  assumes "(heap_step HEAP_SIZE heap_ptr)\<^sup>*\<^sup>* (bump_new HEAP_SIZE, []) c" "unat HEAP_SIZE < 2 ^ 63"
  shows "heap_inv HEAP_SIZE c"
  using assms(1)
proof (induction rule: rtranclp_induct)
  case base
  show ?case by (simp add: heap_inv_def bump_new_def blocks_ok_def zero_above_def)
next
  case (step c c')
  then show ?case using heap_inv_step [OF step(2,3) assms(2)] by blast
qed

text \<open>
  C22: whatever a program allocates, frees and writes, the bump allocator hands out blocks that lie
  inside the heap, are aligned to their layout within it and never overlap an earlier block; and
  \<open>alloc_zeroed\<close>, which is \<open>alloc\<close>, returns memory that is zero.
\<close>

theorem bump_heap_safe:
  assumes "(heap_step HEAP_SIZE heap_ptr)\<^sup>*\<^sup>* (bump_new HEAP_SIZE, []) (a, bs)" "unat HEAP_SIZE < 2 ^ 63"
  shows "blocks_ok (unat (ba_offset a)) bs \<and> unat (ba_offset a) \<le> length (ba_heap a) \<and>
    length (ba_heap a) = unat HEAP_SIZE \<and>
    (\<forall>L ptr b. layout_valid L \<longrightarrow> bump_alloc_zeroed HEAP_SIZE heap_ptr L a = Some (ptr, b) \<longrightarrow>
      take (unat (layout_size L)) (drop (heap_offset heap_ptr ptr) (ba_heap b)) = replicate (unat (layout_size L)) 0)"
  using heap_inv_run [OF assms] heap_inv_alloc(2) [OF heap_inv_run [OF assms] assms(2)]
  by (auto simp: heap_inv_def bump_alloc_zeroed_def)

lemma ptr_aligned:
  assumes "a dvd p" "unat heap_ptr + p < 2 ^ 64"
  shows "a dvd unat (heap_ptr + of_nat p :: 64 word) \<longleftrightarrow> a dvd unat heap_ptr"
proof -
  have "unat (heap_ptr + of_nat p :: 64 word) = unat heap_ptr + p"
    using assms(2) by (simp add: unat_word_ariths unat_of_nat)
  then show ?thesis using assms(1) by (simp add: dvd_add_left_iff)
qed

text \<open>
  C23: one allocation takes the first aligned offset at or above the current one, moves the offset to
  the end of the block and leaves memory alone, and it panics exactly when no such block fits. The
  returned pointer has the alignment of the layout exactly when the heap itself has it: offsets are
  aligned, not addresses.
\<close>

theorem bump_alloc_exact:
  assumes "layout_valid L" "ba_offset a \<le> HEAP_SIZE" "unat HEAP_SIZE < 2 ^ 63" "unat heap_ptr + unat HEAP_SIZE < 2 ^ 64"
  shows "case bump_alloc HEAP_SIZE heap_ptr L a of
      None \<Rightarrow> \<not> (\<exists>p. unat (layout_align L) dvd p \<and> unat (ba_offset a) \<le> p \<and> p + unat (layout_size L) \<le> unat HEAP_SIZE)
    | Some (ptr, b) \<Rightarrow> \<exists>p. ptr = heap_ptr + of_nat p \<and> unat (layout_align L) dvd p \<and> unat (ba_offset a) \<le> p \<and>
        (\<forall>q. unat (layout_align L) dvd q \<longrightarrow> unat (ba_offset a) \<le> q \<longrightarrow> p \<le> q) \<and>
        p + unat (layout_size L) \<le> unat HEAP_SIZE \<and> unat (ba_offset b) = p + unat (layout_size L) \<and>
        ba_heap b = ba_heap a \<and> (unat (layout_align L) dvd unat ptr \<longleftrightarrow> unat (layout_align L) dvd unat heap_ptr)"
proof -
  let ?p = "round_up (unat (layout_align L)) (unat (ba_offset a))"
  have "0 < unat (layout_align L)" using layout_validD [OF assms(1)] by fastforce
  note r = round_up_least [OF this]
  have al: "unat (layout_align L) dvd unat (heap_ptr + of_nat ?p) \<longleftrightarrow> unat (layout_align L) dvd unat heap_ptr"
    if "?p + unat (layout_size L) \<le> unat HEAP_SIZE"
    using that assms(4) by (intro ptr_aligned r) simp
  have un: "unat (of_nat ?p + layout_size L) = ?p + unat (layout_size L)"
    if "?p + unat (layout_size L) \<le> unat HEAP_SIZE"
    using that assms(3) by (simp add: unat_word_ariths unat_of_nat)
  show ?thesis
  proof (cases "?p + unat (layout_size L) \<le> unat HEAP_SIZE")
    case True
    then show ?thesis
      unfolding bump_alloc_spec [OF assms(1-3)]
      using al un by (auto simp: alloc_spec_def Let_def intro!: exI [of _ ?p] r)
  next
    case False
    moreover have "\<not> (unat (layout_align L) dvd p \<and> unat (ba_offset a) \<le> p \<and> p + unat (layout_size L) \<le> unat HEAP_SIZE)" for p
      using False r(3) [of p] by (meson add_le_mono1 le_trans)
    ultimately show ?thesis
      unfolding bump_alloc_spec [OF assms(1-3)] by (auto simp: alloc_spec_def Let_def)
  qed
qed

section \<open>Witnesses\<close>

lemma word_layout: "layout_valid \<lparr> layout_size = 3, layout_align = 4 \<rparr>"
  unfolding layout_valid_def by (rule conjI, rule exI [of _ 2]) simp_all

theorem bump_alloc_exact_witness:
  "\<not> (\<exists>p. 4 dvd p \<and> 62 \<le> p \<and> p + 3 \<le> (64 :: nat))"
proof -
  have "bump_alloc 64 4096 \<lparr> layout_size = 3, layout_align = 4 \<rparr> \<lparr> ba_offset = 62, ba_heap = replicate 64 0 \<rparr> = None"
    by (simp add: bump_alloc_def word_checked_add_def)
  then show ?thesis
    using bump_alloc_exact [OF word_layout, of "\<lparr> ba_offset = 62, ba_heap = replicate 64 0 \<rparr>" 64 4096]
    by (simp add: word_le_nat_alt)
qed

theorem bump_heap_safe_witness:
  "blocks_ok 7 [(4, \<lparr> layout_size = 3, layout_align = 4 \<rparr>), (0, \<lparr> layout_size = 3, layout_align = 4 \<rparr>)]"
proof -
  let ?L = "\<lparr> layout_size = 3, layout_align = 4 \<rparr>"
  have a: "bump_alloc 64 4096 ?L (bump_new 64) = Some (4096, (bump_new 64)\<lparr>ba_offset := 3\<rparr>)"
    "bump_alloc 64 4096 ?L ((bump_new 64)\<lparr>ba_offset := 3\<rparr>) = Some (4100, (bump_new 64)\<lparr>ba_offset := 7\<rparr>)"
    by (simp_all add: bump_alloc_def word_checked_add_def bump_new_def)
  have "heap_step 64 4096 (bump_new 64, []) ((bump_new 64)\<lparr>ba_offset := 3\<rparr>, [(0, ?L)])"
    using step_alloc [OF word_layout a(1), of "[]"] by (simp add: heap_offset_def)
  moreover have "heap_step 64 4096 ((bump_new 64)\<lparr>ba_offset := 3\<rparr>, [(0, ?L)]) ((bump_new 64)\<lparr>ba_offset := 7\<rparr>, [(4, ?L), (0, ?L)])"
    using step_alloc [OF word_layout a(2), of "[(0, ?L)]"] by (simp add: heap_offset_def)
  ultimately have "(heap_step 64 4096)\<^sup>*\<^sup>* (bump_new 64, []) ((bump_new 64)\<lparr>ba_offset := 7\<rparr>, [(4, ?L), (0, ?L)])"
    by (meson converse_rtranclp_into_rtranclp rtranclp.rtrancl_refl)
  from conjunct1 [OF bump_heap_safe [OF this]] show ?thesis by simp
qed

end
