(* ===== verification/SolTypes.thy ===== *)
theory SolTypes
  imports Names
begin

text \<open>
  \<open>signature/types.rs\<close> of the macro crate: what the macros know of a type from its syntax. Types
  that are neither built in nor composed of such are \<open>Custom\<close> and answered with \<open>None\<close>, and the
  generated code asks their traits. A Rust type is what the code matches on: a path with its printed
  tokens, \<open>Vec<T>\<close>, an array with a literal length, a tuple. The contract of the component, that the
  syntactic answers are those of the trait implementations, is stated in theory \<open>DeriveSol\<close>.
\<close>

section \<open>SolType\<close>

datatype sol_type =
    SolAddress | SolBool | SolUint nat | SolInt nat | SolBytes nat | SolDynBytes | SolString
  | SolArray sol_type | SolFixedArray sol_type nat | SolTuple "sol_type list" | SolCustom bytes

text \<open>The loop over the components of a tuple, with its early return.\<close>

fun any_dynamic :: "bool option list \<Rightarrow> bool \<Rightarrow> bool option" where
  "any_dynamic [] any = Some any"
| "any_dynamic (Some True # ds) any = any_dynamic ds True"
| "any_dynamic (Some False # ds) any = any_dynamic ds any"
| "any_dynamic (None # ds) any = None"

primrec st_is_dynamic :: "sol_type \<Rightarrow> bool option" where
  "st_is_dynamic SolAddress = Some False"
| "st_is_dynamic SolBool = Some False"
| "st_is_dynamic (SolUint n) = Some False"
| "st_is_dynamic (SolInt n) = Some False"
| "st_is_dynamic (SolBytes n) = Some False"
| "st_is_dynamic SolDynBytes = Some True"
| "st_is_dynamic SolString = Some True"
| "st_is_dynamic (SolArray t) = Some True"
| "st_is_dynamic (SolFixedArray inner n) = st_is_dynamic inner"
| "st_is_dynamic (SolTuple types) = any_dynamic (map st_is_dynamic types) False"
| "st_is_dynamic (SolCustom name) = None"

fun sum_heads :: "nat option list \<Rightarrow> nat \<Rightarrow> nat option" where
  "sum_heads [] acc = Some acc"
| "sum_heads (h # hs) acc = Option.bind h (\<lambda>h. sum_heads hs (acc + h))"

primrec st_head_size :: "sol_type \<Rightarrow> nat option" where
  "st_head_size SolAddress = Some 32"
| "st_head_size SolBool = Some 32"
| "st_head_size (SolUint n) = Some 32"
| "st_head_size (SolInt n) = Some 32"
| "st_head_size (SolBytes n) = Some 32"
| "st_head_size SolDynBytes = Some 32"
| "st_head_size SolString = Some 32"
| "st_head_size (SolArray t) = Some 32"
| "st_head_size (SolFixedArray inner n) =
     Option.bind (st_is_dynamic inner) (\<lambda>d.
     if d then Some 32 else map_option (\<lambda>h. h * n) (st_head_size inner))"
| "st_head_size (SolTuple types) =
     Option.bind (st_is_dynamic (SolTuple types)) (\<lambda>d.
     if d then Some 32 else sum_heads (map st_head_size types) 0)"
| "st_head_size (SolCustom name) = None"

primrec st_canonical_name :: "sol_type \<Rightarrow> bytes" where
  "st_canonical_name SolAddress = ascii ''address''"
| "st_canonical_name SolBool = ascii ''bool''"
| "st_canonical_name (SolUint bits) = ascii ''uint'' @ decimal bits"
| "st_canonical_name (SolInt bits) = ascii ''int'' @ decimal bits"
| "st_canonical_name (SolBytes n) = ascii ''bytes'' @ decimal n"
| "st_canonical_name SolDynBytes = ascii ''bytes''"
| "st_canonical_name SolString = ascii ''string''"
| "st_canonical_name (SolArray inner) = st_canonical_name inner @ ascii ''[]''"
| "st_canonical_name (SolFixedArray inner n) =
     st_canonical_name inner @ ascii ''['' @ decimal n @ ascii '']''"
| "st_canonical_name (SolTuple types) = ascii ''('' @ comma_sep (map st_canonical_name types) @ ascii '')''"
| "st_canonical_name (SolCustom name) = name"

primrec st_has_custom_types :: "sol_type \<Rightarrow> bool" where
  "st_has_custom_types SolAddress = False"
| "st_has_custom_types SolBool = False"
| "st_has_custom_types (SolUint n) = False"
| "st_has_custom_types (SolInt n) = False"
| "st_has_custom_types (SolBytes n) = False"
| "st_has_custom_types SolDynBytes = False"
| "st_has_custom_types SolString = False"
| "st_has_custom_types (SolArray inner) = st_has_custom_types inner"
| "st_has_custom_types (SolFixedArray inner n) = st_has_custom_types inner"
| "st_has_custom_types (SolTuple types) = list_ex id (map st_has_custom_types types)"
| "st_has_custom_types (SolCustom name) = True"

section \<open>From Rust types\<close>

datatype rust_type = RPath bytes | RVec rust_type | RArray rust_type nat | RTuple "rust_type list"

text \<open>The table of paths, by their tokens without blanks.\<close>

definition in_names :: "bytes \<Rightarrow> string list \<Rightarrow> bool" where
  "in_names s names = list_ex (\<lambda>n. s = ascii n) names"

definition path_type :: "bytes \<Rightarrow> sol_type" where
  "path_type s =
     (if in_names s [''Address'', ''pvm_contract_types::Address'', ''::pvm_contract_types::Address'',
          ''pvm_contract_sdk::Address'', ''::pvm_contract_sdk::Address'', ''pvm_contract::Address'',
          ''::pvm_contract::Address''] then SolAddress
      else if in_names s [''U256'', ''ruint::aliases::U256'', ''u256''] then SolUint 256
      else if in_names s [''I256'', ''pvm_contract_types::I256'', ''::pvm_contract_types::I256'',
          ''pvm_contract_sdk::I256'', ''::pvm_contract_sdk::I256'', ''i256''] then SolInt 256
      else if in_names s [''u128''] then SolUint 128
      else if in_names s [''u64''] then SolUint 64
      else if in_names s [''u32''] then SolUint 32
      else if in_names s [''u16''] then SolUint 16
      else if in_names s [''u8''] then SolUint 8
      else if in_names s [''i128''] then SolInt 128
      else if in_names s [''i64''] then SolInt 64
      else if in_names s [''i32''] then SolInt 32
      else if in_names s [''i16''] then SolInt 16
      else if in_names s [''i8''] then SolInt 8
      else if in_names s [''bool''] then SolBool
      else if in_names s [''String'', ''alloc::string::String''] then SolString
      else if in_names s [''Bytes'', ''pvm_contract_types::Bytes'', ''::pvm_contract_types::Bytes'',
          ''pvm_contract_sdk::Bytes'', ''::pvm_contract_sdk::Bytes''] then SolDynBytes
      else SolCustom s)"

primrec from_rust_type :: "rust_type \<Rightarrow> sol_type option" where
  "from_rust_type (RPath s) = Some (path_type s)"
| "from_rust_type (RVec inner) = map_option SolArray (from_rust_type inner)"
| "from_rust_type (RArray elem n) =
     map_option (\<lambda>inner. if inner = SolUint 8 then SolBytes n else SolFixedArray inner n) (from_rust_type elem)"
| "from_rust_type (RTuple elems) = map_option SolTuple (all_some (map from_rust_type elems))"

section \<open>Lemmas\<close>

lemma all_some_iff: "all_some xs = Some ys \<longleftrightarrow> xs = map Some ys"
  by (induction xs arbitrary: ys) (auto simp: bind_eq_Some_conv)

lemma all_some_conv: "all_some xs = Some ys \<longleftrightarrow> list_all2 (\<lambda>x y. x = Some y) xs ys"
  by (simp add: all_some_iff list_all2_conv_all_nth list_eq_iff_nth_eq) auto

lemma any_dynamic_some: "any_dynamic (map Some ds) any = Some (any \<or> list_ex id ds)"
proof (induction ds arbitrary: any)
  case (Cons d ds)
  then show ?case by (cases d) simp_all
qed simp

lemma sum_heads_some: "sum_heads (map (\<lambda>x. Some (f x)) xs) acc = Some (acc + sum_list (map f xs))"
  by (induction xs arbitrary: acc) simp_all

lemma list_ex_SomeI: "list_all (\<lambda>x. x \<noteq> None) xs \<Longrightarrow> \<exists>ys. xs = map Some ys"
  by (induction xs) (auto intro: exI [of _ "_ # _"])

text \<open>The early return of the loop, as one condition.\<close>

lemma any_dynamic_eq:
  "any_dynamic ds any = (if None \<in> set ds then None else Some (any \<or> Some True \<in> set ds))"
proof (induction ds arbitrary: any)
  case (Cons d ds)
  then show ?case by (cases d; cases "the d") auto
qed simp

lemma sum_heads_eq:
  "sum_heads hs acc = (if None \<in> set hs then None else Some (acc + sum_list (map the hs)))"
proof (induction hs arbitrary: acc)
  case (Cons h hs)
  then show ?case by (cases h) auto
qed simp

lemma st_dynamic_tuple:
  "st_is_dynamic (SolTuple ts) = Some b \<longleftrightarrow>
     (\<forall>t \<in> set ts. st_is_dynamic t \<noteq> None) \<and> (b \<longleftrightarrow> (\<exists>t \<in> set ts. st_is_dynamic t = Some True))"
proof -
  have "None \<in> set (map st_is_dynamic ts) \<longleftrightarrow> \<not> (\<forall>t \<in> set ts. st_is_dynamic t \<noteq> None)"
    "Some True \<in> set (map st_is_dynamic ts) \<longleftrightarrow> (\<exists>t \<in> set ts. st_is_dynamic t = Some True)"
    by (simp_all add: image_iff Bex_def eq_commute [of None] eq_commute [of "Some True"])
  then show ?thesis by (simp only: st_is_dynamic.simps any_dynamic_eq) auto
qed

text \<open>A type without custom types is answered.\<close>

lemma st_known:
  "\<not> st_has_custom_types s \<Longrightarrow> st_is_dynamic s \<noteq> None"
proof (induction s)
  case (SolTuple ts)
  then have "\<forall>t \<in> set ts. st_is_dynamic t \<noteq> None" by (auto simp: list_ex_iff)
  then show ?case using st_dynamic_tuple [of ts] by blast
qed simp_all

lemma st_known_head:
  "st_is_dynamic s = Some False \<Longrightarrow> st_head_size s \<noteq> None"
proof (induction s)
  case (SolTuple ts)
  have "\<forall>t \<in> set ts. st_is_dynamic t = Some False"
  proof
    fix t assume t: "t \<in> set ts"
    then have "st_is_dynamic t \<noteq> None" "st_is_dynamic t \<noteq> Some True"
      using SolTuple.prems by (simp_all only: st_dynamic_tuple) auto
    then show "st_is_dynamic t = Some False" by (cases "st_is_dynamic t") auto
  qed
  then have "None \<notin> set (map st_head_size ts)" using SolTuple.IH by fastforce
  then show ?case using SolTuple.prems by (simp add: sum_heads_eq)
qed auto

end
