(* ===== verification/CustomTypes.thy ===== *)
theory CustomTypes
  imports SolTypes AbiCorrect
begin

text \<open>
  \<open>signature/custom.rs\<close> of the macro crate: the user-defined types of a Solidity file, and the
  canonical ABI name and dynamism of a type under them. The syntax tree of the third-party parser is
  the datatype \<open>sol_ast\<close>, and \<open>item\<close> for declarations; a path is its list of segments. The two
  recursive walks carry the stack of the struct names being expanded. They are not structural, a name
  is replaced by its declaration, so they take fuel: \<open>fuel_bound\<close> is enough whenever value types wrap
  elementary types, as Solidity demands, and without that demand they may not end.
\<close>

section \<open>Solidity syntax\<close>

datatype sol_ast =
    AAddress | ABool | AString | ABytes | AFixedBytes nat | AInt "nat option" | AUint "nat option"
  | AMapping bytes | AFunction bytes | AArray sol_ast "nat option" | ATuple "sol_ast list" | ACustom "bytes list"

datatype fn_kind = KConstructor | KFunction | KFallback | KReceive | KModifier

datatype sol_mutability = MPure | MView | MPayable | MConstant

type_synonym var_decl = "bytes option \<times> sol_ast"

record sol_function =
  fn_kind :: fn_kind
  fn_name :: "bytes option"
  fn_params :: "var_decl list"
  fn_returns :: "sol_ast list"
  fn_mutability :: "sol_mutability option"

datatype item =
    IStruct bytes "var_decl list" | IError bytes "var_decl list" | IEnum bytes "bytes list" | IUdt bytes sol_ast
  | IFunction sol_function | IContract bytes bool "item list" | IImport | IOther

section \<open>CustomTypes\<close>

datatype custom_def = CStruct "sol_ast list" | CEnum | CUdt sol_ast

type_synonym custom_types = "(bytes \<times> custom_def) list"

datatype import_error =
    DuplicateType bytes | UndeclaredType bytes | UnknownType "bytes list" | BadPath "bytes list" | NeedsAlloc
  | FunctionType | MappingType | ConstantMutability | ImportDirective | StackOverflow | NamelessFunction

definition declare_type :: "custom_types \<Rightarrow> bytes \<Rightarrow> custom_def \<Rightarrow> import_error + custom_types" where
  "declare_type T name def =
     (if map_of T name \<noteq> None then Inl (DuplicateType name) else Inr ((name, def) # T))"

definition andthen :: "'e + 'a \<Rightarrow> ('a \<Rightarrow> 'e + 'b) \<Rightarrow> 'e + 'b" where
  "andthen r k = (case r of Inl e \<Rightarrow> Inl e | Inr a \<Rightarrow> k a)"

fun visit_items :: "item list \<Rightarrow> custom_types \<Rightarrow> import_error + custom_types" where
  "visit_items [] T = Inr T"
| "visit_items (IStruct name fds # its) T =
     andthen (declare_type T name (CStruct (map snd fds))) (\<lambda>T. visit_items its T)"
| "visit_items (IEnum name variants # its) T = andthen (declare_type T name CEnum) (\<lambda>T. visit_items its T)"
| "visit_items (IUdt name ty # its) T = andthen (declare_type T name (CUdt ty)) (\<lambda>T. visit_items its T)"
| "visit_items (IContract name is_interface body # its) T =
     andthen (visit_items body T) (\<lambda>T. visit_items its T)"
| "visit_items (_ # its) T = visit_items its T"

text \<open>The first error of a sequence of checks.\<close>

fun try_all :: "import_error option list \<Rightarrow> import_error option" where
  "try_all [] = None"
| "try_all (Some e # rs) = Some e"
| "try_all (None # rs) = try_all rs"

primrec check_declared :: "custom_types \<Rightarrow> sol_ast \<Rightarrow> import_error option" where
  "check_declared T AAddress = None"
| "check_declared T ABool = None"
| "check_declared T AString = None"
| "check_declared T ABytes = None"
| "check_declared T (AFixedBytes n) = None"
| "check_declared T (AInt n) = None"
| "check_declared T (AUint n) = None"
| "check_declared T (AMapping s) = None"
| "check_declared T (AFunction s) = None"
| "check_declared T (AArray ty n) = check_declared T ty"
| "check_declared T (ATuple tys) = try_all (map (check_declared T) tys)"
| "check_declared T (ACustom path) =
     (if map_of T (last path) \<noteq> None then None else Some (UndeclaredType (last path)))"

fun check_resolvable :: "custom_types \<Rightarrow> item list \<Rightarrow> import_error option" where
  "check_resolvable T [] = None"
| "check_resolvable T (IStruct name fds # its) =
     try_all (map (\<lambda>f. check_declared T (snd f)) fds @ [check_resolvable T its])"
| "check_resolvable T (IError name params # its) =
     try_all (map (\<lambda>p. check_declared T (snd p)) params @ [check_resolvable T its])"
| "check_resolvable T (IFunction f # its) =
     try_all (map (\<lambda>p. check_declared T (snd p)) (fn_params f) @ map (check_declared T) (fn_returns f) @
       [check_resolvable T its])"
| "check_resolvable T (IContract name is_interface body # its) =
     try_all [check_resolvable T body, check_resolvable T its]"
| "check_resolvable T (_ # its) = check_resolvable T its"

definition from_file :: "item list \<Rightarrow> import_error + custom_types" where
  "from_file its =
     andthen (visit_items its []) (\<lambda>T.
     case check_resolvable T its of Some e \<Rightarrow> Inl e | None \<Rightarrow> Inr T)"

section \<open>Canonical names and dynamism\<close>

definition tuple_name :: "bytes option list \<Rightarrow> bytes option" where
  "tuple_name inner = map_option (\<lambda>names. ascii ''('' @ comma_sep names @ ascii '')'') (all_some inner)"

text \<open>One level of \<open>resolve\<close>, over its own recursive calls.\<close>

definition resolve_step ::
  "(sol_ast \<Rightarrow> bytes list \<Rightarrow> bytes option) \<Rightarrow> custom_types \<Rightarrow> sol_ast \<Rightarrow> bytes list \<Rightarrow> bytes option" where
  "resolve_step rec T ty active =
     (case ty of
        AAddress \<Rightarrow> Some (ascii ''address'')
      | ABool \<Rightarrow> Some (ascii ''bool'')
      | AString \<Rightarrow> Some (ascii ''string'')
      | ABytes \<Rightarrow> Some (ascii ''bytes'')
      | AFixedBytes n \<Rightarrow> Some (ascii ''bytes'' @ decimal n)
      | AInt n \<Rightarrow> Some (ascii ''int'' @ decimal (case n of Some n \<Rightarrow> n | None \<Rightarrow> 256))
      | AUint n \<Rightarrow> Some (ascii ''uint'' @ decimal (case n of Some n \<Rightarrow> n | None \<Rightarrow> 256))
      | AMapping s \<Rightarrow> Some s
      | AFunction s \<Rightarrow> Some s
      | AArray t n \<Rightarrow> map_option (\<lambda>inner. case n of
            Some n \<Rightarrow> inner @ ascii ''['' @ decimal n @ ascii '']'' | None \<Rightarrow> inner @ ascii ''[]'')
          (rec t active)
      | ATuple ts \<Rightarrow> tuple_name (map (\<lambda>t. rec t active) ts)
      | ACustom path \<Rightarrow>
          (let name = last path in
           if name \<in> set active then Some name
           else case map_of T name of
             Some CEnum \<Rightarrow> Some (ascii ''uint8'')
           | Some (CUdt underlying) \<Rightarrow> rec underlying active
           | Some (CStruct fds) \<Rightarrow> tuple_name (map (\<lambda>t. rec t (name # active)) fds)
           | None \<Rightarrow> Some name))"

primrec resolve :: "nat \<Rightarrow> custom_types \<Rightarrow> sol_ast \<Rightarrow> bytes list \<Rightarrow> bytes option" where
  "resolve 0 T = (\<lambda>ty active. None)"
| "resolve (Suc fuel) T = resolve_step (resolve fuel T) T"

text \<open>\<open>any\<close> of an iterator: it stops at the first \<open>true\<close>.\<close>

fun any_until :: "bool option list \<Rightarrow> bool option" where
  "any_until [] = Some False"
| "any_until (None # ds) = None"
| "any_until (Some d # ds) = (if d then Some True else any_until ds)"

definition is_dynamic_step ::
  "(sol_ast \<Rightarrow> bytes list \<Rightarrow> bool option) \<Rightarrow> custom_types \<Rightarrow> sol_ast \<Rightarrow> bytes list \<Rightarrow> bool option" where
  "is_dynamic_step rec T ty active =
     (case ty of
        AString \<Rightarrow> Some True
      | ABytes \<Rightarrow> Some True
      | AArray t n \<Rightarrow> if n = None then Some True else rec t active
      | ATuple ts \<Rightarrow> any_until (map (\<lambda>t. rec t active) ts)
      | ACustom path \<Rightarrow>
          (let name = last path in
           if name \<in> set active then Some True
           else case map_of T name of
             Some CEnum \<Rightarrow> Some False
           | Some (CUdt underlying) \<Rightarrow> rec underlying active
           | Some (CStruct fds) \<Rightarrow> any_until (map (\<lambda>t. rec t (name # active)) fds)
           | None \<Rightarrow> Some True)
      | _ \<Rightarrow> Some False)"

primrec is_dynamic :: "nat \<Rightarrow> custom_types \<Rightarrow> sol_ast \<Rightarrow> bytes list \<Rightarrow> bool option" where
  "is_dynamic 0 T = (\<lambda>ty active. None)"
| "is_dynamic (Suc fuel) T = is_dynamic_step (is_dynamic fuel T) T"

text \<open>The fuel: every step consumes syntax, and a declaration is entered at most once on a path.\<close>

primrec ast_size :: "sol_ast \<Rightarrow> nat" where
  "ast_size AAddress = 1"
| "ast_size ABool = 1"
| "ast_size AString = 1"
| "ast_size ABytes = 1"
| "ast_size (AFixedBytes n) = 1"
| "ast_size (AInt n) = 1"
| "ast_size (AUint n) = 1"
| "ast_size (AMapping s) = 1"
| "ast_size (AFunction s) = 1"
| "ast_size (AArray t n) = 1 + ast_size t"
| "ast_size (ATuple ts) = 1 + sum_list (map ast_size ts)"
| "ast_size (ACustom path) = 1"

fun def_size :: "custom_def \<Rightarrow> nat" where
  "def_size (CStruct fds) = sum_list (map ast_size fds)"
| "def_size CEnum = 0"
| "def_size (CUdt underlying) = ast_size underlying"

definition fuel_bound :: "custom_types \<Rightarrow> sol_ast \<Rightarrow> nat" where
  "fuel_bound T ty = ast_size ty + sum_list (map (\<lambda>(n, def). def_size def) T)"

definition canonical_name :: "custom_types \<Rightarrow> sol_ast \<Rightarrow> bytes option" where
  "canonical_name T ty = resolve (fuel_bound T ty) T ty []"

definition is_abi_dynamic :: "custom_types \<Rightarrow> sol_ast \<Rightarrow> bool option" where
  "is_abi_dynamic T ty = is_dynamic (fuel_bound T ty) T ty []"

section \<open>Termination\<close>

text \<open>Solidity allows a value type to wrap an elementary value type only.\<close>

fun elementary :: "sol_ast \<Rightarrow> bool" where
  "elementary (AArray t n) = False"
| "elementary (ATuple ts) = False"
| "elementary (ACustom path) = False"
| "elementary _ = True"

definition udts_elementary :: "custom_types \<Rightarrow> bool" where
  "udts_elementary T \<longleftrightarrow> (\<forall>name ty. (name, CUdt ty) \<in> set T \<longrightarrow> elementary ty)"

definition need :: "custom_types \<Rightarrow> sol_ast \<Rightarrow> bytes list \<Rightarrow> nat" where
  "need T ty active =
     ast_size ty + sum_list (map (\<lambda>(n, def). if n \<in> set active then 0 else def_size def) T)"

lemma ast_size_pos: "1 \<le> ast_size ty"
  by (cases ty) simp_all

lemma need_nil: "need T ty [] = fuel_bound T ty"
  by (simp add: need_def fuel_bound_def)

lemma need_mono: "ast_size t < ast_size ty \<Longrightarrow> need T t active < need T ty active"
  by (simp add: need_def)

lemma sum_enter:
  assumes "map_of T name = Some def" "name \<notin> set active"
  shows "def_size def + sum_list (map (\<lambda>(n, def). if n = name \<or> n \<in> set active then 0 else def_size def) T) \<le>
    sum_list (map (\<lambda>(n, def). if n \<in> set active then 0 else def_size def) T)"
  using assms
proof (induction T)
  case (Cons x T)
  obtain n d where x: "x = (n, d)" by (cases x)
  have le: "sum_list (map (\<lambda>(n, def). if n = name \<or> n \<in> set active then 0 else def_size def) T) \<le>
    sum_list (map (\<lambda>(n, def). if n \<in> set active then 0 else def_size def) T)"
    by (intro sum_list_mono) auto
  show ?case using Cons x le by (auto split: if_splits)
qed simp

lemma need_enter:
  assumes "map_of T (last path) = Some (CStruct fds)" "last path \<notin> set active" "t \<in> set fds"
  shows "need T t (last path # active) < need T (ACustom path) active"
proof -
  have "ast_size t \<le> sum_list (map ast_size fds)" using assms(3) by (simp add: member_le_sum_list)
  then show ?thesis using sum_enter [OF assms(1,2)] by (simp add: need_def)
qed

lemma all_some_total: "(\<And>x. x \<in> set xs \<Longrightarrow> f x \<noteq> None) \<Longrightarrow> all_some (map f xs) \<noteq> None"
proof (induction xs)
  case (Cons x xs)
  then have "f x \<noteq> None" "all_some (map f xs) \<noteq> None" by simp_all
  then show ?case by auto
qed simp

lemma any_until_total: "(\<And>x. x \<in> set xs \<Longrightarrow> f x \<noteq> None) \<Longrightarrow> any_until (map f xs) \<noteq> None"
proof (induction xs)
  case (Cons x xs)
  then have "f x \<noteq> None" "any_until (map f xs) \<noteq> None" by simp_all
  then show ?case by auto
qed simp

lemma walk_elementary: "elementary ty \<Longrightarrow> resolve (Suc fuel) T ty active \<noteq> None \<and> is_dynamic (Suc fuel) T ty active \<noteq> None"
  by (cases ty) (simp_all add: resolve_step_def is_dynamic_step_def)

lemma ast_size_mem: "t \<in> set ts \<Longrightarrow> ast_size t < ast_size (ATuple ts)"
  using member_le_sum_list [of "ast_size t" "map ast_size ts"] by simp

lemma walks_end:
  assumes "udts_elementary T" "need T ty active \<le> fuel"
  shows "resolve fuel T ty active \<noteq> None \<and> is_dynamic fuel T ty active \<noteq> None"
  using assms(2)
proof (induction fuel arbitrary: ty active)
  case 0
  then show ?case using ast_size_pos [of ty] by (simp add: need_def)
next
  case (Suc fuel)
  have down: "resolve fuel T t b \<noteq> None" "is_dynamic fuel T t b \<noteq> None" if "need T t b < need T ty active" for t b
    using that Suc.IH [of t b] Suc.prems by auto
  show ?case
  proof (cases ty)
    case (AArray t n)
    then have "need T t active < need T ty active" by (intro need_mono) simp
    then show ?thesis using down AArray by (simp add: resolve_step_def is_dynamic_step_def del: not_None_eq)
  next
    case (ATuple ts)
    have "need T t active < need T ty active" if "t \<in> set ts" for t
      unfolding ATuple using that by (intro need_mono ast_size_mem)
    then show ?thesis
      using down ATuple all_some_total [of ts "\<lambda>t. resolve fuel T t active"]
        any_until_total [of ts "\<lambda>t. is_dynamic fuel T t active"] by (simp add: resolve_step_def is_dynamic_step_def tuple_name_def)
  next
    case (ACustom path)
    show ?thesis
    proof (cases "last path \<in> set active")
      case False
      show ?thesis
      proof (cases "map_of T (last path)")
        case (Some def)
        show ?thesis
        proof (cases def)
          case (CStruct fds)
          have "need T t (last path # active) < need T ty active" if "t \<in> set fds" for t
            using need_enter [OF _ False that] Some CStruct ACustom by simp
          then show ?thesis
            using down Some CStruct ACustom False all_some_total [of fds "\<lambda>t. resolve fuel T t (last path # active)"]
              any_until_total [of fds "\<lambda>t. is_dynamic fuel T t (last path # active)"]
            by (simp add: resolve_step_def is_dynamic_step_def tuple_name_def Let_def)
        next
          case (CUdt u)
          have "elementary u" using assms(1) Some CUdt by (auto simp: udts_elementary_def dest: map_of_SomeD)
          moreover have "1 \<le> fuel"
            using sum_enter [OF Some False] Suc.prems ast_size_pos [of u] CUdt ACustom by (simp add: need_def)
          ultimately have "resolve fuel T u active \<noteq> None \<and> is_dynamic fuel T u active \<noteq> None"
            using walk_elementary [of u "fuel - 1" T active] by simp
          then show ?thesis
            using Some CUdt ACustom False by (simp add: resolve_step_def is_dynamic_step_def)
        qed (use Some ACustom False in \<open>simp add: resolve_step_def is_dynamic_step_def\<close>)
      qed (use ACustom False in \<open>simp add: resolve_step_def is_dynamic_step_def\<close>)
    qed (use ACustom in \<open>simp add: resolve_step_def is_dynamic_step_def\<close>)
  qed (simp_all add: resolve_step_def is_dynamic_step_def)
qed

text \<open>More fuel does not change a result.\<close>

lemma all_some_mono:
  assumes "\<And>x. x \<in> set xs \<Longrightarrow> f x \<noteq> None \<Longrightarrow> g x = f x"
  shows "all_some (map f xs) \<noteq> None \<Longrightarrow> all_some (map g xs) = all_some (map f xs)"
  using assms
proof (induction xs)
  case (Cons x xs)
  have "f x \<noteq> None" "all_some (map f xs) \<noteq> None"
    using Cons.prems(1) by (cases "f x"; cases "all_some (map f xs)"; simp)+
  moreover from this have "g x = f x" "all_some (map g xs) = all_some (map f xs)"
    using Cons.IH Cons.prems(2) by simp_all
  ultimately show ?case by simp
qed simp

lemma any_until_mono:
  assumes "\<And>x. x \<in> set xs \<Longrightarrow> f x \<noteq> None \<Longrightarrow> g x = f x"
  shows "any_until (map f xs) \<noteq> None \<Longrightarrow> any_until (map g xs) = any_until (map f xs)"
  using assms
proof (induction xs)
  case (Cons x xs)
  then show ?case by (cases "f x") auto
qed simp

lemma resolve_step_mono:
  assumes "\<And>t b. f t b \<noteq> None \<Longrightarrow> g t b = f t b" "resolve_step f T ty active \<noteq> None"
  shows "resolve_step g T ty active = resolve_step f T ty active"
proof -
  have "tuple_name (map (\<lambda>t. g t b) ts) = tuple_name (map (\<lambda>t. f t b) ts)"
    if "tuple_name (map (\<lambda>t. f t b) ts) \<noteq> None" for ts b
    using that all_some_mono [of ts "\<lambda>t. f t b" "\<lambda>t. g t b"] assms(1) by (simp add: tuple_name_def)
  then show ?thesis
    using assms unfolding resolve_step_def Let_def
    by (auto simp del: not_None_eq split: sol_ast.splits option.splits custom_def.splits if_splits)
qed

lemma is_dynamic_step_mono:
  assumes "\<And>t b. f t b \<noteq> None \<Longrightarrow> g t b = f t b" "is_dynamic_step f T ty active \<noteq> None"
  shows "is_dynamic_step g T ty active = is_dynamic_step f T ty active"
proof -
  have "any_until (map (\<lambda>t. g t b) ts) = any_until (map (\<lambda>t. f t b) ts)"
    if "any_until (map (\<lambda>t. f t b) ts) \<noteq> None" for ts b
    using that any_until_mono [of ts "\<lambda>t. f t b" "\<lambda>t. g t b"] assms(1) by blast
  then show ?thesis
    using assms unfolding is_dynamic_step_def Let_def
    by (auto simp del: not_None_eq split: sol_ast.splits option.splits custom_def.splits if_splits)
qed

lemma walks_Suc:
  "resolve fuel T ty active \<noteq> None \<Longrightarrow> resolve (Suc fuel) T ty active = resolve fuel T ty active"
  "is_dynamic fuel T ty active \<noteq> None \<Longrightarrow> is_dynamic (Suc fuel) T ty active = is_dynamic fuel T ty active"
proof (induction fuel arbitrary: ty active)
  case (Suc fuel)
  {
    case 1
    then show ?case
      using resolve_step_mono [of "resolve fuel T" "resolve (Suc fuel) T" T ty active, OF Suc.IH(1)] by simp
  next
    case 2
    then show ?case
      using is_dynamic_step_mono [of "is_dynamic fuel T" "is_dynamic (Suc fuel) T" T ty active, OF Suc.IH(2)] by simp
  }
qed simp_all

lemma walks_more:
  assumes "fuel \<le> fuel'"
  shows "resolve fuel T ty active \<noteq> None \<Longrightarrow> resolve fuel' T ty active = resolve fuel T ty active"
    and "is_dynamic fuel T ty active \<noteq> None \<Longrightarrow> is_dynamic fuel' T ty active = is_dynamic fuel T ty active"
  using assms by (induction fuel' rule: dec_induct) (simp_all add: walks_Suc del: resolve.simps is_dynamic.simps)

text \<open>
  C18: the walks over user-defined types end. When the value types of a file wrap elementary types, for
  every type, also one with structs that contain themselves, the canonical name and the dynamism are
  computed: with the fuel of the model, and with any larger fuel the same. Without the condition
  they need not end: a file with a value type that is its own underlying type is accepted, and the
  walks over it exhaust any fuel.
\<close>

theorem custom_types_walks_end:
  "(udts_elementary T \<longrightarrow> canonical_name T ty \<noteq> None \<and> is_abi_dynamic T ty \<noteq> None \<and>
     (\<forall>fuel \<ge> fuel_bound T ty. resolve fuel T ty [] = canonical_name T ty \<and>
       is_dynamic fuel T ty [] = is_abi_dynamic T ty)) \<and>
   from_file [IUdt n (ACustom [n])] = Inr [(n, CUdt (ACustom [n]))] \<and>
   (\<forall>fuel. resolve fuel [(n, CUdt (ACustom [n]))] (ACustom [n]) [] = None \<and>
     is_dynamic fuel [(n, CUdt (ACustom [n]))] (ACustom [n]) [] = None)"
proof -
  have "canonical_name T ty \<noteq> None \<and> is_abi_dynamic T ty \<noteq> None" if "udts_elementary T"
    using walks_end [OF that, of ty "[]"] by (simp add: canonical_name_def is_abi_dynamic_def need_nil)
  moreover from this have "resolve fuel T ty [] = canonical_name T ty \<and> is_dynamic fuel T ty [] = is_abi_dynamic T ty"
    if "udts_elementary T" "fuel_bound T ty \<le> fuel" for fuel
    using that walks_more [OF that(2), of T ty "[]"] by (simp add: canonical_name_def is_abi_dynamic_def)
  moreover have "resolve fuel [(n, CUdt (ACustom [n]))] (ACustom [n]) [] = None \<and>
      is_dynamic fuel [(n, CUdt (ACustom [n]))] (ACustom [n]) [] = None" for fuel
    by (induction fuel) (simp_all add: resolve_step_def is_dynamic_step_def)
  ultimately show ?thesis
    by (simp add: from_file_def andthen_def declare_type_def)
qed

section \<open>Witness\<close>

theorem custom_types_walks_end_witness:
  "canonical_name [(ascii ''S'', CStruct [AArray (ACustom [ascii ''S'']) None, AUint None])] (ACustom [ascii ''S'']) =
     Some (ascii ''(S[],uint256)'') \<and>
   resolve 100 [(ascii ''S'', CStruct [AArray (ACustom [ascii ''S'']) None, AUint None])] (ACustom [ascii ''S'']) [] =
     Some (ascii ''(S[],uint256)'')"
proof -
  let ?T = "[(ascii ''S'', CStruct [AArray (ACustom [ascii ''S'']) None, AUint None])]" and ?S = "ACustom [ascii ''S'']"
  have "udts_elementary ?T" by (simp add: udts_elementary_def)
  then have "resolve 100 ?T ?S [] = canonical_name ?T ?S"
    using custom_types_walks_end [of ?T ?S] by (simp add: fuel_bound_def)
  moreover have "resolve (Suc (Suc (Suc (Suc 0)))) ?T ?S [] =
      Some (ascii ''('' @ comma_sep [ascii ''S'' @ ascii ''[]'', ascii ''uint'' @ decimal 256] @ ascii '')'')"
    by (simp add: resolve_step_def tuple_name_def)
  then have "canonical_name ?T ?S = Some (ascii ''('' @ comma_sep [ascii ''S'' @ ascii ''[]'', ascii ''uint'' @ decimal 256] @ ascii '')'')"
    by (simp add: canonical_name_def fuel_bound_def eval_nat_numeral del: resolve.simps)
  moreover have "\<dots> = Some (ascii ''(S[],uint256)'')" by (simp add: ascii_def decimal_def digits_of.simps)
  ultimately show ?thesis by simp
qed

end
