(* ===== verification/DeriveSol.thy ===== *)
theory DeriveSol
  imports SolTypes AbiSafety
begin

text \<open>
  The implementations that the macros generate: \<open>#[derive(SolType)]\<close> on structs and enums
  (\<open>codegen/sol_type.rs\<close>) and the wrapper of a user-defined value type (\<open>expand_udt\<close> of
  \<open>abi_import/mod.rs\<close>). A derive sees the fields' types as syntax (theory \<open>SolTypes\<close>) and calls
  their traits; so a derived dictionary is a function of the list of fields, each with its syntactic
  type and the dictionary the compiler resolves for it. The types of a program are the datatype
  \<open>dty\<close>, built-in types and derived ones nested in any way; \<open>denotes\<close> says that the syntax the macro
  sees is a way to write the type. The contract of the component: whatever the syntax hides, a
  derived type is encoded, decoded and named as the ABI type it stands for, a struct as the tuple of
  its fields, an enum as \<open>uint8\<close>, a user-defined value type as its underlying type.
\<close>

section \<open>Static structs\<close>

type_synonym dfield = "sol_type \<times> sol_codec"

definition total_size :: "sol_type list \<Rightarrow> nat" where
  "total_size ss = sum_list (map (\<lambda>s. the (st_head_size s)) ss)"

fun static_encode_fields :: "(sol_codec \<times> sol_val) list \<Rightarrow> nat \<Rightarrow> bytes \<Rightarrow> bytes option" where
  "static_encode_fields [] offset buf = Some buf"
| "static_encode_fields ((c, v) # fs) offset buf =
     (let hs = HEAD_SIZE c in
      Option.bind (with_slice buf offset (offset + hs) (encode_body_to c v)) (\<lambda>buf.
      static_encode_fields fs (offset + hs) buf))"

text \<open>The loop is the same for \<open>decode_at\<close> and \<open>decode_unchecked\<close>, the \<open>decoder\<close> of the code.\<close>

fun static_decode_fields ::
  "(sol_codec \<Rightarrow> bytes \<Rightarrow> nat \<Rightarrow> sol_val option) \<Rightarrow> sol_codec list \<Rightarrow> bytes \<Rightarrow> nat \<Rightarrow> nat \<Rightarrow> sol_val list option" where
  "static_decode_fields decoder [] input offset off = Some []"
| "static_decode_fields decoder (c # cs) input offset off =
     Option.bind (decoder c input (wadd offset off)) (\<lambda>val.
     map_option (\<lambda>vs. val # vs) (static_decode_fields decoder cs input offset (off + HEAD_SIZE c)))"

definition expand_static :: "dfield list \<Rightarrow> sol_codec" where
  "expand_static fs =
     \<lparr> IS_DYNAMIC = False, HEAD_SIZE = total_size (map fst fs), IS_TUPLE = False,
       ENCODED_SIZE = total_size (map fst fs),
       encode_body_len = \<lambda>_. total_size (map fst fs),
       encode_body_to = \<lambda>v. static_encode_fields (zip (map snd fs) (val_seq v)) 0,
       decode_at = \<lambda>input offset. map_option VSeq (static_decode_fields decode_at (map snd fs) input offset 0),
       decode_tail = \<lambda>input offset. map_option VSeq (static_decode_fields decode_at (map snd fs) input offset 0),
       decode_unchecked =
         \<lambda>input offset. map_option VSeq (static_decode_fields decode_unchecked (map snd fs) input offset 0),
       indexed_topic_override = Some (\<lambda>keccak256 v. map_option keccak256
         (static_encode_fields (zip (map snd fs) (val_seq v)) 0 (replicate (total_size (map fst fs)) 0))) \<rparr>"

section \<open>Dynamic structs and structs with custom types\<close>

text \<open>What the \<open>match\<close> on the syntactic answer decides: with no answer, the trait is asked.\<close>

definition field_dynamic :: "dfield \<Rightarrow> bool" where
  "field_dynamic f = (case st_is_dynamic (fst f) of Some d \<Rightarrow> d | None \<Rightarrow> IS_DYNAMIC (snd f))"

definition has_custom :: "dfield list \<Rightarrow> bool" where
  "has_custom fs = list_ex (\<lambda>f. st_has_custom_types (fst f)) fs"

definition is_dynamic_expr :: "dfield list \<Rightarrow> bool" where
  "is_dynamic_expr fs =
     (if \<not> has_custom fs then list_ex (\<lambda>f. st_is_dynamic (fst f) = Some True) fs
      else list_ex field_dynamic fs)"

definition head_sum :: "dfield list \<Rightarrow> nat" where
  "head_sum fs =
     (if \<not> has_custom fs
      then sum_list (map (\<lambda>f. if st_is_dynamic (fst f) = Some True then 32 else the (st_head_size (fst f))) fs)
      else sum_list (map (\<lambda>f. case st_is_dynamic (fst f) of
             Some True \<Rightarrow> 32 | Some False \<Rightarrow> the (st_head_size (fst f)) | None \<Rightarrow> SLOT_SIZE (snd f)) fs))"

definition dyn_encode_len :: "dfield list \<Rightarrow> sol_val list \<Rightarrow> nat" where
  "dyn_encode_len fs vs =
     head_sum fs + sum_list (map (\<lambda>(f, v). if field_dynamic f then encode_body_len (snd f) v else 0) (zip fs vs))"

text \<open>The unrolled statements, from field \<open>i\<close> on; the result is \<open>__tail_offset\<close> and the buffer.\<close>

fun dyn_encode_fields ::
  "dfield list \<Rightarrow> nat \<Rightarrow> (dfield \<times> sol_val) list \<Rightarrow> nat \<Rightarrow> bytes \<Rightarrow> (nat \<times> bytes) option" where
  "dyn_encode_fields all i [] tail_offset buf = Some (tail_offset, buf)"
| "dyn_encode_fields all i ((f, v) # fvs) tail_offset buf =
     (let ho = head_sum (take i all) in
      if field_dynamic f then
        Option.bind (fill_range buf ho (ho + 24) 0) (\<lambda>buf.
        Option.bind (copy_at buf (ho + 24) (u64_be tail_offset)) (\<lambda>buf.
        let tail_len = encode_body_len (snd f) v in
        Option.bind (with_slice buf tail_offset (tail_offset + tail_len) (encode_body_to (snd f) v)) (\<lambda>buf.
        dyn_encode_fields all (i + 1) fvs (tail_offset + tail_len) buf)))
      else
        Option.bind (with_suffix buf ho (encode_body_to (snd f) v)) (\<lambda>buf.
        dyn_encode_fields all (i + 1) fvs tail_offset buf))"

definition dyn_field_decode :: "dfield \<Rightarrow> nat \<Rightarrow> bytes \<Rightarrow> nat \<Rightarrow> sol_val option" where
  "dyn_field_decode f ho input offset =
     (if field_dynamic f then
        Option.bind (checked_sum [offset, ho]) (\<lambda>at.
        Option.bind (read_word_offset input at) (\<lambda>field_offset.
        Option.bind (checked_sum [offset, field_offset]) (decode_tail (snd f) input)))
      else Option.bind (checked_sum [offset, ho]) (decode_at (snd f) input))"

fun dyn_decode_fields :: "dfield list \<Rightarrow> nat \<Rightarrow> dfield list \<Rightarrow> bytes \<Rightarrow> nat \<Rightarrow> sol_val list option" where
  "dyn_decode_fields all i [] input offset = Some []"
| "dyn_decode_fields all i (f # fs) input offset =
     Option.bind (dyn_field_decode f (head_sum (take i all)) input offset) (\<lambda>v.
     map_option (\<lambda>vs. v # vs) (dyn_decode_fields all (i + 1) fs input offset))"

definition expand_dynamic :: "dfield list \<Rightarrow> sol_codec" where
  "expand_dynamic fs =
     \<lparr> IS_DYNAMIC = is_dynamic_expr fs, HEAD_SIZE = head_sum fs, IS_TUPLE = False, ENCODED_SIZE = 0,
       encode_body_len = \<lambda>v. dyn_encode_len fs (val_seq v),
       encode_body_to = \<lambda>v buf. map_option snd (dyn_encode_fields fs 0 (zip fs (val_seq v)) (head_sum fs) buf),
       decode_at = \<lambda>input offset. map_option VSeq (dyn_decode_fields fs 0 fs input offset),
       decode_tail = \<lambda>input offset. map_option VSeq (dyn_decode_fields fs 0 fs input offset),
       decode_unchecked = \<lambda>_ _. None,
       indexed_topic_override = None \<rparr>"

text \<open>\<open>expand_sol_type\<close> for a struct with at least one field.\<close>

definition derive_struct :: "dfield list \<Rightarrow> sol_codec" where
  "derive_struct fs =
     (if list_ex (\<lambda>f. st_has_custom_types (fst f) \<or> st_is_dynamic (fst f) = Some True) fs
      then expand_dynamic fs else expand_static fs)"

section \<open>Enums and user-defined value types\<close>

text \<open>\<open>TryFrom<u8>\<close> of an enum with \<open>n\<close> variants: the index, or \<open>Panic(EnumConversionFailure)\<close>.\<close>

definition enum_try_from :: "nat \<Rightarrow> byte \<Rightarrow> byte option" where
  "enum_try_from n m = (if unat m < n then Some m else None)"

definition enum_decode_at :: "nat \<Rightarrow> bytes \<Rightarrow> nat \<Rightarrow> sol_val option" where
  "enum_decode_at n input offset =
     Option.bind (get_range input offset (wadd offset 32)) (\<lambda>word.
     if take 31 word \<noteq> replicate 31 0 then None
     else map_option (\<lambda>m. VPrim (VU8 m)) (Option.bind (get_idx word 31) (enum_try_from n)))"

definition derive_enum :: "nat \<Rightarrow> sol_codec" where
  "derive_enum n =
     \<lparr> IS_DYNAMIC = IS_DYNAMIC (impl_prim U8), HEAD_SIZE = HEAD_SIZE (impl_prim U8), IS_TUPLE = False,
       ENCODED_SIZE = ENCODED_SIZE (impl_prim U8),
       encode_body_len = encode_body_len (impl_prim U8),
       encode_body_to = encode_body_to (impl_prim U8),
       decode_at = enum_decode_at n,
       decode_tail = enum_decode_at n,
       decode_unchecked = \<lambda>_ _. None,
       indexed_topic_override = None \<rparr>"

text \<open>The newtype of \<open>type X is T\<close>: a static word, encoded and decoded by \<open>T\<close>.\<close>

definition expand_udt :: "sol_codec \<Rightarrow> sol_codec" where
  "expand_udt c =
     \<lparr> IS_DYNAMIC = False, HEAD_SIZE = 32, IS_TUPLE = False, ENCODED_SIZE = 32,
       encode_body_len = \<lambda>_. 32,
       encode_body_to = encode_body_to c,
       decode_at = decode_at c,
       decode_tail = decode_at c,
       decode_unchecked = decode_unchecked c,
       indexed_topic_override = None \<rparr>"

section \<open>The types of a program\<close>

datatype dty =
    DPrim prim | DString | DBytes | DArr dty nat | DVec dty | DTuple "dty list"
  | DStruct bytes "(sol_type \<times> dty) list" | DEnum bytes nat | DUdt bytes dty

primrec dcodec :: "dty \<Rightarrow> sol_codec" where
  "dcodec (DPrim p) = impl_prim p"
| "dcodec DString = impl_string"
| "dcodec DBytes = impl_bytes"
| "dcodec (DArr d n) = impl_array (dcodec d) n"
| "dcodec (DVec d) = impl_vec (dcodec d)"
| "dcodec (DTuple ds) = impl_tuple (map dcodec ds)"
| "dcodec (DStruct name fs) = derive_struct (map (map_prod id dcodec) fs)"
| "dcodec (DEnum name n) = derive_enum n"
| "dcodec (DUdt name d) = expand_udt (dcodec d)"

text \<open>The ABI type it stands for.\<close>

primrec abi_of :: "dty \<Rightarrow> sol_ty" where
  "abi_of (DPrim p) = TPrim p"
| "abi_of DString = TString"
| "abi_of DBytes = TBytes"
| "abi_of (DArr d n) = TArr (abi_of d) n"
| "abi_of (DVec d) = TVec (abi_of d)"
| "abi_of (DTuple ds) = TTuple (map abi_of ds)"
| "abi_of (DStruct name fs) = TTuple (map snd (map (map_prod id abi_of) fs))"
| "abi_of (DEnum name n) = TPrim U8"
| "abi_of (DUdt name d) = abi_of d"

text \<open>The syntax \<open>s\<close> is a way to write \<open>d\<close>: any name may be an alias or a custom type.\<close>

fun uint_prim :: "nat \<Rightarrow> prim option" where
  "uint_prim n =
     (if n = 256 then Some U256 else if n = 128 then Some U128 else if n = 64 then Some U64
      else if n = 32 then Some U32 else if n = 16 then Some U16 else if n = 8 then Some U8 else None)"

fun int_prim :: "nat \<Rightarrow> prim option" where
  "int_prim n =
     (if n = 256 then Some I256 else if n = 128 then Some I128 else if n = 64 then Some I64
      else if n = 32 then Some I32 else if n = 16 then Some I16 else if n = 8 then Some I8 else None)"

fun denotes :: "sol_type \<Rightarrow> dty \<Rightarrow> bool" where
  "denotes (SolCustom name) d = True"
| "denotes SolAddress d = (d = DPrim Address)"
| "denotes SolBool d = (d = DPrim Bool)"
| "denotes (SolUint n) (DPrim p) = (uint_prim n = Some p)"
| "denotes (SolInt n) (DPrim p) = (int_prim n = Some p)"
| "denotes (SolBytes n) d = (d = DPrim (BytesN n))"
| "denotes SolDynBytes d = (d = DBytes)"
| "denotes SolString d = (d = DString)"
| "denotes (SolArray s) (DVec d) = denotes s d"
| "denotes (SolFixedArray s n) (DArr d m) = (m = n \<and> denotes s d)"
| "denotes (SolTuple ss) (DTuple ds) = list_all2 denotes ss ds"
| "denotes _ _ = False"

declare uint_prim.simps [simp del] int_prim.simps [simp del]

lemma denotes_iff:
  "denotes (SolUint n) d \<longleftrightarrow> (\<exists>p. d = DPrim p \<and> uint_prim n = Some p)"
  "denotes (SolInt n) d \<longleftrightarrow> (\<exists>p. d = DPrim p \<and> int_prim n = Some p)"
  "denotes (SolArray s) d \<longleftrightarrow> (\<exists>e. d = DVec e \<and> denotes s e)"
  "denotes (SolFixedArray s n) d \<longleftrightarrow> (\<exists>e. d = DArr e n \<and> denotes s e)"
  "denotes (SolTuple ss) d \<longleftrightarrow> (\<exists>ds. d = DTuple ds \<and> list_all2 denotes ss ds)"
  by (cases d; auto)+

section \<open>Well-formed types and typed values\<close>

text \<open>
  What compiles: arrays have elements with the marker \<open>SolArrayElement\<close> (the wrappers of value types
  do not get it), a derive has at least one field and reads the fields' types off their syntax, a
  value type wraps an elementary static type.
\<close>

fun dty_array_element :: "dty \<Rightarrow> bool" where
  "dty_array_element (DPrim p) = (p \<noteq> U8)"
| "dty_array_element (DUdt name d) = False"
| "dty_array_element _ = True"

primrec dwf :: "dty \<Rightarrow> bool" where
  "dwf (DPrim p) = prim_wf p"
| "dwf DString = True"
| "dwf DBytes = True"
| "dwf (DArr d n) = (dwf d \<and> dty_array_element d \<and> 0 < n)"
| "dwf (DVec d) = dwf d"
| "dwf (DTuple ds) = (ds \<noteq> [] \<and> list_all id (map dwf ds))"
| "dwf (DStruct name fs) = (fs \<noteq> [] \<and> list_all (\<lambda>(s, d). denotes s d) fs \<and>
     list_all id (map snd (map (map_prod id dwf) fs)))"
| "dwf (DEnum name n) = (0 < n \<and> n \<le> 256)"
| "dwf (DUdt name d) = (case d of DPrim p \<Rightarrow> prim_wf p | _ \<Rightarrow> False)"

primrec dwt :: "dty \<Rightarrow> sol_val \<Rightarrow> bool" where
  "dwt (DPrim p) = sol_wt (TPrim p)"
| "dwt DString = sol_wt TString"
| "dwt DBytes = sol_wt TBytes"
| "dwt (DArr d n) = (\<lambda>v. case v of VSeq vs \<Rightarrow> length vs = n \<and> list_all (dwt d) vs | _ \<Rightarrow> False)"
| "dwt (DVec d) = (\<lambda>v. case v of VSeq vs \<Rightarrow> list_all (dwt d) vs | _ \<Rightarrow> False)"
| "dwt (DTuple ds) = (\<lambda>v. case v of VSeq vs \<Rightarrow> list_all2 (\<lambda>p x. p x) (map dwt ds) vs | _ \<Rightarrow> False)"
| "dwt (DStruct name fs) = (\<lambda>v. case v of
     VSeq vs \<Rightarrow> list_all2 (\<lambda>p x. p x) (map snd (map (map_prod id dwt) fs)) vs | _ \<Rightarrow> False)"
| "dwt (DEnum name n) = (\<lambda>v. case v of VPrim (VU8 m) \<Rightarrow> unat m < n | _ \<Rightarrow> False)"
| "dwt (DUdt name d) = dwt d"

section \<open>Syntax against traits\<close>

lemma denotes_dynamic:
  "denotes s d \<Longrightarrow> st_is_dynamic s = Some b \<Longrightarrow> IS_DYNAMIC (dcodec d) = b"
proof (induction s arbitrary: d b)
  case (SolFixedArray s n)
  then obtain e where "d = DArr e n" "denotes s e" by (auto simp: denotes_iff)
  then show ?case using SolFixedArray.IH [of e b] SolFixedArray.prems(2) by simp
next
  case (SolArray s)
  then show ?case by (auto simp: denotes_iff)
next
  case (SolTuple ss)
  then obtain ds where d: "d = DTuple ds" "list_all2 denotes ss ds" by (auto simp: denotes_iff)
  have "(\<exists>s \<in> set ss. st_is_dynamic s = Some True) \<longleftrightarrow> (\<exists>d \<in> set ds. IS_DYNAMIC (dcodec d))"
    using d(2) SolTuple.IH SolTuple.prems(2) unfolding st_dynamic_tuple list_all2_conv_all_nth
    by (fastforce simp: in_set_conv_nth)
  then show ?case
    using SolTuple.prems(2) by (simp only: st_dynamic_tuple d(1)) (auto simp: list_ex_iff)
qed (auto simp: denotes_iff impl_prim_def impl_string_def impl_bytes_def)

lemma denotes_head:
  "denotes s d \<Longrightarrow> st_head_size s = Some h \<Longrightarrow> SLOT_SIZE (dcodec d) = h"
proof (induction s arbitrary: d h)
  case (SolFixedArray s n)
  then obtain e where d: "d = DArr e n" "denotes s e" by (auto simp: denotes_iff)
  from SolFixedArray.prems(2) obtain b where b: "st_is_dynamic s = Some b"
    by (auto simp: bind_eq_Some_conv)
  then show ?case
    using SolFixedArray.IH [OF d(2)] SolFixedArray.prems(2) denotes_dynamic [OF d(2) b] d(1)
    by (auto simp: SLOT_SIZE_def split: if_splits)
next
  case (SolTuple ss)
  then obtain ds where d: "d = DTuple ds" "list_all2 denotes ss ds" by (auto simp: denotes_iff)
  from SolTuple.prems(2) obtain b where b: "st_is_dynamic (SolTuple ss) = Some b"
    by (auto simp: bind_eq_Some_conv)
  note dyn = denotes_dynamic [OF SolTuple.prems(1) b]
  show ?case
  proof (cases b)
    case True
    then show ?thesis using SolTuple.prems(2) b dyn d(1) by (simp add: SLOT_SIZE_def)
  next
    case False
    then have h: "sum_heads (map st_head_size ss) 0 = Some h" using SolTuple.prems(2) b by simp
    then have n: "None \<notin> set (map st_head_size ss)" by (auto simp: sum_heads_eq split: if_splits)
    have "map (\<lambda>s. the (st_head_size s)) ss = map (\<lambda>d. SLOT_SIZE (dcodec d)) ds"
    proof (rule nth_equalityI)
      fix i assume i: "i < length (map (\<lambda>s. the (st_head_size s)) ss)"
      then obtain k where "st_head_size (ss ! i) = Some k"
        using n by (cases "st_head_size (ss ! i)") (auto simp: image_iff, metis nth_mem)
      then show "map (\<lambda>s. the (st_head_size s)) ss ! i = map (\<lambda>d. SLOT_SIZE (dcodec d)) ds ! i"
        using SolTuple.IH [of "ss ! i" "ds ! i" k] i d(2) by (simp add: list_all2_conv_all_nth)
    qed (use d(2) in \<open>simp add: list_all2_lengthD\<close>)
    then show ?thesis
      using h n dyn False d(1)
      by (simp add: sum_heads_eq SLOT_SIZE_def tuple_head_size_def comp_def)
  qed
qed (auto simp: denotes_iff SLOT_SIZE_def impl_string_def impl_bytes_def impl_vec_def)

text \<open>What a derive may assume of a field.\<close>

definition seen :: "dfield \<Rightarrow> bool" where
  "seen f \<longleftrightarrow> (\<forall>b. st_is_dynamic (fst f) = Some b \<longrightarrow> IS_DYNAMIC (snd f) = b) \<and>
     (\<forall>h. st_head_size (fst f) = Some h \<longrightarrow> SLOT_SIZE (snd f) = h)"

lemma denotes_seen: "denotes s d \<Longrightarrow> seen (s, dcodec d)"
  by (simp add: seen_def denotes_dynamic denotes_head)

lemma field_dynamic_seen: "seen f \<Longrightarrow> field_dynamic f = IS_DYNAMIC (snd f)"
  by (auto simp: seen_def field_dynamic_def split: option.splits)

lemma head_term_seen:
  assumes "seen f" "st_is_dynamic (fst f) = Some b"
  shows "(if b then 32 else the (st_head_size (fst f))) = SLOT_SIZE (snd f)"
  using assms st_known_head [of "fst f"] by (auto simp: seen_def SLOT_SIZE_def split: if_splits)

lemma head_sum_seen:
  assumes "list_all seen fs"
  shows "head_sum fs = tuple_head_size (map snd fs)"
proof -
  have "(case st_is_dynamic (fst f) of Some True \<Rightarrow> 32
      | Some False \<Rightarrow> the (st_head_size (fst f)) | None \<Rightarrow> SLOT_SIZE (snd f)) = SLOT_SIZE (snd f)"
    if "f \<in> set fs" for f
    using that assms head_term_seen [of f] by (force simp: list_all_iff split: option.splits bool.splits)
  moreover have "(if st_is_dynamic (fst f) = Some True then 32 else the (st_head_size (fst f))) = SLOT_SIZE (snd f)"
    if "f \<in> set fs" "\<not> has_custom fs" for f
  proof -
    have "seen f" "\<not> st_has_custom_types (fst f)"
      using that assms by (auto simp: list_all_iff has_custom_def list_ex_iff)
    then obtain b where "st_is_dynamic (fst f) = Some b" using st_known by blast
    then show ?thesis using head_term_seen [OF \<open>seen f\<close>] by auto
  qed
  ultimately have "sum_list (map (\<lambda>f. case st_is_dynamic (fst f) of Some True \<Rightarrow> 32
      | Some False \<Rightarrow> the (st_head_size (fst f)) | None \<Rightarrow> SLOT_SIZE (snd f)) fs) = tuple_head_size (map snd fs)"
    "\<not> has_custom fs \<Longrightarrow> sum_list (map (\<lambda>f. if st_is_dynamic (fst f) = Some True then 32
      else the (st_head_size (fst f))) fs) = tuple_head_size (map snd fs)"
    unfolding tuple_head_size_def map_map comp_def
    by (intro arg_cong [of _ _ sum_list] map_cong refl; simp)+
  then show ?thesis unfolding head_sum_def by metis
qed

lemma is_dynamic_seen:
  assumes "list_all seen fs"
  shows "is_dynamic_expr fs = list_ex IS_DYNAMIC (map snd fs)"
proof -
  have "(st_is_dynamic (fst f) = Some True) = IS_DYNAMIC (snd f)" if "f \<in> set fs" "\<not> has_custom fs" for f
  proof -
    have "seen f" "\<not> st_has_custom_types (fst f)"
      using that assms by (auto simp: list_all_iff has_custom_def list_ex_iff)
    then obtain b where "st_is_dynamic (fst f) = Some b" using st_known by blast
    then show ?thesis using \<open>seen f\<close> by (auto simp: seen_def)
  qed
  then show ?thesis
    using assms field_dynamic_seen by (auto simp: is_dynamic_expr_def list_ex_iff list_all_iff)
qed

lemma dyn_encode_len_seen:
  assumes "list_all seen fs" "length vs = length fs"
  shows "dyn_encode_len fs vs = tuple_encode_body_len (map snd fs) vs"
proof -
  have "map (\<lambda>(f, v). if field_dynamic f then encode_body_len (snd f) v else 0) (zip fs vs) =
      map (\<lambda>(c, v). if IS_DYNAMIC c then encode_body_len c v else 0) (zip (map snd fs) vs)"
    using assms(2,1)
    by (induction vs fs rule: list_induct2) (auto simp: field_dynamic_seen)
  then show ?thesis
    using assms by (simp add: dyn_encode_len_def tuple_encode_body_len_def head_sum_seen)
qed

text \<open>The unrolled statements are the loop of the tuple impls, once the head offsets agree.\<close>

lemma head_sum_snoc:
  assumes "list_all seen (pre @ f # fs)"
  shows "head_sum (take (length pre) (pre @ f # fs)) = tuple_head_size (map snd pre)"
    "tuple_head_size (map snd (pre @ [f])) = tuple_head_size (map snd pre) + SLOT_SIZE (snd f)"
  using assms head_sum_seen [of pre] by (simp_all add: tuple_head_size_def)

definition tails_len :: "(sol_codec \<times> sol_val) list \<Rightarrow> nat" where
  "tails_len cvs = sum_list (map (\<lambda>(c, v). if IS_DYNAMIC c then encode_body_len c v else 0) cvs)"

lemma tails_len_Cons:
  "tails_len ((c, v) # cvs) = (if IS_DYNAMIC c then encode_body_len c v else 0) + tails_len cvs"
  by (simp add: tails_len_def)

lemma dyn_encode_fields_tuple:
  assumes "length vs = length fs" "list_all seen (pre @ fs)" "i = length pre"
  shows "dyn_encode_fields (pre @ fs) i (zip fs vs) to buf =
    map_option (\<lambda>b. (to + tails_len (zip (map snd fs) vs), b))
      (tuple_encode_fields (zip (map snd fs) vs) (tuple_head_size (map snd pre)) to buf)"
  using assms
proof (induction vs fs arbitrary: pre i to buf rule: list_induct2)
  case (Cons v vs f fs)
  have IH: "dyn_encode_fields (pre @ f # fs) (Suc (length pre)) (zip fs vs) to =
      (\<lambda>buf. map_option (\<lambda>b. (to + tails_len (zip (map snd fs) vs), b))
        (tuple_encode_fields (zip (map snd fs) vs) (tuple_head_size (map snd pre) + SLOT_SIZE (snd f)) to buf))" for to
    using Cons.IH [of "pre @ [f]" "Suc (length pre)" to] Cons.prems head_sum_snoc(2) [of pre f fs] by (intro ext) simp
  show ?case
    using Cons.prems head_sum_snoc(1) [of pre f fs] field_dynamic_seen [of f]
    by (auto simp: IH Let_def tails_len_Cons map_option_bind add.assoc comp_def intro!: Option.bind_cong)
qed (simp add: tails_len_def)

lemma dyn_decode_fields_tuple:
  assumes "list_all seen (pre @ fs)" "i = length pre" "offset + tuple_head_size (map snd (pre @ fs)) < usize_limit"
  shows "dyn_decode_fields (pre @ fs) i fs input offset =
    tuple_decode_fields (map snd fs) input offset (offset + tuple_head_size (map snd pre))"
  using assms
proof (induction fs arbitrary: pre i)
  case (Cons f fs)
  have "dyn_decode_fields (pre @ f # fs) (Suc (length pre)) fs input offset =
      tuple_decode_fields (map snd fs) input offset (offset + tuple_head_size (map snd pre) + SLOT_SIZE (snd f))"
    using Cons.IH [of "pre @ [f]" "Suc (length pre)"] Cons.prems head_sum_snoc(2) [of pre f fs]
    by (simp add: add.assoc)
  moreover have "offset + tuple_head_size (map snd pre) + SLOT_SIZE (snd f) < usize_limit"
    using Cons.prems(3) by (simp add: tuple_head_size_def)
  ultimately show ?case
    using Cons.prems(1,2) head_sum_snoc(1) [of pre f fs] field_dynamic_seen [of f]
    by (simp add: dyn_field_decode_def)
qed simp

section \<open>Derived structs are encoded and decoded as tuples\<close>

lemma encodes_cong:
  assumes "IS_DYNAMIC c = IS_DYNAMIC c'" "HEAD_SIZE c = HEAD_SIZE c'" "encode_body_len c v = encode_body_len c' v"
    and "\<And>buf. length e \<le> length buf \<Longrightarrow> length buf < usize_limit \<Longrightarrow> encode_body_to c v buf = encode_body_to c' v buf"
  shows "encodes c v e \<longleftrightarrow> encodes c' v e"
  using assms by (auto simp: encodes_def SLOT_SIZE_def)

lemma static_encode_fields_seq:
  assumes "all_encode xs" "list_all (\<lambda>(c, v, e). \<not> IS_DYNAMIC c) xs" "off = length H"
    and "seq_head_len (items xs) \<le> length R" "length (H @ R) < usize_limit"
  shows "static_encode_fields (map (\<lambda>(c, v, e). (c, v)) xs) off (H @ R) =
    Some (H @ seq_heads to (items xs) @ drop (seq_head_len (items xs)) R)"
  using assms
proof (induction xs arbitrary: off H R)
  case (Cons x xs)
  obtain c v e where x: "x = (c, v, e)" by (cases x)
  have e: "encodes c v e" "all_encode xs" "\<not> IS_DYNAMIC c" using Cons.prems(1,2) x by auto
  obtain R1 R2 where R: "R = R1 @ R2" "length R1 = length e"
    using split_at [of "length e" R] Cons.prems(4) x e(3) by auto
  have "with_slice (H @ R1 @ R2) off (off + length e) (encode_body_to c v) = Some (H @ e @ R2)"
    using with_slice_append [of off H "off + length e" R1 R2 "encode_body_to c v"] Cons.prems R e(1)
    by (simp add: encodes_def)
  moreover have "static_encode_fields (map (\<lambda>(c, v, e). (c, v)) xs) (off + length e) ((H @ e) @ R2) =
      Some ((H @ e) @ seq_heads to (items xs) @ drop (seq_head_len (items xs)) R2)"
    using Cons.prems R x e by (intro Cons.IH) auto
  ultimately show ?case
    using x R e by (simp add: Let_def encodes_def)
qed simp

lemma static_decode_fields_tuple:
  assumes "list_all (\<lambda>c. \<not> IS_DYNAMIC c) cs" "offset + off + tuple_head_size cs < usize_limit"
  shows "static_decode_fields decode_at cs input offset off = tuple_decode_fields cs input base (offset + off)"
  using assms
proof (induction cs arbitrary: off)
  case (Cons c cs)
  have "offset + off + HEAD_SIZE c + tuple_head_size cs < usize_limit"
    using Cons.prems by (simp add: tuple_head_size_def SLOT_SIZE_def)
  then show ?case
    using Cons.IH [of "off + HEAD_SIZE c"] Cons.prems(1) by (simp add: SLOT_SIZE_def add.assoc)
qed simp

lemma static_unchecked_fields_tuple:
  assumes "list_all (\<lambda>c. \<not> IS_DYNAMIC c) cs"
  shows "static_decode_fields decode_unchecked cs input offset off =
    tuple_unchecked_fields cs input (wadd offset off)"
  using assms
proof (induction cs arbitrary: off)
  case (Cons c cs)
  have "wadd (wadd offset off) (HEAD_SIZE c) = wadd offset (off + HEAD_SIZE c)"
    by (simp add: wadd_def mod_add_left_eq add.assoc)
  then show ?case using Cons by (simp add: SLOT_SIZE_def)
qed simp

lemma derive_static_iff:
  "list_ex (\<lambda>f. st_has_custom_types (fst f) \<or> st_is_dynamic (fst f) = Some True) fs = False \<longleftrightarrow>
   list_all (\<lambda>f. \<not> st_has_custom_types (fst f) \<and> st_is_dynamic (fst f) = Some False) fs"
proof -
  have "st_is_dynamic s = Some False \<longleftrightarrow> st_is_dynamic s \<noteq> Some True" if "\<not> st_has_custom_types s" for s
    using st_known [OF that] by (cases "st_is_dynamic s") auto
  then show ?thesis by (fastforce simp: list_ex_iff list_all_iff)
qed

lemma static_fields_seen:
  assumes "list_all seen fs" "list_all (\<lambda>f. \<not> st_has_custom_types (fst f) \<and> st_is_dynamic (fst f) = Some False) fs"
  shows "list_all (\<lambda>c. \<not> IS_DYNAMIC c) (map snd fs)" "total_size (map fst fs) = tuple_head_size (map snd fs)"
proof -
  show "list_all (\<lambda>c. \<not> IS_DYNAMIC c) (map snd fs)"
    using assms by (auto simp: list_all_iff seen_def)
  have "the (st_head_size (fst f)) = SLOT_SIZE (snd f)" if "f \<in> set fs" for f
    using that assms head_term_seen [of f False] by (auto simp: list_all_iff)
  then show "total_size (map fst fs) = tuple_head_size (map snd fs)"
    by (simp add: total_size_def tuple_head_size_def comp_def cong: map_cong)
qed

lemma derive_struct_dynamic:
  "list_all seen fs \<Longrightarrow> IS_DYNAMIC (derive_struct fs) = list_ex IS_DYNAMIC (map snd fs)"
  using static_fields_seen(1) [of fs] derive_static_iff [of fs]
  by (auto simp: derive_struct_def expand_static_def expand_dynamic_def is_dynamic_seen list_ex_iff list_all_iff)

lemma derive_struct_encodes:
  assumes "list_all seen fs" "map snd fs = map fst xs" "all_encode xs" "xs \<noteq> []"
  shows "encodes (derive_struct fs) (VSeq (map (\<lambda>(c, v, e). v) xs)) (seq_enc (items xs))"
proof (cases "list_ex (\<lambda>f. st_has_custom_types (fst f) \<or> st_is_dynamic (fst f) = Some True) fs")
  case True
  have l: "length (map (\<lambda>(c, v, e). v) xs) = length fs" using assms(2) by (metis length_map)
  have "encode_body_to (expand_dynamic fs) (VSeq (map (\<lambda>(c, v, e). v) xs)) buf =
      encode_body_to (impl_tuple (map fst xs)) (VSeq (map (\<lambda>(c, v, e). v) xs)) buf" for buf
    using dyn_encode_fields_tuple [OF l, of "[]" 0 "head_sum fs" buf] assms(1,2) head_sum_seen [OF assms(1)]
    by (simp add: expand_dynamic_def impl_tuple_def tuple_encode_body_to_def tuple_head_size_def
        option.map_comp comp_def option.map_ident)
  then have "encodes (expand_dynamic fs) (VSeq (map (\<lambda>(c, v, e). v) xs)) (seq_enc (items xs)) \<longleftrightarrow>
      encodes (impl_tuple (map fst xs)) (VSeq (map (\<lambda>(c, v, e). v) xs)) (seq_enc (items xs))"
    using assms(1,2) dyn_encode_len_seen [OF assms(1) l] is_dynamic_seen [OF assms(1)] head_sum_seen [OF assms(1)]
    by (intro encodes_cong) (simp_all add: expand_dynamic_def impl_tuple_def)
  then show ?thesis using True tuple_encodes [OF assms(3,4)] by (simp add: derive_struct_def)
next
  case False
  then have st: "list_all (\<lambda>f. \<not> st_has_custom_types (fst f) \<and> st_is_dynamic (fst f) = Some False) fs"
    using derive_static_iff by blast
  have cs: "list_all (\<lambda>c. \<not> IS_DYNAMIC c) (map fst xs)" "total_size (map fst fs) = tuple_head_size (map fst xs)"
    using static_fields_seen [OF assms(1) st] assms(2) by simp_all
  have xs: "list_all (\<lambda>(c, v, e). \<not> IS_DYNAMIC c) xs" using cs(1) by (auto simp: list_all_iff)
  have e: "seq_enc (items xs) = seq_heads (seq_head_len (items xs)) (items xs)"
    by (simp add: seq_enc_def seq_static [OF xs])
  have "32 \<le> seq_head_len (items xs)" using seq_head_len_32 [OF assms(3)] assms(4) by (cases xs) auto
  moreover have "static_encode_fields (zip (map snd fs) (map (\<lambda>(c, v, e). v) xs)) 0 buf =
      Some (seq_enc (items xs) @ drop (length (seq_enc (items xs))) buf)"
    if "length (seq_enc (items xs)) \<le> length buf" "length buf < usize_limit" for buf
    using that static_encode_fields_seq [OF assms(3) xs, of 0 "[]" buf "seq_head_len (items xs)"]
    by (simp add: assms(2) zip_fields e)
  ultimately show ?thesis
    using False by (simp add: derive_struct_def encodes_def expand_static_def SLOT_SIZE_def cs(2)
        tuple_head_size_items [OF assms(3)] e)
qed

lemma derive_struct_decodes:
  assumes "list_all seen fs" "map snd fs = map fst xs" "all_decode xs"
  shows "decodes (derive_struct fs) (VSeq (map (\<lambda>(c, v, e). v) xs)) (seq_enc (items xs))"
proof -
  have t: "tuple_decode_fields (map snd fs) (pre @ seq_enc (items xs) @ post) (length pre) (length pre) =
      Some (map (\<lambda>(c, v, e). v) xs)"
    "length pre + tuple_head_size (map snd fs) < usize_limit"
    if "length (pre @ seq_enc (items xs) @ post) + 32 < usize_limit" for pre post
    using tuple_decode_back [OF assms(3) that] that tuple_head_size_items [OF all_decode_encode [OF assms(3)]]
    by (simp_all add: assms(2) tuple_decode_at_def length_seq_enc)
  show ?thesis
  proof (cases "list_ex (\<lambda>f. st_has_custom_types (fst f) \<or> st_is_dynamic (fst f) = Some True) fs")
    case True
    have "dyn_decode_fields fs 0 fs (pre @ seq_enc (items xs) @ post) (length pre) = Some (map (\<lambda>(c, v, e). v) xs)"
      if "length (pre @ seq_enc (items xs) @ post) + 32 < usize_limit" for pre post
      using t [OF that] dyn_decode_fields_tuple [of "[]" fs 0 "length pre"] assms(1)
      by (simp add: tuple_head_size_def)
    then show ?thesis using True by (simp add: derive_struct_def decodes_def expand_dynamic_def)
  next
    case False
    then have st: "list_all (\<lambda>f. \<not> st_has_custom_types (fst f) \<and> st_is_dynamic (fst f) = Some False) fs"
      using derive_static_iff by blast
    have "static_decode_fields decode_at (map snd fs) (pre @ seq_enc (items xs) @ post) (length pre) 0 =
        Some (map (\<lambda>(c, v, e). v) xs)"
      if "length (pre @ seq_enc (items xs) @ post) + 32 < usize_limit" for pre post
      using t [OF that] static_decode_fields_tuple [OF static_fields_seen(1) [OF assms(1) st],
          of "length pre" 0 _ "length pre"] by simp
    then show ?thesis using False by (simp add: derive_struct_def decodes_def expand_static_def)
  qed
qed

section \<open>Every type of a program keeps the promises\<close>

lemma wf_struct_seen:
  assumes "dwf (DStruct name fs)"
  shows "list_all seen (map (map_prod id dcodec) fs)"
  using assms by (auto simp: list_all_iff denotes_seen)

lemma dcodec_dynamic: "dwf d \<Longrightarrow> IS_DYNAMIC (dcodec d) = abi_dynamic (abi_of d)"
proof (induction d)
  case (DTuple ds)
  then show ?case by (auto simp: list_ex_iff list_all_iff)
next
  case (DStruct name fs)
  have "\<forall>f \<in> set fs. IS_DYNAMIC (dcodec (snd f)) = abi_dynamic (abi_of (snd f))"
    using DStruct by (fastforce simp: list_all_iff Basic_BNFs.snds.simps)
  then show ?case
    using derive_struct_dynamic [OF wf_struct_seen [OF DStruct.prems]]
    by (simp add: list_ex_iff)
next
  case (DUdt name d)
  then show ?case by (auto simp: expand_udt_def split: dty.splits)
qed (simp_all add: derive_enum_def)

definition dty_fields :: "dty list \<Rightarrow> sol_val list \<Rightarrow> field list" where
  "dty_fields ds vs = map2 (\<lambda>d v. (dcodec d, v, abi_enc (abi_of d) v)) ds vs"

lemma dty_fields_simps:
  assumes "length ds = length vs"
  shows "map fst (dty_fields ds vs) = map dcodec ds"
    and "map (\<lambda>(c, v, e). v) (dty_fields ds vs) = vs"
    and "list_all dwf ds \<Longrightarrow> seq_enc (items (dty_fields ds vs)) = abi_enc (TTuple (map abi_of ds)) (VSeq vs)"
proof -
  show "map fst (dty_fields ds vs) = map dcodec ds" "map (\<lambda>(c, v, e). v) (dty_fields ds vs) = vs"
    using assms by (induction ds vs rule: list_induct2) (simp_all add: dty_fields_def)
  assume "list_all dwf ds"
  with assms have "items (dty_fields ds vs) =
      map2 (\<lambda>(dyn, f) x. (dyn, f x)) (zip (map abi_dynamic (map abi_of ds)) (map abi_enc (map abi_of ds))) vs"
    by (induction ds vs rule: list_induct2) (simp_all add: dty_fields_def dcodec_dynamic)
  then show "seq_enc (items (dty_fields ds vs)) = abi_enc (TTuple (map abi_of ds)) (VSeq vs)" by simp
qed

lemma dwt_seq:
  "list_all2 (\<lambda>p x. p x) (map dwt ds) vs \<longleftrightarrow> length vs = length ds \<and> (\<forall>(d, x) \<in> set (zip ds vs). dwt d x)"
  by (auto simp: list_all2_iff zip_map1)

text \<open>What both directions say of a list of fields.\<close>

lemma dty_fields_all:
  assumes "\<And>d v. d \<in> set ds \<Longrightarrow> dwf d \<Longrightarrow> dwt d v \<Longrightarrow> P (dcodec d) v (abi_enc (abi_of d) v)"
    and "list_all dwf ds" "\<forall>(d, x) \<in> set (zip ds vs). dwt d x"
  shows "\<forall>(c, v, e) \<in> set (dty_fields ds vs). P c v e"
  using assms by (fastforce simp: dty_fields_def list_all_iff dest: set_zip_leftD)

lemma struct_field_types:
  "map snd (map (map_prod id f) fs) = map f (map snd fs)"
  by (simp add: comp_def)

lemma derive_enum_word:
  assumes "unat m < n" "length pre + 32 + length post < usize_limit"
  shows "encodes (derive_enum n) (VPrim (VU8 m)) (prim_word (VU8 m))"
    and "enum_decode_at n (pre @ prim_word (VU8 m) @ post) (length pre) = Some (VPrim (VU8 m))"
proof -
  have wt: "prim_wt U8 (VU8 m)" by (simp add: prim_wt_def)
  show "encodes (derive_enum n) (VPrim (VU8 m)) (prim_word (VU8 m))"
    using prim_encodes [OF _ wt] by (simp add: encodes_def derive_enum_def SLOT_SIZE_def)
  have w: "prim_word (VU8 m) = replicate 31 0 @ [m]"
    using prim_word_uint(5) [of m] by simp
  have "get_range (pre @ (replicate 31 0 @ [m]) @ post) (length pre) (wadd (length pre) 32) = Some (replicate 31 0 @ [m])"
    using assms(2) by (subst wadd_small, simp, intro get_range_append) simp_all
  then show "enum_decode_at n (pre @ prim_word (VU8 m) @ post) (length pre) = Some (VPrim (VU8 m))"
    using assms(1) unfolding w by (simp add: enum_decode_at_def enum_try_from_def get_idx_def nth_append)
qed

lemma dcodec_encodes: "dwf d \<Longrightarrow> dwt d v \<Longrightarrow> encodes (dcodec d) v (abi_enc (abi_of d) v)"
proof (induction d arbitrary: v)
  case (DPrim p)
  then show ?case using codec_encodes [of "TPrim p" v] by simp
next
  case DString
  then show ?case using codec_encodes [of TString v] by simp
next
  case DBytes
  then show ?case using codec_encodes [of TBytes v] by simp
next
  case (DArr d n)
  then obtain vs where v: "v = VSeq vs" "length vs = n" "\<forall>x \<in> set vs. dwt d x"
    by (auto simp: list_all_iff split: sol_val.splits)
  then have "all_encode (array_fields (dcodec d) (abi_enc (abi_of d)) vs)"
    using DArr by (auto simp: all_encode_def array_fields_def)
  then show ?case
    using array_encodes [of "dcodec d" "abi_enc (abi_of d)" vs] v DArr.prems
    by (auto simp: dcodec_dynamic)
next
  case (DVec d)
  then obtain vs where v: "v = VSeq vs" "\<forall>x \<in> set vs. dwt d x"
    by (auto simp: list_all_iff split: sol_val.splits)
  then have "all_encode (array_fields (dcodec d) (abi_enc (abi_of d)) vs)"
    using DVec by (auto simp: all_encode_def array_fields_def)
  then show ?case
    using vec_encodes [of "dcodec d" "abi_enc (abi_of d)" vs] v DVec.prems by (simp add: dcodec_dynamic)
next
  case (DTuple ds)
  then obtain vs where v: "v = VSeq vs" "length ds = length vs" "\<forall>(d, x) \<in> set (zip ds vs). dwt d x"
    by (auto simp: dwt_seq split: sol_val.splits)
  have w: "list_all dwf ds" "ds \<noteq> []" using DTuple.prems(1) by (auto simp: list_all_iff)
  have "all_encode (dty_fields ds vs)"
    unfolding all_encode_def by (rule dty_fields_all [OF _ w(1) v(3)]) (use DTuple.IH in auto)
  moreover have "dty_fields ds vs \<noteq> []" using w(2) v(2) by (cases ds; cases vs) (auto simp: dty_fields_def)
  ultimately show ?case
    using tuple_encodes [of "dty_fields ds vs"] dty_fields_simps [OF v(2)] v(1) w by simp
next
  case (DStruct name fs)
  let ?ds = "map snd fs"
  obtain vs where v: "v = VSeq vs" "length ?ds = length vs" "\<forall>(d, x) \<in> set (zip ?ds vs). dwt d x"
    using DStruct.prems(2) by (auto simp: struct_field_types dwt_seq split: sol_val.splits simp del: map_map)
  have w: "list_all dwf ?ds" "?ds \<noteq> []" using DStruct.prems(1) by (auto simp: list_all_iff)
  have IH: "encodes (dcodec d) v (abi_enc (abi_of d) v)" if "d \<in> set ?ds" "dwf d" "dwt d v" for d v
    using that DStruct.IH by (fastforce simp: Basic_BNFs.snds.simps)
  have "all_encode (dty_fields ?ds vs)"
    unfolding all_encode_def by (rule dty_fields_all [OF _ w(1) v(3)]) (rule IH)
  moreover have "dty_fields ?ds vs \<noteq> []" using w(2) v(2) by (cases fs; cases vs) (auto simp: dty_fields_def)
  moreover have "map snd (map (map_prod id dcodec) fs) = map fst (dty_fields ?ds vs)"
    by (simp add: dty_fields_simps [OF v(2)] del: map_map) simp
  ultimately have "encodes (derive_struct (map (map_prod id dcodec) fs))
      (VSeq (map (\<lambda>(c, v, e). v) (dty_fields ?ds vs))) (seq_enc (items (dty_fields ?ds vs)))"
    by (intro derive_struct_encodes wf_struct_seen [OF DStruct.prems(1)])
  then show ?case
    using dty_fields_simps [OF v(2)] v(1) w(1) by (simp only: dcodec.simps abi_of.simps struct_field_types)
next
  case (DEnum name n)
  then show ?case
    using derive_enum_word(1) [of _ n "[]" "[]"]
    by (auto simp: usize_limit_def split: sol_val.splits prim_val.splits)
next
  case (DUdt name d)
  then obtain p where p: "d = DPrim p" "prim_wf p" by (auto split: dty.splits)
  then have "encodes (impl_prim p) v (abi_enc (TPrim p) v)" "length (abi_enc (TPrim p) v) = 32"
    using DUdt.prems(2) codec_encodes [of "TPrim p" v]
    by (auto simp: prim_encodes split: sol_val.splits simp: encodes_def impl_prim_def)
  then show ?case using p by (simp add: encodes_def expand_udt_def impl_prim_def SLOT_SIZE_def)
qed

lemma dcodec_decodes: "dwf d \<Longrightarrow> dwt d v \<Longrightarrow> decodes (dcodec d) v (abi_enc (abi_of d) v)"
proof (induction d arbitrary: v)
  case (DPrim p)
  then show ?case using codec_decodes [of "TPrim p" v] by simp
next
  case DString
  then show ?case using codec_decodes [of TString v] by simp
next
  case DBytes
  then show ?case using codec_decodes [of TBytes v] by simp
next
  case (DArr d n)
  then obtain vs where v: "v = VSeq vs" "length vs = n" "\<forall>x \<in> set vs. dwt d x"
    by (auto simp: list_all_iff split: sol_val.splits)
  then have "all_decode (array_fields (dcodec d) (abi_enc (abi_of d)) vs)"
    using DArr by (auto simp: all_decode_def array_fields_def dcodec_encodes)
  then show ?case
    using array_decodes [of "dcodec d" "abi_enc (abi_of d)" vs] v DArr.prems
    by (auto simp: dcodec_dynamic)
next
  case (DVec d)
  then obtain vs where v: "v = VSeq vs" "\<forall>x \<in> set vs. dwt d x"
    by (auto simp: list_all_iff split: sol_val.splits)
  then have "all_decode (array_fields (dcodec d) (abi_enc (abi_of d)) vs)"
    using DVec by (auto simp: all_decode_def array_fields_def dcodec_encodes)
  then show ?case
    using vec_decodes [of "dcodec d" "abi_enc (abi_of d)" vs] v DVec.prems by (simp add: dcodec_dynamic)
next
  case (DTuple ds)
  then obtain vs where v: "v = VSeq vs" "length ds = length vs" "\<forall>(d, x) \<in> set (zip ds vs). dwt d x"
    by (auto simp: dwt_seq split: sol_val.splits)
  have w: "list_all dwf ds" using DTuple.prems(1) by (auto simp: list_all_iff)
  have "all_decode (dty_fields ds vs)"
    unfolding all_decode_def by (rule dty_fields_all [OF _ w v(3)]) (use DTuple.IH dcodec_encodes in auto)
  then show ?case
    using tuple_decodes [of "dty_fields ds vs"] dty_fields_simps [OF v(2)] v(1) w by simp
next
  case (DStruct name fs)
  let ?ds = "map snd fs"
  obtain vs where v: "v = VSeq vs" "length ?ds = length vs" "\<forall>(d, x) \<in> set (zip ?ds vs). dwt d x"
    using DStruct.prems(2) by (auto simp: struct_field_types dwt_seq split: sol_val.splits simp del: map_map)
  have w: "list_all dwf ?ds" using DStruct.prems(1) by (auto simp: list_all_iff)
  have IH: "encodes (dcodec d) v (abi_enc (abi_of d) v) \<and> decodes (dcodec d) v (abi_enc (abi_of d) v)"
    if "d \<in> set ?ds" "dwf d" "dwt d v" for d v
    using that DStruct.IH dcodec_encodes by (fastforce simp: Basic_BNFs.snds.simps)
  have "all_decode (dty_fields ?ds vs)"
    unfolding all_decode_def by (rule dty_fields_all [OF _ w v(3)]) (rule IH)
  moreover have "map snd (map (map_prod id dcodec) fs) = map fst (dty_fields ?ds vs)"
    by (simp add: dty_fields_simps [OF v(2)] del: map_map) simp
  ultimately have "decodes (derive_struct (map (map_prod id dcodec) fs))
      (VSeq (map (\<lambda>(c, v, e). v) (dty_fields ?ds vs))) (seq_enc (items (dty_fields ?ds vs)))"
    by (intro derive_struct_decodes wf_struct_seen [OF DStruct.prems(1)])
  then show ?case
    using dty_fields_simps [OF v(2)] v(1) w by (simp only: dcodec.simps abi_of.simps struct_field_types)
next
  case (DEnum name n)
  then show ?case
    using derive_enum_word(2) by (auto simp: decodes_def derive_enum_def split: sol_val.splits prim_val.splits)
next
  case (DUdt name d)
  then obtain p where p: "d = DPrim p" "prim_wf p" by (auto split: dty.splits)
  then have "decodes (impl_prim p) v (abi_enc (TPrim p) v)"
    using DUdt.prems(2) codec_decodes [of "TPrim p" v] by simp
  then show ?case using p by (simp add: decodes_def expand_udt_def impl_prim_def)
qed

interpretation dty: abi_codec "dcodec d" "\<lambda>v. dwf d \<and> dwt d v" "\<lambda>v. abi_enc (abi_of d) v" for d
  by unfold_locales (simp_all add: dcodec_encodes dcodec_decodes)

section \<open>Names of derived structs\<close>

text \<open>
  \<open>SOL_NAME\<close> of a derived struct is a compile-time concatenation of literals and of the names of the
  custom types, which \<open>names\<close> gives by path.
\<close>

fun sol_type_name_parts :: "(bytes \<Rightarrow> bytes) \<Rightarrow> sol_type \<Rightarrow> bytes" and
  name_parts_list :: "(bytes \<Rightarrow> bytes) \<Rightarrow> sol_type list \<Rightarrow> bytes list" where
  "sol_type_name_parts names (SolCustom path) = names path"
| "sol_type_name_parts names (SolArray inner) =
     (if st_has_custom_types inner then sol_type_name_parts names inner @ ascii ''[]''
      else st_canonical_name (SolArray inner))"
| "sol_type_name_parts names (SolFixedArray inner n) =
     (if st_has_custom_types inner
      then sol_type_name_parts names inner @ ascii ''['' @ decimal n @ ascii '']''
      else st_canonical_name (SolFixedArray inner n))"
| "sol_type_name_parts names (SolTuple types) =
     (if list_ex st_has_custom_types types
      then ascii ''('' @ comma_sep (name_parts_list names types) @ ascii '')''
      else st_canonical_name (SolTuple types))"
| "sol_type_name_parts names ty = st_canonical_name ty"
| "name_parts_list names [] = []"
| "name_parts_list names (t # ts) = sol_type_name_parts names t # name_parts_list names ts"

definition build_sol_name :: "(bytes \<Rightarrow> bytes) \<Rightarrow> sol_type list \<Rightarrow> bytes" where
  "build_sol_name names ss =
     (if \<not> list_ex st_has_custom_types ss
      then ascii ''('' @ comma_sep (map st_canonical_name ss) @ ascii '')''
      else ascii ''('' @ comma_sep (name_parts_list names ss) @ ascii '')'')"

text \<open>
  The types of a program by path, as the compiler resolves them: the listed paths are the built-in
  types, any other path is an alias or a custom type, but no alias of \<open>u8\<close>, which would turn
  arrays into \<open>bytesN\<close> behind the macro's back.
\<close>

definition env_ok :: "(bytes \<Rightarrow> dty option) \<Rightarrow> bool" where
  "env_ok env \<longleftrightarrow> (\<forall>path d. env path = Some d \<longrightarrow>
     (if path_type path = SolCustom path then d \<noteq> DPrim U8 else denotes (path_type path) d))"

primrec rust_ty :: "(bytes \<Rightarrow> dty option) \<Rightarrow> rust_type \<Rightarrow> dty option" where
  "rust_ty env (RPath path) = env path"
| "rust_ty env (RVec r) = map_option DVec (rust_ty env r)"
| "rust_ty env (RArray r n) =
     map_option (\<lambda>d. if d = DPrim U8 then DPrim (BytesN n) else DArr d n) (rust_ty env r)"
| "rust_ty env (RTuple rs) = (if rs = [] then None else map_option DTuple (all_some (map (rust_ty env) rs)))"

lemma path_type_custom: "path_type path = SolCustom q \<Longrightarrow> q = path"
  by (auto simp: path_type_def split: if_splits)

lemma from_rust_custom:
  "from_rust_type r = Some (SolCustom q) \<Longrightarrow> r = RPath q \<and> path_type q = SolCustom q"
  by (cases r) (auto dest: path_type_custom split: if_splits)

lemma denotes_u8: "denotes s (DPrim U8) \<Longrightarrow> s = SolUint 8 \<or> (\<exists>q. s = SolCustom q)"
  by (cases s) (auto simp: uint_prim.simps int_prim.simps split: if_splits)

lemma rust_ty_denotes:
  assumes "env_ok env"
  shows "from_rust_type r = Some s \<Longrightarrow> rust_ty env r = Some d \<Longrightarrow> denotes s d"
proof (induction r arbitrary: s d)
  case (RPath path)
  then show ?case using assms by (cases "path_type path = SolCustom path") (auto simp: env_ok_def)
next
  case (RVec r)
  then show ?case by auto
next
  case (RArray r n)
  then obtain s' d' where i: "from_rust_type r = Some s'" "rust_ty env r = Some d'"
    "s = (if s' = SolUint 8 then SolBytes n else SolFixedArray s' n)"
    "d = (if d' = DPrim U8 then DPrim (BytesN n) else DArr d' n)" by auto
  then have d': "denotes s' d'" using RArray.IH by blast
  have "s' = SolUint 8 \<longleftrightarrow> d' = DPrim U8"
  proof
    assume "s' = SolUint 8"
    then show "d' = DPrim U8" using d' by (auto simp: denotes_iff uint_prim.simps)
  next
    assume "d' = DPrim U8"
    then show "s' = SolUint 8"
      using denotes_u8 d' from_rust_custom i(1,2) assms by (fastforce simp: env_ok_def)
  qed
  then show ?case using i d' by simp
next
  case (RTuple rs)
  then obtain ss ds where i: "s = SolTuple ss" "map from_rust_type rs = map Some ss"
    "d = DTuple ds" "map (rust_ty env) rs = map Some ds"
    by (auto simp: all_some_iff split: if_splits)
  then have "list_all2 denotes ss ds"
    using RTuple.IH by (auto simp: list_all2_conv_all_nth list_eq_iff_nth_eq) (metis nth_mem)
  then show ?case using i by simp
qed

lemma prim_names:
  "uint_prim n = Some p \<Longrightarrow> prim_name p = ascii ''uint'' @ decimal n"
  "int_prim n = Some p \<Longrightarrow> prim_name p = ascii ''int'' @ decimal n"
proof -
  have "decimal 256 = ascii ''256''" "decimal 128 = ascii ''128''" "decimal 64 = ascii ''64''"
    "decimal 32 = ascii ''32''" "decimal 16 = ascii ''16''" "decimal 8 = ascii ''8''"
    by (simp_all add: decimal_def digits_of.simps ascii_def)
  then show "uint_prim n = Some p \<Longrightarrow> prim_name p = ascii ''uint'' @ decimal n"
    "int_prim n = Some p \<Longrightarrow> prim_name p = ascii ''int'' @ decimal n"
    by (auto simp: ascii_def uint_prim.simps int_prim.simps split: if_splits)
qed

text \<open>Without custom types the canonical name is the literal, with them the concatenation.\<close>

lemma denotes_name:
  "denotes s d \<Longrightarrow> \<not> st_has_custom_types s \<Longrightarrow> st_canonical_name s = abi_name (abi_of d)"
proof (induction s arbitrary: d)
  case (SolTuple ss)
  then obtain ds where d: "d = DTuple ds" "list_all2 denotes ss ds" by (auto simp: denotes_iff)
  then have "map st_canonical_name ss = map (\<lambda>d. abi_name (abi_of d)) ds"
    using SolTuple by (auto simp: list_all2_conv_all_nth list_ex_iff intro!: nth_equalityI)
  then show ?case by (simp add: d(1) comp_def)
qed (auto simp: denotes_iff prim_names)

lemma map_Some_nth:
  "map f rs = map Some ss \<Longrightarrow> length ss = length rs \<and> (\<forall>i < length rs. f (rs ! i) = Some (ss ! i))"
  by (metis length_map nth_map)

lemma name_parts_list_map: "name_parts_list names ss = map (sol_type_name_parts names) ss"
  by (induction ss) simp_all

lemma name_parts_literal:
  "\<not> st_has_custom_types s \<Longrightarrow> sol_type_name_parts names s = st_canonical_name s"
  by (cases s) (auto simp: list_ex_iff)

definition names_ok :: "(bytes \<Rightarrow> dty option) \<Rightarrow> (bytes \<Rightarrow> bytes) \<Rightarrow> bool" where
  "names_ok env names \<longleftrightarrow> (\<forall>path d. env path = Some d \<longrightarrow> names path = abi_name (abi_of d))"

lemma name_parts_name:
  assumes "env_ok env" "names_ok env names"
  shows "from_rust_type r = Some s \<Longrightarrow> rust_ty env r = Some d \<Longrightarrow>
    sol_type_name_parts names s = abi_name (abi_of d)"
proof (induction r arbitrary: s d)
  case (RPath path)
  show ?case
  proof (cases "st_has_custom_types s")
    case True
    then have "s = SolCustom path"
      using RPath.prems(1) by (auto simp: path_type_def split: if_splits)
    then show ?thesis using assms(2) RPath.prems(2) by (simp add: names_ok_def)
  next
    case False
    then show ?thesis
      using name_parts_literal denotes_name rust_ty_denotes [OF assms(1) RPath.prems] by simp
  qed
next
  case (RVec r)
  then obtain s' d' where i: "from_rust_type r = Some s'" "rust_ty env r = Some d'"
    "s = SolArray s'" "d = DVec d'" by auto
  then show ?case
    using RVec.IH [OF i(1,2)] denotes_name [of s' d'] rust_ty_denotes [OF assms(1) i(1,2)] by simp
next
  case (RArray r n)
  then obtain s' d' where i: "from_rust_type r = Some s'" "rust_ty env r = Some d'"
    "s = (if s' = SolUint 8 then SolBytes n else SolFixedArray s' n)"
    "d = (if d' = DPrim U8 then DPrim (BytesN n) else DArr d' n)" by auto
  note den = rust_ty_denotes [OF assms(1) RArray.prems]
  show ?case
  proof (cases "s' = SolUint 8")
    case True
    then show ?thesis using i den by auto
  next
    case False
    then have "d = DArr d' n" using den i by (auto split: if_splits)
    then show ?thesis
      using RArray.IH [OF i(1,2)] denotes_name [of s' d'] rust_ty_denotes [OF assms(1) i(1,2)] i(3) False by simp
  qed
next
  case (RTuple rs)
  note den = rust_ty_denotes [OF assms(1) RTuple.prems]
  obtain ss ds where i: "s = SolTuple ss" "map from_rust_type rs = map Some ss"
    "d = DTuple ds" "map (rust_ty env) rs = map Some ds"
    using RTuple.prems by (auto simp: all_some_iff split: if_splits)
  have "map (sol_type_name_parts names) ss = map (\<lambda>d. abi_name (abi_of d)) ds"
  proof (rule nth_equalityI)
    fix k assume k: "k < length (map (sol_type_name_parts names) ss)"
    then show "map (sol_type_name_parts names) ss ! k = map (\<lambda>d. abi_name (abi_of d)) ds ! k"
      using map_Some_nth [OF i(2)] map_Some_nth [OF i(4)] RTuple.IH [of "rs ! k" "ss ! k" "ds ! k"] by simp
  qed (use map_Some_nth [OF i(2)] map_Some_nth [OF i(4)] in simp)
  then show ?case
    using denotes_name [OF den] by (auto simp: i(1,3) name_parts_list_map comp_def list_ex_iff)
qed

section \<open>Properties\<close>

text \<open>
  C11: what a derive reads off the syntax of a field is what the field's implementation says. For any
  Rust type of a program in which no name is an alias of \<open>u8\<close>, whatever other aliases and custom
  types occur in it: the syntactic answers, when there are any, are \<open>IS_DYNAMIC\<close> and \<open>SLOT_SIZE\<close>
  of the implementation the compiler resolves, a type without custom types is always answered, and
  the compile-time name is the ABI name, provided that the \<open>SOL_NAME\<close> of every custom type is the ABI
  name of that type (\<open>names_ok\<close>: this is one step of the induction along the declarations of a program).
\<close>

theorem syntax_agrees_with_traits:
  assumes "env_ok env" "names_ok env names" "from_rust_type r = Some s" "rust_ty env r = Some d"
  shows "(\<forall>b. st_is_dynamic s = Some b \<longrightarrow> IS_DYNAMIC (dcodec d) = b) \<and>
    (\<forall>h. st_head_size s = Some h \<longrightarrow> SLOT_SIZE (dcodec d) = h) \<and>
    (\<not> st_has_custom_types s \<longrightarrow> st_is_dynamic s \<noteq> None \<and> st_canonical_name s = abi_name (abi_of d)) \<and>
    sol_type_name_parts names s = abi_name (abi_of d)"
  using denotes_dynamic denotes_head denotes_name st_known rust_ty_denotes [OF assms(1,3,4)]
    name_parts_name [OF assms] by blast

text \<open>
  C10: every type of a program, built in, derived or imported and nested in any way, is the ABI type it
  stands for: a struct is the tuple of its fields, an enum \<open>uint8\<close>, a value type its underlying type.
  \<open>encode_len\<close> is the length of the canonical encoding, \<open>encode_to\<close> writes exactly that encoding and
  \<open>decode\<close> reads the value back from it, whatever follows. At the top level a dynamic struct is
  behind an offset, unlike a tuple.
\<close>

theorem derived_types_refine_abi:
  assumes "dwf d" "dwt d v"
    and "e = (case d of DTuple _ \<Rightarrow> abi_enc (abi_of d) v
      | _ \<Rightarrow> seq_enc [(abi_dynamic (abi_of d), abi_enc (abi_of d) v)])"
    and "length e \<le> length buf" "length buf + length post + 32 < usize_limit"
  shows "encode_len (dcodec d) v = length e \<and>
    encode_to (dcodec d) v buf = Some (e @ drop (length e) buf) \<and> decode (dcodec d) (e @ post) = Some v"
proof -
  have "IS_TUPLE (dcodec d) \<longleftrightarrow> (\<exists>ds. d = DTuple ds)"
    by (cases d) (simp_all add: derive_struct_def expand_static_def expand_dynamic_def derive_enum_def
        expand_udt_def impl_string_def impl_bytes_def)
  then have e: "e = top_enc (dcodec d) (abi_enc (abi_of d) v)"
    using assms(1,3) by (auto simp: top_enc_def dcodec_dynamic seq_enc_def seq_head_len_def seq_tails_def
        item_head_def item_tail_def split: dty.splits)
  show ?thesis
    using assms(1,2,4,5) dty.encode_len_top [of d v] dty.encode_to_top [of d v buf] dty.decode_top [of d v post]
    unfolding e by simp
qed

lemma enum_word_iff:
  assumes "length word = 32" "take 31 word = replicate 31 0" "word ! 31 = m"
  shows "word = replicate 31 0 @ [m]"
proof -
  have "word = take 31 word @ [word ! 31]"
    using assms(1) take_Suc_conv_app_nth [of 31 word] by simp
  then show ?thesis using assms(2,3) by simp
qed

text \<open>
  C19: a derived enum rejects everything that is not one of its variants: \<open>decode_at\<close> succeeds exactly
  when the 32 bytes at the offset are there and are the canonical word of an index below the number
  of variants, and then returns that variant, so its encoding is unique.
\<close>

theorem enum_decode_exact:
  assumes "offset + 32 < usize_limit"
  shows "decode_at (dcodec (DEnum name n)) input offset = Some v \<longleftrightarrow>
    (\<exists>m. v = VPrim (VU8 m) \<and> unat m < n \<and> get_range input offset (offset + 32) = Some (prim_word (VU8 m)))"
proof -
  have w: "prim_word (VU8 m) = replicate 31 0 @ [m]" for m using prim_word_uint(5) [of m] by simp
  have "decode_at (dcodec (DEnum name n)) input offset = Some v \<longleftrightarrow>
      (\<exists>word. get_range input offset (offset + 32) = Some word \<and> take 31 word = replicate 31 0 \<and>
        unat (word ! 31) < n \<and> v = VPrim (VU8 (word ! 31)))"
    using assms by (auto simp: derive_enum_def enum_decode_at_def enum_try_from_def get_idx_def get_range_def
        split: if_splits)
  also have "\<dots> \<longleftrightarrow> (\<exists>m. v = VPrim (VU8 m) \<and> unat m < n \<and>
      get_range input offset (offset + 32) = Some (prim_word (VU8 m)))"
  proof -
    have "word = replicate 31 0 @ [word ! 31]"
      if "get_range input offset (offset + 32) = Some word" "take 31 word = replicate 31 0" for word
      using that by (intro enum_word_iff) (auto simp: get_range_def split: if_splits)
    then show ?thesis unfolding w by (fastforce simp: nth_append)
  qed
  finally show ?thesis .
qed

section \<open>Witnesses\<close>

text \<open>\<open>struct Item { kind: Kind, id: u64, name: String }\<close> with \<open>enum Kind\<close> of three variants.\<close>

definition item_ty :: dty where
  "item_ty = DStruct (ascii ''Item'')
     [(SolCustom (ascii ''Kind''), DEnum (ascii ''Kind'') 3), (SolUint 64, DPrim U64), (SolString, DString)]"

definition item_val :: sol_val where
  "item_val = VSeq [VPrim (VU8 2), VPrim (VU64 7), VData [104]]"

lemma item_ok: "dwf item_ty" "dwt item_ty item_val"
  by (simp_all add: item_ty_def item_val_def prim_wt_def uint_prim.simps)

theorem derived_types_refine_abi_witness:
  "decode (dcodec item_ty) (abi_uint 32 @ abi_uint 2 @ abi_uint 7 @ abi_uint 96 @ abi_uint 1 @ [104] @
     replicate 31 0 @ [0xff]) = Some item_val"
  using derived_types_refine_abi [OF item_ok refl, of "replicate 192 0" "[0xff]"]
  by (simp add: item_ty_def item_val_def seq_enc_def abi_uint_def data_enc_def padding_def
      usize_limit_def seq_head_len_def seq_tails_def item_head_def item_tail_def)

theorem syntax_agrees_with_traits_witness:
  "sol_type_name_parts (\<lambda>_. ascii ''uint8'') (SolArray (SolTuple [SolCustom (ascii ''Kind''), SolBytes 4])) =
     ascii ''(uint8,bytes4)[]''"
proof -
  let ?env = "(\<lambda>p. if p = ascii ''u8'' then Some (DPrim U8) else
    if p = ascii ''Kind'' then Some (DEnum (ascii ''Kind'') 3) else None)"
  have p: "path_type (ascii ''u8'') = SolUint 8" "path_type (ascii ''Kind'') = SolCustom (ascii ''Kind'')"
    by (simp_all add: path_type_def in_names_def ascii_def)
  have n: "ascii ''Kind'' \<noteq> ascii ''u8''" by (simp add: ascii_def)
  have "env_ok ?env" using p n by (auto simp: env_ok_def uint_prim.simps)
  moreover have "names_ok ?env (\<lambda>_. ascii ''uint8'')" by (simp add: names_ok_def ascii_def decimal_def digits_of.simps)
  moreover have "from_rust_type (RVec (RTuple [RPath (ascii ''Kind''), RArray (RPath (ascii ''u8'')) 4])) =
      Some (SolArray (SolTuple [SolCustom (ascii ''Kind''), SolBytes 4]))"
    by (simp add: p)
  moreover have "rust_ty ?env (RVec (RTuple [RPath (ascii ''Kind''), RArray (RPath (ascii ''u8'')) 4])) =
      Some (DVec (DTuple [DEnum (ascii ''Kind'') 3, DPrim (BytesN 4)]))"
    by (simp add: n)
  ultimately have "sol_type_name_parts (\<lambda>_. ascii ''uint8'') (SolArray (SolTuple [SolCustom (ascii ''Kind''), SolBytes 4])) =
      abi_name (abi_of (DVec (DTuple [DEnum (ascii ''Kind'') 3, DPrim (BytesN 4)])))"
    using syntax_agrees_with_traits by blast
  then show ?thesis by (simp add: ascii_def decimal_def digits_of.simps)
qed

theorem enum_decode_exact_witness:
  "decode_at (dcodec (DEnum (ascii ''Kind'') 3)) (replicate 31 0 @ [3]) 0 = None"
proof -
  have "get_range (replicate 31 0 @ [3]) 0 32 = Some (replicate 31 0 @ [3 :: byte])"
    by (simp add: get_range_def)
  moreover have "prim_word (VU8 m) = replicate 31 0 @ [m]" for m using prim_word_uint(5) [of m] by simp
  ultimately show ?thesis
    using enum_decode_exact [of 0 "ascii ''Kind''" 3 "replicate 31 0 @ [3]"]
    by (cases "decode_at (dcodec (DEnum (ascii ''Kind'') 3)) (replicate 31 0 @ [3]) 0")
      (auto simp: usize_limit_def)
qed

text \<open>
  The alias the hypothesis excludes: with \<open>type Byte = u8\<close>, a derived struct with a field
  \<open>[Byte; 4]\<close> is named with \<open>uint8[4]\<close>, while the field is encoded as \<open>bytes4\<close>.
\<close>

lemma u8_alias_misnamed:
  fixes env :: "bytes \<Rightarrow> dty option"
  defines "env \<equiv> \<lambda>p. if p = ascii ''Byte'' then Some (DPrim U8) else None"
  shows "from_rust_type (RArray (RPath (ascii ''Byte'')) 4) = Some (SolFixedArray (SolCustom (ascii ''Byte'')) 4)"
    and "rust_ty env (RArray (RPath (ascii ''Byte'')) 4) = Some (DPrim (BytesN 4))"
    and "build_sol_name (\<lambda>_. ascii ''uint8'') [SolFixedArray (SolCustom (ascii ''Byte'')) 4] = ascii ''(uint8[4])''"
    and "abi_name (abi_of (DTuple [DPrim (BytesN 4)])) = ascii ''(bytes4)''"
  by (simp_all add: env_def path_type_def in_names_def ascii_def build_sol_name_def decimal_def digits_of.simps)

end
