(* ===== verification/Reentrancy.thy ===== *)
theory Reentrancy
  imports Boundary
begin

text \<open>
  \<open>reentrancy.rs\<close>: the lock in transient storage, the frame-local flag of riscv64 builds, the
  release inside \<open>return_value\<close>, and the error. The operations the dispatch code calls are a
  record (\<open>guard_ops\<close>) with an instance per target, and a locale of laws both satisfy. The second
  half is a machine whose configurations are the frames of one contract on the call stack: methods
  entered, bodies running, and every way a frame can end.
\<close>

section \<open>The lock\<close>

definition REENTRANCY_KEY :: "(bytes \<Rightarrow> bytes) \<Rightarrow> bytes" where
  "REENTRANCY_KEY keccak = keccak (ascii ''pvm.guards.reentrancy'')"

definition LOCKED :: bytes where
  "LOCKED = replicate 32 1"

definition UNLOCKED :: bytes where
  "UNLOCKED = replicate 32 0"

definition reentrancy_is_locked :: "(bytes \<Rightarrow> bytes) \<Rightarrow> 's host_api \<Rightarrow> 's \<Rightarrow> bool" where
  "reentrancy_is_locked keccak H s =
     (api_get_storage_or_zero H Transient (REENTRANCY_KEY keccak) s \<noteq> UNLOCKED)"

text \<open>On the host target; on riscv64 the state is paired with the flag \<open>REENTRANCY_LOCK_HELD\<close>.\<close>

definition host_lock :: "(bytes \<Rightarrow> bytes) \<Rightarrow> 's host_api \<Rightarrow> 's \<Rightarrow> 's" where
  "host_lock keccak H s = snd (api_set_storage_or_clear H Transient (REENTRANCY_KEY keccak) LOCKED s)"

definition host_unlock :: "(bytes \<Rightarrow> bytes) \<Rightarrow> 's host_api \<Rightarrow> 's \<Rightarrow> 's" where
  "host_unlock keccak H s = snd (api_set_storage_or_clear H Transient (REENTRANCY_KEY keccak) UNLOCKED s)"

definition reentrancy_lock :: "(bytes \<Rightarrow> bytes) \<Rightarrow> 's host_api \<Rightarrow> bool \<times> 's \<Rightarrow> bool \<times> 's" where
  "reentrancy_lock keccak H x = (True, host_lock keccak H (snd x))"

definition reentrancy_unlock :: "(bytes \<Rightarrow> bytes) \<Rightarrow> 's host_api \<Rightarrow> bool \<times> 's \<Rightarrow> bool \<times> 's" where
  "reentrancy_unlock keccak H x = (False, host_unlock keccak H (snd x))"

definition reentrancy_clear_if_held :: "(bytes \<Rightarrow> bytes) \<Rightarrow> 's host_api \<Rightarrow> bool \<times> 's \<Rightarrow> bool \<times> 's" where
  "reentrancy_clear_if_held keccak H x =
     (if fst x then (False, host_unlock keccak H (snd x)) else x)"

text \<open>The exits of \<open>PolkaVmHost\<close>, up to the syscall.\<close>

definition polkavm_return_value ::
  "(bytes \<Rightarrow> bytes) \<Rightarrow> 's host_api \<Rightarrow> bytes \<Rightarrow> bool \<times> 's \<Rightarrow> (bool \<times> 's, unit) res" where
  "polkavm_return_value keccak H data x = (Inl (Returned data), reentrancy_clear_if_held keccak H x)"

definition polkavm_revert :: "bytes \<Rightarrow> bool \<times> 's \<Rightarrow> halt \<times> (bool \<times> 's)" where
  "polkavm_revert data x = (Revert data, x)"

definition polkavm_terminate :: "bytes \<Rightarrow> bool \<times> 's \<Rightarrow> halt \<times> (bool \<times> 's)" where
  "polkavm_terminate beneficiary x = (Terminate beneficiary, x)"

section \<open>The error\<close>

definition REENTRANT_CALL_SELECTOR :: "(bytes \<Rightarrow> bytes) \<Rightarrow> bytes" where
  "REENTRANT_CALL_SELECTOR keccak = const_selector keccak (ascii ''ReentrancyGuardReentrantCall()'')"

definition reentrant_call_encode_to :: "(bytes \<Rightarrow> bytes) \<Rightarrow> bytes \<Rightarrow> written" where
  "reentrant_call_encode_to keccak buf =
     map_option (\<lambda>b. (4, b)) (copy_at buf 0 (REENTRANT_CALL_SELECTOR keccak))"

definition reentrant_call_decode_at :: "(bytes \<Rightarrow> bytes) \<Rightarrow> bytes \<Rightarrow> nat \<Rightarrow> unit decoded" where
  "reentrant_call_decode_at keccak input offset =
     (if length input < 4 then None
      else if selector_at (REENTRANT_CALL_SELECTOR keccak) input offset then Some (Some ()) else Some None)"

section \<open>What dispatch calls\<close>

record 's guard_ops =
  g_is_locked :: "'s \<Rightarrow> bool"
  g_lock :: "'s \<Rightarrow> 's"
  g_unlock :: "'s \<Rightarrow> 's"

definition host_guard :: "(bytes \<Rightarrow> bytes) \<Rightarrow> 's host_api \<Rightarrow> 's guard_ops" where
  "host_guard keccak H =
     \<lparr> g_is_locked = reentrancy_is_locked keccak H, g_lock = host_lock keccak H,
       g_unlock = host_unlock keccak H \<rparr>"

definition riscv_guard :: "(bytes \<Rightarrow> bytes) \<Rightarrow> 's host_api \<Rightarrow> (bool \<times> 's) guard_ops" where
  "riscv_guard keccak H =
     \<lparr> g_is_locked = \<lambda>x. reentrancy_is_locked keccak H (snd x), g_lock = reentrancy_lock keccak H,
       g_unlock = reentrancy_unlock keccak H \<rparr>"

locale guard_law =
  fixes G :: "'s guard_ops"
  assumes locked_lock [simp]: "g_is_locked G (g_lock G s)"
    and unlocked_unlock [simp]: "\<not> g_is_locked G (g_unlock G s)"

context host_store
begin

lemma is_locked_lock: "reentrancy_is_locked keccak H (host_lock keccak H s)"
  by (simp add: reentrancy_is_locked_def host_lock_def get_set_same LOCKED_def UNLOCKED_def)

lemma is_locked_unlock: "\<not> reentrancy_is_locked keccak H (host_unlock keccak H s)"
  by (simp add: reentrancy_is_locked_def host_unlock_def get_set_same UNLOCKED_def)

end

interpretation mock_guard: guard_law "host_guard keccak (mock_api k)" for keccak k
  by unfold_locales (simp_all add: host_guard_def mock.is_locked_lock mock.is_locked_unlock)

interpretation mock_riscv_guard: guard_law "riscv_guard keccak (mock_api k)" for keccak k
  by unfold_locales
    (simp_all add: riscv_guard_def reentrancy_lock_def reentrancy_unlock_def mock.is_locked_lock mock.is_locked_unlock)

section \<open>Frames of a contract\<close>

text \<open>
  How a method is guarded: \<open>#[non_reentrant]\<close> on \<open>&mut self\<close>, on \<open>&self\<close>, or not at all. A frame
  keeps the flag of its memory image and the state at its entry, to which the chain rolls back when
  the frame fails.
\<close>

datatype guard_mode = FullGuard | ViewGuard | NoGuard

record 's frame =
  fr_mode :: guard_mode
  fr_held :: bool
  fr_entry :: 's

type_synonym 's config = "'s frame list \<times> 's"

text \<open>
  What can happen to the frames of the contract: it is called (the method's prologue runs, and the
  call is refused when the guard says so), the body of the top frame runs (it may write anything but
  the lock's own transient slot, and other contracts may run inside it), or the top frame ends: the
  body returns and the generated code unlocks and returns its value, the body calls \<open>return_value\<close>
  itself, the frame fails, or it terminates the contract.
\<close>

datatype event = Enter guard_mode | Run | Finish | ReturnValue | Fail | TerminateContract

definition new_frame :: "guard_mode \<Rightarrow> bool \<times> 's \<Rightarrow> 's \<Rightarrow> 's frame" where
  "new_frame m x s = \<lparr> fr_mode = m, fr_held = fst x, fr_entry = s \<rparr>"

inductive frame_step :: "(bytes \<Rightarrow> bytes) \<Rightarrow> 's host_api \<Rightarrow> event \<Rightarrow> 's config \<Rightarrow> 's config \<Rightarrow> bool"
  for keccak :: "bytes \<Rightarrow> bytes" and H :: "'s host_api" where
  enter_full: "\<not> reentrancy_is_locked keccak H s \<Longrightarrow> x = reentrancy_lock keccak H (False, s) \<Longrightarrow>
    frame_step keccak H (Enter FullGuard) (fs, s) (new_frame FullGuard x s # fs, snd x)"
| enter_view: "\<not> reentrancy_is_locked keccak H s \<Longrightarrow>
    frame_step keccak H (Enter ViewGuard) (fs, s) (new_frame ViewGuard (False, s) s # fs, s)"
| enter_refused: "m \<noteq> NoGuard \<Longrightarrow> reentrancy_is_locked keccak H s \<Longrightarrow>
    frame_step keccak H (Enter m) (fs, s) (fs, s)"
| enter_plain: "frame_step keccak H (Enter NoGuard) (fs, s) (new_frame NoGuard (False, s) s # fs, s)"
| run: "api_get_storage_or_zero H Transient (REENTRANCY_KEY keccak) s' =
      api_get_storage_or_zero H Transient (REENTRANCY_KEY keccak) s \<Longrightarrow>
    frame_step keccak H Run (f # fs, s) (f # fs, s')"
| finish_full: "fr_mode f = FullGuard \<Longrightarrow>
      polkavm_return_value keccak H data (reentrancy_unlock keccak H (fr_held f, s)) = (r, h, s') \<Longrightarrow>
    frame_step keccak H Finish (f # fs, s) (fs, s')"
| finish_other: "fr_mode f \<noteq> FullGuard \<Longrightarrow>
      polkavm_return_value keccak H data (fr_held f, s) = (r, h, s') \<Longrightarrow>
    frame_step keccak H Finish (f # fs, s) (fs, s')"
| return_value: "polkavm_return_value keccak H data (fr_held f, s) = (r, h, s') \<Longrightarrow>
    frame_step keccak H ReturnValue (f # fs, s) (fs, s')"
| fail: "frame_step keccak H Fail (f # fs, s) (fs, fr_entry f)"
| terminate: "polkavm_terminate b (fr_held f, s) = (r, h, s') \<Longrightarrow>
    frame_step keccak H TerminateContract (f # fs, s) (fs, s')"

inductive frame_run :: "(bytes \<Rightarrow> bytes) \<Rightarrow> 's host_api \<Rightarrow> event list \<Rightarrow> 's config \<Rightarrow> 's config \<Rightarrow> bool"
  for keccak :: "bytes \<Rightarrow> bytes" and H :: "'s host_api" where
  empty: "frame_run keccak H [] c c"
| more: "frame_run keccak H es c c' \<Longrightarrow> frame_step keccak H e c' c'' \<Longrightarrow> frame_run keccak H (es @ [e]) c c''"

inductive_cases frame_stepE: "frame_step keccak H e c c'"

section \<open>Invariants\<close>

text \<open>
  Relative to a predicate \<open>locked\<close> on states: only full frames hold the flag; while one is on the
  stack the lock is set, also in the entry states of the frames above it; and no guarded frame lies
  above a full one.
\<close>

definition full :: "'s frame list \<Rightarrow> bool" where
  "full fs \<longleftrightarrow> (\<exists>f \<in> set fs. fr_mode f = FullGuard)"

primrec guarded_stack :: "('s \<Rightarrow> bool) \<Rightarrow> 's frame list \<Rightarrow> bool" where
  "guarded_stack locked [] = True"
| "guarded_stack locked (f # fs) =
     (guarded_stack locked fs \<and> fr_held f = (fr_mode f = FullGuard) \<and>
      (full fs \<longrightarrow> locked (fr_entry f) \<and> fr_mode f = NoGuard))"

primrec exact_stack :: "('s \<Rightarrow> bool) \<Rightarrow> 's frame list \<Rightarrow> bool" where
  "exact_stack locked [] = True"
| "exact_stack locked (f # fs) = (exact_stack locked fs \<and> locked (fr_entry f) = full fs)"

lemma full_simps [simp]: "full [] = False" "full (f # fs) = (fr_mode f = FullGuard \<or> full fs)"
  by (auto simp: full_def)

lemma guarded_stack_apart:
  "guarded_stack locked (a @ f # b) \<Longrightarrow> fr_mode f \<noteq> NoGuard \<Longrightarrow> \<not> full b"
  by (induction a) auto

context host_store
begin

lemma exit_unlocks:
  "polkavm_return_value keccak H data (h, s) = (r, h', s') \<Longrightarrow>
   s' = (if h then host_unlock keccak H s else s)"
  by (auto simp: polkavm_return_value_def reentrancy_clear_if_held_def split: if_splits)

lemmas guard_ops_defs = reentrancy_lock_def reentrancy_unlock_def new_frame_def polkavm_terminate_def

lemma run_keeps_lock:
  "api_get_storage_or_zero H Transient (REENTRANCY_KEY keccak) s' =
   api_get_storage_or_zero H Transient (REENTRANCY_KEY keccak) s \<Longrightarrow>
   reentrancy_is_locked keccak H s' = reentrancy_is_locked keccak H s"
  by (simp add: reentrancy_is_locked_def)

lemma step_guarded:
  assumes "frame_step keccak H e c c'"
    and "guarded_stack (reentrancy_is_locked keccak H) (fst c)"
    and "full (fst c) \<longrightarrow> reentrancy_is_locked keccak H (snd c)"
  shows "guarded_stack (reentrancy_is_locked keccak H) (fst c') \<and>
    (full (fst c') \<longrightarrow> reentrancy_is_locked keccak H (snd c'))"
  using assms
  by (cases rule: frame_step.cases)
    (auto simp: guard_ops_defs is_locked_lock dest!: exit_unlocks run_keeps_lock)

lemma step_exact:
  assumes "frame_step keccak H e c c'" "e \<noteq> TerminateContract"
    and "guarded_stack (reentrancy_is_locked keccak H) (fst c)"
    and "exact_stack (reentrancy_is_locked keccak H) (fst c)"
    and "reentrancy_is_locked keccak H (snd c) = full (fst c)"
  shows "exact_stack (reentrancy_is_locked keccak H) (fst c') \<and>
    reentrancy_is_locked keccak H (snd c') = full (fst c')"
  using assms
  by (cases rule: frame_step.cases)
    (auto simp: guard_ops_defs is_locked_lock is_locked_unlock dest!: exit_unlocks run_keeps_lock split: if_splits)

lemma run_guarded:
  assumes "frame_run keccak H es ([], s) c" "\<not> reentrancy_is_locked keccak H s"
  shows "guarded_stack (reentrancy_is_locked keccak H) (fst c) \<and>
    (full (fst c) \<longrightarrow> reentrancy_is_locked keccak H (snd c)) \<and>
    (TerminateContract \<notin> set es \<longrightarrow> exact_stack (reentrancy_is_locked keccak H) (fst c) \<and>
      reentrancy_is_locked keccak H (snd c) = full (fst c))"
  using assms
proof (induction es "([] :: 's frame list, s)" c rule: frame_run.induct)
  case empty
  then show ?case by simp
next
  case (more es c' e c'')
  then show ?case using step_guarded [OF more.hyps(3)] step_exact [OF more.hyps(3)] by auto
qed

end

lemma enter_when_full:
  assumes "frame_step keccak H (Enter m) (fs, s) c" "m \<noteq> NoGuard" "reentrancy_is_locked keccak H s"
  shows "c = (fs, s)"
  using assms by (auto elim: frame_stepE)

text \<open>
  C28: the reentrancy guard. In every execution of a transaction, whatever the bodies do to the rest
  of the state and however frames end: no guarded method, view or not, ever runs above a frame that
  is inside a \<open>#[non_reentrant]\<close> body; a call of a guarded method while such a frame is on the stack
  is refused and changes nothing. And unless a frame terminated the contract, the lock is set
  exactly while such a frame is on the stack, so it never outlives it, also when the body ends by a
  \<open>return_value\<close> of its own or fails.
\<close>

theorem reentrancy_guard_safe:
  assumes "frame_run keccak (mock_api k) es ([], s) (fs, s')" "\<not> reentrancy_is_locked keccak (mock_api k) s"
  shows "(\<forall>a f b. fs = a @ f # b \<longrightarrow> fr_mode f \<noteq> NoGuard \<longrightarrow> \<not> full b) \<and>
    (\<forall>m c. full fs \<longrightarrow> m \<noteq> NoGuard \<longrightarrow> frame_step keccak (mock_api k) (Enter m) (fs, s') c \<longrightarrow> c = (fs, s')) \<and>
    (TerminateContract \<notin> set es \<longrightarrow> reentrancy_is_locked keccak (mock_api k) s' = full fs)"
  using mock.run_guarded [OF assms] guarded_stack_apart enter_when_full by fastforce

lemma mock_unlocked: "\<not> reentrancy_is_locked keccak (mock_api k) mock_new"
  by (simp add: reentrancy_is_locked_def mock_api_def mock_get_storage_or_zero_def mock_new_def UNLOCKED_def)

lemma guarded_run:
  "frame_run keccak H [Enter FullGuard] ([], s)
     ([new_frame FullGuard (reentrancy_lock keccak H (False, s)) s], snd (reentrancy_lock keccak H (False, s)))"
  if "\<not> reentrancy_is_locked keccak H s"
  using frame_run.more [OF frame_run.empty enter_full [OF that refl]] by simp

theorem reentrancy_guard_safe_witness:
  "let keccak = \<lambda>_. [7]; H = mock_api (\<lambda>_. 9); x = reentrancy_lock keccak H (False, mock_new) in
    frame_run keccak H [Enter FullGuard] ([], mock_new) ([new_frame FullGuard x mock_new], snd x) \<and>
    reentrancy_is_locked keccak H (snd x)"
  using reentrancy_guard_safe [OF guarded_run [OF mock_unlocked] mock_unlocked] guarded_run [OF mock_unlocked]
  by (simp add: Let_def new_frame_def)

text \<open>
  A frame that terminates the contract inside a guarded body does leave the lock set: \<open>terminate\<close>
  does not go through \<open>return_value\<close>.
\<close>

lemma terminate_leaves_lock:
  assumes "\<not> reentrancy_is_locked keccak (mock_api k) s"
  shows "\<exists>s'. frame_run keccak (mock_api k) [Enter FullGuard, TerminateContract] ([], s) ([], s') \<and>
    reentrancy_is_locked keccak (mock_api k) s'"
proof -
  let ?H = "mock_api k" and ?x = "reentrancy_lock keccak (mock_api k) (False, s)"
  have "frame_step keccak ?H TerminateContract ([new_frame FullGuard ?x s], snd ?x) ([], snd ?x)"
    by (rule frame_step.terminate) (simp add: polkavm_terminate_def)
  from frame_run.more [OF guarded_run [OF assms] this] show ?thesis
    by (auto simp: reentrancy_lock_def mock.is_locked_lock)
qed

text \<open>The error round-trips.\<close>

lemma reentrant_call_round_trip:
  "4 \<le> length buf \<Longrightarrow> \<exists>b. reentrant_call_encode_to keccak buf = Some (4, b) \<and>
    reentrant_call_decode_at keccak b 0 = Some (Some ())"
  by (simp add: reentrant_call_encode_to_def reentrant_call_decode_at_def copy_at_0 selector_at_prefix
      REENTRANT_CALL_SELECTOR_def)

end
