(* ===== verification/Dispatch.thy ===== *)
theory Dispatch
  imports Reentrancy
begin

text \<open>
  The code the \<open>#[contract]\<close> macro generates for a contract module (\<open>codegen/dispatch.rs\<close>,
  \<open>codegen/decode.rs\<close>, \<open>codegen/contract.rs\<close>): parameter decoding, the dispatch arm of a method
  with its payable, size and reentrancy guards, \<open>route\<close>, and the entry points \<open>call\<close> and
  \<open>deploy\<close> in the builds with and without an allocator. A method is its Solidity name, its
  parameter and return types, its attributes and its body, a function over the host state; a body
  that cannot fail never yields an error.
\<close>

section \<open>Methods\<close>

datatype state_mutability = Pure | View | NonPayable | Payable

text \<open>A value of a \<open>SolError\<close> type: \<open>encoded_size()\<close> and \<open>encode_to\<close>.\<close>

record sol_error =
  encoded_size :: nat
  error_encode_to :: "bytes \<Rightarrow> written"

text \<open>
  A parameter type comes with \<open>has_custom_types\<close>, which the macro reads off its syntax: a derived
  struct occurs in it (its dictionary is that of the tuple of its fields).
\<close>

record 's method_info =
  sol_method_name :: bytes
  param_types :: "(bool \<times> sol_ty) list"
  return_types :: "sol_ty list"
  mutability :: state_mutability
  is_non_reentrant :: bool
  invoke :: "sol_val list \<Rightarrow> 's \<Rightarrow> ('s, sol_error + sol_val) res"

text \<open>\<open>concatcp!\<close> of the name, the types' \<open>SOL_NAME\<close>s separated by commas, and the parentheses.\<close>

definition build_method_signature_expr :: "bytes \<Rightarrow> sol_ty list \<Rightarrow> bytes option" where
  "build_method_signature_expr sol_name' types =
     map_option (\<lambda>names. sol_name' @ ascii ''('' @ comma_sep names @ ascii '')'')
       (all_some (map sol_name types))"

definition build_selector_const :: "(bytes \<Rightarrow> bytes) \<Rightarrow> 's method_info \<Rightarrow> bytes option" where
  "build_selector_const keccak m =
     map_option (const_selector keccak) (build_method_signature_expr (sol_method_name m) (map snd (param_types m)))"

section \<open>Parameters\<close>

text \<open>\<open>SolType::is_dynamic\<close> of a type without custom types.\<close>

primrec sol_type_is_dynamic :: "sol_ty \<Rightarrow> bool" where
  "sol_type_is_dynamic (TPrim p) = False"
| "sol_type_is_dynamic TUnit = False"
| "sol_type_is_dynamic TStr = True"
| "sol_type_is_dynamic TString = True"
| "sol_type_is_dynamic TBytes = True"
| "sol_type_is_dynamic (TArr t n) = sol_type_is_dynamic t"
| "sol_type_is_dynamic (TVec t) = True"
| "sol_type_is_dynamic (TTuple ts) = list_ex id (map sol_type_is_dynamic ts)"

text \<open>
  The decode statement of one parameter at \<open>__decode_offset\<close>, and their sequence. An out-of-range
  unchecked read is undefined behaviour, a trap here.
\<close>

definition decode_param ::
  "(bytes \<Rightarrow> bytes) \<Rightarrow> 's host_api \<Rightarrow> bool \<Rightarrow> sol_ty \<Rightarrow> bytes \<Rightarrow> nat \<Rightarrow> 's \<Rightarrow> ('s, sol_val) res" where
  "decode_param keccak H custom t input decode_offset s =
     (let is_dynamic = custom \<or> sol_type_is_dynamic t in
      if \<not> is_dynamic then
        (case decode_unchecked (codec_of t) input decode_offset of
           Some v \<Rightarrow> (Inr v, s) | None \<Rightarrow> (Inl Trap, s))
      else
        (case decode_at (codec_of t) input decode_offset of
           Some v \<Rightarrow> (Inr v, s) | None \<Rightarrow> hrevert H (INVALID_CALLDATA keccak) s))"

fun decode_params ::
  "(bytes \<Rightarrow> bytes) \<Rightarrow> 's host_api \<Rightarrow> (bool \<times> sol_ty) list \<Rightarrow> bytes \<Rightarrow> nat \<Rightarrow> 's \<Rightarrow> ('s, sol_val list) res" where
  "decode_params keccak H [] input decode_offset s = (Inr [], s)"
| "decode_params keccak H ((custom, t) # ps) input decode_offset s =
     hbind (decode_param keccak H custom t input decode_offset s) (\<lambda>v s.
     hbind (decode_params keccak H ps input (wadd decode_offset (SLOT_SIZE (codec_of t))) s) (\<lambda>vs s.
     (Inr (v # vs), s)))"

definition calculate_min_input_size :: "(bool \<times> sol_ty) list \<Rightarrow> nat" where
  "calculate_min_input_size types = sum_list (map (\<lambda>(custom, t). SLOT_SIZE (codec_of t)) types)"

definition size_check :: "(bytes \<Rightarrow> bytes) \<Rightarrow> 's host_api \<Rightarrow> (bool \<times> sol_ty) list \<Rightarrow> bytes \<Rightarrow> 's \<Rightarrow> ('s, unit) res" where
  "size_check keccak H types input s =
     (if types \<noteq> [] \<and> length input < calculate_min_input_size types
      then hrevert H (INVALID_CALLDATA keccak) s else (Inr (), s))"

section \<open>Results and errors\<close>

definition return_codec :: "sol_ty list \<Rightarrow> sol_codec" where
  "return_codec outputs =
     (if length outputs = 1 then codec_of (hd outputs) else codec_of (TTuple outputs))"

text \<open>Encode into the reserved bytes; a panic of the sink or the encoder traps.\<close>

definition put_encoded :: "'b out_sink \<Rightarrow> 'b \<Rightarrow> nat \<Rightarrow> (bytes \<Rightarrow> written) \<Rightarrow> 's \<Rightarrow> ('s, nat \<times> 'b) res" where
  "put_encoded B out len f s =
     (case reserve B out len of
        None \<Rightarrow> (Inl Trap, s)
      | Some (buf, put) \<Rightarrow>
          (case f buf of None \<Rightarrow> (Inl Trap, s) | Some (n, d) \<Rightarrow> (Inr (n, put d), s)))"

definition encode_and_return ::
  "bool \<Rightarrow> 'b out_sink \<Rightarrow> sol_ty list \<Rightarrow> sol_val \<Rightarrow> 'b \<Rightarrow> 's \<Rightarrow> ('s, outcome \<times> 'b) res" where
  "encode_and_return use_alloc B outputs v out s =
     (if outputs = [] then (Inr (Return 0, out), s)
      else (let c = return_codec outputs; len = (if use_alloc then encode_len c v else ENCODED_SIZE c) in
        hbind (put_encoded B out len (\<lambda>buf. map_option (\<lambda>d. (len, d)) (encode_to c v buf)) s) (\<lambda>(n, out) s.
        (Inr (Return n, out), s))))"

definition revert_cap :: "bool \<Rightarrow> sol_error \<Rightarrow> nat" where
  "revert_cap use_alloc e = (if use_alloc then encoded_size e else 256)"

text \<open>\<open>RevertBuf::Out\<close> and \<open>RevertBuf::Local\<close>.\<close>

definition revert_out :: "'s host_api \<Rightarrow> bool \<Rightarrow> 'b out_sink \<Rightarrow> sol_error \<Rightarrow> 'b \<Rightarrow> 's \<Rightarrow> ('s, 'a) res" where
  "revert_out H use_alloc B e out s =
     hbind (put_encoded B out (revert_cap use_alloc e) (error_encode_to e) s) (\<lambda>(n, out) s.
     case view B out n of None \<Rightarrow> (Inl Trap, s) | Some d \<Rightarrow> hrevert H d s)"

definition revert_local :: "'s host_api \<Rightarrow> bool \<Rightarrow> sol_error \<Rightarrow> 's \<Rightarrow> ('s, 'a) res" where
  "revert_local H use_alloc e s =
     (case error_encode_to e (replicate (revert_cap use_alloc e) 0) of
        None \<Rightarrow> (Inl Trap, s)
      | Some (n, buf) \<Rightarrow> if n \<le> length buf then hrevert H (take n buf) s else (Inl Trap, s))"

section \<open>A dispatch arm\<close>

definition pvm_assert_value_zero :: "(bytes \<Rightarrow> bytes) \<Rightarrow> 's host_api \<Rightarrow> bool \<Rightarrow> 's \<Rightarrow> ('s, unit) res" where
  "pvm_assert_value_zero keccak H has_value s =
     (if has_value then hrevert H (NON_PAYABLE_VALUE_RECEIVED keccak) s else (Inr (), s))"

definition pvm_assert_non_payable :: "(bytes \<Rightarrow> bytes) \<Rightarrow> 's host_api \<Rightarrow> 's \<Rightarrow> ('s, unit) res" where
  "pvm_assert_non_payable keccak H s =
     pvm_assert_value_zero keccak H (value_transferred_is_nonzero H s) s"

definition revert_if_locked :: "(bytes \<Rightarrow> bytes) \<Rightarrow> 's host_api \<Rightarrow> 's guard_ops \<Rightarrow> 's \<Rightarrow> ('s, unit) res" where
  "revert_if_locked keccak H G s =
     (if g_is_locked G s then hrevert H (REENTRANT_CALL_SELECTOR keccak) s else (Inr (), s))"

definition guard_mode_of :: "'s method_info \<Rightarrow> guard_mode" where
  "guard_mode_of m =
     (if is_non_reentrant m then
        (case mutability m of View \<Rightarrow> ViewGuard | NonPayable \<Rightarrow> FullGuard | Payable \<Rightarrow> FullGuard | Pure \<Rightarrow> NoGuard)
      else NoGuard)"

definition arm_result ::
  "'s host_api \<Rightarrow> bool \<Rightarrow> 'b out_sink \<Rightarrow> 's method_info \<Rightarrow> sol_error + sol_val \<Rightarrow> 'b \<Rightarrow> 's \<Rightarrow> ('s, outcome \<times> 'b) res" where
  "arm_result H use_alloc B m r out s =
     (case r of
        Inr result \<Rightarrow> encode_and_return use_alloc B (return_types m) result out s
      | Inl e \<Rightarrow> revert_out H use_alloc B e out s)"

definition arm_body ::
  "(bytes \<Rightarrow> bytes) \<Rightarrow> 's host_api \<Rightarrow> 's guard_ops \<Rightarrow> bool \<Rightarrow> 'b out_sink \<Rightarrow> 's method_info \<Rightarrow> sol_val list \<Rightarrow> 'b \<Rightarrow> 's \<Rightarrow>
   ('s, outcome \<times> 'b) res" where
  "arm_body keccak H G use_alloc B m args out s =
     (case guard_mode_of m of
        NoGuard \<Rightarrow> hbind (invoke m args s) (\<lambda>r. arm_result H use_alloc B m r out)
      | ViewGuard \<Rightarrow> hbind (revert_if_locked keccak H G s) (\<lambda>_ s.
          hbind (invoke m args s) (\<lambda>r. arm_result H use_alloc B m r out))
      | FullGuard \<Rightarrow> hbind (revert_if_locked keccak H G s) (\<lambda>_ s.
          hbind (invoke m args (g_lock G s)) (\<lambda>r s.
          arm_result H use_alloc B m r out (g_unlock G s))))"

definition dispatch_arm ::
  "(bytes \<Rightarrow> bytes) \<Rightarrow> 's host_api \<Rightarrow> 's guard_ops \<Rightarrow> bool \<Rightarrow> 'b out_sink \<Rightarrow> bool \<Rightarrow> bool \<Rightarrow> 's method_info \<Rightarrow>
   bytes \<Rightarrow> 'b \<Rightarrow> 's \<Rightarrow> ('s, outcome \<times> 'b) res" where
  "dispatch_arm keccak H G use_alloc B guard_hoisted has_value m input out s =
     hbind (if guard_hoisted \<or> mutability m = Payable then (Inr (), s)
            else pvm_assert_value_zero keccak H has_value s) (\<lambda>_ s.
     hbind (size_check keccak H (param_types m) input s) (\<lambda>_ s.
     hbind (decode_params keccak H (param_types m) input 0 s) (\<lambda>args s.
     arm_body keccak H G use_alloc B m args out s)))"

section \<open>The router\<close>

definition all_non_payable :: "bool \<Rightarrow> 's method_info list \<Rightarrow> bool" where
  "all_non_payable fallback_is_payable methods =
     (\<not> fallback_is_payable \<and> methods \<noteq> [] \<and> list_all (\<lambda>m. mutability m \<noteq> Payable) methods)"

text \<open>\<open>match selector\<close>: the first arm whose constant is the selector.\<close>

definition route ::
  "(bytes \<Rightarrow> bytes) \<Rightarrow> 's host_api \<Rightarrow> 's guard_ops \<Rightarrow> bool \<Rightarrow> 'b out_sink \<Rightarrow> bool \<Rightarrow> 's method_info list \<Rightarrow>
   bytes \<Rightarrow> bytes \<Rightarrow> 'b \<Rightarrow> 's \<Rightarrow> ('s, outcome \<times> 'b) res" where
  "route keccak H G use_alloc B fallback_is_payable methods selector input out s =
     (let hoisted = all_non_payable fallback_is_payable methods in
      hbind (if hoisted then pvm_assert_non_payable keccak H s else (Inr (), s)) (\<lambda>_ s.
      let has_value = value_transferred_is_nonzero H s in
      case find (\<lambda>m. build_selector_const keccak m = Some selector) methods of
        Some m \<Rightarrow> dispatch_arm keccak H G use_alloc B hoisted has_value m input out s
      | None \<Rightarrow> (Inr (Unhandled, out), s)))"

definition max_return_len :: "bool \<Rightarrow> 's method_info list \<Rightarrow> nat" where
  "max_return_len use_alloc methods =
     fold (\<lambda>m acc. let sz = (let c = return_codec (return_types m) in if use_alloc then HEAD_SIZE c else ENCODED_SIZE c) in
           if sz > acc then sz else acc)
       (filter (\<lambda>m. return_types m \<noteq> []) methods) (if use_alloc then 0 else 256)"

section \<open>The entry points\<close>

text \<open>\<open>#[fallback]\<close>, \<open>#[receive]\<close> and \<open>#[constructor]\<close>; \<open>buffer_size\<close> is used without an allocator.\<close>

record 's contract =
  methods :: "'s method_info list"
  fallback :: "(bool \<times> ('s \<Rightarrow> ('s, sol_error + unit) res)) option"
  receive :: "('s \<Rightarrow> ('s, sol_error + unit) res) option"
  constructor_inputs :: "(bool \<times> sol_ty) list"
  constructor_is_payable :: bool
  constructor :: "(sol_val list \<Rightarrow> 's \<Rightarrow> ('s, sol_error + unit) res) option"
  buffer_size :: nat

definition unit_result :: "'s host_api \<Rightarrow> bool \<Rightarrow> ('s, sol_error + unit) res \<Rightarrow> ('s, unit) res" where
  "unit_result H use_alloc r =
     hbind r (\<lambda>r s. case r of Inr _ \<Rightarrow> (Inr (), s) | Inl e \<Rightarrow> revert_local H use_alloc e s)"

definition no_match_handler ::
  "(bytes \<Rightarrow> bytes) \<Rightarrow> 's host_api \<Rightarrow> bool \<Rightarrow> 's contract \<Rightarrow> bytes \<Rightarrow> 's \<Rightarrow> ('s, unit) res" where
  "no_match_handler keccak H use_alloc C default_error s =
     (case fallback C of
        Some (is_payable, body) \<Rightarrow>
          hbind (if is_payable then (Inr (), s) else pvm_assert_non_payable keccak H s) (\<lambda>_ s.
          unit_result H use_alloc (body s))
      | None \<Rightarrow> hrevert H default_error s)"

definition receive_or_no_selector ::
  "(bytes \<Rightarrow> bytes) \<Rightarrow> 's host_api \<Rightarrow> bool \<Rightarrow> 's contract \<Rightarrow> nat \<Rightarrow> 's \<Rightarrow> ('s, unit) res" where
  "receive_or_no_selector keccak H use_alloc C call_data_len s =
     (case (if call_data_len = 0 then receive C else None) of
        Some body \<Rightarrow> unit_result H use_alloc (body s)
      | None \<Rightarrow> no_match_handler keccak H use_alloc C (NO_SELECTOR keccak) s)"

definition route_and_finalize ::
  "(bytes \<Rightarrow> bytes) \<Rightarrow> 's host_api \<Rightarrow> 's guard_ops \<Rightarrow> bool \<Rightarrow> 'b out_sink \<Rightarrow> 's contract \<Rightarrow> bytes \<Rightarrow> bytes \<Rightarrow> 'b \<Rightarrow> 's \<Rightarrow>
   ('s, unit) res" where
  "route_and_finalize keccak H G use_alloc B C selector input out s =
     hbind (route keccak H G use_alloc B (case fallback C of Some (p, _) \<Rightarrow> p | None \<Rightarrow> False) (methods C)
       selector input out s) (\<lambda>(outcome, out) s.
     case outcome of
       Unhandled \<Rightarrow> no_match_handler keccak H use_alloc C (UNKNOWN_SELECTOR keccak) s
     | _ \<Rightarrow> finalize_outcome H outcome B out s)"

definition call_alloc :: "(bytes \<Rightarrow> bytes) \<Rightarrow> 's host_api \<Rightarrow> 's guard_ops \<Rightarrow> 's contract \<Rightarrow> 's \<Rightarrow> ('s, unit) res" where
  "call_alloc keccak H G C s =
     (let call_data_len = unat (api_call_data_size H s);
          call_data = api_call_data_copy H call_data_len 0 s in
      if call_data_len < 4 then receive_or_no_selector keccak H True C call_data_len s
      else route_and_finalize keccak H G True out_buf_sink C (take 4 call_data) (drop 4 call_data)
             \<lparr> ob_stack = replicate (max_return_len True (methods C)) 0, ob_spill = [] \<rparr> s)"

definition call_no_alloc :: "(bytes \<Rightarrow> bytes) \<Rightarrow> 's host_api \<Rightarrow> 's guard_ops \<Rightarrow> 's contract \<Rightarrow> 's \<Rightarrow> ('s, unit) res" where
  "call_no_alloc keccak H G C s =
     (let call_data_len = unat (api_call_data_size H s) in
      if call_data_len > buffer_size C then hrevert H (CALLDATA_TOO_LARGE keccak) s
      else (let call_data = api_call_data_copy H call_data_len 0 s @ replicate (buffer_size C - call_data_len) 0 in
        if call_data_len < 4 then receive_or_no_selector keccak H False C call_data_len s
        else route_and_finalize keccak H G False slice_sink C (take 4 call_data)
               (take (call_data_len - 4) (drop 4 call_data)) (replicate (max_return_len False (methods C)) 0) s))"

definition deploy :: "(bytes \<Rightarrow> bytes) \<Rightarrow> 's host_api \<Rightarrow> bool \<Rightarrow> 's contract \<Rightarrow> 's \<Rightarrow> ('s, unit) res" where
  "deploy keccak H use_alloc C s =
     (case constructor C of
        None \<Rightarrow> pvm_assert_non_payable keccak H s
      | Some body \<Rightarrow>
          hbind (if constructor_is_payable C then (Inr (), s) else pvm_assert_non_payable keccak H s) (\<lambda>_ s.
          if constructor_inputs C = [] then unit_result H use_alloc (body [] s)
          else (let call_data_len = unat (api_call_data_size H s) in
            if \<not> use_alloc \<and> call_data_len > buffer_size C then hrevert H (CALLDATA_TOO_LARGE keccak) s
            else (let input = api_call_data_copy H call_data_len 0 s in
              hbind (size_check keccak H (constructor_inputs C) input s) (\<lambda>_ s.
              hbind (decode_params keccak H (constructor_inputs C) input 0 s) (\<lambda>args s.
              unit_result H use_alloc (body args s)))))))"

end
