(* ===== verification/DispatchSpec.thy ===== *)
theory DispatchSpec
  imports Dispatch
begin

text \<open>
  The contract of the generated entry points: what a call does, given only the ABI meaning of its
  calldata (\<open>contract_spec\<close>, \<open>deploy_spec\<close>), and that the generated code does that, for every
  calldata, in both builds. Arguments are decoded by the tuple decoder of the parameter types, for
  all parameter types but dynamic tuples, derived structs with dynamic fields, and fixed arrays with
  dynamic elements, on which the generated code reads the wrong place.
\<close>

section \<open>Parameters\<close>

text \<open>The types whose \<open>decode_at\<close> follows the offset in the head, or that have no offset.\<close>

fun param_ok :: "sol_ty \<Rightarrow> bool" where
  "param_ok TString = True"
| "param_ok TBytes = True"
| "param_ok (TVec t) = True"
| "param_ok t = (\<not> abi_dynamic t)"

lemma sol_type_is_dynamic: "sol_type_is_dynamic t = abi_dynamic t"
  by (induction t) (auto simp: list_ex_iff)

lemma read_word_offset_bound: "read_word_offset input ho = Some n \<Longrightarrow> n < usize_limit"
proof -
  have "unat x < usize_limit" for x :: "64 word"
    using unsigned_less [of x] by (simp add: usize_limit_def)
  then show "read_word_offset input ho = Some n \<Longrightarrow> n < usize_limit"
    by (auto simp: read_word_offset_def bind_eq_Some_conv)
qed

text \<open>One component as the tuple decoder reads it, from a tuple at the start of the input.\<close>

definition tuple_component :: "sol_codec \<Rightarrow> bytes \<Rightarrow> nat \<Rightarrow> sol_val option" where
  "tuple_component c input ho =
     (if IS_DYNAMIC c then
        Option.bind (read_word_offset input ho) (\<lambda>fo.
        Option.bind (checked_sum [0, fo]) (decode_tail c input))
      else decode_at c input ho)"

lemma dynamic_param_component:
  assumes "param_ok t" "abi_dynamic t"
  shows "decode_at (codec_of t) input ho = tuple_component (codec_of t) input ho"
proof -
  have fo: "tuple_component c input ho = Option.bind (read_word_offset input ho) (decode_tail c input)"
    if "IS_DYNAMIC c" for c
    using that read_word_offset_bound [of input ho]
    by (cases "read_word_offset input ho") (auto simp: tuple_component_def)
  show ?thesis
    using assms
    by (cases t) (simp_all add: fo impl_string_def impl_bytes_def impl_vec_def
        string_decode_at_def bytes_decode_at_def vec_decode_at_def map_option_bind o_def)
qed

lemma static_param_component:
  assumes "sol_wf t" "\<not> abi_dynamic t" "ho + SLOT_SIZE (codec_of t) \<le> length input" "length input + 32 < usize_limit"
  shows "\<exists>v. decode_unchecked (codec_of t) input ho = Some v \<and> decode_at (codec_of t) input ho = Some v \<and>
    tuple_component (codec_of t) input ho = Some v"
proof -
  have "unchecked_safe (codec_of t)" by (rule unchecked_codec) (use assms in auto)
  then show ?thesis
    using assms(3,4) by (auto simp: unchecked_safe_def SLOT_SIZE_def tuple_component_def)
qed

lemma tuple_decode_fields_Cons:
  "tuple_decode_fields (c # cs) input 0 ho =
   Option.bind (tuple_component c input ho) (\<lambda>val.
   Option.bind (checked_sum [ho, SLOT_SIZE c]) (\<lambda>ho.
   map_option (\<lambda>vs. val # vs) (tuple_decode_fields cs input 0 ho)))"
  by (simp add: tuple_component_def)

definition params_ok :: "(bool \<times> sol_ty) list \<Rightarrow> bool" where
  "params_ok ps \<longleftrightarrow> list_all (\<lambda>(custom, t). sol_wf t \<and> param_ok t) ps"

lemma decode_params_tuple:
  assumes "params_ok ps" "ho + calculate_min_input_size ps \<le> length input" "length input + 32 < usize_limit"
  shows "decode_params keccak H ps input ho s =
    (case tuple_decode_fields (map (codec_of \<circ> snd) ps) input 0 ho of
       Some vs \<Rightarrow> (Inr vs, s)
     | None \<Rightarrow> hrevert H (INVALID_CALLDATA keccak) s)"
  using assms(1,2)
proof (induction ps arbitrary: ho)
  case (Cons p ps)
  obtain custom t where p: "p = (custom, t)" by (cases p)
  let ?c = "codec_of t"
  have t: "sol_wf t" "param_ok t" "params_ok ps"
    using Cons.prems(1) by (auto simp: p params_ok_def)
  have size: "ho + SLOT_SIZE ?c + calculate_min_input_size ps \<le> length input"
    using Cons.prems(2) by (simp add: p calculate_min_input_size_def)
  then have room: "ho + SLOT_SIZE ?c < usize_limit" using assms(3) by linarith
  have head: "decode_param keccak H custom t input ho s =
      (case tuple_component ?c input ho of Some v \<Rightarrow> (Inr v, s)
        | None \<Rightarrow> hrevert H (INVALID_CALLDATA keccak) s)"
  proof (cases "abi_dynamic t")
    case True
    then show ?thesis
      using dynamic_param_component [OF t(2) True] by (simp add: decode_param_def sol_type_is_dynamic)
  next
    case False
    then show ?thesis
      using static_param_component [OF t(1) False, of ho input] size assms(3)
      by (auto simp: decode_param_def sol_type_is_dynamic)
  qed
  have "decode_params keccak H ps input (ho + SLOT_SIZE ?c) s =
    (case tuple_decode_fields (map (codec_of \<circ> snd) ps) input 0 (ho + SLOT_SIZE ?c) of
       Some vs \<Rightarrow> (Inr vs, s) | None \<Rightarrow> hrevert H (INVALID_CALLDATA keccak) s)"
    by (rule Cons.IH) (use t size in simp_all)
  then show ?case
    using room
    by (cases "tuple_component ?c input ho"; cases "tuple_decode_fields (map (codec_of \<circ> snd) ps) input 0 (ho + SLOT_SIZE ?c)")
      (simp_all add: p head tuple_decode_fields_Cons hrevert_bind o_def del: tuple_decode_fields.simps)
qed simp

section \<open>The contract of the entry points\<close>

definition return_type :: "sol_ty list \<Rightarrow> sol_ty" where
  "return_type outputs = (if length outputs = 1 then hd outputs else TTuple outputs)"

text \<open>The arguments of a call: the components of the tuple of the parameter types.\<close>

definition decode_args :: "sol_ty list \<Rightarrow> bytes \<Rightarrow> sol_val list option" where
  "decode_args ts input =
     (if ts = [] then Some [] else map_option val_seq (decode (codec_of (TTuple ts)) input))"

definition error_data :: "bool \<Rightarrow> sol_error \<Rightarrow> bytes" where
  "error_data use_alloc e =
     (case error_encode_to e (replicate (revert_cap use_alloc e) 0) of
        Some (n, d) \<Rightarrow> take n d | None \<Rightarrow> [])"

definition result_spec :: "'s host_api \<Rightarrow> bool \<Rightarrow> sol_ty list \<Rightarrow> sol_error + sol_val \<Rightarrow> 's \<Rightarrow> ('s, unit) res" where
  "result_spec H use_alloc outputs r s =
     (case r of
        Inr v \<Rightarrow> api_return_value H (if outputs = [] then [] else abi_enc_top (return_type outputs) v) s
      | Inl e \<Rightarrow> hrevert H (error_data use_alloc e) s)"

definition unit_spec :: "'s host_api \<Rightarrow> bool \<Rightarrow> ('s, sol_error + unit) res \<Rightarrow> ('s, unit) res" where
  "unit_spec H use_alloc r =
     hbind r (\<lambda>r s. case r of Inr _ \<Rightarrow> (Inr (), s) | Inl e \<Rightarrow> hrevert H (error_data use_alloc e) s)"

text \<open>A guarded body runs between taking and releasing the lock, unless the lock is taken.\<close>

definition guarded_spec ::
  "(bytes \<Rightarrow> bytes) \<Rightarrow> 's host_api \<Rightarrow> 's guard_ops \<Rightarrow> bool \<Rightarrow> 's method_info \<Rightarrow> sol_val list \<Rightarrow> 's \<Rightarrow> ('s, unit) res" where
  "guarded_spec keccak H G use_alloc m args s =
     (if guard_mode_of m \<noteq> NoGuard \<and> g_is_locked G s then hrevert H (REENTRANT_CALL_SELECTOR keccak) s
      else let locks = (guard_mode_of m = FullGuard) in
        hbind (invoke m args (if locks then g_lock G s else s)) (\<lambda>r s.
        result_spec H use_alloc (return_types m) r (if locks then g_unlock G s else s)))"

definition method_spec ::
  "(bytes \<Rightarrow> bytes) \<Rightarrow> 's host_api \<Rightarrow> 's guard_ops \<Rightarrow> bool \<Rightarrow> 's method_info \<Rightarrow> bytes \<Rightarrow> 's \<Rightarrow> ('s, unit) res" where
  "method_spec keccak H G use_alloc m input s =
     (if mutability m \<noteq> Payable \<and> value_transferred_is_nonzero H s then hrevert H (NON_PAYABLE_VALUE_RECEIVED keccak) s
      else if length input < calculate_min_input_size (param_types m) then hrevert H (INVALID_CALLDATA keccak) s
      else case decode_args (map snd (param_types m)) input of
        None \<Rightarrow> hrevert H (INVALID_CALLDATA keccak) s
      | Some args \<Rightarrow> guarded_spec keccak H G use_alloc m args s)"

definition no_match_spec :: "(bytes \<Rightarrow> bytes) \<Rightarrow> 's host_api \<Rightarrow> bool \<Rightarrow> 's contract \<Rightarrow> bytes \<Rightarrow> 's \<Rightarrow> ('s, unit) res" where
  "no_match_spec keccak H use_alloc C default_error s =
     (case fallback C of
        Some (is_payable, body) \<Rightarrow>
          if \<not> is_payable \<and> value_transferred_is_nonzero H s then hrevert H (NON_PAYABLE_VALUE_RECEIVED keccak) s
          else unit_spec H use_alloc (body s)
      | None \<Rightarrow> hrevert H default_error s)"

definition payable_fallback :: "'s contract \<Rightarrow> bool" where
  "payable_fallback C = (case fallback C of Some (p, _) \<Rightarrow> p | None \<Rightarrow> False)"

definition contract_spec ::
  "(bytes \<Rightarrow> bytes) \<Rightarrow> 's host_api \<Rightarrow> 's guard_ops \<Rightarrow> bool \<Rightarrow> 's contract \<Rightarrow> bytes \<Rightarrow> 's \<Rightarrow> ('s, unit) res" where
  "contract_spec keccak H G use_alloc C data s =
     (if \<not> use_alloc \<and> length data > buffer_size C then hrevert H (CALLDATA_TOO_LARGE keccak) s
      else if length data < 4 then
        (case (if data = [] then receive C else None) of
           Some body \<Rightarrow> unit_spec H use_alloc (body s)
         | None \<Rightarrow> no_match_spec keccak H use_alloc C (NO_SELECTOR keccak) s)
      else if all_non_payable (payable_fallback C) (methods C) \<and> value_transferred_is_nonzero H s
      then hrevert H (NON_PAYABLE_VALUE_RECEIVED keccak) s
      else case find (\<lambda>m. build_selector_const keccak m = Some (take 4 data)) (methods C) of
        Some m \<Rightarrow> method_spec keccak H G use_alloc m (drop 4 data) s
      | None \<Rightarrow> no_match_spec keccak H use_alloc C (UNKNOWN_SELECTOR keccak) s)"

definition deploy_spec :: "(bytes \<Rightarrow> bytes) \<Rightarrow> 's host_api \<Rightarrow> bool \<Rightarrow> 's contract \<Rightarrow> bytes \<Rightarrow> 's \<Rightarrow> ('s, unit) res" where
  "deploy_spec keccak H use_alloc C data s =
     (if \<not> (constructor C \<noteq> None \<and> constructor_is_payable C) \<and> value_transferred_is_nonzero H s
      then hrevert H (NON_PAYABLE_VALUE_RECEIVED keccak) s
      else case constructor C of None \<Rightarrow> (Inr (), s)
      | Some body \<Rightarrow>
          if constructor_inputs C = [] then unit_spec H use_alloc (body [] s)
          else if \<not> use_alloc \<and> length data > buffer_size C then hrevert H (CALLDATA_TOO_LARGE keccak) s
          else if length data < calculate_min_input_size (constructor_inputs C)
          then hrevert H (INVALID_CALLDATA keccak) s
          else case decode_args (map snd (constructor_inputs C)) data of
            None \<Rightarrow> hrevert H (INVALID_CALLDATA keccak) s
          | Some args \<Rightarrow> unit_spec H use_alloc (body args s))"

text \<open>
  What is asked of the user's code, by its types: on arguments of the parameter types, results are values of the return type (static
  without an allocator), and an error encodes itself into \<open>encoded_size()\<close> bytes exactly with an
  allocator, into at most 256 without.
\<close>

definition error_ok :: "bool \<Rightarrow> sol_error \<Rightarrow> bool" where
  "error_ok use_alloc e \<longleftrightarrow>
     (\<exists>n d. error_encode_to e (replicate (revert_cap use_alloc e) 0) = Some (n, d) \<and>
        length d = revert_cap use_alloc e \<and> n \<le> revert_cap use_alloc e \<and>
        (use_alloc \<longrightarrow> n = revert_cap use_alloc e))"

definition value_ok :: "bool \<Rightarrow> sol_ty list \<Rightarrow> sol_val \<Rightarrow> bool" where
  "value_ok use_alloc outputs v \<longleftrightarrow>
     outputs = [] \<or>
     sol_wf (return_type outputs) \<and> sol_wt (return_type outputs) v \<and>
     length (abi_enc_top (return_type outputs) v) < usize_limit \<and>
     (\<not> use_alloc \<longrightarrow> \<not> abi_dynamic (return_type outputs))"

definition method_ok :: "bool \<Rightarrow> 's method_info \<Rightarrow> bool" where
  "method_ok use_alloc m \<longleftrightarrow> params_ok (param_types m) \<and>
     (\<forall>args s r s'. sol_wt (TTuple (map snd (param_types m))) (VSeq args) \<longrightarrow>
        invoke m args s = (Inr r, s') \<longrightarrow>
        (case r of Inl e \<Rightarrow> error_ok use_alloc e | Inr v \<Rightarrow> value_ok use_alloc (return_types m) v))"

text \<open>The same of the bodies without a result, and of a contract.\<close>

definition body_ok :: "bool \<Rightarrow> ('s \<Rightarrow> ('s, sol_error + unit) res) \<Rightarrow> bool" where
  "body_ok use_alloc body \<longleftrightarrow> (\<forall>s e s'. body s = (Inr (Inl e), s') \<longrightarrow> error_ok use_alloc e)"

definition contract_ok :: "bool \<Rightarrow> 's contract \<Rightarrow> bool" where
  "contract_ok use_alloc C \<longleftrightarrow>
     list_all (method_ok use_alloc) (methods C) \<and> params_ok (constructor_inputs C) \<and>
     pred_option (\<lambda>(_, body). body_ok use_alloc body) (fallback C) \<and> pred_option (body_ok use_alloc) (receive C) \<and>
     pred_option (\<lambda>body. \<forall>args. sol_wt (TTuple (map snd (constructor_inputs C))) (VSeq args) \<longrightarrow>
       body_ok use_alloc (body args)) (constructor C)"

section \<open>Results\<close>

lemma return_codec_is: "return_codec outputs = codec_of (return_type outputs)"
  by (simp add: return_codec_def return_type_def)

lemma static_encoded_size:
  assumes "sol_wf t" "sol_wt t v" "\<not> abi_dynamic t"
  shows "ENCODED_SIZE (codec_of t) = length (abi_enc_top t v)"
  using unchecked_codec [OF assms(1,3)] sol_enc.static_size [of t v] assms
  by (simp add: abi_enc_top_alt codec_dynamic unchecked_safe_def)

text \<open>A sink that has not been written yet, with room for \<open>cap\<close> bytes when it cannot grow.\<close>

definition fresh_sink :: "bool \<Rightarrow> nat \<Rightarrow> 'b out_sink \<Rightarrow> 'b \<Rightarrow> bool" where
  "fresh_sink use_alloc cap B out \<longleftrightarrow> view B out 0 = Some [] \<and>
     (\<forall>len. use_alloc \<or> len \<le> cap \<longrightarrow>
        (\<exists>put. reserve B out len = Some (replicate len 0, put) \<and>
          (\<forall>d n. length d = len \<longrightarrow> n \<le> len \<longrightarrow> (use_alloc \<longrightarrow> n = len) \<longrightarrow> view B (put d) n = Some (take n d))))"

lemma fresh_slice: "fresh_sink False cap slice_sink (replicate cap 0)"
  by (auto simp: fresh_sink_def slice_sink_def slice_reserve_def sink_reserve_def sink_view_def min_def)

lemma fresh_out_buf: "fresh_sink True cap out_buf_sink \<lparr>ob_stack = replicate n 0, ob_spill = []\<rparr>"
  by (auto simp: fresh_sink_def out_buf_sink_def out_buf_reserve_def out_buf_view_def vec_resize_def min_def)

lemma put_encoded_fresh:
  assumes "fresh_sink use_alloc cap B out" "use_alloc \<or> len \<le> cap" "f (replicate len 0) = Some (n, d)"
    and "length d = len" "n \<le> len" "use_alloc \<longrightarrow> n = len"
  shows "\<exists>out'. put_encoded B out len f s = (Inr (n, out'), s) \<and> view B out' n = Some (take n d)"
proof -
  obtain put where "reserve B out len = Some (replicate len 0, put)"
    "\<And>d n. length d = len \<Longrightarrow> n \<le> len \<Longrightarrow> use_alloc \<longrightarrow> n = len \<Longrightarrow> view B (put d) n = Some (take n d)"
    using assms(1,2) unfolding fresh_sink_def by blast
  then show ?thesis using assms(3-6) by (auto simp: put_encoded_def)
qed

lemma revert_out_is:
  assumes "fresh_sink use_alloc cap B out" "error_ok use_alloc e" "use_alloc \<or> 256 \<le> cap"
  shows "revert_out H use_alloc B e out s = hrevert H (error_data use_alloc e) s"
proof -
  obtain n d where e: "error_encode_to e (replicate (revert_cap use_alloc e) 0) = Some (n, d)"
    "length d = revert_cap use_alloc e" "n \<le> revert_cap use_alloc e" "use_alloc \<longrightarrow> n = revert_cap use_alloc e"
    using assms(2) unfolding error_ok_def by blast
  have "use_alloc \<or> revert_cap use_alloc e \<le> cap" using assms(3) by (auto simp: revert_cap_def)
  from put_encoded_fresh [where f = "error_encode_to e", OF assms(1) this e, of s] show ?thesis
    by (auto simp: revert_out_def error_data_def e)
qed

lemma unit_result_is:
  assumes "\<And>e s'. r = (Inr (Inl e), s') \<Longrightarrow> error_ok use_alloc e"
  shows "unit_result H use_alloc r = unit_spec H use_alloc r"
proof (cases r)
  case (Pair x s)
  then show ?thesis
    using assms
    by (cases x) (fastforce simp: unit_result_def unit_spec_def revert_local_def error_data_def error_ok_def
        split: sum.splits)+
qed

lemma body_result_is:
  assumes "body_ok use_alloc body"
  shows "unit_result H use_alloc (body s) = unit_spec H use_alloc (body s)"
  by (rule unit_result_is) (use assms in \<open>auto simp: body_ok_def\<close>)

lemma encode_and_return_is:
  assumes "fresh_sink use_alloc cap B out" "value_ok use_alloc outputs v"
    and "outputs \<noteq> [] \<Longrightarrow> use_alloc \<or> ENCODED_SIZE (return_codec outputs) \<le> cap"
  shows "\<exists>n out'. encode_and_return use_alloc B outputs v out s = (Inr (Return n, out'), s) \<and>
    view B out' n = Some (if outputs = [] then [] else abi_enc_top (return_type outputs) v)"
proof (cases "outputs = []")
  case True
  then show ?thesis using assms(1) by (simp add: encode_and_return_def fresh_sink_def)
next
  case False
  let ?t = "return_type outputs" and ?c = "codec_of (return_type outputs)"
  have v: "sol_wf ?t" "sol_wt ?t v" "length (abi_enc_top ?t v) < usize_limit" "\<not> use_alloc \<longrightarrow> \<not> abi_dynamic ?t"
    using assms(2) False by (auto simp: value_ok_def)
  have len: "(if use_alloc then encode_len ?c v else ENCODED_SIZE ?c) = length (abi_enc_top ?t v)"
    using v encode_to_spec_aux(1) [OF v(1,2)] static_encoded_size [OF v(1,2)] by simp
  have enc: "encode_to ?c v (replicate (length (abi_enc_top ?t v)) 0) = Some (abi_enc_top ?t v)"
    using encode_to_spec_aux(2) [OF v(1,2), of "replicate (length (abi_enc_top ?t v)) 0"] v(3) by simp
  have "use_alloc \<or> length (abi_enc_top ?t v) \<le> cap"
    using assms(3) False len by (cases use_alloc) (auto simp: return_codec_is)
  from put_encoded_fresh [OF assms(1) this, of "\<lambda>buf. map_option (\<lambda>d. (length (abi_enc_top ?t v), d)) (encode_to ?c v buf)"
      "length (abi_enc_top ?t v)" "abi_enc_top ?t v" s] enc
  obtain out' where "put_encoded B out (length (abi_enc_top ?t v))
      (\<lambda>buf. map_option (\<lambda>d. (length (abi_enc_top ?t v), d)) (encode_to ?c v buf)) s = (Inr (length (abi_enc_top ?t v), out'), s)"
    "view B out' (length (abi_enc_top ?t v)) = Some (abi_enc_top ?t v)" by auto
  then show ?thesis using False by (simp add: encode_and_return_def return_codec_is len)
qed

text \<open>The result of an arm, lowered by \<open>call\<close>.\<close>

definition lower :: "'s host_api \<Rightarrow> 'b out_sink \<Rightarrow> ('s \<Rightarrow> ('s, unit) res) \<Rightarrow> outcome \<times> 'b \<Rightarrow> 's \<Rightarrow> ('s, unit) res" where
  "lower H B k r s =
     (case r of (outcome, out) \<Rightarrow> (case outcome of Unhandled \<Rightarrow> k s | _ \<Rightarrow> finalize_outcome H outcome B out s))"

lemma arm_result_is:
  assumes "fresh_sink use_alloc cap B out" "use_alloc \<or> 256 \<le> cap"
    and "case r of Inl e \<Rightarrow> error_ok use_alloc e | Inr v \<Rightarrow> value_ok use_alloc (return_types m) v"
    and "return_types m \<noteq> [] \<Longrightarrow> use_alloc \<or> ENCODED_SIZE (return_codec (return_types m)) \<le> cap"
  shows "hbind (arm_result H use_alloc B m r out s) (lower H B k) = result_spec H use_alloc (return_types m) r s"
proof (cases r)
  case (Inl e)
  then show ?thesis
    using assms(3) by (simp add: revert_out_is [OF assms(1) _ assms(2)] arm_result_def result_spec_def)
next
  case (Inr v)
  then show ?thesis
    using encode_and_return_is [OF assms(1) _ assms(4), of v s] assms(3)
    by (auto simp: arm_result_def result_spec_def lower_def finalize_outcome_def)
qed

section \<open>Arms and the router\<close>

lemma arm_body_is:
  assumes "fresh_sink use_alloc cap B out" "use_alloc \<or> 256 \<le> cap" "method_ok use_alloc m"
    and "return_types m \<noteq> [] \<Longrightarrow> use_alloc \<or> ENCODED_SIZE (return_codec (return_types m)) \<le> cap"
    and "sol_wt (TTuple (map snd (param_types m))) (VSeq args)"
  shows "hbind (arm_body keccak H G use_alloc B m args out s) (lower H B k) =
    guarded_spec keccak H G use_alloc m args s"
proof -
  have res: "hbind (hbind (invoke m args s) (\<lambda>r s. arm_result H use_alloc B m r out (f s))) (lower H B k) =
      hbind (invoke m args s) (\<lambda>r s. result_spec H use_alloc (return_types m) r (f s))" for s f
  proof (cases "invoke m args s")
    case (Pair x s')
    show ?thesis
    proof (cases x)
      case (Inr r)
      have "case r of Inl e \<Rightarrow> error_ok use_alloc e | Inr v \<Rightarrow> value_ok use_alloc (return_types m) v"
        using assms(3,5) Pair Inr unfolding method_ok_def by blast
      from arm_result_is [OF assms(1,2) this assms(4)] Pair Inr show ?thesis by simp
    qed (simp add: Pair)
  qed
  show ?thesis
    using res [of _ "\<lambda>s. s"] res [of _ "g_unlock G"]
    by (cases "guard_mode_of m") (simp_all add: arm_body_def guarded_spec_def revert_if_locked_def Let_def)
qed

lemma decode_args_is:
  assumes "params_ok ps" "calculate_min_input_size ps \<le> length input" "length input + 32 < usize_limit"
  shows "decode_params keccak H ps input 0 s =
    (case decode_args (map snd ps) input of Some vs \<Rightarrow> (Inr vs, s) | None \<Rightarrow> hrevert H (INVALID_CALLDATA keccak) s)"
proof (cases "ps = []")
  case False
  then show ?thesis
    using decode_params_tuple [OF assms(1) _ assms(3), of 0 keccak H s] assms(2)
    by (simp add: decode_args_def decode_def impl_tuple_def tuple_decode_at_def option.map_comp o_def
        split: option.splits)
qed (simp add: decode_args_def)

lemma decode_args_wt:
  assumes "params_ok ps" "decode_args (map snd ps) input = Some args"
  shows "sol_wt (TTuple (map snd ps)) (VSeq args)"
proof (cases "ps = []")
  case False
  then have wf: "sol_wf (TTuple (map snd ps))" using assms(1) by (auto simp: params_ok_def list_all_iff)
  obtain v where v: "decode (codec_of (TTuple (map snd ps))) input = Some v" "args = val_seq v"
    using assms(2) False by (auto simp: decode_args_def simp del: codec_of.simps)
  have "decode_at (codec_of (TTuple (map snd ps))) input 0 = Some v"
    using v(1) by (simp add: decode_def)
  then have "sol_wt (TTuple (map snd ps)) v"
    using codec_wt [OF wf] unfolding decodes_wt_def by blast
  then show ?thesis using v(2) unfolding sol_wt_tuple by auto
qed (use assms(2) in \<open>simp add: decode_args_def\<close>)

lemma size_check_is:
  "size_check keccak H ps input s =
    (if length input < calculate_min_input_size ps then hrevert H (INVALID_CALLDATA keccak) s else (Inr (), s))"
  by (auto simp: size_check_def calculate_min_input_size_def)

lemma dispatch_arm_is:
  assumes "fresh_sink use_alloc cap B out" "use_alloc \<or> 256 \<le> cap" "method_ok use_alloc m"
    and "return_types m \<noteq> [] \<Longrightarrow> use_alloc \<or> ENCODED_SIZE (return_codec (return_types m)) \<le> cap"
    and "length input + 32 < usize_limit"
    and "hoisted \<Longrightarrow> \<not> value_transferred_is_nonzero H s"
  shows "hbind (dispatch_arm keccak H G use_alloc B hoisted (value_transferred_is_nonzero H s) m input out s)
      (lower H B k) = method_spec keccak H G use_alloc m input s"
proof -
  have ps: "params_ok (param_types m)" using assms(3) by (simp add: method_ok_def)
  show ?thesis
    using assms(6)
    by (auto simp: dispatch_arm_def method_spec_def pvm_assert_value_zero_def size_check_is
        decode_args_is [OF ps _ assms(5)] arm_body_is [OF assms(1-4)] decode_args_wt [OF ps]
        simp del: sol_wt.simps split: option.splits)
qed

lemma fold_max:
  fixes f :: "'a \<Rightarrow> nat"
  defines "g \<equiv> \<lambda>m acc. let sz = f m in if sz > acc then sz else acc"
  shows "a \<le> fold g ms a" and "m \<in> set ms \<Longrightarrow> f m \<le> fold g ms a"
proof -
  have mono: "a \<le> fold g ms a" for a ms
    by (induction ms arbitrary: a) (auto simp: g_def Let_def intro: order_trans less_imp_le)
  show "a \<le> fold g ms a" by (rule mono)
  show "m \<in> set ms \<Longrightarrow> f m \<le> fold g ms a"
  proof (induction ms arbitrary: a)
    case (Cons x ms)
    have "f x \<le> g x a" by (simp add: g_def Let_def)
    from order_trans [OF this mono [of "g x a"]] show ?case
      using Cons by auto
  qed simp
qed

lemma max_return_len_room:
  "256 \<le> max_return_len False ms"
  "m \<in> set ms \<Longrightarrow> return_types m \<noteq> [] \<Longrightarrow> ENCODED_SIZE (return_codec (return_types m)) \<le> max_return_len False ms"
  using fold_max [where f = "\<lambda>m. ENCODED_SIZE (return_codec (return_types m))"
      and ms = "filter (\<lambda>m. return_types m \<noteq> []) ms" and a = 256]
  by (simp_all add: max_return_len_def Let_def)

lemma find_mem: "find P xs = Some x \<Longrightarrow> x \<in> set xs \<and> P x"
  by (auto simp: find_Some_iff)

lemma route_is:
  assumes "fresh_sink use_alloc cap B out" "use_alloc \<or> cap = max_return_len False ms"
    and "list_all (method_ok use_alloc) ms" "length input + 32 < usize_limit"
  shows "hbind (route keccak H G use_alloc B fb ms selector input out s) (lower H B k) =
    (if all_non_payable fb ms \<and> value_transferred_is_nonzero H s
     then hrevert H (NON_PAYABLE_VALUE_RECEIVED keccak) s
     else case find (\<lambda>m. build_selector_const keccak m = Some selector) ms of
       Some m \<Rightarrow> method_spec keccak H G use_alloc m input s | None \<Rightarrow> k s)"
proof (cases "all_non_payable fb ms \<and> value_transferred_is_nonzero H s")
  case True
  then show ?thesis
    by (simp add: route_def Let_def pvm_assert_non_payable_def pvm_assert_value_zero_def)
next
  case False
  then have h: "all_non_payable fb ms \<Longrightarrow> \<not> value_transferred_is_nonzero H s" by simp
  have pre: "(if all_non_payable fb ms then pvm_assert_non_payable keccak H s else (Inr (), s)) = (Inr (), s)"
    using False by (auto simp: pvm_assert_non_payable_def pvm_assert_value_zero_def)
  show ?thesis
  proof (cases "find (\<lambda>m. build_selector_const keccak m = Some selector) ms")
    case None
    have "\<not> (all_non_payable fb ms \<and> value_transferred_is_nonzero H s)" by (rule False)
    then show ?thesis using None by (simp only: route_def Let_def pre lower_def) (simp add: lower_def)
  next
    case (Some m)
    then have m: "m \<in> set ms" "method_ok use_alloc m" using find_mem [OF Some] assms(3) by (simp_all add: list_all_iff)
    have cap: "use_alloc \<or> 256 \<le> cap"
      "return_types m \<noteq> [] \<Longrightarrow> use_alloc \<or> ENCODED_SIZE (return_codec (return_types m)) \<le> cap"
      using assms(2) max_return_len_room m(1) by auto
    show ?thesis
      using False by (auto simp: route_def Let_def pre Some dispatch_arm_is [OF assms(1) cap(1) m(2) cap(2) assms(4) h])
  qed
qed

section \<open>The entry points\<close>

lemma no_match_is:
  assumes "pred_option (\<lambda>(_, body). body_ok use_alloc body) (fallback C)"
  shows "no_match_handler keccak H use_alloc C e s = no_match_spec keccak H use_alloc C e s"
  using assms
  by (auto simp: no_match_handler_def no_match_spec_def pvm_assert_non_payable_def pvm_assert_value_zero_def
      body_result_is split: option.splits)

context calldata_host
begin

lemma receive_is:
  assumes "contract_ok use_alloc C"
  shows "receive_or_no_selector keccak H use_alloc C (length data) s =
    (case (if data = [] then receive C else None) of
       Some body \<Rightarrow> unit_spec H use_alloc (body s)
     | None \<Rightarrow> no_match_spec keccak H use_alloc C (NO_SELECTOR keccak) s)"
  using assms
  by (auto simp: receive_or_no_selector_def contract_ok_def no_match_is body_result_is split: option.splits)

lemma routed_is:
  assumes "contract_ok use_alloc C" "fresh_sink use_alloc cap B out"
    and "use_alloc \<or> cap = max_return_len False (methods C)" "length input + 32 < usize_limit"
  shows "route_and_finalize keccak H G use_alloc B C selector input out s =
    (if all_non_payable (payable_fallback C) (methods C) \<and> value_transferred_is_nonzero H s
     then hrevert H (NON_PAYABLE_VALUE_RECEIVED keccak) s
     else case find (\<lambda>m. build_selector_const keccak m = Some selector) (methods C) of
       Some m \<Rightarrow> method_spec keccak H G use_alloc m input s
     | None \<Rightarrow> no_match_spec keccak H use_alloc C (UNKNOWN_SELECTOR keccak) s)"
proof -
  have "(\<lambda>(outcome, out) s. case outcome of
      Unhandled \<Rightarrow> no_match_handler keccak H use_alloc C (UNKNOWN_SELECTOR keccak) s
    | _ \<Rightarrow> finalize_outcome H outcome B out s) =
    lower H B (no_match_spec keccak H use_alloc C (UNKNOWN_SELECTOR keccak))"
    using assms(1) no_match_is [of use_alloc C keccak H] by (intro ext) (auto simp: lower_def contract_ok_def split: outcome.splits)
  then show ?thesis
    using route_is [OF assms(2,3) _ assms(4)] assms(1)
    by (simp add: route_and_finalize_def payable_fallback_def contract_ok_def)
qed

lemma call_alloc_is:
  assumes "contract_ok True C" "length (calldata s) + 32 < usize_limit"
  shows "call_alloc keccak H G C s = contract_spec keccak H G True C (calldata s) s"
proof -
  have len: "unat (api_call_data_size H s) = length (calldata s)"
    using assms(2) by (intro call_data_size) (simp add: usize_limit_def)
  have "length (drop 4 (calldata s)) + 32 < usize_limit" using assms(2) by simp
  from routed_is [OF assms(1) fresh_out_buf _ this] show ?thesis
    using receive_is [OF assms(1), of keccak "calldata s"]
    by (simp add: call_alloc_def contract_spec_def Let_def len call_data_copy)
qed

lemma call_no_alloc_is:
  assumes "contract_ok False C" "length (calldata s) + 32 < usize_limit"
  shows "call_no_alloc keccak H G C s = contract_spec keccak H G False C (calldata s) s"
proof -
  have len: "unat (api_call_data_size H s) = length (calldata s)"
    using assms(2) by (intro call_data_size) (simp add: usize_limit_def)
  have "length (drop 4 (calldata s)) + 32 < usize_limit" using assms(2) by simp
  from routed_is [OF assms(1) fresh_slice _ this] show ?thesis
    using receive_is [OF assms(1), of keccak "calldata s"]
    by (auto simp: call_no_alloc_def contract_spec_def Let_def len call_data_copy)
qed

lemma deploy_is:
  assumes "contract_ok use_alloc C" "length (calldata s) + 32 < usize_limit"
  shows "deploy keccak H use_alloc C s = deploy_spec keccak H use_alloc C (calldata s) s"
proof (cases "constructor C")
  case None
  then show ?thesis
    by (simp add: deploy_def deploy_spec_def pvm_assert_non_payable_def pvm_assert_value_zero_def)
next
  case (Some body)
  have len: "unat (api_call_data_size H s) = length (calldata s)"
    using assms(2) by (intro call_data_size) (simp add: usize_limit_def)
  have ps: "params_ok (constructor_inputs C)" and b: "\<And>args. sol_wt (TTuple (map snd (constructor_inputs C))) (VSeq args) \<Longrightarrow> body_ok use_alloc (body args)"
    using assms(1) Some by (simp_all add: contract_ok_def del: sol_wt.simps)
  have u: "unit_result H a (body args s') = unit_spec H a (body args s')"
    if "a = use_alloc" "sol_wt (TTuple (map snd (constructor_inputs C))) (VSeq args)" for a args s'
    unfolding that(1) using b [OF that(2)] by (rule body_result_is)
  have u0: "unit_result H a (body [] s') = unit_spec H a (body [] s')"
    if "a = use_alloc" "constructor_inputs C = []" for a s'
    using that by (intro u) simp_all
  show ?thesis
    using Some
    by (auto simp: deploy_def deploy_spec_def pvm_assert_non_payable_def pvm_assert_value_zero_def len
        call_data_copy Let_def u u0 size_check_is decode_args_is [OF ps _ assms(2)] decode_args_wt [OF ps]
        simp del: sol_wt.simps split: option.splits)
qed

end

section \<open>Properties\<close>

lemma min_input_size_le:
  assumes "params_ok ps" "sol_wt (TTuple (map snd ps)) (VSeq args)"
  shows "calculate_min_input_size ps \<le> length (abi_enc_top (TTuple (map snd ps)) (VSeq args))"
proof (cases "ps = []")
  case False
  then have wf: "sol_wf (TTuple (map snd ps))" using assms(1) by (auto simp: params_ok_def list_all_iff)
  have "tuple_head_size (map codec_of (map snd ps)) = calculate_min_input_size ps"
    by (induction ps) (auto simp: tuple_head_size_def calculate_min_input_size_def)
  moreover have "encode_body_len (codec_of (TTuple (map snd ps))) (VSeq args) = length (abi_enc (TTuple (map snd ps)) (VSeq args))"
    by (rule sol_enc.body_len) (use wf assms(2) in blast)
  ultimately show ?thesis
    by (simp add: impl_tuple_def tuple_encode_body_len_def abi_enc_top_def del: abi_enc.simps)
qed (simp add: calculate_min_input_size_def)

lemma decode_args_back:
  assumes "params_ok ps" "list_all (sol_decodable \<circ> snd) ps" "sol_wt (TTuple (map snd ps)) (VSeq args)"
    and "length (abi_enc_top (TTuple (map snd ps)) (VSeq args) @ rest) + 32 < usize_limit"
  shows "decode_args (map snd ps) (abi_enc_top (TTuple (map snd ps)) (VSeq args) @ rest) = Some args"
proof (cases "ps = []")
  case True
  then show ?thesis using assms(3) by (simp add: decode_args_def)
next
  case False
  then have "sol_wf (TTuple (map snd ps))" "sol_decodable (TTuple (map snd ps))"
    using assms(1,2) by (auto simp: params_ok_def list_all_iff)
  from decode_abi_top [OF this assms(3,4)] show ?thesis
    using False by (simp add: decode_args_def del: codec_of.simps)
qed

lemma host_guard_keeps_return:
  "ms_return_value (g_unlock (host_guard keccak (mock_api k)) s) = ms_return_value s"
  by (simp add: host_guard_def host_unlock_def mock_api_def mock_set_storage_or_clear_def Let_def)

lemma call_reaches_method:
  assumes "contract_ok use_alloc C" "length sel = 4"
    and "find (\<lambda>m. build_selector_const keccak m = Some sel) (methods C) = Some m"
    and "list_all (sol_decodable \<circ> snd) (param_types m)" "sol_wt (TTuple (map snd (param_types m))) (VSeq args)"
    and "ms_calldata s = sel @ abi_enc_top (TTuple (map snd (param_types m))) (VSeq args) @ rest"
    and "length (ms_calldata s) + 32 < usize_limit" "\<not> use_alloc \<Longrightarrow> length (ms_calldata s) \<le> buffer_size C"
    and "mutability m = Payable \<or> \<not> value_transferred_is_nonzero (mock_api k) s"
    and "G = host_guard keccak (mock_api k)" "guard_mode_of m = NoGuard \<or> \<not> g_is_locked G s"
    and "invoke m args (if guard_mode_of m = FullGuard then g_lock G s else s) = (Inr r, s')"
  shows "(if use_alloc then call_alloc keccak (mock_api k) G C s else call_no_alloc keccak (mock_api k) G C s) =
    result_spec (mock_api k) use_alloc (return_types m) r (if guard_mode_of m = FullGuard then g_unlock G s' else s')"
proof -
  let ?enc = "abi_enc_top (TTuple (map snd (param_types m))) (VSeq args)"
  have m: "m \<in> set (methods C)" using find_mem [OF assms(3)] by simp
  then have ps: "params_ok (param_types m)" using assms(1) by (auto simp: contract_ok_def method_ok_def list_all_iff)
  have nonpay: "\<not> (all_non_payable (payable_fallback C) (methods C) \<and> value_transferred_is_nonzero (mock_api k) s)"
    using m assms(9) by (auto simp: all_non_payable_def list_all_iff)
  have data: "take 4 (ms_calldata s) = sel" "drop 4 (ms_calldata s) = ?enc @ rest" "4 \<le> length (ms_calldata s)"
    using assms(2,6) by simp_all
  have args: "decode_args (map snd (param_types m)) (?enc @ rest) = Some args"
    by (rule decode_args_back [OF ps assms(4,5)]) (use assms(6,7) in simp)
  have size: "\<not> length (?enc @ rest) < calculate_min_input_size (param_types m)"
    using min_input_size_le [OF ps assms(5)] by simp
  have "contract_spec keccak (mock_api k) G use_alloc C (ms_calldata s) s =
      method_spec keccak (mock_api k) G use_alloc m (?enc @ rest) s"
    using nonpay data assms(3,8) by (auto simp: contract_spec_def)
  also have "\<dots> = guarded_spec keccak (mock_api k) G use_alloc m args s"
    using assms(9) size args by (auto simp: method_spec_def)
  also have "\<dots> = result_spec (mock_api k) use_alloc (return_types m) r
      (if guard_mode_of m = FullGuard then g_unlock G s' else s')"
    using assms(11,12) by (auto simp: guarded_spec_def Let_def)
  finally show ?thesis
    using mock_data.call_alloc_is [OF _ assms(7)] mock_data.call_no_alloc_is [OF _ assms(7)] assms(1,10)
    by auto
qed

lemma mock_return_fresh:
  "ms_return_value s = None \<Longrightarrow>
   api_return_value (mock_api k) d s = (Inr (), s\<lparr>ms_return_value := Some (FlagsEmpty, d)\<rparr>)"
  by (simp add: mock_api_def mock_return_value_def record_return_def)

text \<open>
  C9: a call in the Solidity ABI reaches its method and comes back. For a method with the selector
  whose parameters are of static types, \<open>string\<close>, \<open>bytes\<close> or \<open>T[]\<close>, calldata made of the selector,
  the ABI encoding of arguments of its parameter types and anything after it, a value only where the
  method is payable, and a free lock where it is guarded: the body runs on exactly these arguments,
  under the lock when fully guarded, and its result is returned in the ABI encoding of the return
  type, with the lock released. As in C8 no method of the contract has a parameter of any other dynamic
  type: no dynamic tuple, no derived struct with a dynamic field, no fixed array of a dynamic type. For
  such a parameter the statement is false (C40).
\<close>

theorem call_round_trip:
  assumes "contract_ok use_alloc C" "length sel = 4"
    and "find (\<lambda>m. build_selector_const keccak m = Some sel) (methods C) = Some m"
    and "list_all (sol_decodable \<circ> snd) (param_types m)" "sol_wt (TTuple (map snd (param_types m))) (VSeq args)"
    and "ms_calldata s = sel @ abi_enc_top (TTuple (map snd (param_types m))) (VSeq args) @ rest"
    and "length (ms_calldata s) + 32 < usize_limit" "\<not> use_alloc \<Longrightarrow> length (ms_calldata s) \<le> buffer_size C"
    and "mutability m = Payable \<or> \<not> value_transferred_is_nonzero (mock_api k) s"
    and "G = host_guard keccak (mock_api k)" "guard_mode_of m = NoGuard \<or> \<not> g_is_locked G s"
    and "invoke m args (if guard_mode_of m = FullGuard then g_lock G s else s) = (Inr (Inr v), s')"
    and "ms_return_value s' = None"
  shows "(if use_alloc then call_alloc keccak (mock_api k) G C s else call_no_alloc keccak (mock_api k) G C s) =
    (Inr (), (if guard_mode_of m = FullGuard then g_unlock G s' else s')
      \<lparr> ms_return_value := Some (FlagsEmpty, if return_types m = [] then [] else abi_enc_top (return_type (return_types m)) v) \<rparr>)"
  using call_reaches_method [OF assms(1-12)] assms(10,13)
  by (auto simp: result_spec_def mock_return_fresh host_guard_keeps_return)

text \<open>
  C8: the generated entry points do what the contract says, for every calldata and both builds. The
  method called is the first whose selector, the hash of its canonical signature, is the calldata's;
  its arguments are what the tuple decoder reads; the guard wraps the body; the result is returned
  in the ABI encoding of the return types, and an error reverts with its encoding. Every refusal
  reverts with the framework error of its cause and runs no user code: calldata beyond the buffer,
  no or an unknown selector without a fallback, value sent to a non-payable entry, calldata too short
  for the heads, calldata that does not decode, a locked guard. \<open>deploy\<close> likewise. Hypotheses on user
  code are those of its types. The parameters of the methods and of the constructor are restricted to
  static types of any shape, \<open>string\<close>, \<open>bytes\<close> and \<open>T[]\<close> of any \<open>T\<close>. Excluded are all other dynamic
  types: dynamic tuples, derived structs with a dynamic field, and fixed arrays of a dynamic type
  (\<open>bytes[1]\<close>, \<open>string[2]\<close>); what the generated code reads for those is not the argument (C40).
\<close>

theorem call_refines_spec:
  assumes "contract_ok use_alloc C" "length (ms_calldata s) + 32 < usize_limit"
  shows "(if use_alloc then call_alloc keccak (mock_api k) G C s else call_no_alloc keccak (mock_api k) G C s) =
      contract_spec keccak (mock_api k) G use_alloc C (ms_calldata s) s \<and>
    deploy keccak (mock_api k) use_alloc C s = deploy_spec keccak (mock_api k) use_alloc C (ms_calldata s) s"
  using mock_data.call_alloc_is [OF _ assms(2)] mock_data.call_no_alloc_is [OF _ assms(2)]
    mock_data.deploy_is [OF assms] assms(1) by auto

text \<open>A contract with one method, that returns its argument.\<close>

definition echo_contract :: "'s contract" where
  "echo_contract =
     \<lparr> methods = [\<lparr> sol_method_name = ascii ''echo'', param_types = [(False, TPrim U8)], return_types = [TPrim U8],
         mutability = NonPayable, is_non_reentrant = True, invoke = \<lambda>args s. (Inr (Inr (hd args)), s) \<rparr>],
       fallback = None, receive = None, constructor_inputs = [], constructor_is_payable = False,
       constructor = None, buffer_size = 256 \<rparr>"

lemma echo_ok: "contract_ok a (echo_contract :: 's contract)"
proof -
  have "value_ok a [TPrim U8] (hd args)" if wt: "sol_wt (TTuple [TPrim U8]) (VSeq args)" for args
  proof -
    obtain z where "args = [z]" "case z of VPrim v \<Rightarrow> prim_wt U8 v | _ \<Rightarrow> False"
      using wt by (cases args) auto
    then obtain v where "args = [VPrim v]" "prim_wt U8 v" by (cases z) auto
    then show ?thesis
      by (simp add: value_ok_def return_type_def abi_enc_top_def seq_enc_def seq_head_len_def seq_tails_def
          item_head_def item_tail_def usize_limit_def length_prim_word [of U8])
  qed
  then show ?thesis
    by (simp add: contract_ok_def echo_contract_def method_ok_def params_ok_def del: sol_wt.simps)
qed

lemma echo_spec:
  "contract_spec (\<lambda>_. replicate 32 0) (mock_api (\<lambda>_. 9)) (host_guard (\<lambda>_. replicate 32 0) (mock_api (\<lambda>_. 9))) False
     echo_contract ([0, 0, 0, 0] @ replicate 31 0 @ [7]) (mock_new\<lparr>ms_calldata := [0, 0, 0, 0] @ replicate 31 0 @ [7]\<rparr>) =
   (Inr (), mock_new\<lparr>ms_calldata := [0, 0, 0, 0] @ replicate 31 0 @ [7],
      ms_return_value := Some (FlagsEmpty, replicate 31 0 @ [7])\<rparr>)"
proof -
  let ?s = "mock_new\<lparr>ms_calldata := [0, 0, 0, 0] @ replicate 31 0 @ [7]\<rparr>"
  have sel: "build_selector_const (\<lambda>_. replicate 32 0)
      \<lparr> sol_method_name = ascii ''echo'', param_types = [(False, TPrim U8)], return_types = [TPrim U8],
         mutability = NonPayable, is_non_reentrant = True, invoke = \<lambda>args s. (Inr (Inr (hd args)), s) \<rparr> =
      Some [0, 0, 0, 0]"
    by (simp add: build_selector_const_def build_method_signature_expr_def const_selector_def)
  have args: "decode_args [TPrim U8] (replicate 31 0 @ [7]) = Some [VPrim (VU8 7)]"
    by (simp add: decode_args_def decode_def impl_tuple_def tuple_decode_at_def impl_prim_def u8_decode_at_def
        get_idx_def SLOT_SIZE_def usize_limit_def wadd_def nth_append)
  have w: "be_bytes 32 7 = replicate 31 0 @ [7]" using be_bytes.simps(2) [of 31 7] by simp
  have enc: "abi_enc_top (TPrim U8) (VPrim (VU8 7)) = replicate 31 0 @ [7]"
    by (simp add: abi_enc_top_def seq_enc_def seq_head_len_def seq_tails_def item_head_def item_tail_def w)
  show ?thesis
    by (simp add: contract_spec_def echo_contract_def all_non_payable_def payable_fallback_def sel method_spec_def args
        value_transferred_is_nonzero_def value_is_nonzero_bytes_def guarded_spec_def guard_mode_of_def
        result_spec_def return_type_def enc host_guard_def calculate_min_input_size_def SLOT_SIZE_def impl_prim_def
        mock_api_def mock_new_def reentrancy_is_locked_def host_lock_def host_unlock_def UNLOCKED_def LOCKED_def
        mock_get_storage_or_zero_def mock_set_storage_or_clear_def mock_return_value_def record_return_def Let_def)
qed

theorem call_refines_spec_witness:
  "call_no_alloc (\<lambda>_. replicate 32 0) (mock_api (\<lambda>_. 9)) (host_guard (\<lambda>_. replicate 32 0) (mock_api (\<lambda>_. 9)))
     echo_contract (mock_new\<lparr>ms_calldata := [0, 0, 0, 0] @ replicate 31 0 @ [7]\<rparr>) =
   (Inr (), mock_new\<lparr>ms_calldata := [0, 0, 0, 0] @ replicate 31 0 @ [7],
      ms_return_value := Some (FlagsEmpty, replicate 31 0 @ [7])\<rparr>)"
  using call_refines_spec [OF echo_ok, of "mock_new\<lparr>ms_calldata := [0, 0, 0, 0] @ replicate 31 0 @ [7]\<rparr>" False
      "\<lambda>_. replicate 32 0" "\<lambda>_. 9" "host_guard (\<lambda>_. replicate 32 0) (mock_api (\<lambda>_. 9))"] echo_spec
  by (simp add: usize_limit_def)

theorem call_round_trip_witness:
  "call_alloc (\<lambda>_. replicate 32 0) (mock_api (\<lambda>_. 9)) (host_guard (\<lambda>_. replicate 32 0) (mock_api (\<lambda>_. 9)))
     echo_contract (mock_new\<lparr>ms_calldata := [0, 0, 0, 0] @ be_bytes 32 7 @ [5]\<rparr>) =
   (Inr (), mock_new\<lparr>ms_calldata := [0, 0, 0, 0] @ be_bytes 32 7 @ [5],
      ms_return_value := Some (FlagsEmpty, be_bytes 32 7)\<rparr>)"
proof -
  let ?K = "\<lambda>_. replicate 32 0" and ?H = "mock_api (\<lambda>_. 9)"
  define s where "s = mock_new\<lparr>ms_calldata := [0, 0, 0, 0] @ be_bytes 32 7 @ [5]\<rparr>"
  define m :: "mock_state method_info" where "m = \<lparr> sol_method_name = ascii ''echo'',
     param_types = [(False, TPrim U8)], return_types = [TPrim U8], mutability = NonPayable,
     is_non_reentrant = True, invoke = \<lambda>args s. (Inr (Inr (hd args)), s) \<rparr>"
  have enc: "abi_enc_top (TTuple [TPrim U8]) (VSeq [VPrim (VU8 7)]) = be_bytes 32 7"
    "abi_enc_top (TPrim U8) (VPrim (VU8 7)) = be_bytes 32 7"
    by (simp_all add: abi_enc_top_def seq_enc_def seq_head_len_def seq_tails_def item_head_def item_tail_def)
  have find: "find (\<lambda>m. build_selector_const ?K m = Some [0, 0, 0, 0]) (methods echo_contract) = Some m"
    by (simp add: m_def echo_contract_def build_selector_const_def build_method_signature_expr_def const_selector_def)
  have m: "guard_mode_of m = FullGuard" "param_types m = [(False, TPrim U8)]" "return_types m = [TPrim U8]"
    "invoke m [VPrim (VU8 7)] t = (Inr (Inr (VPrim (VU8 7))), t)" for t
    by (simp_all add: m_def guard_mode_of_def)
  have s: "\<not> g_is_locked (host_guard ?K ?H) s" "ms_calldata s = [0, 0, 0, 0] @ be_bytes 32 7 @ [5]"
    "g_unlock (host_guard ?K ?H) (g_lock (host_guard ?K ?H) s) = s"
    "ms_return_value (g_lock (host_guard ?K ?H) s) = None" "\<not> value_transferred_is_nonzero ?H s"
    by (simp_all add: s_def host_guard_def mock_api_def mock_new_def reentrancy_is_locked_def host_lock_def
        host_unlock_def UNLOCKED_def LOCKED_def mock_get_storage_or_zero_def mock_set_storage_or_clear_def Let_def
        value_transferred_is_nonzero_def value_is_nonzero_bytes_def)
  have "call_alloc ?K ?H (host_guard ?K ?H) echo_contract s =
      (Inr (), s\<lparr>ms_return_value := Some (FlagsEmpty, be_bytes 32 7)\<rparr>)"
    using call_round_trip [OF echo_ok, of "[0, 0, 0, 0]" ?K m "[VPrim (VU8 7)]" s "[5]" True "\<lambda>_. 9"
        "host_guard ?K ?H" "VPrim (VU8 7)" "g_lock (host_guard ?K ?H) s"]
    by (simp add: find m s enc usize_limit_def prim_wt_def return_type_def)
  then show ?thesis by (simp add: s_def)
qed

section \<open>Dynamic composite parameters\<close>

lemma length_data_enc_ge: "32 + length b \<le> length (data_enc b)"
  by (simp add: data_enc_def)

lemma enc_bytes_array:
  "abi_enc_top (TTuple [TArr TBytes 1]) (VSeq [VSeq [VData b]]) = abi_uint 32 @ abi_uint 32 @ data_enc b"
  by (simp add: abi_enc_top_def seq_enc_def item_head_def item_tail_def)

lemma enc_struct:
  "abi_enc_top (TTuple [TTuple [TPrim U64, TString]]) (VSeq [VSeq [VPrim (VU64 n), VData b]]) =
   abi_uint 32 @ be_bytes 32 (unat n) @ abi_uint 64 @ data_enc b"
  by (simp add: abi_enc_top_def seq_enc_def item_head_def item_tail_def)

lemma bytes_array_param_misread:
  assumes "length b + 256 < usize_limit"
  shows "decode_at (codec_of (TArr TBytes 1)) (abi_uint 32 @ abi_uint 32 @ data_enc b) 0 =
    Some (VSeq [VData (abi_uint (length b))])"
proof -
  let ?in = "abi_uint 32 @ abi_uint 32 @ data_enc b"
  have r: "read_word_offset ?in 0 = Some 32" "read_word_offset ?in 32 = Some 32"
    using read_word_abi_uint [of 0 "[]" 32 "abi_uint 32 @ data_enc b"]
      read_word_abi_uint [of 32 "abi_uint 32" 32 "data_enc b"]
    by (simp_all add: usize_limit_def)
  have "get_range (abi_uint 32 @ abi_uint 32 @ data_enc b) 64 96 = Some (abi_uint (length b))"
    by (simp add: get_range_def data_enc_def)
  then show ?thesis
    using r by (simp add: impl_array_def array_decode_at_def array_decode_elem_def impl_bytes_def
        bytes_decode_tail_def usize_limit_def SLOT_SIZE_def)
qed

lemma struct_param_misread:
  assumes "decode_at (codec_of (TTuple [TPrim U64, TString])) (abi_uint 32 @ rest) 0 = Some v"
  shows "\<exists>w. v = VSeq [VPrim (VU64 32), w]"
proof -
  have "abi_uint 32 = prim_word (VU64 32)" by (simp add: abi_uint_def)
  then have "prim_decode_at U64 (abi_uint 32 @ rest) 0 = Some (VU64 32)"
    using prim_decode_word(1) [of U64 "VU64 32" "[]" rest] by (simp add: usize_limit_def prim_wt_def)
  then show ?thesis
    using assms by (auto simp: impl_tuple_def tuple_decode_at_def impl_prim_def bind_eq_Some_conv
        map_option_eq_Some)
qed

text \<open>
  C40: the generated code misreads parameters that are dynamic but not \<open>string\<close>, \<open>bytes\<close> or \<open>T[]\<close>.
  The head of such a parameter holds an offset, which \<open>decode_at\<close> of arrays and tuples does not
  follow. A \<open>bytes[1]\<close> argument reaches the method as the 32-byte length word of its content,
  whatever the content, with no error; and for a \<open>(uint64, string)\<close> struct the method, if it runs at
  all, is given the offset 32 for the number.
\<close>

theorem dynamic_composite_params_misread:
  assumes "length b + 256 < usize_limit"
  shows "decode_params keccak H [(custom, TArr TBytes 1)]
        (abi_enc_top (TTuple [TArr TBytes 1]) (VSeq [VSeq [VData b]])) 0 s =
        (Inr [VSeq [VData (abi_uint (length b))]], s) \<and>
    (\<forall>args s'. decode_params keccak H [(custom, TTuple [TPrim U64, TString])]
        (abi_enc_top (TTuple [TTuple [TPrim U64, TString]]) (VSeq [VSeq [VPrim (VU64 n), VData b]])) 0 s = (Inr args, s') \<longrightarrow>
      (\<exists>w. args = [VSeq [VPrim (VU64 32), w]]))"
proof -
  have dyn: "sol_type_is_dynamic (TArr TBytes 1)" "sol_type_is_dynamic (TTuple [TPrim U64, TString])" by simp_all
  show ?thesis
    unfolding enc_bytes_array enc_struct
    using bytes_array_param_misread [OF assms] dyn struct_param_misread
    by (auto simp: decode_param_def hrevert_def hbind_def split: option.splits prod.splits sum.splits
        simp del: codec_of.simps sol_type_is_dynamic.simps)
qed

theorem dynamic_composite_params_misread_witness:
  "decode_params (\<lambda>_. replicate 32 0) (mock_api (\<lambda>_. 9)) [(False, TArr TBytes 1)]
     (abi_uint 32 @ abi_uint 32 @ data_enc [1, 2]) 0 mock_new = (Inr [VSeq [VData (abi_uint 2)]], mock_new)"
proof -
  have "length [1 :: byte, 2] + 256 < usize_limit" by (simp add: usize_limit_def)
  from conjunct1 [OF dynamic_composite_params_misread [OF this, of "\<lambda>_. replicate 32 0" "mock_api (\<lambda>_. 9)" False mock_new]]
  show ?thesis unfolding enc_bytes_array by (simp add: numeral_2_eq_2)
qed

end
