(* ===== verification/CrossCall.thy ===== *)
theory CrossCall
  imports DispatchSpec
begin

text \<open>
  \<open>call.rs\<close> and \<open>precompiles.rs\<close> of \<open>pvm-contract-core\<close>: the call builder with its type-state for
  the state mutability, the raw calls, output decoding, \<open>CallError\<close>, and the wrappers of the
  signature precompiles. \<open>Inputs\<close> and \<open>Outputs\<close> are dictionaries. \<open>None\<close> is a panic of the encoder.
  What the calls leave in the caller's scratch buffers is not part of the results. The contract of
  the component is stated with a contract of this development at the other end: the locale
  \<open>callee_host\<close> says what the host does with a call, and is interpreted on a host made of the
  mock and the generated entry point of a contract.
\<close>

section \<open>CallError\<close>

datatype call_error =
    ECalleeTrapped | ETransferFailed | EOutOfResources | EDuplicateContractAddress
  | EInputBufTooSmall | EOutputBufTooSmall | ECalleeReverted | EDecodingError | EUnknown

definition try_decode_error_raw ::
  "'s host_api \<Rightarrow> (bytes \<Rightarrow> nat \<Rightarrow> 'e decoded) \<Rightarrow> call_error \<Rightarrow> nat \<Rightarrow> 's \<Rightarrow> 'e decoded" where
  "try_decode_error_raw H decode_at' self buf_len s =
     (case self of
        ECalleeReverted \<Rightarrow>
          (let size = api_return_data_size H s in
           if buf_len < unat size then None
           else decode_at' (api_return_data_copy H buf_len 0 s) 0)
      | _ \<Rightarrow> Some None)"

definition try_decode_error :: "'s host_api \<Rightarrow> (bytes \<Rightarrow> nat \<Rightarrow> 'e decoded) \<Rightarrow> call_error \<Rightarrow> 's \<Rightarrow> 'e decoded" where
  "try_decode_error H decode_at' self s =
     (case self of
        ECalleeReverted \<Rightarrow>
          (let size = unat (api_return_data_size H s); data = api_return_data_copy H size 0 s in
           decode_at' (data @ replicate (size - length data) 0) 0)
      | _ \<Rightarrow> Some None)"

fun discriminant :: "call_error \<Rightarrow> 8 word" where
  "discriminant ECalleeTrapped = 0"
| "discriminant ETransferFailed = 1"
| "discriminant EOutOfResources = 2"
| "discriminant EDuplicateContractAddress = 3"
| "discriminant EInputBufTooSmall = 4"
| "discriminant EOutputBufTooSmall = 5"
| "discriminant ECalleeReverted = 6"
| "discriminant EDecodingError = 7"
| "discriminant EUnknown = 8"

definition CALL_ERROR_SELECTOR :: "(bytes \<Rightarrow> bytes) \<Rightarrow> bytes" where
  "CALL_ERROR_SELECTOR keccak = const_selector keccak (ascii ''CallError(uint256)'')"

definition call_error_encode_to :: "(bytes \<Rightarrow> bytes) \<Rightarrow> call_error \<Rightarrow> bytes \<Rightarrow> written" where
  "call_error_encode_to keccak self buf =
     Option.bind (copy_at buf 0 (CALL_ERROR_SELECTOR keccak)) (\<lambda>buf.
     let res = VPrim (VU256 (ucast (discriminant self))) in
     map_option (\<lambda>buf. (encode_len (codec_of (TPrim U256)) res + 4, buf))
       (with_suffix buf 4 (encode_to (codec_of (TPrim U256)) res)))"

definition call_error_of_discriminant :: "8 word \<Rightarrow> call_error option" where
  "call_error_of_discriminant data =
     (if data = 0 then Some ECalleeTrapped
      else if data = 1 then Some ETransferFailed
      else if data = 2 then Some EOutOfResources
      else if data = 3 then Some EDuplicateContractAddress
      else if data = 4 then Some EInputBufTooSmall
      else if data = 5 then Some EOutputBufTooSmall
      else if data = 6 then Some ECalleeReverted
      else if data = 7 then Some EDecodingError
      else if data = 8 then Some EUnknown
      else None)"

definition call_error_decode_at :: "(bytes \<Rightarrow> bytes) \<Rightarrow> bytes \<Rightarrow> nat \<Rightarrow> call_error decoded" where
  "call_error_decode_at keccak input offset =
     (if length input < 4 then None
      else if selector_at (CALL_ERROR_SELECTOR keccak) input offset then
        Option.bind (u8_decode_at input (wadd offset 4)) (\<lambda>data.
        map_option Some (call_error_of_discriminant data))
      else Some None)"

fun convert_error :: "return_error \<Rightarrow> call_error" where
  "convert_error CalleeTrapped = ECalleeTrapped"
| "convert_error CalleeReverted = ECalleeReverted"
| "convert_error TransferFailed = ETransferFailed"
| "convert_error OutOfResources = EOutOfResources"
| "convert_error DuplicateContractAddress = EDuplicateContractAddress"
| "convert_error _ = EUnknown"

section \<open>The call builder\<close>

text \<open>The mutability markers; \<open>Payable\<close> carries a value.\<close>

datatype witness = WPayable "128 word option" | WNonPayable | WView | WPure

definition no_flags :: call_flags where
  "no_flags = \<lparr> READ_ONLY = False, ALLOW_REENTRY = False \<rparr>"

fun witness_call_flags :: "witness \<Rightarrow> call_flags" where
  "witness_call_flags WView = no_flags\<lparr>READ_ONLY := True\<rparr>"
| "witness_call_flags WPure = no_flags\<lparr>READ_ONLY := True\<rparr>"
| "witness_call_flags _ = no_flags"

fun witness_value :: "witness \<Rightarrow> 128 word" where
  "witness_value (WPayable (Some value)) = value"
| "witness_value _ = 0"

record ref_time_limits =
  ref_time_limit :: "64 word"
  proof_size_limit :: "64 word"
  deposit_limit :: bytes

definition limits_new :: "64 word \<Rightarrow> 64 word \<Rightarrow> 256 word \<Rightarrow> ref_time_limits" where
  "limits_new ref_time proof_size deposit =
     \<lparr> ref_time_limit = ref_time, proof_size_limit = proof_size, deposit_limit = u256_to_le deposit \<rparr>"

datatype call_limits = GasLimit "64 word" | RefTimeAndProofSize ref_time_limits

definition call_limits_default :: call_limits where
  "call_limits_default = GasLimit (- 1)"

record call_builder =
  cl_selector :: bytes
  cl_payload :: sol_val
  cl_witness :: witness
  cl_limits :: call_limits
  cl_allow_reentry :: bool

definition call_builder_default :: call_builder where
  "call_builder_default =
     \<lparr> cl_selector = replicate 4 0, cl_payload = VUnit, cl_witness = WPure,
       cl_limits = call_limits_default, cl_allow_reentry = False \<rparr>"

text \<open>\<open>set_value\<close> exists for \<open>Payable\<close> builders only.\<close>

definition set_value :: "128 word \<Rightarrow> call_builder \<Rightarrow> call_builder" where
  "set_value value self = self\<lparr>cl_witness := WPayable (Some value)\<rparr>"

definition set_call_limits :: "call_limits \<Rightarrow> call_builder \<Rightarrow> call_builder" where
  "set_call_limits limits self = self\<lparr>cl_limits := limits\<rparr>"

definition allow_reentry :: "call_builder \<Rightarrow> call_builder" where
  "allow_reentry self = self\<lparr>cl_allow_reentry := True\<rparr>"

definition output_size :: "'s host_api \<Rightarrow> 's \<Rightarrow> nat" where
  "output_size H s = unat (api_return_data_size H s)"

definition extract_output :: "'s host_api \<Rightarrow> sol_codec \<Rightarrow> nat \<Rightarrow> 's \<Rightarrow> call_error + sol_val" where
  "extract_output H R output_len s =
     (if output_size H s > output_len then Inl EOutputBufTooSmall
      else (case decode R (api_return_data_copy H output_len 0 s) of
              Some v \<Rightarrow> Inr v | None \<Rightarrow> Inl EDecodingError))"

definition map_err :: "host_result \<times> 's \<Rightarrow> (call_error + unit) \<times> 's" where
  "map_err r = (case r of (Inl e, s) \<Rightarrow> (Inl (convert_error e), s) | (Inr _, s) \<Rightarrow> (Inr (), s))"

text \<open>The prefix, selector or code hash, and the payload behind it.\<close>

definition fill_input :: "bytes \<Rightarrow> sol_codec \<Rightarrow> sol_val \<Rightarrow> bytes \<Rightarrow> bytes option" where
  "fill_input prefix I payload input_buf =
     Option.bind (copy_at input_buf 0 prefix) (\<lambda>buf.
     with_suffix buf (length prefix) (encode_to I payload))"

definition call_raw_inner ::
  "'s host_api \<Rightarrow> sol_codec \<Rightarrow> call_builder \<Rightarrow> bytes \<Rightarrow> bytes \<Rightarrow> 's \<Rightarrow> ((call_error + unit) \<times> 's) option" where
  "call_raw_inner H I self address input_buf s =
     (if length input_buf < 4 + encode_len I (cl_payload self) then Some (Inl EInputBufTooSmall, s)
      else (let call_flags =
                  (if cl_allow_reentry self then (witness_call_flags (cl_witness self))\<lparr>ALLOW_REENTRY := True\<rparr>
                   else witness_call_flags (cl_witness self));
                value = u256_to_le (ucast (witness_value (cl_witness self)))
            in map_option (\<lambda>input_buf. map_err
                 (case cl_limits self of
                    GasLimit limit \<Rightarrow> api_call_evm H call_flags address limit value input_buf s
                  | RefTimeAndProofSize l \<Rightarrow>
                      api_call H call_flags address (ref_time_limit l) (proof_size_limit l) (deposit_limit l)
                        value input_buf s))
                 (fill_input (cl_selector self) I (cl_payload self) input_buf)))"

definition delegate_call_raw ::
  "'s host_api \<Rightarrow> sol_codec \<Rightarrow> call_builder \<Rightarrow> bytes \<Rightarrow> bytes \<Rightarrow> 's \<Rightarrow> ((call_error + unit) \<times> 's) option" where
  "delegate_call_raw H I self address input_buf s =
     (if length input_buf < 4 + encode_len I (cl_payload self) then Some (Inl EInputBufTooSmall, s)
      else map_option (\<lambda>input_buf. map_err
             (case cl_limits self of
                GasLimit limit \<Rightarrow> api_delegate_call_evm H no_flags address limit input_buf s
              | RefTimeAndProofSize l \<Rightarrow>
                  api_delegate_call H no_flags address (ref_time_limit l) (proof_size_limit l) (deposit_limit l)
                    input_buf s))
             (fill_input (cl_selector self) I (cl_payload self) input_buf))"

definition instantiate_raw ::
  "'s host_api \<Rightarrow> sol_codec \<Rightarrow> call_builder \<Rightarrow> ref_time_limits \<Rightarrow> 128 word \<Rightarrow> bytes \<Rightarrow> bytes option \<Rightarrow> bytes \<Rightarrow>
   bytes \<Rightarrow> 's \<Rightarrow> (((call_error + unit) \<times> bytes) \<times> 's) option" where
  "instantiate_raw H I self limits value code_hash salt address_buf input_buf s =
     (if length input_buf < 32 + encode_len I (cl_payload self) then Some ((Inl EInputBufTooSmall, address_buf), s)
      else map_option (\<lambda>input_buf.
             case api_instantiate H (ref_time_limit limits) (proof_size_limit limits) (deposit_limit limits)
                    (u256_to_le (ucast value)) input_buf address_buf salt s of
               ((Inl e, a), s) \<Rightarrow> ((Inl (convert_error e), a), s)
             | ((Inr _, a), s) \<Rightarrow> ((Inr (), a), s))
             (fill_input code_hash I (cl_payload self) input_buf))"

text \<open>\<open>self.call_raw(..)?; self.extract_output(..)\<close>.\<close>

definition then_extract ::
  "'s host_api \<Rightarrow> sol_codec \<Rightarrow> nat \<Rightarrow> (call_error + unit) \<times> 's \<Rightarrow> (call_error + sol_val) \<times> 's" where
  "then_extract H R output_len r =
     (case r of (Inl e, s) \<Rightarrow> (Inl e, s) | (Inr _, s) \<Rightarrow> (extract_output H R output_len s, s))"

definition builder_call ::
  "'s host_api \<Rightarrow> sol_codec \<Rightarrow> sol_codec \<Rightarrow> call_builder \<Rightarrow> bytes \<Rightarrow> bytes \<Rightarrow> nat \<Rightarrow> 's \<Rightarrow>
   ((call_error + sol_val) \<times> 's) option" where
  "builder_call H I R self address input_buf output_len s =
     map_option (then_extract H R output_len) (call_raw_inner H I self address input_buf s)"

definition delegate_call ::
  "'s host_api \<Rightarrow> sol_codec \<Rightarrow> sol_codec \<Rightarrow> call_builder \<Rightarrow> bytes \<Rightarrow> bytes \<Rightarrow> nat \<Rightarrow> 's \<Rightarrow>
   ((call_error + sol_val) \<times> 's) option" where
  "delegate_call H I R self address input_buf output_len s =
     map_option (then_extract H R output_len) (delegate_call_raw H I self address input_buf s)"

definition builder_instantiate ::
  "'s host_api \<Rightarrow> sol_codec \<Rightarrow> sol_codec \<Rightarrow> call_builder \<Rightarrow> ref_time_limits \<Rightarrow> 128 word \<Rightarrow> bytes \<Rightarrow> bytes option \<Rightarrow>
   bytes \<Rightarrow> bytes \<Rightarrow> nat \<Rightarrow> 's \<Rightarrow> (((call_error + sol_val) \<times> bytes) \<times> 's) option" where
  "builder_instantiate H I R self limits value code_hash salt address_buf input_buf output_len s =
     map_option (\<lambda>r. case r of
         ((Inl e, a), s) \<Rightarrow> ((Inl e, a), s)
       | ((Inr _, a), s) \<Rightarrow> ((extract_output H R output_len s, a), s))
       (instantiate_raw H I self limits value code_hash salt address_buf input_buf s)"


section \<open>Precompiles\<close>

definition precompile :: "16 word \<Rightarrow> bytes" where
  "precompile index = replicate 18 0 @ [ucast (drop_bit 8 index), ucast index]"

definition ECRECOVER :: bytes where "ECRECOVER = precompile 0x01"
definition P256_VERIFY :: bytes where "P256_VERIFY = precompile 0x100"

text \<open>The output when the call succeeds with 32 bytes; \<open>out\<close> starts as zeros.\<close>

definition call_precompile :: "'s host_api \<Rightarrow> bytes \<Rightarrow> bytes \<Rightarrow> 's \<Rightarrow> bytes option \<times> 's" where
  "call_precompile H callee input s =
     (case api_call_evm H (no_flags\<lparr>READ_ONLY := True\<rparr>) callee (- 1) (replicate 32 0) input s of
        (Inl _, s) \<Rightarrow> (None, s)
      | (Inr _, s) \<Rightarrow>
          if api_return_data_size H s \<noteq> 32 then (None, s)
          else (let slot = api_return_data_copy H 32 0 s in (Some (slot @ replicate (32 - length slot) 0), s)))"

text \<open>Writes into the zeroed input array; the arguments are arrays of 32 bytes, so they cannot panic.\<close>

definition ecrecover_input :: "bytes \<Rightarrow> 8 word \<Rightarrow> bytes \<Rightarrow> bytes \<Rightarrow> bytes option" where
  "ecrecover_input hash v r s =
     Option.bind (copy_at (replicate 128 0) 0 hash) (\<lambda>input.
     Option.bind (copy_at input 63 [if v < 27 then v + 27 else v]) (\<lambda>input.
     Option.bind (copy_at input 64 r) (\<lambda>input.
     copy_at input 96 s)))"

definition ecrecover ::
  "'s host_api \<Rightarrow> bytes \<Rightarrow> 8 word \<Rightarrow> bytes \<Rightarrow> bytes \<Rightarrow> 's \<Rightarrow> (bytes option \<times> 's) option" where
  "ecrecover H hash v r s st =
     map_option (\<lambda>input.
       case call_precompile H ECRECOVER input st of
         (None, st) \<Rightarrow> (None, st)
       | (Some out, st) \<Rightarrow>
           (if out = replicate 32 0 then None else Some (take 20 (drop 12 out)), st))
       (ecrecover_input hash v r s)"

definition p256_input :: "bytes \<Rightarrow> bytes \<Rightarrow> bytes \<Rightarrow> bytes \<Rightarrow> bytes \<Rightarrow> bytes option" where
  "p256_input hash r s x y =
     Option.bind (copy_at (replicate 160 0) 0 hash) (\<lambda>input.
     Option.bind (copy_at input 32 r) (\<lambda>input.
     Option.bind (copy_at input 64 s) (\<lambda>input.
     Option.bind (copy_at input 96 x) (\<lambda>input.
     copy_at input 128 y))))"

definition p256_verify ::
  "'s host_api \<Rightarrow> bytes \<Rightarrow> bytes \<Rightarrow> bytes \<Rightarrow> bytes \<Rightarrow> bytes \<Rightarrow> 's \<Rightarrow> (bool \<times> 's) option" where
  "p256_verify H hash r s x y st =
     map_option (\<lambda>input.
       case call_precompile H P256_VERIFY input st of
         (None, st) \<Rightarrow> (False, st)
       | (Some out, st) \<Rightarrow> (out = replicate 31 0 @ [1], st))
       (p256_input hash r s x y)"

section \<open>A host with a contract at an address\<close>

text \<open>
  What the documentation of the host says of a call: the callee runs on the input and the value; its
  return data is the caller's to read until the next call; a revert is \<open>CalleeReverted\<close>, with data.
\<close>

datatype callee_outcome = OReturn bytes | ORevert bytes | OTrap

fun call_result :: "(bytes \<Rightarrow> 's \<Rightarrow> 's) \<Rightarrow> callee_outcome \<times> 's \<Rightarrow> host_result \<times> 's" where
  "call_result store (OReturn d, s) = (Inr (), store d s)"
| "call_result store (ORevert d, s) = (Inl CalleeReverted, store d s)"
| "call_result store (OTrap, s) = (Inl CalleeTrapped, store [] s)"

fun outcome_result :: "callee_outcome \<Rightarrow> host_result" where
  "outcome_result (OReturn d) = Inr ()"
| "outcome_result (ORevert d) = Inl CalleeReverted"
| "outcome_result OTrap = Inl CalleeTrapped"

fun outcome_data :: "callee_outcome \<Rightarrow> bytes" where
  "outcome_data (OReturn d) = d"
| "outcome_data (ORevert d) = d"
| "outcome_data OTrap = []"

text \<open>
  One call, on any host: in its state \<open>h\<close> the host \<open>H\<close> answers a call to \<open>addr\<close> with the outcome
  \<open>out\<close> of the callee and is then in state \<open>h'\<close>, whose return data is that of the outcome.
\<close>

definition delivers ::
  "'s host_api \<Rightarrow> call_flags \<Rightarrow> bytes \<Rightarrow> call_limits \<Rightarrow> bytes \<Rightarrow> bytes \<Rightarrow> 's \<Rightarrow> callee_outcome \<Rightarrow> 's \<Rightarrow> bool" where
  "delivers H flags addr limits value input h out h' \<longleftrightarrow>
     (case limits of
        GasLimit gas \<Rightarrow> api_call_evm H flags addr gas value input h
      | RefTimeAndProofSize l \<Rightarrow>
          api_call H flags addr (ref_time_limit l) (proof_size_limit l) (deposit_limit l) value input h) =
       (outcome_result out, h') \<and>
     api_return_data_size H h' = of_nat (length (outcome_data out)) \<and>
     (\<forall>n. api_return_data_copy H n 0 h' = take n (outcome_data out))"

text \<open>A call to the address with given flags and value does the same on every input and every state.\<close>

locale callee_host =
  fixes H :: "'s host_api"
    and addr :: bytes
    and run :: "bytes \<Rightarrow> bytes \<Rightarrow> 's \<Rightarrow> callee_outcome \<times> 's"
    and store :: "bytes \<Rightarrow> 's \<Rightarrow> 's"
  assumes call_evm: "api_call_evm H flags addr gas value input s = call_result store (run value input s)"
    and call: "api_call H flags addr ref_time proof_size deposit value input s = call_result store (run value input s)"
    and size: "api_return_data_size H (store d s) = of_nat (length d)"
    and copy: "api_return_data_copy H n 0 (store d s) = take n d"
begin

lemma output_size_store [simp]: "length d < usize_limit \<Longrightarrow> output_size H (store d s) = length d"
  by (simp add: output_size_def size unat_of_nat usize_limit_def)

lemma run_delivers:
  assumes "run value input s = (out, s')"
  shows "delivers H flags addr limits value input s out (store (outcome_data out) s')"
  using assms
  by (cases out) (auto simp: delivers_def call_evm call size copy split: call_limits.split)

lemma raw_call_runs:
  assumes "fill_input (cl_selector self) I (cl_payload self) input_buf = Some input"
    "4 + encode_len I (cl_payload self) \<le> length input_buf"
  shows "call_raw_inner H I self addr input_buf s =
    Some (map_err (call_result store (run (u256_to_le (ucast (witness_value (cl_witness self)))) input s)))"
  using assms by (cases "cl_limits self") (simp_all add: call_raw_inner_def call_evm call Let_def)

lemma call_returns:
  assumes "fill_input (cl_selector self) I (cl_payload self) input_buf = Some input"
    "4 + encode_len I (cl_payload self) \<le> length input_buf"
    "run (u256_to_le (ucast (witness_value (cl_witness self)))) input s = (OReturn d, s')" "length d < usize_limit"
  shows "builder_call H I R self addr input_buf output_len s =
    Some (if length d > output_len then Inl EOutputBufTooSmall
          else case decode R d of Some v \<Rightarrow> Inr v | None \<Rightarrow> Inl EDecodingError, store d s')"
  using assms
  by (simp add: builder_call_def raw_call_runs map_err_def then_extract_def extract_output_def copy split: option.split)

lemma call_reverts:
  assumes "fill_input (cl_selector self) I (cl_payload self) input_buf = Some input"
    "4 + encode_len I (cl_payload self) \<le> length input_buf"
    "run (u256_to_le (ucast (witness_value (cl_witness self)))) input s = (ORevert d, s')"
  shows "builder_call H I R self addr input_buf output_len s = Some (Inl ECalleeReverted, store d s')"
  using assms by (simp add: builder_call_def raw_call_runs map_err_def then_extract_def)

lemma revert_data_decodes:
  assumes "length d < usize_limit"
  shows "try_decode_error H T ECalleeReverted (store d s) = T d 0"
    "length d \<le> buf_len \<Longrightarrow> try_decode_error_raw H T ECalleeReverted buf_len (store d s) = T d 0"
  using assms by (simp_all add: try_decode_error_def try_decode_error_raw_def Let_def size copy unat_of_nat usize_limit_def)

end

text \<open>
  The host of a caller next to which a contract lives: the caller's own operations act on its mock, a
  call to the address runs the contract's entry point on the callee's mock. A revert undoes the
  callee's changes.
\<close>

definition lift_api :: "'a host_api \<Rightarrow> ('a \<times> 'b) host_api" where
  "lift_api H =
     \<lparr> api_address = api_address H \<circ> fst, api_caller = api_caller H \<circ> fst, api_origin = api_origin H \<circ> fst,
       api_balance = api_balance H \<circ> fst, api_balance_of = (\<lambda>a s. api_balance_of H a (fst s)),
       api_chain_id = api_chain_id H \<circ> fst, api_base_fee = api_base_fee H \<circ> fst, api_now = api_now H \<circ> fst,
       api_block_number = api_block_number H \<circ> fst, api_value_transferred = api_value_transferred H \<circ> fst,
       api_code_size = (\<lambda>a s. api_code_size H a (fst s)), api_call_data_size = api_call_data_size H \<circ> fst,
       api_call_data_copy = (\<lambda>n off s. api_call_data_copy H n off (fst s)),
       api_get_storage_or_zero = (\<lambda>f key s. api_get_storage_or_zero H f key (fst s)),
       api_set_storage_or_clear = (\<lambda>f key v s. apsnd (\<lambda>a. (a, snd s)) (api_set_storage_or_clear H f key v (fst s))),
       api_hash_keccak_256 = api_hash_keccak_256 H,
       api_deposit_event = (\<lambda>topics data s. apfst (api_deposit_event H topics data) s),
       api_return_data_size = api_return_data_size H \<circ> fst,
       api_return_data_copy = (\<lambda>n off s. api_return_data_copy H n off (fst s)),
       api_call = (\<lambda>fl c rt ps dep v i s. apsnd (\<lambda>a. (a, snd s)) (api_call H fl c rt ps dep v i (fst s))),
       api_call_evm = (\<lambda>fl c g v i s. apsnd (\<lambda>a. (a, snd s)) (api_call_evm H fl c g v i (fst s))),
       api_delegate_call = (\<lambda>fl c rt ps dep i s. apsnd (\<lambda>a. (a, snd s)) (api_delegate_call H fl c rt ps dep i (fst s))),
       api_delegate_call_evm = (\<lambda>fl c g i s. apsnd (\<lambda>a. (a, snd s)) (api_delegate_call_evm H fl c g i (fst s))),
       api_instantiate = (\<lambda>rt ps dep v i a salt s. apsnd (\<lambda>t. (t, snd s)) (api_instantiate H rt ps dep v i a salt (fst s))),
       api_return_value = (\<lambda>d s. apsnd (\<lambda>a. (a, snd s)) (api_return_value H d (fst s))),
       api_revert = (\<lambda>d s. apsnd (\<lambda>a. (a, snd s)) (api_revert H d (fst s))) \<rparr>"

definition callee_start :: "bytes \<Rightarrow> bytes \<Rightarrow> mock_state \<Rightarrow> mock_state" where
  "callee_start value input t =
     t\<lparr>ms_calldata := input, ms_value_transferred := value, ms_return_value := None\<rparr>"

definition run_contract ::
  "(bytes \<Rightarrow> bytes) \<Rightarrow> (bytes \<Rightarrow> 256 word) \<Rightarrow> mock_state contract \<Rightarrow> bytes \<Rightarrow> bytes \<Rightarrow> mock_state \<Rightarrow>
   callee_outcome \<times> mock_state" where
  "run_contract keccak k C value input t =
     (case call_alloc keccak (mock_api k) (host_guard keccak (mock_api k)) C (callee_start value input t) of
        (Inr _, t') \<Rightarrow> (OReturn (case ms_return_value t' of Some (_, d) \<Rightarrow> d | None \<Rightarrow> []), t')
      | (Inl (Revert d), _) \<Rightarrow> (ORevert d, t)
      | (Inl _, _) \<Rightarrow> (OTrap, t))"

definition store_return :: "bytes \<Rightarrow> mock_state \<times> 'b \<Rightarrow> mock_state \<times> 'b" where
  "store_return d s = apfst (\<lambda>c. c\<lparr>ms_return_data := d\<rparr>) s"

definition linked_run ::
  "(bytes \<Rightarrow> bytes) \<Rightarrow> (bytes \<Rightarrow> 256 word) \<Rightarrow> mock_state contract \<Rightarrow> bytes \<Rightarrow> bytes \<Rightarrow> mock_state \<times> mock_state \<Rightarrow>
   callee_outcome \<times> mock_state \<times> mock_state" where
  "linked_run keccak k C value input s = apsnd (Pair (fst s)) (run_contract keccak k C value input (snd s))"

definition linked_api ::
  "(bytes \<Rightarrow> bytes) \<Rightarrow> (bytes \<Rightarrow> 256 word) \<Rightarrow> bytes \<Rightarrow> mock_state contract \<Rightarrow> (mock_state \<times> mock_state) host_api" where
  "linked_api keccak k addr C =
     (let H = lift_api (mock_api k) in H
      \<lparr> api_call_evm := (\<lambda>fl c g v i s.
          if c = addr then call_result store_return (linked_run keccak k C v i s) else api_call_evm H fl c g v i s),
        api_call := (\<lambda>fl c rt ps dep v i s.
          if c = addr then call_result store_return (linked_run keccak k C v i s) else api_call H fl c rt ps dep v i s) \<rparr>)"

lemma take_min_length: "take (min n (length d)) d = take n d"
  by (simp add: min_def)

interpretation linked: callee_host "linked_api keccak k addr C" addr "linked_run keccak k C" store_return
  for keccak k addr C
  by unfold_locales
    (simp_all add: linked_api_def lift_api_def mock_api_def Let_def store_return_def mock_return_data_copy_def take_min_length)


section \<open>Calling a contract\<close>

text \<open>
  \<open>abi_import!\<close> gives a builder the payload \<open>()\<close>, the argument itself, or the tuple of the
  arguments, for no, one, or more parameters; a function without result has the output type \<open>()\<close>.
\<close>

fun payload_type :: "sol_ty list \<Rightarrow> sol_ty" where
  "payload_type [] = TUnit"
| "payload_type [t] = t"
| "payload_type ts = TTuple ts"

fun payload :: "sol_val list \<Rightarrow> sol_val" where
  "payload [] = VUnit"
| "payload [v] = v"
| "payload vs = VSeq vs"

definition output_type :: "sol_ty list \<Rightarrow> sol_ty" where
  "output_type outputs = (if outputs = [] then TUnit else return_type outputs)"

lemma payload_encodes:
  assumes "params_ok ps" "ts = map snd ps" "sol_wt (TTuple ts) (VSeq args)"
  shows "encode_len (codec_of (payload_type ts)) (payload args) = length (abi_enc_top (TTuple ts) (VSeq args))"
    and "length (abi_enc_top (TTuple ts) (VSeq args)) \<le> length buf \<Longrightarrow> length buf < usize_limit \<Longrightarrow>
      encode_to (codec_of (payload_type ts)) (payload args) buf =
      Some (abi_enc_top (TTuple ts) (VSeq args) @ drop (length (abi_enc_top (TTuple ts) (VSeq args))) buf)"
proof -
  have wf: "list_all sol_wf ts" "list_all param_ok ts"
    using assms(1,2) by (auto simp: params_ok_def list_all_iff)
  have len: "length args = length ts" using assms(3) by (auto dest: list_all2_lengthD)
  have e: "encode_len (codec_of (payload_type ts)) (payload args) = length (abi_enc_top (payload_type ts) (payload args)) \<and>
      (length (abi_enc_top (payload_type ts) (payload args)) \<le> length buf \<longrightarrow> length buf < usize_limit \<longrightarrow>
        encode_to (codec_of (payload_type ts)) (payload args) buf =
        Some (abi_enc_top (payload_type ts) (payload args) @ drop (length (abi_enc_top (payload_type ts) (payload args))) buf))"
    if "sol_wf (payload_type ts)" "sol_wt (payload_type ts) (payload args)" for buf
    using encode_to_spec_aux [OF that] by blast
  consider "ts = []" | t where "ts = [t]" | t u us where "ts = t # u # us"
    by (cases ts rule: payload_type.cases) auto
  then have "encode_len (codec_of (payload_type ts)) (payload args) = length (abi_enc_top (TTuple ts) (VSeq args)) \<and>
    (length (abi_enc_top (TTuple ts) (VSeq args)) \<le> length buf \<longrightarrow> length buf < usize_limit \<longrightarrow>
      encode_to (codec_of (payload_type ts)) (payload args) buf =
      Some (abi_enc_top (TTuple ts) (VSeq args) @ drop (length (abi_enc_top (TTuple ts) (VSeq args))) buf))" for buf
  proof cases
    case 1
    then show ?thesis
      using len by (simp add: impl_unit_def encode_len_def encode_to_def abi_enc_top_def seq_enc_def
          seq_head_len_def seq_tails_def)
  next
    case (2 t)
    then obtain v where v: "args = [v]" "sol_wt t v" "sol_wf t" "param_ok t"
      using len assms(3) wf by (cases args) auto
    have "abi_enc_top t v = abi_enc_top (TTuple [t]) (VSeq [v])"
      using v(4) by (cases t)
        (auto simp: abi_enc_top_def seq_enc_def seq_head_len_def seq_tails_def item_head_def item_tail_def)
    then show ?thesis using e v 2 by simp
  next
    case (3 t u us)
    moreover have "payload args = VSeq args" using len 3 by (cases args rule: payload.cases) auto
    ultimately show ?thesis using e assms(3) wf by (simp add: list_all_iff)
  qed
  then show "encode_len (codec_of (payload_type ts)) (payload args) = length (abi_enc_top (TTuple ts) (VSeq args))"
    "length (abi_enc_top (TTuple ts) (VSeq args)) \<le> length buf \<Longrightarrow> length buf < usize_limit \<Longrightarrow>
      encode_to (codec_of (payload_type ts)) (payload args) buf =
      Some (abi_enc_top (TTuple ts) (VSeq args) @ drop (length (abi_enc_top (TTuple ts) (VSeq args))) buf)"
    by blast+
qed

lemma fill_input_is:
  assumes "params_ok ps" "ts = map snd ps" "sol_wt (TTuple ts) (VSeq args)"
    and "length prefix + encode_len (codec_of (payload_type ts)) (payload args) \<le> length buf" "length buf < usize_limit"
  shows "fill_input prefix (codec_of (payload_type ts)) (payload args) buf =
    Some (prefix @ abi_enc_top (TTuple ts) (VSeq args) @
      drop (length prefix + length (abi_enc_top (TTuple ts) (VSeq args))) buf)"
proof -
  note e = payload_encodes [OF assms(1-3)]
  have "copy_at buf 0 prefix = Some (prefix @ drop (length prefix) buf)"
    using assms(4) by (simp add: copy_at_def)
  then show ?thesis
    using e(2) [of "drop (length prefix) buf"] assms(4,5) e(1)
    by (simp add: fill_input_def with_suffix_append add.commute)
qed


text \<open>The builder calls the method \<open>m\<close> of the contract with the arguments.\<close>

definition calls ::
  "(bytes \<Rightarrow> bytes) \<Rightarrow> 's contract \<Rightarrow> call_builder \<Rightarrow> 's method_info \<Rightarrow> sol_val list \<Rightarrow> bool" where
  "calls keccak C self m args \<longleftrightarrow>
     length (cl_selector self) = 4 \<and>
     find (\<lambda>m. build_selector_const keccak m = Some (cl_selector self)) (methods C) = Some m \<and>
     list_all (sol_decodable \<circ> snd) (param_types m) \<and>
     sol_wt (TTuple (map snd (param_types m))) (VSeq args) \<and> cl_payload self = payload args \<and>
     (mutability m = Payable \<or> witness_value (cl_witness self) = 0)"

text \<open>The state in which the callee starts, and in which its body runs.\<close>

definition callee_entry :: "call_builder \<Rightarrow> 's method_info \<Rightarrow> sol_val list \<Rightarrow> bytes \<Rightarrow> mock_state \<Rightarrow> mock_state" where
  "callee_entry self m args input_buf t =
     (let enc = abi_enc_top (TTuple (map snd (param_types m))) (VSeq args) in
      callee_start (u256_to_le (ucast (witness_value (cl_witness self))))
        (cl_selector self @ enc @ drop (4 + length enc) input_buf) t)"

lemma u256_to_le_zero: "u256_to_le 0 = replicate 32 0"
proof -
  have "be_bytes 32 0 = replicate 32 0" by simp
  then show ?thesis by (simp add: u256_to_le_def to_be_def)
qed

lemma zero_value: "\<not> value_transferred_is_nonzero (mock_api k) (callee_start (u256_to_le 0) input t)"
  by (simp add: value_transferred_is_nonzero_def value_is_nonzero_bytes_def mock_api_def callee_start_def
      u256_to_le_zero)

lemma run_contract_is:
  assumes "contract_ok True C" "calls keccak C self m args" "length input_buf + 32 < usize_limit"
    and "4 + encode_len (codec_of (payload_type (map snd (param_types m)))) (cl_payload self) \<le> length input_buf"
    and "G = host_guard keccak (mock_api k)" "s = callee_entry self m args input_buf t"
    and "guard_mode_of m = NoGuard \<or> \<not> g_is_locked G s"
    and "invoke m args (if guard_mode_of m = FullGuard then g_lock G s else s) = (Inr r, s')"
    and "fill_input (cl_selector self) (codec_of (payload_type (map snd (param_types m)))) (cl_payload self) input_buf = Some input"
  shows "run_contract keccak k C (u256_to_le (ucast (witness_value (cl_witness self)))) input t =
    (case result_spec (mock_api k) True (return_types m) r (if guard_mode_of m = FullGuard then g_unlock G s' else s') of
        (Inr _, t') \<Rightarrow> (OReturn (case ms_return_value t' of Some (_, d) \<Rightarrow> d | None \<Rightarrow> []), t')
      | (Inl (Revert d), _) \<Rightarrow> (ORevert d, t)
      | (Inl _, _) \<Rightarrow> (OTrap, t))"
proof -
  let ?ts = "map snd (param_types m)"
  let ?enc = "abi_enc_top (TTuple ?ts) (VSeq args)"
  note c = assms(2) [unfolded calls_def]
  have m: "m \<in> set (methods C)" using c by (auto dest: find_mem)
  then have "method_ok True m" using assms(1) by (simp add: contract_ok_def list_all_iff)
  then have ps: "params_ok (param_types m)" by (simp add: method_ok_def)
  note enc = payload_encodes(1) [OF ps refl, of args]
  have input: "input = cl_selector self @ ?enc @ drop (4 + length ?enc) input_buf"
    using fill_input_is [OF ps refl, of args "cl_selector self" input_buf] assms(3,4,9) c by simp
  have s: "s = callee_start (u256_to_le (ucast (witness_value (cl_witness self)))) input t"
    by (simp add: assms(6) callee_entry_def Let_def input)
  have data: "ms_calldata s = cl_selector self @ ?enc @ drop (4 + length ?enc) input_buf"
    by (simp add: s callee_start_def input)
  have len: "length (ms_calldata s) + 32 < usize_limit"
    using assms(3,4) c enc by (simp add: data)
  have val: "mutability m = Payable \<or> \<not> value_transferred_is_nonzero (mock_api k) s"
    using c zero_value by (auto simp: s)
  have "(if True then call_alloc keccak (mock_api k) G C s else call_no_alloc keccak (mock_api k) G C s) =
    result_spec (mock_api k) True (return_types m) r (if guard_mode_of m = FullGuard then g_unlock G s' else s')"
    by (rule call_reaches_method [OF assms(1) _ _ _ _ data len _ val assms(5,7,8)]) (use c in simp_all)
  then show ?thesis by (simp add: run_contract_def s assms(5))
qed


lemma method_ok_value:
  "method_ok a m \<Longrightarrow> sol_wt (TTuple (map snd (param_types m))) (VSeq args) \<Longrightarrow>
   invoke m args s = (Inr (Inr v), s') \<Longrightarrow> value_ok a (return_types m) v"
  unfolding method_ok_def by fastforce

text \<open>The calldata with which the callee starts is what the builder wrote into its input buffer.\<close>

lemma entry_calldata:
  assumes "params_ok (param_types m)" "calls keccak C self m args" "length input_buf < usize_limit"
    and "4 + encode_len (codec_of (payload_type (map snd (param_types m)))) (cl_payload self) \<le> length input_buf"
  shows "fill_input (cl_selector self) (codec_of (payload_type (map snd (param_types m)))) (cl_payload self) input_buf =
    Some (ms_calldata (callee_entry self m args input_buf t))"
  using fill_input_is [OF assms(1) refl, of args "cl_selector self" input_buf] assms(2-4)
  by (simp add: calls_def callee_entry_def callee_start_def Let_def)

lemma raw_call_delivered:
  assumes "delivers H flags addr (cl_limits self) (u256_to_le (ucast (witness_value (cl_witness self)))) input h out h'"
    and "fill_input (cl_selector self) I (cl_payload self) input_buf = Some input"
    and "4 + encode_len I (cl_payload self) \<le> length input_buf"
    and "flags = \<lparr> READ_ONLY = (cl_witness self = WView \<or> cl_witness self = WPure), ALLOW_REENTRY = cl_allow_reentry self \<rparr>"
  shows "call_raw_inner H I self addr input_buf h = Some (map_err (outcome_result out, h'))"
proof -
  have "flags = (if cl_allow_reentry self then (witness_call_flags (cl_witness self))\<lparr>ALLOW_REENTRY := True\<rparr>
      else witness_call_flags (cl_witness self))"
    by (cases "cl_witness self") (simp_all add: assms(4) no_flags_def)
  then show ?thesis
    using assms(1-3) by (cases "cl_limits self") (auto simp: call_raw_inner_def delivers_def Let_def)
qed

text \<open>
  C20: a cross-contract call is a method call. A builder with the selector of a method and the payload
  \<open>abi_import!\<close> makes of its arguments writes calldata on which the generated entry point of the callee
  runs exactly that method on those arguments, whatever follows them in the input buffer, releases its
  lock and returns the encoded result. On every host, in every state of the caller, that answers this
  one call (made with the flags, limits and value of the builder) with the callee's outcome, the builder
  gives back the method's result when the output buffer has room for its encoding, and \<open>OutputBufTooSmall\<close>
  when it has not. The callee runs on the mock host and takes parameters as in C8: no dynamic tuple, no
  derived dynamic struct and no fixed array of a dynamic type, whose arguments a callee misreads (C40).
\<close>

theorem cross_call_returns:
  assumes "contract_ok True C" "calls keccak C self m args" "length input_buf + 32 < usize_limit"
    and "I = codec_of (payload_type (map snd (param_types m)))" "4 + encode_len I (cl_payload self) \<le> length input_buf"
    and "G = host_guard keccak (mock_api k)" "s = callee_entry self m args input_buf t"
    and "guard_mode_of m = NoGuard \<or> \<not> g_is_locked G s"
    and "invoke m args (if guard_mode_of m = FullGuard then g_lock G s else s) = (Inr (Inr v), s')" "ms_return_value s' = None"
    and "d = (if return_types m = [] then [] else abi_enc_top (return_type (return_types m)) v)"
    and "sol_decodable (output_type (return_types m))" "length d + 32 < usize_limit"
    and "flags = \<lparr> READ_ONLY = (cl_witness self = WView \<or> cl_witness self = WPure), ALLOW_REENTRY = cl_allow_reentry self \<rparr>"
    and "value = u256_to_le (ucast (witness_value (cl_witness self)))"
    and "delivers H flags addr (cl_limits self) value (ms_calldata s) h
      (fst (run_contract keccak k C value (ms_calldata s) t)) h'"
  shows "run_contract keccak k C value (ms_calldata s) t =
      (OReturn d, (if guard_mode_of m = FullGuard then g_unlock G s' else s')\<lparr>ms_return_value := Some (FlagsEmpty, d)\<rparr>) \<and>
    builder_call H I (codec_of (output_type (return_types m))) self addr input_buf output_len h =
      Some (if length d \<le> output_len then Inr (if return_types m = [] then VUnit else v) else Inl EOutputBufTooSmall, h')"
proof -
  note c = assms(2) [unfolded calls_def]
  have "m \<in> set (methods C)" using c by (auto dest: find_mem)
  then have mok: "method_ok True m" using assms(1) by (simp add: contract_ok_def list_all_iff)
  then have ps: "params_ok (param_types m)" by (simp add: method_ok_def)
  have vok: "value_ok True (return_types m) v"
    using method_ok_value [OF mok _ assms(9)] c by simp
  have input: "fill_input (cl_selector self) I (cl_payload self) input_buf = Some (ms_calldata s)"
    unfolding assms(4,7) using entry_calldata [OF ps assms(2)] assms(3-5) by simp
  have fin: "ms_return_value (if guard_mode_of m = FullGuard then g_unlock G s' else s') = None"
    using assms(6,10) by (simp add: host_guard_keeps_return)
  have run: "run_contract keccak k C value (ms_calldata s) t =
    (OReturn d, (if guard_mode_of m = FullGuard then g_unlock G s' else s')\<lparr>ms_return_value := Some (FlagsEmpty, d)\<rparr>)"
    using run_contract_is [OF assms(1-3) assms(5) [unfolded assms(4)] assms(6-9) input [unfolded assms(4)]]
    by (simp add: result_spec_def mock_return_fresh [OF fin] assms(15) flip: assms(11))
  have dec: "decode (codec_of (output_type (return_types m))) d = Some (if return_types m = [] then VUnit else v)"
  proof (cases "return_types m = []")
    case True
    then show ?thesis by (simp add: output_type_def decode_def impl_unit_def)
  next
    case False
    then show ?thesis
      using decode_abi_top [of "return_type (return_types m)" v "[]"] vok assms(11-13)
      by (simp add: output_type_def value_ok_def)
  qed
  have del: "delivers H flags addr (cl_limits self) value (ms_calldata s) h (OReturn d) h'"
    using assms(16) run by simp
  then have size: "output_size H h' = length d" and copy: "api_return_data_copy H n 0 h' = take n d" for n
    using assms(13) by (simp_all add: delivers_def output_size_def unat_of_nat usize_limit_def)
  then show ?thesis
    using run raw_call_delivered [OF del [unfolded assms(15)] input assms(5,14)] dec
    by (simp add: builder_call_def map_err_def then_extract_def extract_output_def)
qed

text \<open>The \<open>SolError\<close> of a \<open>RevertString\<close>.\<close>

definition revert_string_error :: "bytes \<Rightarrow> sol_error" where
  "revert_string_error msg = \<lparr> encoded_size = revert_encoded_size msg, error_encode_to = revert_encode_to msg \<rparr>"

lemma revert_string_error_data:
  assumes "revert_encoded_size msg < usize_limit"
  shows "error_data True (revert_string_error msg) = revert_data msg"
proof -
  have "68 \<le> revert_encoded_size msg" by (simp add: revert_encoded_size_def)
  then have "revert_encode_to msg (replicate (revert_encoded_size msg) 0) =
      Some (length (revert_data msg), revert_data msg @ drop (length (revert_data msg)) (replicate (revert_encoded_size msg) 0))"
    using revert_encode_is [of "replicate (revert_encoded_size msg) 0" msg] assms
      revert_kept_all [of msg "revert_encoded_size msg - 4"] by (simp add: Let_def)
  then show ?thesis
    by (simp add: error_data_def revert_string_error_def revert_cap_def length_revert_data)
qed

text \<open>Whatever error a method fails with, the caller has its data, and decodes it with any decoder.\<close>

lemma method_error_reaches_caller:
  assumes "contract_ok True C" "calls keccak C self m args" "length input_buf + 32 < usize_limit"
    and "I = codec_of (payload_type (map snd (param_types m)))" "4 + encode_len I (cl_payload self) \<le> length input_buf"
    and "G = host_guard keccak (mock_api k)" "s = callee_entry self m args input_buf t"
    and "guard_mode_of m = NoGuard \<or> \<not> g_is_locked G s"
    and "invoke m args (if guard_mode_of m = FullGuard then g_lock G s else s) = (Inr (Inl E), s')"
    and "ms_return_value s' = None" "length (error_data True E) < usize_limit"
    and "H = linked_api keccak k addr C" "after = (c\<lparr>ms_return_data := error_data True E\<rparr>, t)"
  shows "builder_call H I R self addr input_buf output_len (c, t) = Some (Inl ECalleeReverted, after)"
    and "try_decode_error H T ECalleeReverted after = T (error_data True E) 0"
    and "length (error_data True E) \<le> buf_len \<Longrightarrow>
      try_decode_error_raw H T ECalleeReverted buf_len after = T (error_data True E) 0"
proof -
  note c = assms(2) [unfolded calls_def]
  have "m \<in> set (methods C)" using c by (auto dest: find_mem)
  then have "method_ok True m" using assms(1) by (simp add: contract_ok_def list_all_iff)
  then have ps: "params_ok (param_types m)" by (simp add: method_ok_def)
  obtain input where input: "fill_input (cl_selector self) I (cl_payload self) input_buf = Some input"
    using fill_input_is [OF ps refl, of args "cl_selector self" input_buf] assms(3-5) c by simp
  have fin: "ms_return_value (if guard_mode_of m = FullGuard then g_unlock G s' else s') = None"
    using assms(6,10) by (simp add: host_guard_keeps_return)
  have run: "run_contract keccak k C (u256_to_le (ucast (witness_value (cl_witness self)))) input t =
      (ORevert (error_data True E), t)"
    using run_contract_is [OF assms(1-3) assms(5) [unfolded assms(4)] assms(6-9) input [unfolded assms(4)]]
    by (simp add: result_spec_def mock_hrevert [OF fin])
  have after: "after = store_return (error_data True E) (c, t)" by (simp add: assms(13) store_return_def)
  show "builder_call H I R self addr input_buf output_len (c, t) = Some (Inl ECalleeReverted, after)"
    unfolding assms(12) using linked.call_reverts [OF input assms(5), where d = "error_data True E" and s' = "(c, t)"] run
    by (simp add: linked_run_def after)
  show "try_decode_error H T ECalleeReverted after = T (error_data True E) 0"
    unfolding assms(12) after by (rule linked.revert_data_decodes(1) [OF assms(11)])
  show "try_decode_error_raw H T ECalleeReverted buf_len after = T (error_data True E) 0"
    if "length (error_data True E) \<le> buf_len"
    unfolding assms(12) after by (rule linked.revert_data_decodes(2) [OF assms(11) that])
qed

section \<open>CallError on the wire, and the precompiles\<close>

lemma discriminant_back: "call_error_of_discriminant (discriminant e) = Some e"
  by (cases e) (simp_all add: call_error_of_discriminant_def)

text \<open>
  C21: \<open>CallError\<close> survives the wire: a contract that reverts with the error of a call it made writes
  36 bytes, from which its caller reads the same error.
\<close>

theorem call_error_round_trip:
  assumes "36 \<le> length buf" "length buf < usize_limit"
  shows "\<exists>b. call_error_encode_to keccak e buf = Some (36, b) \<and>
    call_error_decode_at keccak (take 36 b) 0 = Some (Some e)"
proof -
  let ?d = "ucast (discriminant e) :: 256 word"
  have sel: "length (CALL_ERROR_SELECTOR keccak) = 4"
    by (simp add: CALL_ERROR_SELECTOR_def const_selector_def Let_def)
  have w: "abi_enc_top (TPrim U256) (VPrim (VU256 ?d)) = be_bytes 32 (unat ?d)"
    by (simp add: abi_enc_top_def seq_enc_def seq_head_len_def seq_tails_def item_head_def item_tail_def)
  have "encode_len (codec_of (TPrim U256)) (VPrim (VU256 ?d)) = 32"
    "encode_to (codec_of (TPrim U256)) (VPrim (VU256 ?d)) (drop 4 buf) = Some (be_bytes 32 (unat ?d) @ drop 36 buf)"
    using encode_to_spec_aux(1) [of "TPrim U256" "VPrim (VU256 ?d)"]
      encode_to_spec_aux(2) [of "TPrim U256" "VPrim (VU256 ?d)" "drop 4 buf"] assms
    by (simp_all add: w prim_wt_def del: codec_of.simps)
  then have enc: "call_error_encode_to keccak e buf =
      Some (36, CALL_ERROR_SELECTOR keccak @ be_bytes 32 (unat ?d) @ drop 36 buf)"
    using assms(1) sel
    by (simp add: call_error_encode_to_def copy_at_def with_suffix_append Let_def del: codec_of.simps)
  have "be_bytes 32 (unat ?d) = prim_word (VU8 (discriminant e))" by (simp add: unat_ucast_256)
  then have "u8_decode_at (CALL_ERROR_SELECTOR keccak @ be_bytes 32 (unat ?d)) 4 = Some (discriminant e)"
    using prim_decode_word(1) [of U8 "VU8 (discriminant e)" "CALL_ERROR_SELECTOR keccak" "[]"] sel
    by (auto simp: prim_wt_def usize_limit_def)
  moreover have "take 36 (CALL_ERROR_SELECTOR keccak @ be_bytes 32 (unat ?d) @ drop 36 buf) =
      CALL_ERROR_SELECTOR keccak @ be_bytes 32 (unat ?d)"
    using sel by simp
  moreover have "selector_at (CALL_ERROR_SELECTOR keccak) (CALL_ERROR_SELECTOR keccak @ be_bytes 32 (unat ?d)) 0"
    using sel by (simp add: selector_at_def get_range_def usize_limit_def)
  ultimately show ?thesis
    using enc sel by (simp add: call_error_decode_at_def discriminant_back usize_limit_def)
qed

text \<open>A host on which calls reach precompiles, each a function of its address and input.\<close>

definition precompile_api :: "(bytes \<Rightarrow> 256 word) \<Rightarrow> (bytes \<Rightarrow> bytes \<Rightarrow> bytes) \<Rightarrow> mock_state host_api" where
  "precompile_api k E = (mock_api k)
     \<lparr> api_call_evm := (\<lambda>flags callee gas value input s.
         call_result (\<lambda>d s. s\<lparr>ms_return_data := d\<rparr>) (OReturn (E callee input), s)),
       api_call := (\<lambda>flags callee ref_time proof_size deposit value input s.
         call_result (\<lambda>d s. s\<lparr>ms_return_data := d\<rparr>) (OReturn (E callee input), s)) \<rparr>"

interpretation precompiles: callee_host "precompile_api k E" addr "\<lambda>value input s. (OReturn (E addr input), s)"
  "\<lambda>d s. s\<lparr>ms_return_data := d\<rparr>" for k E addr
  by unfold_locales (simp_all add: precompile_api_def mock_api_def mock_return_data_copy_def take_min_length)

lemma call_precompile_is:
  assumes "length (E callee input) < usize_limit"
  shows "call_precompile (precompile_api k E) callee input s =
    (if length (E callee input) = 32 then Some (E callee input) else None, s\<lparr>ms_return_data := E callee input\<rparr>)"
proof -
  have "(of_nat (length (E callee input)) = (32 :: 64 word)) = (length (E callee input) = 32)"
    using assms by (simp add: word_eq_iff_unsigned [where 'a = nat] unat_of_nat usize_limit_def)
  then show ?thesis
    using precompiles.size [of k E "E callee input" s] precompiles.copy [of k E 32 "E callee input" s]
    by (simp add: call_precompile_def precompiles.call_evm Let_def)
qed

lemma ecrecover_input_is:
  assumes "length hash = 32" "length r = 32" "length s = 32"
  shows "ecrecover_input hash v r s = Some (hash @ replicate 31 0 @ [if v < 27 then v + 27 else v] @ r @ s)"
proof -
  have z: "replicate 128 (0 :: 8 word) = replicate 32 0 @ replicate 31 0 @ [0] @ replicate 32 0 @ replicate 32 0"
    by (simp flip: replicate_add replicate_Suc)
  show ?thesis
    unfolding ecrecover_input_def z
    using assms copy_at_append [of 0 "[]" "replicate 32 0" hash "replicate 31 0 @ [0] @ replicate 32 0 @ replicate 32 0"]
      copy_at_append [of 63 "hash @ replicate 31 0" "[0]" "[if v < 27 then v + 27 else v]" "replicate 32 0 @ replicate 32 0"]
      copy_at_append [of 64 "hash @ replicate 31 0 @ [if v < 27 then v + 27 else v]" "replicate 32 0" r "replicate 32 0"]
      copy_at_append [of 96 "hash @ replicate 31 0 @ [if v < 27 then v + 27 else v] @ r" "replicate 32 0" s "[]"]
    by simp
qed

lemma p256_input_is:
  assumes "length hash = 32" "length r = 32" "length s = 32" "length x = 32" "length y = 32"
  shows "p256_input hash r s x y = Some (hash @ r @ s @ x @ y)"
proof -
  have z: "replicate 160 (0 :: 8 word) = replicate 32 0 @ replicate 32 0 @ replicate 32 0 @ replicate 32 0 @ replicate 32 0"
    by (simp flip: replicate_add)
  let ?z = "replicate 32 (0 :: 8 word)"
  show ?thesis
    unfolding p256_input_def z
    using assms copy_at_append [of 0 "[]" ?z hash "?z @ ?z @ ?z @ ?z"] copy_at_append [of 32 hash ?z r "?z @ ?z @ ?z"]
      copy_at_append [of 64 "hash @ r" ?z s "?z @ ?z"] copy_at_append [of 96 "hash @ r @ s" ?z x ?z]
      copy_at_append [of 128 "hash @ r @ s @ x" ?z y "[]"]
    by simp
qed

text \<open>
  The precompile wrappers frame their calls as the Ethereum specifications say. \<open>ecrecover\<close> sends
  the hash, the recovery id as a word, with 27 added to a raw id, and the signature, and returns the
  address of the output word unless the output is not one word or is zero; \<open>p256_verify\<close> sends the
  five words and accepts exactly the output word one.
\<close>

theorem precompiles_framed:
  assumes "length hash = 32" "length r = 32" "length s = 32" "length x = 32" "length y = 32"
    and "\<forall>a i. length (E a i) < usize_limit"
  shows "(let out = E ECRECOVER (hash @ replicate 31 0 @ [if v < 27 then v + 27 else v] @ r @ s) in
      ecrecover (precompile_api k E) hash v r s st =
      Some (if length out = 32 \<and> out \<noteq> replicate 32 0 then Some (drop 12 out) else None, st\<lparr>ms_return_data := out\<rparr>)) \<and>
    (let out = E P256_VERIFY (hash @ r @ s @ x @ y) in
      p256_verify (precompile_api k E) hash r s x y st = Some (out = replicate 31 0 @ [1], st\<lparr>ms_return_data := out\<rparr>))"
  using assms
  by (auto simp: ecrecover_def p256_verify_def ecrecover_input_is p256_input_is call_precompile_is Let_def)


section \<open>Witnesses\<close>

theorem call_error_round_trip_witness:
  "\<exists>b. call_error_encode_to (\<lambda>_. replicate 32 0) EOutputBufTooSmall (replicate 36 0) = Some (36, b) \<and>
    call_error_decode_at (\<lambda>_. replicate 32 0) (take 36 b) 0 = Some (Some EOutputBufTooSmall)"
  by (rule call_error_round_trip) (simp_all add: usize_limit_def)

theorem precompiles_framed_witness:
  "p256_verify (precompile_api (\<lambda>_. 9) (\<lambda>_ _. replicate 31 0 @ [1])) (replicate 32 5) (replicate 32 6) (replicate 32 7)
     (replicate 32 8) (replicate 32 9) mock_new = Some (True, mock_new\<lparr>ms_return_data := replicate 31 0 @ [1]\<rparr>)"
proof -
  have "length (replicate 32 x) = 32" "\<forall>a i. length (replicate 31 0 @ [1 :: 8 word]) < usize_limit" for x :: "8 word"
    by (simp_all add: usize_limit_def)
  from precompiles_framed [OF this(1) this(1) this(1) this(1) this(1) this(2),
      where k = "\<lambda>_. 9" and st = mock_new, THEN conjunct2]
  show ?thesis unfolding Let_def by simp
qed

theorem cross_call_returns_witness:
  "\<exists>t. builder_call (linked_api (\<lambda>_. replicate 32 0) (\<lambda>_. 9) (replicate 20 1) echo_contract)
      (codec_of (TPrim U8)) (codec_of (TPrim U8))
      \<lparr> cl_selector = [0, 0, 0, 0], cl_payload = VPrim (VU8 7), cl_witness = WNonPayable,
        cl_limits = call_limits_default, cl_allow_reentry = False \<rparr>
      (replicate 20 1) (replicate 40 9) 512 (mock_new, mock_new) =
    Some (Inr (VPrim (VU8 7)), mock_new\<lparr>ms_return_data := be_bytes 32 7\<rparr>, t)"
proof -
  let ?K = "\<lambda>_. replicate 32 0" and ?k = "\<lambda>_. 9" and ?C = "echo_contract :: mock_state contract"
  let ?G = "host_guard ?K (mock_api ?k)"
  define b where "b = \<lparr> cl_selector = [0, 0, 0, 0], cl_payload = VPrim (VU8 7), cl_witness = WNonPayable,
        cl_limits = call_limits_default, cl_allow_reentry = False \<rparr>"
  define m :: "mock_state method_info" where "m = hd (methods ?C)"
  have m: "guard_mode_of m = FullGuard" "param_types m = [(False, TPrim U8)]" "return_types m = [TPrim U8]"
    "invoke m [VPrim (VU8 7)] t = (Inr (Inr (VPrim (VU8 7))), t)" for t
    by (simp_all add: m_def echo_contract_def guard_mode_of_def)
  have "find (\<lambda>m. build_selector_const ?K m = Some [0, 0, 0, 0]) (methods ?C) = Some m"
    by (simp add: m_def echo_contract_def build_selector_const_def build_method_signature_expr_def const_selector_def)
  then have c: "calls ?K ?C b m [VPrim (VU8 7)]" by (simp add: calls_def b_def m prim_wt_def)
  define s where "s = callee_entry b m [VPrim (VU8 7)] (replicate 40 9) mock_new"
  have s: "\<not> g_is_locked ?G s" "ms_return_value (g_lock ?G s) = None"
    by (simp_all add: s_def callee_entry_def callee_start_def Let_def host_guard_def mock_api_def mock_new_def
        reentrancy_is_locked_def host_lock_def UNLOCKED_def mock_get_storage_or_zero_def mock_set_storage_or_clear_def)
  have enc: "abi_enc_top (TPrim U8) (VPrim (VU8 7)) = be_bytes 32 7"
    by (simp add: abi_enc_top_def seq_enc_def seq_head_len_def seq_tails_def item_head_def item_tail_def)
  have len: "encode_len (codec_of (TPrim U8)) (VPrim (VU8 7)) = 32"
    by (simp add: encode_len_def impl_prim_def)
  have pl: "cl_payload b = VPrim (VU8 7)" by (simp add: b_def)
  define t where "t = (g_unlock ?G (g_lock ?G s))\<lparr>ms_return_value := Some (FlagsEmpty, be_bytes 32 7)\<rparr>"
  let ?f = "\<lparr> READ_ONLY = (cl_witness b = WView \<or> cl_witness b = WPure), ALLOW_REENTRY = cl_allow_reentry b \<rparr>"
  let ?v = "u256_to_le (ucast (witness_value (cl_witness b)))" and ?H = "linked_api ?K ?k (replicate 20 1) ?C"
  have use: "run_contract ?K ?k ?C ?v (ms_calldata s) mock_new = (OReturn (be_bytes 32 7), t) \<and>
    builder_call H (codec_of (TPrim U8)) (codec_of (TPrim U8)) b (replicate 20 1) (replicate 40 9) 512 h =
      Some (Inr (VPrim (VU8 7)), h')"
    if "delivers H ?f (replicate 20 1) (cl_limits b) ?v (ms_calldata s) h
      (fst (run_contract ?K ?k ?C ?v (ms_calldata s) mock_new)) h'"
    for H :: "(mock_state \<times> mock_state) host_api" and h h'
    using cross_call_returns [OF echo_ok c, of "replicate 40 9" "codec_of (TPrim U8)" ?G ?k s mock_new "VPrim (VU8 7)"
        "g_lock ?G s" "be_bytes 32 7" ?f ?v H "replicate 20 1" h h' 512] s that
    by (simp add: m len pl enc return_type_def output_type_def usize_limit_def s_def [symmetric] t_def del: codec_of.simps)
  obtain out t' where run: "run_contract ?K ?k ?C ?v (ms_calldata s) mock_new = (out, t')"
    by (cases "run_contract ?K ?k ?C ?v (ms_calldata s) mock_new")
  have lr: "linked_run ?K ?k ?C ?v (ms_calldata s) (mock_new, mock_new) = (out, mock_new, t')"
    by (simp add: linked_run_def run)
  note res = use [unfolded run fst_conv, OF linked.run_delivers [OF lr]]
  then have "out = OReturn (be_bytes 32 7)" by simp
  then show ?thesis
    using res [THEN conjunct2] unfolding b_def by (auto simp: store_return_def)
qed

end
