(* ===== verification/DeriveErrors.thy ===== *)
theory DeriveErrors
  imports DeriveSol CrossCall
begin

text \<open>
  \<open>#[derive(SolError)]\<close> and \<open>#[derive(SolEvent)]\<close> (\<open>codegen/sol_error.rs\<close>, \<open>codegen/sol_event.rs\<close>).
  An error is its selector and its fields, read and written by the loops of dynamic structs (theory
  \<open>DeriveSol\<close>); an error enum tries its variants in order. An event logs a list of topics, one for
  each indexed field, and the encoding of the other fields. The \<open>SolError\<close> trait is the record
  \<open>error_impl\<close> over the values of the fields, \<open>None\<close> a panic of an encoder or \<open>DecodeError\<close>. The
  contracts are the Solidity ABI specification of revert data and of logs, and where the code leaves
  it.
\<close>

section \<open>Signatures\<close>

definition build_signature :: "(bytes \<Rightarrow> bytes) \<Rightarrow> bytes \<Rightarrow> sol_type list \<Rightarrow> bytes" where
  "build_signature names ename ss =
     (if \<not> list_ex st_has_custom_types ss
      then ename @ ascii ''('' @ comma_sep (map st_canonical_name ss) @ ascii '')''
      else ename @ ascii ''('' @ comma_sep (name_parts_list names ss) @ ascii '')'')"

definition build_selector :: "(bytes \<Rightarrow> bytes) \<Rightarrow> (bytes \<Rightarrow> bytes) \<Rightarrow> bytes \<Rightarrow> sol_type list \<Rightarrow> bytes" where
  "build_selector keccak names ename ss = const_selector keccak (build_signature names ename ss)"

section \<open>Errors\<close>

record 'e error_impl =
  err_encoded_size :: "'e \<Rightarrow> nat"
  err_encode_to :: "'e \<Rightarrow> bytes \<Rightarrow> written"
  err_decode_at :: "bytes \<Rightarrow> nat \<Rightarrow> 'e decoded"

definition derived_error_encode_to :: "bytes \<Rightarrow> dfield list \<Rightarrow> sol_val list \<Rightarrow> bytes \<Rightarrow> written" where
  "derived_error_encode_to selector fs vs buf =
     Option.bind (copy_at buf 0 selector) (\<lambda>buf.
     map_option (\<lambda>(n, tail). (4 + n, take 4 buf @ tail))
       (if fs = [] then Some (0, drop 4 buf)
        else dyn_encode_fields fs 0 (zip fs vs) (head_sum fs) (drop 4 buf)))"

definition derived_error_decode_at :: "bytes \<Rightarrow> dfield list \<Rightarrow> bytes \<Rightarrow> nat \<Rightarrow> sol_val list decoded" where
  "derived_error_decode_at selector fs input offset =
     (if length input < 4 then None
      else if selector_at selector input offset
      then map_option Some (dyn_decode_fields fs 0 fs (drop 4 input) offset)
      else Some None)"

definition derive_error :: "bytes \<Rightarrow> dfield list \<Rightarrow> sol_val list error_impl" where
  "derive_error selector fs =
     \<lparr> err_encoded_size = (\<lambda>vs. if fs = [] then 4 else 4 + dyn_encode_len fs vs),
       err_encode_to = derived_error_encode_to selector fs,
       err_decode_at = derived_error_decode_at selector fs \<rparr>"

text \<open>An enum over errors: a value is the index of the variant and its payload.\<close>

fun enum_decode_arms :: "'e error_impl list \<Rightarrow> nat \<Rightarrow> bytes \<Rightarrow> nat \<Rightarrow> (nat \<times> 'e) decoded" where
  "enum_decode_arms [] i input offset = Some None"
| "enum_decode_arms (arm # arms) i input offset =
     Option.bind (err_decode_at arm input offset) (\<lambda>res.
     case res of
       Some e \<Rightarrow> Some (Some (i, e))
     | None \<Rightarrow> enum_decode_arms arms (i + 1) input offset)"

definition derive_error_enum :: "'e error_impl list \<Rightarrow> (nat \<times> 'e) error_impl" where
  "derive_error_enum arms =
     \<lparr> err_encoded_size = (\<lambda>(i, e). err_encoded_size (arms ! i) e),
       err_encode_to = (\<lambda>(i, e). err_encode_to (arms ! i) e),
       err_decode_at = enum_decode_arms arms 0 \<rparr>"

text \<open>A value of an error type, as a method returns it.\<close>

definition error_value :: "'e error_impl \<Rightarrow> 'e \<Rightarrow> sol_error" where
  "error_value E e = \<lparr> encoded_size = err_encoded_size E e, error_encode_to = err_encode_to E e \<rparr>"

section \<open>Events\<close>

text \<open>A field is its \<open>#[indexed]\<close> flag and what a derive sees of it.\<close>

type_synonym efield = "bool \<times> dfield"

record sol_event =
  ev_name :: bytes
  ev_fields :: "efield list"
  ev_anonymous :: bool
  ev_alloc :: bool

fun needs_abi_encode_hash :: "sol_type \<Rightarrow> bool" where
  "needs_abi_encode_hash (SolArray s) = True"
| "needs_abi_encode_hash (SolFixedArray s n) = True"
| "needs_abi_encode_hash (SolTuple ss) = True"
| "needs_abi_encode_hash _ = False"

fun is_custom :: "sol_type \<Rightarrow> bool" where
  "is_custom (SolCustom name) = True"
| "is_custom _ = False"

fun is_vec :: "sol_type \<Rightarrow> bool" where
  "is_vec (SolArray s) = True"
| "is_vec _ = False"

text \<open>What the macro and the assertions it emits reject at compile time.\<close>

definition indexed_accepted :: "dfield \<Rightarrow> bool" where
  "indexed_accepted f \<longleftrightarrow> \<not> is_vec (fst f) \<and>
     (if needs_abi_encode_hash (fst f) then \<not> IS_DYNAMIC (snd f)
      else if is_custom (fst f) then \<not> IS_DYNAMIC (snd f)
      else IS_DYNAMIC (snd f) \<or> HEAD_SIZE (snd f) \<le> 32)"

definition data_fields :: "sol_event \<Rightarrow> 'a list \<Rightarrow> 'a list" where
  "data_fields ev xs = map snd (filter (\<lambda>(f, x). \<not> fst f) (zip (ev_fields ev) xs))"

definition event_accepted :: "sol_event \<Rightarrow> bool" where
  "event_accepted ev \<longleftrightarrow>
     length (filter fst (ev_fields ev)) \<le> (if ev_anonymous ev then 4 else 3) \<and>
     list_all indexed_accepted (map snd (filter fst (ev_fields ev)))"

definition event_topic0 :: "(bytes \<Rightarrow> bytes) \<Rightarrow> (bytes \<Rightarrow> bytes) \<Rightarrow> sol_event \<Rightarrow> bytes" where
  "event_topic0 keccak names ev = keccak (build_signature names (ev_name ev) (map (fst \<circ> snd) (ev_fields ev)))"

definition indexed_topic_pack :: "(bytes \<Rightarrow> bytes) \<Rightarrow> dfield \<Rightarrow> sol_val \<Rightarrow> bytes option" where
  "indexed_topic_pack keccak f v =
     (if needs_abi_encode_hash (fst f)
      then map_option keccak (encode_to (snd f) v (replicate (HEAD_SIZE (snd f)) 0))
      else indexed_topic keccak (snd f) v)"

fun push_topics :: "(bytes \<Rightarrow> bytes) \<Rightarrow> (efield \<times> sol_val) list \<Rightarrow> event_topics \<Rightarrow> event_topics option" where
  "push_topics keccak [] t = Some t"
| "push_topics keccak (((indexed, f), v) # fvs) t =
     (if indexed
      then Option.bind (indexed_topic_pack keccak f v) (\<lambda>topic.
           Option.bind (topics_push t topic) (push_topics keccak fvs))
      else push_topics keccak fvs t)"

definition event_topics_of ::
  "(bytes \<Rightarrow> bytes) \<Rightarrow> (bytes \<Rightarrow> bytes) \<Rightarrow> sol_event \<Rightarrow> sol_val list \<Rightarrow> event_topics option" where
  "event_topics_of keccak names ev vs =
     Option.bind (if ev_anonymous ev then Some topics_new else topics_push topics_new (event_topic0 keccak names ev))
       (push_topics keccak (zip (ev_fields ev) vs))"

text \<open>\<open>generate_data_bodies\<close>: nothing, one field, or heads and tails. Only the low bytes of an offset are written.\<close>

fun data_encode_fields :: "(sol_codec \<times> sol_val) list \<Rightarrow> nat \<Rightarrow> nat \<Rightarrow> bytes \<Rightarrow> bytes option" where
  "data_encode_fields [] head_offset tail_offset buf = Some buf"
| "data_encode_fields ((c, v) # cvs) head_offset tail_offset buf =
     (if IS_DYNAMIC c then
        Option.bind (copy_at buf (head_offset + 24) (u64_be tail_offset)) (\<lambda>buf.
        let body_len = encode_body_len c v in
        Option.bind (with_slice buf tail_offset (tail_offset + body_len) (encode_body_to c v)) (\<lambda>buf.
        data_encode_fields cvs (head_offset + SLOT_SIZE c) (tail_offset + body_len) buf))
      else
        Option.bind (with_slice buf head_offset (head_offset + SLOT_SIZE c) (encode_body_to c v)) (\<lambda>buf.
        data_encode_fields cvs (head_offset + SLOT_SIZE c) tail_offset buf))"

fun event_data_len :: "(sol_codec \<times> sol_val) list \<Rightarrow> nat" where
  "event_data_len [] = 0"
| "event_data_len [(c, v)] = encode_len c v"
| "event_data_len cvs =
     sum_list (map (\<lambda>(c, v). SLOT_SIZE c) cvs) +
     sum_list (map (\<lambda>(c, v). if IS_DYNAMIC c then encode_body_len c v else 0) cvs)"

fun event_data_to :: "(sol_codec \<times> sol_val) list \<Rightarrow> bytes \<Rightarrow> bytes option" where
  "event_data_to [] buf = Some buf"
| "event_data_to [(c, v)] buf = encode_to c v buf"
| "event_data_to cvs buf = data_encode_fields cvs 0 (sum_list (map (\<lambda>(c, v). SLOT_SIZE c) cvs)) buf"

text \<open>
  \<open>emit\<close>: a stack buffer when the syntax shows all data fields static, a heap buffer with \<open>#[alloc]\<close>;
  otherwise there is no \<open>emit\<close>. The outer option says so, the inner one is a panic.
\<close>

definition event_emit ::
  "'s host_api \<Rightarrow> (bytes \<Rightarrow> bytes) \<Rightarrow> (bytes \<Rightarrow> bytes) \<Rightarrow> sol_event \<Rightarrow> sol_val list \<Rightarrow> 's \<Rightarrow> 's option option" where
  "event_emit H keccak names ev vs s =
     (let fs = data_fields ev (map snd (ev_fields ev)); cvs = zip (map snd fs) (data_fields ev vs);
          log = (\<lambda>len. Option.bind (event_topics_of keccak names ev vs) (\<lambda>topics.
            map_option (\<lambda>d. api_deposit_event H (topics_as_slice topics) d s)
              (event_data_to cvs (replicate len 0)))) in
      if list_all (\<lambda>f. st_is_dynamic (fst f) = Some False) fs
      then Some (log (sum_list (map (\<lambda>f. HEAD_SIZE (snd f)) fs)))
      else if ev_alloc ev then Some (log (event_data_len cvs))
      else None)"

section \<open>Fields of a program\<close>

text \<open>
  The fields of an error or event: the Rust types as written, the syntactic type the macro reads and
  the type the compiler resolves.
\<close>

definition program_fields :: "(bytes \<Rightarrow> dty option) \<Rightarrow> rust_type list \<Rightarrow> (sol_type \<times> dty) list \<Rightarrow> bool" where
  "program_fields env rs fs \<longleftrightarrow>
     list_all2 (\<lambda>r (s, d). from_rust_type r = Some s \<and> rust_ty env r = Some d \<and> dwf d) rs fs"

definition dfields :: "(sol_type \<times> dty) list \<Rightarrow> dfield list" where
  "dfields fs = map (\<lambda>(s, d). (s, dcodec d)) fs"

definition fields_ok :: "(sol_type \<times> dty) list \<Rightarrow> bool" where
  "fields_ok fs \<longleftrightarrow> list_all (\<lambda>(s, d). denotes s d \<and> dwf d) fs"

definition values_ok :: "(sol_type \<times> dty) list \<Rightarrow> sol_val list \<Rightarrow> bool" where
  "values_ok fs vs \<longleftrightarrow> list_all2 (\<lambda>(s, d) v. dwt d v) fs vs"

text \<open>The ABI type of the arguments, and the canonical signature.\<close>

definition args_ty :: "(sol_type \<times> dty) list \<Rightarrow> sol_ty" where
  "args_ty fs = TTuple (map (abi_of \<circ> snd) fs)"

definition signature_spec :: "bytes \<Rightarrow> (sol_type \<times> dty) list \<Rightarrow> bytes" where
  "signature_spec ename fs = ename @ abi_name (args_ty fs)"

lemma program_fields_ok: "env_ok env \<Longrightarrow> program_fields env rs fs \<Longrightarrow> fields_ok fs"
  using rust_ty_denotes
  by (fastforce simp: program_fields_def fields_ok_def list_all_iff list_all2_conv_all_nth in_set_conv_nth)

lemma build_signature_is:
  assumes "env_ok env" "names_ok env names" "program_fields env rs fs"
  shows "build_signature names ename (map fst fs) = signature_spec ename fs"
proof -
  have f: "fields_ok fs" using program_fields_ok assms(1,3) .
  have "map (sol_type_name_parts names \<circ> fst) fs = map (abi_name \<circ> (abi_of \<circ> snd)) fs"
    using assms(3) name_parts_name [OF assms(1,2)] unfolding program_fields_def
    by (induction rs fs rule: list_all2_induct) (auto split: prod.splits)
  moreover have "map (st_canonical_name \<circ> fst) fs = map (abi_name \<circ> (abi_of \<circ> snd)) fs"
    if "\<not> list_ex st_has_custom_types (map fst fs)"
    using that f denotes_name by (fastforce simp: fields_ok_def list_all_iff list_ex_iff)
  ultimately show ?thesis
    by (auto simp: build_signature_def signature_spec_def args_ty_def name_parts_list_map simp del: map_eq_conv)
qed

lemma dfields_seen: "fields_ok fs \<Longrightarrow> list_all seen (dfields fs)"
  by (auto simp: fields_ok_def dfields_def list_all_iff denotes_seen)

lemma values_ok_fields:
  assumes "fields_ok fs" "values_ok fs vs"
  shows "length (map snd fs) = length vs" "list_all dwf (map snd fs)"
    "all_decode (dty_fields (map snd fs) vs)" "map snd (dfields fs) = map fst (dty_fields (map snd fs) vs)"
    "map (\<lambda>(c, v, e). v) (dty_fields (map snd fs) vs) = vs"
    "seq_enc (items (dty_fields (map snd fs) vs)) = abi_enc (args_ty fs) (VSeq vs)"
proof -
  show l: "length (map snd fs) = length vs" using assms(2) by (simp add: values_ok_def list_all2_lengthD)
  show w: "list_all dwf (map snd fs)" using assms(1) by (auto simp: fields_ok_def list_all_iff)
  have "\<forall>(d, x) \<in> set (zip (map snd fs) vs). dwt d x"
    using assms(2) by (auto simp: values_ok_def list_all2_iff zip_map1)
  then show "all_decode (dty_fields (map snd fs) vs)"
    unfolding all_decode_def
    by (intro dty_fields_all [OF _ w]) (simp_all add: dcodec_encodes dcodec_decodes)
  show "map snd (dfields fs) = map fst (dty_fields (map snd fs) vs)"
    by (simp add: dty_fields_simps [OF l]) (simp add: dfields_def case_prod_beta)
  show "map (\<lambda>(c, v, e). v) (dty_fields (map snd fs) vs) = vs"
    "seq_enc (items (dty_fields (map snd fs) vs)) = abi_enc (args_ty fs) (VSeq vs)"
    using dty_fields_simps [OF l] w by (simp_all add: args_ty_def)
qed

section \<open>Errors against the specification\<close>

text \<open>Revert data: the selector of the signature, then the arguments as a tuple.\<close>

definition selector_spec :: "(bytes \<Rightarrow> bytes) \<Rightarrow> bytes \<Rightarrow> (sol_type \<times> dty) list \<Rightarrow> bytes" where
  "selector_spec keccak ename fs = const_selector keccak (signature_spec ename fs)"

definition error_spec :: "(bytes \<Rightarrow> bytes) \<Rightarrow> bytes \<Rightarrow> (sol_type \<times> dty) list \<Rightarrow> sol_val list \<Rightarrow> bytes" where
  "error_spec keccak ename fs vs = selector_spec keccak ename fs @ abi_enc (args_ty fs) (VSeq vs)"

lemma length_selector_spec [simp]: "length (selector_spec keccak ename fs) = 4"
  by (simp add: selector_spec_def const_selector_def Let_def)

lemma dyn_fields_encode:
  assumes "fields_ok fs" "values_ok fs vs" "fs \<noteq> []"
  shows "dyn_encode_len (dfields fs) vs = length (abi_enc (args_ty fs) (VSeq vs))"
    and "length (abi_enc (args_ty fs) (VSeq vs)) \<le> length R \<Longrightarrow> length R < usize_limit \<Longrightarrow>
      dyn_encode_fields (dfields fs) 0 (zip (dfields fs) vs) (head_sum (dfields fs)) R =
      Some (length (abi_enc (args_ty fs) (VSeq vs)),
        abi_enc (args_ty fs) (VSeq vs) @ drop (length (abi_enc (args_ty fs) (VSeq vs))) R)"
proof -
  note f = values_ok_fields [OF assms(1,2)]
  note sn = dfields_seen [OF assms(1)]
  have l: "length vs = length (dfields fs)" using f(1) by (simp add: dfields_def)
  have "dty_fields (map snd fs) vs \<noteq> []"
    using assms(3) f(1) by (cases fs; cases vs) (auto simp: dty_fields_def)
  then have enc: "encodes (impl_tuple (map snd (dfields fs))) (VSeq vs) (abi_enc (args_ty fs) (VSeq vs))"
    using tuple_encodes [OF all_decode_encode [OF f(3)]] f(4-6) by simp
  show len: "dyn_encode_len (dfields fs) vs = length (abi_enc (args_ty fs) (VSeq vs))"
    using enc dyn_encode_len_seen [OF sn l] by (simp add: encodes_def impl_tuple_def)
  assume R: "length (abi_enc (args_ty fs) (VSeq vs)) \<le> length R" "length R < usize_limit"
  have "tuple_encode_fields (zip (map snd (dfields fs)) vs) 0 (tuple_head_size (map snd (dfields fs))) R =
      Some (abi_enc (args_ty fs) (VSeq vs) @ drop (length (abi_enc (args_ty fs) (VSeq vs))) R)"
    using enc R by (simp add: encodes_def impl_tuple_def tuple_encode_body_to_def)
  moreover have "head_sum (dfields fs) + tails_len (zip (map snd (dfields fs)) vs) =
      length (abi_enc (args_ty fs) (VSeq vs))"
    using len dyn_encode_len_seen [OF sn l] by (simp add: head_sum_seen [OF sn] tuple_encode_body_len_def tails_len_def)
  ultimately show "dyn_encode_fields (dfields fs) 0 (zip (dfields fs) vs) (head_sum (dfields fs)) R =
      Some (length (abi_enc (args_ty fs) (VSeq vs)),
        abi_enc (args_ty fs) (VSeq vs) @ drop (length (abi_enc (args_ty fs) (VSeq vs))) R)"
    using dyn_encode_fields_tuple [OF l, of "[]" 0 "head_sum (dfields fs)" R] sn head_sum_seen [OF sn]
    by (simp add: tuple_head_size_def)
qed

lemma dyn_fields_decode:
  assumes "fields_ok fs" "values_ok fs vs" "length (abi_enc (args_ty fs) (VSeq vs) @ post) + 32 < usize_limit"
  shows "dyn_decode_fields (dfields fs) 0 (dfields fs) (abi_enc (args_ty fs) (VSeq vs) @ post) 0 = Some vs"
proof -
  note f = values_ok_fields [OF assms(1,2)]
  have "tuple_head_size (map snd (dfields fs)) < usize_limit"
    using tuple_head_size_items [OF all_decode_encode [OF f(3)]] f(4,6) assms(3)
      length_seq_enc [of "items (dty_fields (map snd fs) vs)"] by simp
  then show ?thesis
    using dyn_decode_fields_tuple [of "[]" "dfields fs" 0 0] dfields_seen [OF assms(1)]
      tuple_decode_back [OF f(3), of "[]" post] f(4-6) assms(3)
    by (simp add: tuple_decode_at_def tuple_head_size_def)
qed

lemma abi_enc_no_args: "abi_enc (args_ty []) (VSeq []) = []"
  by (simp add: args_ty_def seq_enc_def seq_head_len_def seq_tails_def)

lemma derived_error_is:
  assumes "fields_ok fs" "values_ok fs vs" "E = derive_error (selector_spec keccak ename fs) (dfields fs)"
    and "e = error_spec keccak ename fs vs"
  shows "err_encoded_size E vs = length e"
    and "length e \<le> length buf \<Longrightarrow> length buf < usize_limit \<Longrightarrow>
      err_encode_to E vs buf = Some (length e, e @ drop (length e) buf)"
    and "length (e @ post) + 32 < usize_limit \<Longrightarrow> err_decode_at E (e @ post) 0 = Some (Some vs)"
proof -
  have nil: "vs = []" if "fs = []" using assms(2) that by (simp add: values_ok_def)
  show "err_encoded_size E vs = length e"
    using dyn_fields_encode(1) [OF assms(1,2)] nil
    by (auto simp: assms(3,4) derive_error_def error_spec_def abi_enc_no_args dfields_def)
  show "err_encode_to E vs buf = Some (length e, e @ drop (length e) buf)"
    if "length e \<le> length buf" "length buf < usize_limit"
    using that dyn_fields_encode(2) [OF assms(1,2), of "drop 4 buf"] nil copy_at_0 [of "selector_spec keccak ename fs" buf]
    by (cases "fs = []") (auto simp: assms(3,4) derive_error_def derived_error_encode_to_def error_spec_def
        abi_enc_no_args dfields_def add.commute)
  show "err_decode_at E (e @ post) 0 = Some (Some vs)" if "length (e @ post) + 32 < usize_limit"
    using that dyn_fields_decode [OF assms(1,2), of post]
    by (simp add: assms(3,4) derive_error_def derived_error_decode_at_def error_spec_def selector_at_def
        get_range_def usize_limit_def)
qed

text \<open>An enum over errors, each with its name and fields.\<close>

type_synonym error_decl = "bytes \<times> (sol_type \<times> dty) list"

definition error_arms :: "(bytes \<Rightarrow> bytes) \<Rightarrow> (bytes \<Rightarrow> bytes) \<Rightarrow> error_decl list \<Rightarrow> sol_val list error_impl list" where
  "error_arms keccak names ds =
     map (\<lambda>(n, fs). derive_error (build_selector keccak names n (map fst fs)) (dfields fs)) ds"

definition error_decls_ok ::
  "(bytes \<Rightarrow> bytes) \<Rightarrow> (bytes \<Rightarrow> dty option) \<Rightarrow> (bytes \<Rightarrow> bytes) \<Rightarrow> error_decl list \<Rightarrow> bool" where
  "error_decls_ok keccak env names ds \<longleftrightarrow> env_ok env \<and> names_ok env names \<and>
     (\<forall>(n, fs) \<in> set ds. \<exists>rs. program_fields env rs fs) \<and>
     distinct (map (\<lambda>(n, fs). selector_spec keccak n fs) ds)"

lemma error_arms_spec:
  assumes "error_decls_ok keccak env names ds"
  shows "error_arms keccak names ds = map (\<lambda>(n, fs). derive_error (selector_spec keccak n fs) (dfields fs)) ds"
  using assms build_signature_is
  by (fastforce simp: error_arms_def error_decls_ok_def build_selector_def selector_spec_def)

lemma decl_fields_ok: "error_decls_ok keccak env names ds \<Longrightarrow> (n, fs) \<in> set ds \<Longrightarrow> fields_ok fs"
  using program_fields_ok by (fastforce simp: error_decls_ok_def)

lemma other_selector:
  assumes "4 \<le> length input" "take 4 input \<noteq> selector_spec keccak n fs"
  shows "err_decode_at (derive_error (selector_spec keccak n fs) ds) input 0 = Some None"
  using assms by (auto simp: derive_error_def derived_error_decode_at_def selector_at_def get_range_def usize_limit_def)

lemma enum_decode_arms_skip:
  assumes "\<forall>a \<in> set pre. err_decode_at a input 0 = Some None"
  shows "enum_decode_arms (pre @ arms) i input 0 = enum_decode_arms arms (i + length pre) input 0"
  using assms by (induction pre arbitrary: i) simp_all

lemma derived_error_decodes:
  assumes "error_decls_ok keccak env names ds" "i < length ds" "ds ! i = (n, fs)" "values_ok fs vs"
    and "arms = error_arms keccak names ds" "E = derive_error_enum arms" "e = error_spec keccak n fs vs"
    and "length (e @ post) + 32 < usize_limit"
  shows "err_decode_at E (e @ post) 0 = Some (Some (i, vs))"
proof -
  note spec = error_arms_spec [OF assms(1)]
  have mem: "(n, fs) \<in> set ds" using assms(2,3) by (metis nth_mem)
  have arm: "arms ! i = derive_error (selector_spec keccak n fs) (dfields fs)"
    using assms(2,3) by (simp add: assms(5) spec)
  note d = derived_error_is [OF decl_fields_ok [OF assms(1) mem] assms(4) arm assms(7)]
  have "take 4 (e @ post) = selector_spec keccak n fs" "4 \<le> length (e @ post)"
    by (simp_all add: assms(7) error_spec_def)
  moreover have "selector_spec keccak n' fs' \<noteq> selector_spec keccak n fs" if "(n', fs') \<in> set (take i ds)" for n' fs'
  proof -
    obtain j where j: "j < i" "ds ! j = (n', fs')" using \<open>(n', fs') \<in> set (take i ds)\<close>
      by (auto simp: in_set_conv_nth)
    moreover have "distinct (map (\<lambda>(n, fs). selector_spec keccak n fs) ds)"
      using assms(1) by (simp add: error_decls_ok_def)
    ultimately have "map (\<lambda>(n, fs). selector_spec keccak n fs) ds ! j \<noteq> map (\<lambda>(n, fs). selector_spec keccak n fs) ds ! i"
      using assms(2) by (subst nth_eq_iff_index_eq) simp_all
    then show ?thesis using j assms(2,3) by simp
  qed
  ultimately have "err_decode_at (derive_error (selector_spec keccak n' fs') (dfields fs')) (e @ post) 0 = Some None"
    if "(n', fs') \<in> set (take i ds)" for n' fs'
    using that by (metis other_selector)
  then have pre: "\<forall>a \<in> set (take i arms). err_decode_at a (e @ post) 0 = Some None"
    by (auto simp: assms(5) spec take_map)
  have "i < length arms" by (simp add: assms(2,5) spec)
  then have "arms = take i arms @ arms ! i # drop (i + 1) arms"
    using id_take_nth_drop by simp
  then have "enum_decode_arms arms 0 (e @ post) 0 = enum_decode_arms (arms ! i # drop (i + 1) arms) (length (take i arms)) (e @ post) 0"
    using enum_decode_arms_skip [OF pre, of "arms ! i # drop (i + 1) arms" 0] by simp
  then show ?thesis
    using d(3) [OF assms(8)] assms(2) by (simp add: assms(5,6) derive_error_enum_def error_arms_def)
qed

text \<open>
  C12: derived errors are Solidity errors. For an enum over errors of a program whose selectors differ,
  each with fields of any built-in or derived type, where no name is an alias of \<open>u8\<close> and the
  \<open>SOL_NAME\<close>s of the custom types are their ABI names: a variant is written as the selector of its
  canonical signature followed by its arguments encoded as a tuple, \<open>encoded_size\<close> bytes in all; its
  own decoder and that of the enum read it back, whatever follows; and data with another selector
  decodes to no error.
\<close>

theorem derived_errors_round_trip:
  assumes "error_decls_ok keccak env names ds" "i < length ds" "ds ! i = (n, fs)" "values_ok fs vs"
    and "arms = error_arms keccak names ds" "E = derive_error_enum arms" "e = error_spec keccak n fs vs"
    and "length e \<le> length buf" "length buf + length post + 32 < usize_limit"
  shows "err_encoded_size E (i, vs) = length e \<and>
    err_encode_to E (i, vs) buf = Some (length e, e @ drop (length e) buf) \<and>
    err_decode_at (arms ! i) (e @ post) 0 = Some (Some vs) \<and>
    err_decode_at E (e @ post) 0 = Some (Some (i, vs)) \<and>
    (4 \<le> length data \<longrightarrow> (\<forall>(n, fs) \<in> set ds. take 4 data \<noteq> selector_spec keccak n fs) \<longrightarrow>
      err_decode_at E data 0 = Some None)"
proof -
  note spec = error_arms_spec [OF assms(1)]
  have mem: "(n, fs) \<in> set ds" using assms(2,3) by (metis nth_mem)
  have arm: "arms ! i = derive_error (selector_spec keccak n fs) (dfields fs)"
    using assms(2,3) by (simp add: assms(5) spec)
  note d = derived_error_is [OF decl_fields_ok [OF assms(1) mem] assms(4) arm assms(7)]
  have len: "length (e @ post) + 32 < usize_limit" using assms(8,9) by simp
  have "err_decode_at E data 0 = Some None"
    if "4 \<le> length data" "\<forall>(n, fs) \<in> set ds. take 4 data \<noteq> selector_spec keccak n fs"
  proof -
    have "\<forall>a \<in> set arms. err_decode_at a data 0 = Some None"
      using that other_selector [OF that(1)] by (fastforce simp: assms(5) spec)
    then show ?thesis using enum_decode_arms_skip [of arms data "[]" 0] by (simp add: assms(6) derive_error_enum_def)
  qed
  then show ?thesis
    using d(1) d(2) [OF assms(8)] d(3) [OF len] derived_error_decodes [OF assms(1-7) len] assms(9)
    by (simp add: assms(6) derive_error_enum_def)
qed

section \<open>Events against the specification\<close>

text \<open>An event of a program; its Solidity log: the topics, and the data as a tuple.\<close>

definition event_of :: "bytes \<Rightarrow> (bool \<times> sol_type \<times> dty) list \<Rightarrow> bool \<Rightarrow> bool \<Rightarrow> sol_event" where
  "event_of ename efs anonymous use_alloc =
     \<lparr> ev_name = ename, ev_fields = map (\<lambda>(b, s, d). (b, s, dcodec d)) efs, ev_anonymous = anonymous,
       ev_alloc = use_alloc \<rparr>"

definition topic_spec :: "(bytes \<Rightarrow> bytes) \<Rightarrow> sol_ty \<Rightarrow> sol_val \<Rightarrow> bytes" where
  "topic_spec keccak t v =
     (case t of TPrim p \<Rightarrow> prim_word (val_prim v) | TString \<Rightarrow> keccak (val_data v)
      | TBytes \<Rightarrow> keccak (val_data v) | _ \<Rightarrow> keccak (abi_enc t v))"

definition picked :: "bool \<Rightarrow> (bool \<times> 'a) list \<Rightarrow> 'b list \<Rightarrow> ('a \<times> 'b) list" where
  "picked b efs vs = map (\<lambda>(f, v). (snd f, v)) (filter (\<lambda>(f, v). fst f = b) (zip efs vs))"

definition log_topics ::
  "(bytes \<Rightarrow> bytes) \<Rightarrow> bytes \<Rightarrow> bool \<Rightarrow> (bool \<times> sol_type \<times> dty) list \<Rightarrow> sol_val list \<Rightarrow> bytes list" where
  "log_topics keccak ename anonymous efs vs =
     (if anonymous then [] else [keccak (signature_spec ename (map snd efs))]) @
     map (\<lambda>((s, d), v). topic_spec keccak (abi_of d) v) (picked True efs vs)"

definition log_data :: "(bool \<times> sol_type \<times> dty) list \<Rightarrow> sol_val list \<Rightarrow> bytes" where
  "log_data efs vs = abi_enc (args_ty (map fst (picked False efs vs))) (VSeq (map snd (picked False efs vs)))"

text \<open>
  The fields whose topic is right: an indexed custom type must not be a struct with custom fields, nor
  an alias of an array or a tuple.
\<close>

fun plain_topic :: "sol_type \<Rightarrow> dty \<Rightarrow> bool" where
  "plain_topic (SolCustom name) (DStruct n fs) = list_all (\<lambda>(s, d). \<not> st_has_custom_types s) fs"
| "plain_topic (SolCustom name) (DArr d n) = False"
| "plain_topic (SolCustom name) (DTuple ds) = False"
| "plain_topic s d = True"

lemma topic_of_word:
  assumes "encodes c v e" "length e = 32" "indexed_topic_override c = None"
  shows "indexed_topic keccak c v = Some e"
  using assms by (simp add: indexed_topic_def encodes_def usize_limit_def)

lemma hash_of_static:
  assumes "encodes c v e" "\<not> IS_DYNAMIC c" "length e < usize_limit"
  shows "map_option keccak (encode_to c v (replicate (HEAD_SIZE c) 0)) = Some (keccak e)"
  using assms by (auto simp: encode_to_def encodes_def)

lemma plain_struct_static:
  assumes "dwf (DStruct n fs)" "list_all (\<lambda>(s, d). \<not> st_has_custom_types s) fs" "\<not> IS_DYNAMIC (dcodec (DStruct n fs))"
  shows "dcodec (DStruct n fs) = expand_static (map (map_prod id dcodec) fs)"
proof -
  let ?fs = "map (map_prod id dcodec) fs"
  note sn = wf_struct_seen [OF assms(1)]
  have "\<not> list_ex IS_DYNAMIC (map snd ?fs)"
    using derive_struct_dynamic [OF sn] assms(3) by simp
  then have "st_is_dynamic (fst f) \<noteq> Some True" if "f \<in> set ?fs" for f
    using that sn unfolding list_all_iff list_ex_iff seen_def by (metis image_eqI list.set_map)
  moreover have "\<not> st_has_custom_types (fst f)" if "f \<in> set ?fs" for f
    using that assms(2) by (auto simp: list_all_iff)
  ultimately have "\<not> list_ex (\<lambda>f. st_has_custom_types (fst f) \<or> st_is_dynamic (fst f) = Some True) ?fs"
    unfolding list_ex_iff by blast
  then show ?thesis by (simp only: dcodec.simps derive_struct_def if_False)
qed

lemma static_struct_topic:
  assumes "encodes (expand_static fs) v e" "length e < usize_limit"
  shows "indexed_topic keccak (expand_static fs) v = Some (keccak e)"
proof -
  have "encode_body_len (expand_static fs) v = length e"
    using assms(1) unfolding encodes_def by blast
  then have t: "length e = total_size (map fst fs)" by (simp add: expand_static_def)
  have "encode_body_to (expand_static fs) v (replicate (total_size (map fst fs)) 0) = Some e"
    using assms t unfolding encodes_def by (metis append.right_neutral drop_replicate length_replicate diff_self_eq_0 order_refl replicate_empty)
  then have "static_encode_fields (zip (map snd fs) (val_seq v)) 0 (replicate (total_size (map fst fs)) 0) = Some e"
    by (simp add: expand_static_def)
  then show ?thesis by (simp add: indexed_topic_def) (simp add: expand_static_def)
qed

lemma indexed_topic_pack_is:
  assumes "indexed_accepted (s, dcodec d)" "denotes s d" "dwf d" "dwt d v" "plain_topic s d"
    and "length (abi_enc (abi_of d) v) < usize_limit"
  shows "indexed_topic_pack keccak (s, dcodec d) v = Some (topic_spec keccak (abi_of d) v)"
proof -
  let ?e = "abi_enc (abi_of d) v"
  note enc = dcodec_encodes [OF assms(3,4)]
  have word: "indexed_topic keccak (dcodec d) v = Some ?e"
    if "HEAD_SIZE (dcodec d) = 32" "\<not> IS_DYNAMIC (dcodec d)" "indexed_topic_override (dcodec d) = None"
    using that enc by (intro topic_of_word) (simp_all add: encodes_def)
  have prim: "indexed_topic keccak (dcodec d) v = Some (topic_spec keccak (abi_of d) v)" if "d = DPrim p" for p
    using word that by (simp add: impl_prim_def topic_spec_def)
  have data: "indexed_topic keccak (dcodec d) v = Some (topic_spec keccak (abi_of d) v)" if "d = DString \<or> d = DBytes"
    using that by (auto simp: indexed_topic_def impl_string_def impl_bytes_def topic_spec_def)
  show ?thesis
  proof (cases s)
    case (SolFixedArray s' n)
    then obtain d' where "d = DArr d' n" "\<not> IS_DYNAMIC (dcodec d)"
      using assms(1,2) by (auto simp: denotes_iff indexed_accepted_def)
    then show ?thesis
      using SolFixedArray hash_of_static [OF enc _ assms(6)] by (simp add: indexed_topic_pack_def topic_spec_def)
  next
    case (SolTuple ss)
    then obtain ds where "d = DTuple ds" "\<not> IS_DYNAMIC (dcodec d)"
      using assms(1,2) by (auto simp: denotes_iff indexed_accepted_def)
    then show ?thesis
      using SolTuple hash_of_static [OF enc _ assms(6)] by (simp add: indexed_topic_pack_def topic_spec_def)
  next
    case (SolCustom name)
    then have st: "\<not> IS_DYNAMIC (dcodec d)" using assms(1) by (simp add: indexed_accepted_def)
    have "indexed_topic keccak (dcodec d) v = Some (topic_spec keccak (abi_of d) v)"
    proof (cases d)
      case (DStruct n fs)
      then have "dcodec d = expand_static (map (map_prod id dcodec) fs)"
        using plain_struct_static [of n fs] assms(3,5) st SolCustom by simp
      then show ?thesis using static_struct_topic enc assms(6) DStruct by (simp add: topic_spec_def)
    next
      case (DEnum n k)
      then show ?thesis using word by (simp add: derive_enum_def topic_spec_def impl_prim_def)
    next
      case (DUdt n d')
      then obtain p where "d' = DPrim p" using assms(3) by (auto split: dty.splits)
      then show ?thesis using word DUdt by (simp add: expand_udt_def topic_spec_def)
    qed (use prim st assms(5) SolCustom in \<open>auto simp: impl_string_def impl_bytes_def impl_vec_def\<close>)
    then show ?thesis using SolCustom by (simp add: indexed_topic_pack_def)
  qed (use assms(1,2) prim data in \<open>auto simp: indexed_topic_pack_def indexed_accepted_def denotes_iff\<close>)
qed

lemma push_topics_all:
  assumes "map (\<lambda>((b, f), v). indexed_topic_pack keccak f v) (filter (\<lambda>((b, f), v). b) fvs) = map Some tops"
  shows "push_topics keccak fvs t = topics_push_all t tops"
  using assms
proof (induction fvs arbitrary: t tops)
  case (Cons x fvs)
  obtain b f v where x: "x = ((b, f), v)" by (metis surj_pair)
  show ?case
  proof (cases b)
    case True
    then obtain top tops' where "tops = top # tops'" using Cons.prems x by (cases tops) auto
    then show ?thesis using Cons x True by (auto intro!: arg_cong [of _ _ "Option.bind (topics_push t top)"])
  next
    case False
    then show ?thesis using Cons x by simp
  qed
qed simp

text \<open>The data loop on a zeroed buffer writes the same as that of a tuple.\<close>

lemma put_low_offset:
  assumes "i = length pre" "n < usize_limit"
  shows "copy_at (pre @ replicate 32 0 @ post) (i + 24) (u64_be n) = Some (pre @ abi_uint n @ post)"
proof -
  have "replicate 32 (0 :: byte) = replicate 24 0 @ replicate 8 0" by (simp flip: replicate_add)
  then show ?thesis
    using copy_at_append [of "i + 24" "pre @ replicate 24 0" "replicate 8 0" "u64_be n" post] assms
    by (simp flip: u64_be_word)
qed

lemma data_encode_fields_seq:
  assumes "all_encode xs" "ho = length H" "M = replicate (seq_head_len (items xs)) 0" "to = length (H @ M @ T)"
    and "length (seq_tails (items xs)) \<le> length R" "length (H @ M @ T @ R) < usize_limit"
  shows "data_encode_fields (map (\<lambda>(c, v, e). (c, v)) xs) ho to (H @ M @ T @ R) =
    Some (H @ seq_heads to (items xs) @ T @ seq_tails (items xs) @ drop (length (seq_tails (items xs))) R)"
  using assms
proof (induction xs arbitrary: ho to H M T R)
  case (Cons x xs)
  obtain c v e where x: "x = (c, v, e)" by (cases x)
  have e: "encodes c v e" "all_encode xs" using Cons.prems(1) x by auto
  show ?case
  proof (cases "IS_DYNAMIC c")
    case True
    define M2 :: bytes where "M2 = replicate (seq_head_len (items xs)) 0"
    have M: "M = replicate 32 0 @ M2" using Cons.prems(3) x True by (simp add: M2_def replicate_add)
    obtain R1 R2 where R: "R = R1 @ R2" "length R1 = length e"
      using split_at [of "length e" R] Cons.prems(5) x True by auto
    have put: "copy_at (H @ M @ T @ R) (ho + 24) (u64_be to) = Some (H @ abi_uint to @ M2 @ T @ R1 @ R2)"
      using put_low_offset [of ho H to "M2 @ T @ R"] Cons.prems(2,4,6) M R by simp
    have "with_slice (H @ abi_uint to @ M2 @ T @ R1 @ R2) to (to + length e) (encode_body_to c v)
        = Some (H @ abi_uint to @ M2 @ T @ e @ R2)"
      using with_slice_append [of to "H @ abi_uint to @ M2 @ T" "to + length e" R1 R2 "encode_body_to c v"]
        Cons.prems(4,6) M R e(1) by (simp add: encodes_def)
    moreover have "data_encode_fields (map (\<lambda>(c, v, e). (c, v)) xs) (ho + 32) (to + length e)
        ((H @ abi_uint to) @ M2 @ (T @ e) @ R2) =
      Some ((H @ abi_uint to) @ seq_heads (to + length e) (items xs) @ (T @ e) @ seq_tails (items xs)
        @ drop (length (seq_tails (items xs))) R2)"
      using Cons.prems M R x True e by (intro Cons.IH) (auto simp: M2_def)
    ultimately show ?thesis
      using x True R put e(1) by (simp add: Let_def encodes_def SLOT_SIZE_def)
  next
    case False
    define M2 :: bytes where "M2 = replicate (seq_head_len (items xs)) 0"
    have M: "M = replicate (length e) 0 @ M2" using Cons.prems(3) x False by (simp add: M2_def replicate_add)
    have "with_slice (H @ M @ T @ R) ho (ho + length e) (encode_body_to c v) = Some (H @ e @ M2 @ T @ R)"
      using with_slice_append [of ho H "ho + length e" "replicate (length e) 0" "M2 @ T @ R" "encode_body_to c v"]
        Cons.prems(2,6) M e(1) by (simp add: encodes_def)
    moreover have "data_encode_fields (map (\<lambda>(c, v, e). (c, v)) xs) (ho + length e) to ((H @ e) @ M2 @ T @ R) =
      Some ((H @ e) @ seq_heads to (items xs) @ T @ seq_tails (items xs)
        @ drop (length (seq_tails (items xs))) R)"
      using Cons.prems M x False e by (intro Cons.IH) (auto simp: M2_def)
    ultimately show ?thesis
      using x False e(1) by (simp add: slot_size_encodes)
  qed
qed simp

definition single_dynamic_tuple :: "(sol_type \<times> dty) list \<Rightarrow> bool" where
  "single_dynamic_tuple fs \<longleftrightarrow> (case fs of [(s, DTuple ds)] \<Rightarrow> abi_dynamic (abi_of (DTuple ds)) | _ \<Rightarrow> False)"

lemma dty_is_tuple: "IS_TUPLE (dcodec d) \<longleftrightarrow> (\<exists>ds. d = DTuple ds)"
  by (cases d) (simp_all add: derive_struct_def expand_static_def expand_dynamic_def derive_enum_def
      expand_udt_def impl_string_def impl_bytes_def)

lemma single_field_enc:
  "seq_enc [(True, e)] = abi_uint 32 @ e" "seq_enc [(False, e)] = e"
  by (simp_all add: seq_enc_def)

lemma event_data_is:
  assumes "fields_ok fs" "values_ok fs vs" "\<not> single_dynamic_tuple fs" "D = abi_enc (args_ty fs) (VSeq vs)"
    and "cvs = zip (map snd (dfields fs)) vs"
  shows "event_data_len cvs = length D"
    and "length D < usize_limit \<Longrightarrow> event_data_to cvs (replicate (length D) 0) = Some D"
proof -
  note f = values_ok_fields [OF assms(1,2)]
  define xs where "xs = dty_fields (map snd fs) vs"
  have cvs: "cvs = map (\<lambda>(c, v, e). (c, v)) xs"
    using f(4,5) zip_fields [of xs] by (simp add: assms(5) xs_def)
  have D: "D = seq_enc (items xs)" using f(6) by (simp add: assms(4) xs_def)
  have ae: "all_encode xs" using all_decode_encode [OF f(3)] by (simp add: xs_def)
  have "event_data_len cvs = length D \<and> (length D < usize_limit \<longrightarrow> event_data_to cvs (replicate (length D) 0) = Some D)"
  proof (cases xs)
    case Nil
    then show ?thesis by (simp add: cvs D seq_enc_def seq_head_len_def seq_tails_def)
  next
    case (Cons x ys)
    show ?thesis
    proof (cases ys)
      case Nil
      obtain s d v where one: "fs = [(s, d)]" "vs = [v]"
        using Cons Nil f(1) by (cases fs; cases vs) (auto simp: xs_def dty_fields_def)
      have wt: "dwf d \<and> dwt d v" using assms(1,2) one by (simp add: fields_ok_def values_ok_def)
      have x: "xs = [(dcodec d, v, abi_enc (abi_of d) v)]" by (simp add: xs_def one dty_fields_def)
      have "D = top_enc (dcodec d) (abi_enc (abi_of d) v)"
        using assms(3) one dcodec_dynamic [OF conjunct1 [OF wt]] single_field_enc
        by (cases "IS_DYNAMIC (dcodec d)")
          (auto simp: D x top_enc_def dty_is_tuple single_dynamic_tuple_def)
      then show ?thesis
        using dty.encode_len_top [OF wt] dty.encode_to_top [OF wt, of "replicate (length D) 0"] by (simp add: cvs x)
    next
      case (Cons y zs)
      obtain c v e c' v' e' where two: "x = (c, v, e)" "y = (c', v', e')" by (metis surj_pair)
      have xs2: "xs = (c, v, e) # (c', v', e') # zs" using \<open>xs = x # ys\<close> Cons two by simp
      have heads: "sum_list (map (\<lambda>(c, v). SLOT_SIZE c) cvs) = seq_head_len (items xs)"
        using tuple_head_size_items [OF ae] by (simp add: cvs tuple_head_size_def case_prod_beta comp_def)
      have tails: "sum_list (map (\<lambda>(c, v). if IS_DYNAMIC c then encode_body_len c v else 0) cvs) = length (seq_tails (items xs))"
        using ae unfolding cvs by (induction xs) (auto simp: encodes_def seq_tails_def item_tail_def)
      have "event_data_len cvs = sum_list (map (\<lambda>(c, v). SLOT_SIZE c) cvs) +
          sum_list (map (\<lambda>(c, v). if IS_DYNAMIC c then encode_body_len c v else 0) cvs)"
        by (simp add: cvs xs2)
      moreover have "event_data_to cvs buf = data_encode_fields cvs 0 (sum_list (map (\<lambda>(c, v). SLOT_SIZE c) cvs)) buf" for buf
        by (simp add: cvs xs2)
      moreover have "data_encode_fields cvs 0 (seq_head_len (items xs)) (replicate (length D) 0) = Some D"
        if "length D < usize_limit"
      proof -
        have r: "replicate (length D) 0 = [] @ replicate (seq_head_len (items xs)) 0 @ [] @ replicate (length (seq_tails (items xs))) (0 :: byte)"
          by (simp add: D length_seq_enc replicate_add)
        show ?thesis
          unfolding r cvs using that
          by (subst data_encode_fields_seq [OF ae]) (simp_all add: D length_seq_enc seq_enc_def)
      qed
      ultimately show ?thesis using heads tails by (simp add: D length_seq_enc)
    qed
  qed
  then show "event_data_len cvs = length D"
    "length D < usize_limit \<Longrightarrow> event_data_to cvs (replicate (length D) 0) = Some D" by simp_all
qed

lemma static_data_len:
  assumes "fields_ok fs" "values_ok fs vs" "list_all (\<lambda>f. st_is_dynamic (fst f) = Some False) (dfields fs)"
  shows "sum_list (map (\<lambda>f. HEAD_SIZE (snd f)) (dfields fs)) = length (abi_enc (args_ty fs) (VSeq vs))"
proof -
  note f = values_ok_fields [OF assms(1,2)]
  define xs where "xs = dty_fields (map snd fs) vs"
  have st: "\<forall>f \<in> set (dfields fs). \<not> IS_DYNAMIC (snd f)"
    using assms(3) dfields_seen [OF assms(1)] by (auto simp: list_all_iff seen_def)
  have cs: "map snd (dfields fs) = map fst xs" using f(4) by (simp add: xs_def)
  have "\<forall>c \<in> set (map fst xs). \<not> IS_DYNAMIC c" using st by (simp flip: cs)
  then have "list_all (\<lambda>(c, v, e). \<not> IS_DYNAMIC c) xs" by (force simp: list_all_iff)
  then have "length (seq_enc (items xs)) = tuple_head_size (map snd (dfields fs))"
    using all_decode_encode [OF f(3)] by (simp add: length_seq_enc seq_static cs tuple_head_size_items xs_def)
  moreover have "tuple_head_size (map snd (dfields fs)) = sum_list (map (\<lambda>f. HEAD_SIZE (snd f)) (dfields fs))"
    using st by (simp add: tuple_head_size_def SLOT_SIZE_def comp_def cong: map_cong)
  ultimately show ?thesis using f(6) by (simp add: xs_def)
qed

text \<open>Picking the fields of an event by their flag.\<close>

lemma picked_fields:
  assumes "length vs = length efs"
  shows "map fst (picked b efs vs) = map snd (filter (\<lambda>f. fst f = b) efs)"
    and "data_fields (event_of n efs a al) vs = map snd (picked False efs vs)"
    and "data_fields (event_of n efs a al) (map snd (ev_fields (event_of n efs a al))) = dfields (map fst (picked False efs vs))"
  using assms
  by (induction vs efs rule: list_induct2)
    (auto simp: picked_def data_fields_def event_of_def dfields_def)

lemma picked_mem:
  assumes "((s, d), v) \<in> set (picked b efs vs)"
  shows "(b, s, d) \<in> set efs" "((s, d), v) \<in> set (zip (map snd efs) vs)"
  using assms by (auto simp: picked_def zip_map1 image_iff dest: set_zip_leftD) force

lemma picked_ok:
  assumes "fields_ok (map snd efs)" "values_ok (map snd efs) vs"
  shows "\<forall>((s, d), v) \<in> set (picked b efs vs). (b, s, d) \<in> set efs \<and> denotes s d \<and> dwf d \<and> dwt d v"
    and "fields_ok (map fst (picked b efs vs))" "values_ok (map fst (picked b efs vs)) (map snd (picked b efs vs))"
proof -
  have v: "dwt d v" if "((s, d), v) \<in> set (zip (map snd efs) vs)" for s d v
    using that assms(2) by (auto simp: values_ok_def list_all2_iff)
  have f: "denotes s d \<and> dwf d" if "(b, s, d) \<in> set efs" for s d
    using that assms(1) by (fastforce simp: fields_ok_def list_all_iff)
  show *: "\<forall>((s, d), v) \<in> set (picked b efs vs). (b, s, d) \<in> set efs \<and> denotes s d \<and> dwf d \<and> dwt d v"
    using picked_mem f v by fast
  then show "fields_ok (map fst (picked b efs vs))"
    by (auto simp: fields_ok_def list_all_iff)
  show "values_ok (map fst (picked b efs vs)) (map snd (picked b efs vs))"
    using * by (fastforce simp: values_ok_def list_all2_map1 list_all2_map2 list_all2_same)
qed

lemma packs_picked:
  assumes "length efs = length vs"
  shows "map (\<lambda>((b, f), v). P f v) (filter (\<lambda>((b, f), v). b) (zip (map (\<lambda>(b, s, d). (b, s, dcodec d)) efs) vs)) =
    map (\<lambda>((s, d), v). P (s, dcodec d) v) (picked True efs vs)"
    and "length (picked True efs vs) = length (filter fst (map (\<lambda>(b, s, d). (b, s, dcodec d)) efs))"
  using assms by (induction efs vs rule: list_induct2) (auto simp: picked_def)

lemma event_topics_is:
  assumes "fields_ok (map snd efs)" "values_ok (map snd efs) vs" "event_accepted ev" "ev = event_of n efs a al"
    and "event_topic0 keccak names ev = keccak (signature_spec n (map snd efs))"
    and "\<forall>(b, s, d) \<in> set efs. b \<longrightarrow> plain_topic s d"
    and "\<forall>((s, d), v) \<in> set (picked True efs vs). length (abi_enc (abi_of d) v) < usize_limit"
  shows "map_option topics_as_slice (event_topics_of keccak names ev vs) = Some (log_topics keccak n a efs vs)"
proof -
  define tops where "tops = map (\<lambda>((s, d), v). topic_spec keccak (abi_of d) v) (picked True efs vs)"
  have l: "length efs = length vs" using assms(2) by (auto simp: values_ok_def dest: list_all2_lengthD)
  have acc: "indexed_accepted (s, dcodec d)" if "(True, s, d) \<in> set efs" for s d
    using that assms(3) by (force simp: assms(4) event_accepted_def event_of_def list_all_iff)
  have "map (\<lambda>((b, f), v). indexed_topic_pack keccak f v)
      (filter (\<lambda>((b, f), v). b) (zip (ev_fields ev) vs)) =
    map (\<lambda>((s, d), v). indexed_topic_pack keccak (s, dcodec d) v) (picked True efs vs)"
    using packs_picked(1) [OF l, of "indexed_topic_pack keccak"] by (simp add: assms(4) event_of_def)
  also have "\<dots> = map Some tops"
    unfolding tops_def map_map
  proof (rule map_cong [OF refl])
    fix x assume x: "x \<in> set (picked True efs vs)"
    obtain s d v where sdv: "x = ((s, d), v)" by (metis surj_pair)
    have "(True, s, d) \<in> set efs" "denotes s d" "dwf d" "dwt d v"
      using picked_ok(1) [OF assms(1,2), of True] x sdv by auto
    then show "(case x of (x, xa) \<Rightarrow> (case x of (s, d) \<Rightarrow> indexed_topic_pack keccak (s, dcodec d)) xa) =
        (Some \<circ> (\<lambda>((s, d), v). topic_spec keccak (abi_of d) v)) x"
      using indexed_topic_pack_is [of s d v keccak] acc assms(6,7) x sdv by fastforce
  qed
  finally have "push_topics keccak (zip (ev_fields ev) vs) t = topics_push_all t tops" for t
    by (rule push_topics_all)
  then have push: "push_topics keccak (zip (ev_fields ev) vs) = (\<lambda>t. topics_push_all t tops)" by blast
  have len: "length tops = length (filter fst (ev_fields ev))"
    using packs_picked(2) [OF l] by (simp add: tops_def assms(4) event_of_def)
  have all: "event_topics_of keccak names ev vs =
      topics_push_all topics_new ((if a then [] else [keccak (signature_spec n (map snd efs))]) @ tops)"
    unfolding event_topics_of_def push assms(5) by (simp add: assms(4) event_of_def)
  have "length ((if a then [] else [keccak (signature_spec n (map snd efs))]) @ tops) \<le> 4"
    using assms(3) len by (auto simp: event_accepted_def assms(4) event_of_def)
  then show ?thesis
    using topics_push_all_is [of topics_new "(if a then [] else [keccak (signature_spec n (map snd efs))]) @ tops"]
    by (auto simp: all log_topics_def tops_def topics_new_def topics_as_slice_def)
qed

text \<open>
  C14: a derived event is a Solidity event. Whenever the macro accepts an event of a program and
  generates \<open>emit\<close>, emitting a value deposits exactly one log: its topics are the hash of the canonical
  signature, unless the event is anonymous, and for every indexed field the word of a value type or
  the hash of anything else; its data is the other fields encoded as a tuple. In the program no name is
  an alias of \<open>u8\<close> and the \<open>SOL_NAME\<close>s of custom types are their ABI names. Two uses are excepted: an
  indexed field whose type is a struct with custom fields or an alias of an array or tuple, and a
  single data field that is a dynamic tuple.
\<close>

theorem events_refine_solidity_logs:
  assumes "env_ok env" "names_ok env names" "program_fields env rs (map snd efs)" "values_ok (map snd efs) vs"
    and "ev = event_of n efs a al" "event_accepted ev" "event_emit H keccak names ev vs s \<noteq> None"
    and "\<forall>(b, s, d) \<in> set efs. b \<longrightarrow> plain_topic s d" "\<not> single_dynamic_tuple (map fst (picked False efs vs))"
    and "\<forall>((s, d), v) \<in> set (picked True efs vs). length (abi_enc (abi_of d) v) < usize_limit"
    and "length (log_data efs vs) < usize_limit"
  shows "event_emit H keccak names ev vs s =
    Some (Some (api_deposit_event H (log_topics keccak n a efs vs) (log_data efs vs) s))"
proof -
  have f: "fields_ok (map snd efs)" using program_fields_ok assms(1,3) .
  have l: "length vs = length efs" using assms(4) by (auto simp: values_ok_def dest: list_all2_lengthD)
  have "event_topic0 keccak names ev = keccak (signature_spec n (map snd efs))"
    using build_signature_is [OF assms(1-3), of n]
    by (simp add: event_topic0_def assms(5) event_of_def comp_def case_prod_beta)
  then obtain t where t: "event_topics_of keccak names ev vs = Some t" "topics_as_slice t = log_topics keccak n a efs vs"
    using event_topics_is [OF f assms(4,6,5) _ assms(8,10)] by blast
  note ok = picked_ok(2,3) [OF f assms(4), of False]
  note d = event_data_is [OF ok assms(9) refl refl, folded log_data_def]
  note sl = static_data_len [OF ok, folded log_data_def]
  show ?thesis
    using assms(7) t d sl assms(11) picked_fields(2,3) [OF l, of n a al]
    by (auto simp: event_emit_def Let_def assms(5) split: if_splits)
qed

text \<open>An error of a program crosses a cross-contract call.\<close>

lemma derived_error_data:
  assumes "fields_ok fs" "values_ok fs vs" "E = derive_error (selector_spec keccak n fs) (dfields fs)"
    and "length (error_spec keccak n fs vs) < usize_limit"
  shows "error_data True (error_value E vs) = error_spec keccak n fs vs"
  using derived_error_is(1,2) [OF assms(1-3) refl] assms(4)
  by (simp add: error_data_def error_value_def revert_cap_def)

text \<open>
  C13: a derived error crosses a call. When a method of a contract at the address (called with
  parameters as in C8) fails with a variant of an error enum of the program (as in C12), the caller
  gets \<open>CalleeReverted\<close>, and decoding the error with the same enum gives the variant and its
  arguments back, through the heap buffer or any buffer with room for it; the callee's state is what
  it was before the call.
\<close>

theorem derived_error_crosses_call:
  assumes "contract_ok True C" "calls keccak C self m args" "length input_buf + 32 < usize_limit"
    and "I = codec_of (payload_type (map snd (param_types m)))" "4 + encode_len I (cl_payload self) \<le> length input_buf"
    and "G = host_guard keccak (mock_api k)" "s = callee_entry self m args input_buf t"
    and "guard_mode_of m = NoGuard \<or> \<not> g_is_locked G s"
    and "invoke m args (if guard_mode_of m = FullGuard then g_lock G s else s) = (Inr (Inl (error_value E (i, vs))), s')"
    and "ms_return_value s' = None" "H = linked_api keccak k addr C"
    and "error_decls_ok keccak env names ds" "i < length ds" "ds ! i = (n, fs)" "values_ok fs vs"
    and "E = derive_error_enum (error_arms keccak names ds)" "e = error_spec keccak n fs vs"
    and "length e + 32 < usize_limit" "after = (c\<lparr>ms_return_data := e\<rparr>, t)"
  shows "builder_call H I R self addr input_buf output_len (c, t) = Some (Inl ECalleeReverted, after) \<and>
    try_decode_error H (err_decode_at E) ECalleeReverted after = Some (Some (i, vs)) \<and>
    (length e \<le> buf_len \<longrightarrow>
      try_decode_error_raw H (err_decode_at E) ECalleeReverted buf_len after = Some (Some (i, vs)))"
proof -
  have mem: "(n, fs) \<in> set ds" using assms(13,14) by (metis nth_mem)
  have arm: "error_arms keccak names ds ! i = derive_error (selector_spec keccak n fs) (dfields fs)"
    using assms(13,14) by (simp add: error_arms_spec [OF assms(12)])
  have "error_data True (error_value E (i, vs)) = error_data True (error_value (error_arms keccak names ds ! i) vs)"
    by (simp add: error_data_def error_value_def revert_cap_def assms(16) derive_error_enum_def)
  then have data: "error_data True (error_value E (i, vs)) = e"
    using derived_error_data [OF decl_fields_ok [OF assms(12) mem] assms(15) arm] assms(17,18) by simp
  then have "length (error_data True (error_value E (i, vs))) < usize_limit"
    "after = (c\<lparr>ms_return_data := error_data True (error_value E (i, vs))\<rparr>, t)"
    using assms(18,19) by simp_all
  note reach = method_error_reaches_caller [OF assms(1-10) this(1) assms(11) this(2)]
  have "err_decode_at E e 0 = Some (Some (i, vs))"
    using derived_error_decodes [OF assms(12-15) refl assms(16,17), of "[]"] assms(18) by simp
  then show ?thesis by (simp add: reach(1,2) reach(3) data)
qed

section \<open>Where derived events leave the specification\<close>

text \<open>
  A type encoded as one word, and a struct of such fields of which one is a custom type by its syntax:
  the derive uses \<open>expand_dynamic\<close> for it, which does not override \<open>indexed_topic\<close>.
\<close>

fun one_word :: "dty \<Rightarrow> bool" where
  "one_word (DPrim p) = True"
| "one_word (DEnum n k) = True"
| "one_word (DUdt n d) = True"
| "one_word _ = False"

definition custom_words :: "(sol_type \<times> dty) list \<Rightarrow> bool" where
  "custom_words fs \<longleftrightarrow> list_all (\<lambda>(s, d). one_word d) fs \<and> list_ex (\<lambda>(s, d). st_has_custom_types s) fs"

lemma one_word_codec:
  assumes "one_word d" "dwf d"
  shows "\<not> IS_DYNAMIC (dcodec d)" "SLOT_SIZE (dcodec d) = 32"
    "dwt d v \<Longrightarrow> length buf < 32 \<Longrightarrow> encode_body_to (dcodec d) v buf = None"
proof -
  show st: "\<not> IS_DYNAMIC (dcodec d)" "SLOT_SIZE (dcodec d) = 32"
    using assms by (cases d; simp add: impl_prim_def derive_enum_def expand_udt_def SLOT_SIZE_def)+
  have p: "encode_body_to (impl_prim p) v buf = None" if "prim_wf p" "sol_wt (TPrim p) v" "length buf < 32" for p
    using that prim_encode_short [of p "val_prim v" buf] by (cases v) (simp_all add: impl_prim_def)
  show "encode_body_to (dcodec d) v buf = None" if "dwt d v" "length buf < 32"
  proof (cases d)
    case (DEnum n k)
    then have "sol_wt (TPrim U8) v" using that(1) by (auto simp: prim_wt_def split: sol_val.splits prim_val.splits)
    then show ?thesis using p [of U8] that(2) DEnum by (simp add: derive_enum_def)
  next
    case (DUdt n d')
    then obtain q where "d' = DPrim q" "prim_wf q" using assms(2) by (cases d') auto
    then show ?thesis using p [of q] that DUdt by (simp add: expand_udt_def)
  qed (use assms that p in auto)
qed

lemma custom_words_codec:
  assumes "dwf (DStruct sn fs)" "custom_words fs"
  shows "dcodec (DStruct sn fs) = expand_dynamic (map (map_prod id dcodec) fs)" "\<not> IS_DYNAMIC (dcodec (DStruct sn fs))"
proof -
  have "list_ex (\<lambda>f. st_has_custom_types (fst f) \<or> st_is_dynamic (fst f) = Some True) (map (map_prod id dcodec) fs)"
    using assms(2) unfolding custom_words_def list_ex_iff by force
  then show "dcodec (DStruct sn fs) = expand_dynamic (map (map_prod id dcodec) fs)"
    by (simp only: dcodec.simps derive_struct_def if_True)
  have "\<not> abi_dynamic (abi_of d)" if "(s, d) \<in> set fs" for s d
  proof -
    have "one_word d" "dwf d" using that assms by (auto simp: custom_words_def list_all_iff)
    then show ?thesis using one_word_codec(1) dcodec_dynamic by blast
  qed
  then show "\<not> IS_DYNAMIC (dcodec (DStruct sn fs))"
    using dcodec_dynamic [OF assms(1)] by (auto simp: list_ex_iff)
qed

text \<open>Two or more words do not fit the 32 bytes of a topic; one word is the topic, and is not hashed.\<close>

lemma custom_words_topic:
  assumes "dwf (DStruct sn fs)" "custom_words fs" "dwt (DStruct sn fs) v" "2 \<le> length fs"
  shows "indexed_topic_pack keccak (SolCustom p, dcodec (DStruct sn fs)) v = None"
proof -
  obtain s1 d1 s2 d2 rest where fs: "fs = (s1, d1) # (s2, d2) # rest"
    using assms(4) by (cases fs; cases "tl fs") auto
  obtain v1 v2 vs where v: "v = VSeq (v1 # v2 # vs)" "dwt d2 v2"
    using assms(3) fs by (cases v) (auto simp: list_all2_Cons1)
  have w: "one_word d1" "one_word d2" "dwf d1" "dwf d2" using assms(1,2) fs by (auto simp: custom_words_def)
  let ?fs = "map (map_prod id dcodec) fs"
  note sn = wf_struct_seen [OF assms(1)]
  have fd: "\<not> field_dynamic (s1, dcodec d1)" "\<not> field_dynamic (s2, dcodec d2)"
    using field_dynamic_seen sn w one_word_codec(1) by (auto simp: fs)
  have ho: "head_sum (take (Suc 0) ?fs) = 32"
    using head_sum_snoc(1) [of "[(s1, dcodec d1)]" "(s2, dcodec d2)" "map (map_prod id dcodec) rest"] sn
      one_word_codec(2) [OF w(1,3)] by (simp add: fs tuple_head_size_def)
  have short: "encode_body_to (dcodec d2) v2 [] = None"
    using one_word_codec(3) [OF w(2,4) v(2), of "[]"] by simp
  have "dwt d1 v1" using assms(3) fs v(1) by simp
  from dcodec_encodes [OF w(3) this] have "encodes (dcodec d1) v1 (abi_enc (abi_of d1) v1)" .
  then have w0: "length b = 32" if "encode_body_to (dcodec d1) v1 (replicate 32 0) = Some b" for b
    using that one_word_codec(1,2) [OF w(1,3)] by (auto simp: encodes_def SLOT_SIZE_def usize_limit_def)
  have "dyn_encode_fields ?fs 0 (zip ?fs (v1 # v2 # vs)) (head_sum ?fs) (replicate 32 0) = None"
  proof -
    have "with_suffix b 32 (encode_body_to (dcodec d2) v2) = None" if "length b \<le> 32" for b
      using that short by (simp add: with_suffix_def)
    moreover have "length b \<le> 32" if "with_suffix (replicate 32 0) (head_sum []) (encode_body_to (dcodec d1) v1) = Some b" for b
      using that w0 by (auto simp: with_suffix_def head_sum_def has_custom_def)
    ultimately show ?thesis using fd ho by (simp add: fs split: Option.bind_splits)
  qed
  then show ?thesis
    using custom_words_codec(1) [OF assms(1,2)]
    by (simp add: indexed_topic_pack_def indexed_topic_def expand_dynamic_def v)
qed

lemma custom_word_topic:
  assumes "dwf (DStruct sn [f])" "custom_words [f]" "dwt (DStruct sn [f]) v"
  shows "indexed_topic_pack keccak (SolCustom p, dcodec (DStruct sn [f])) v = Some (abi_enc (abi_of (DStruct sn [f])) v)"
proof -
  note c = custom_words_codec [OF assms(1,2)]
  obtain s1 d1 where f: "f = (s1, d1)" by (cases f)
  have "one_word d1" "dwf d1" using assms(1,2) f by (simp_all add: custom_words_def)
  then have "SLOT_SIZE (dcodec (DStruct sn [f])) = 32"
    using one_word_codec(2) head_sum_seen [OF wf_struct_seen [OF assms(1)]] c
    by (simp add: SLOT_SIZE_def f expand_dynamic_def tuple_head_size_def split: if_splits)
  then have "indexed_topic keccak (dcodec (DStruct sn [f])) v = Some (abi_enc (abi_of (DStruct sn [f])) v)"
    using dcodec_encodes [OF assms(1,3)] c
    by (intro topic_of_word) (auto simp: encodes_def SLOT_SIZE_def expand_dynamic_def)
  then show ?thesis by (simp add: indexed_topic_pack_def)
qed

lemma push_topics_panics:
  "((True, f), v) \<in> set fvs \<Longrightarrow> indexed_topic_pack keccak f v = None \<Longrightarrow> push_topics keccak fvs t = None"
  by (induction keccak fvs t rule: push_topics.induct) (auto split: Option.bind_splits)

lemma single_dynamic_tuple_shape:
  assumes "single_dynamic_tuple (map fst xs)"
  shows "\<exists>s ds v. xs = [((s, DTuple ds), v)] \<and> abi_dynamic (abi_of (DTuple ds))"
proof (cases xs)
  case (Cons x ys)
  obtain s d v where x: "x = ((s, d), v)" by (metis surj_pair)
  have "ys = []" using assms Cons x by (cases ys; cases d) (auto simp: single_dynamic_tuple_def)
  then show ?thesis using assms Cons x by (cases d) (auto simp: single_dynamic_tuple_def)
qed (use assms in \<open>simp add: single_dynamic_tuple_def\<close>)

text \<open>A single dynamic tuple as data: its heads and tails, without the offset of the tuple.\<close>

lemma single_tuple_data:
  assumes "dwf (DTuple ds)" "dwt (DTuple ds) v" "abi_dynamic (abi_of (DTuple ds))"
    and "D = abi_enc (args_ty [(s, DTuple ds)]) (VSeq [v])" "length D < usize_limit"
  shows "event_data_to [(dcodec (DTuple ds), v)] (replicate (event_data_len [(dcodec (DTuple ds), v)]) 0) = Some (drop 32 D)"
proof -
  have wt: "dwf (DTuple ds) \<and> dwt (DTuple ds) v" using assms(1,2) ..
  let ?e = "abi_enc (abi_of (DTuple ds)) v"
  have top: "top_enc (dcodec (DTuple ds)) ?e = ?e" by (simp add: top_enc_def)
  have D: "D = abi_uint 32 @ ?e"
    using assms(3) single_field_enc(1) [of ?e] by (simp add: assms(4) args_ty_def del: abi_enc.simps(7))
  show ?thesis
    using dty.encode_to_top [OF wt, of "replicate (length ?e) 0"] dty.encode_len_top [OF wt] assms(5)
    unfolding top by (simp add: D)
qed

text \<open>What is before both cursors stays.\<close>

lemma with_slice_keeps: "with_slice buf i j f = Some b \<Longrightarrow> k \<le> i \<Longrightarrow> take k b = take k buf"
  by (auto simp: with_slice_def split: if_splits)

lemma data_encode_keeps:
  "data_encode_fields cvs ho to buf = Some b \<Longrightarrow> k \<le> ho \<Longrightarrow> k \<le> to \<Longrightarrow> take k b = take k buf"
proof (induction cvs ho to buf rule: data_encode_fields.induct)
  case (2 c v cvs ho to buf)
  have "take k b' = take k buf" if "copy_at buf (ho + 24) x = Some b'" for x b'
    using that "2.prems"(2) by (auto simp: copy_at_def split: if_splits)
  then show ?case
    using 2 with_slice_keeps by (auto simp: Let_def bind_eq_Some_conv split: if_splits)
qed simp

lemma first_offset_word:
  assumes "event_data_to ((c, v) # x # cvs) buf = Some b" "IS_DYNAMIC c"
  shows "take 32 b = take 24 buf @ u64_be (sum_list (map (\<lambda>(c, v). SLOT_SIZE c) ((c, v) # x # cvs)))"
proof -
  let ?to = "sum_list (map (\<lambda>(c, v). SLOT_SIZE c) ((c, v) # x # cvs))"
  have sz: "SLOT_SIZE c = 32" using assms(2) by (simp add: SLOT_SIZE_def)
  obtain b1 b2 where b: "copy_at buf 24 (u64_be ?to) = Some b1"
    "with_slice b1 ?to (?to + encode_body_len c v) (encode_body_to c v) = Some b2"
    "data_encode_fields (x # cvs) 32 (?to + encode_body_len c v) b2 = Some b"
  proof -
    have "data_encode_fields ((c, v) # x # cvs) 0 ?to buf = Some b" using assms(1) by simp
    then show thesis
      using that assms(2) sz unfolding data_encode_fields.simps(2) [of c v "x # cvs" 0 ?to buf]
      by (auto simp: Let_def bind_eq_Some_conv simp del: data_encode_fields.simps)
  qed
  have "take 32 b = take 32 b1"
    using data_encode_keeps [OF b(3), of 32] with_slice_keeps [OF b(2), of 32] sz by simp
  then show ?thesis using b(1) by (auto simp: copy_at_def split: if_splits)
qed

lemma event_with_custom_words_panics:
  assumes "env_ok env" "names_ok env names" "program_fields env rs (map snd efs)" "values_ok (map snd efs) vs"
    and "ev = event_of n efs a al" "event_accepted ev" "event_emit H keccak names ev vs s \<noteq> None"
    and m: "(True, SolCustom p, DStruct sn fs) \<in> set efs" and c: "custom_words fs" "2 \<le> length fs"
  shows "event_emit H keccak names ev vs s = Some None"
proof -
  have f: "fields_ok (map snd efs)" using program_fields_ok assms(1,3) .
  have l: "length vs = length efs" using assms(4) by (auto simp: values_ok_def dest: list_all2_lengthD)
  obtain i where i: "i < length efs" "efs ! i = (True, SolCustom p, DStruct sn fs)" using m by (meson in_set_conv_nth)
  have wf: "dwf (DStruct sn fs)" using f m by (fastforce simp: fields_ok_def list_all_iff simp del: dwf.simps)
  have wt: "dwt (DStruct sn fs) (vs ! i)"
    using list_all2_nthD [OF assms(4) [unfolded values_ok_def], of i] i by simp
  have "((True, SolCustom p, dcodec (DStruct sn fs)), vs ! i) \<in> set (zip (ev_fields ev) vs)"
    using i l by (auto simp: assms(5) event_of_def in_set_zip intro!: exI [of _ i])
  then have "push_topics keccak (zip (ev_fields ev) vs) t = None" for t
    by (rule push_topics_panics) (rule custom_words_topic [OF wf c(1) wt c(2)])
  then have "event_topics_of keccak names ev vs = None"
    unfolding event_topics_of_def by (simp split: Option.bind_splits)
  then show ?thesis using assms(7) by (auto simp: event_emit_def Let_def split: if_splits)
qed

lemma event_with_single_tuple:
  assumes "env_ok env" "names_ok env names" "program_fields env rs (map snd efs)" "values_ok (map snd efs) vs"
    and "ev = event_of n efs a al" "event_accepted ev" "event_emit H keccak names ev vs s \<noteq> None"
    and one: "single_dynamic_tuple (map fst (picked False efs vs))" and t: "\<forall>(b, s, d) \<in> set efs. b \<longrightarrow> plain_topic s d"
      "\<forall>((s, d), v) \<in> set (picked True efs vs). length (abi_enc (abi_of d) v) < usize_limit"
    and len: "length (log_data efs vs) < usize_limit"
  shows "event_emit H keccak names ev vs s =
    Some (Some (api_deposit_event H (log_topics keccak n a efs vs) (drop 32 (log_data efs vs)) s))"
proof -
  have f: "fields_ok (map snd efs)" using program_fields_ok assms(1,3) .
  have l: "length vs = length efs" using assms(4) by (auto simp: values_ok_def dest: list_all2_lengthD)
  obtain st ds v where pk: "picked False efs vs = [((st, DTuple ds), v)]" and dyn: "abi_dynamic (abi_of (DTuple ds))"
    using single_dynamic_tuple_shape [OF one] by blast
  have ok: "denotes st (DTuple ds)" "dwf (DTuple ds)" "dwt (DTuple ds) v"
    using picked_ok(1) [OF f assms(4), of False] by (auto simp: pk)
  have "event_topic0 keccak names ev = keccak (signature_spec n (map snd efs))"
    using build_signature_is [OF assms(1-3), of n]
    by (simp add: event_topic0_def assms(5) event_of_def comp_def case_prod_beta)
  then obtain tp where tp: "event_topics_of keccak names ev vs = Some tp" "topics_as_slice tp = log_topics keccak n a efs vs"
    using event_topics_is [OF f assms(4,6,5) _ t] by blast
  have data: "event_data_to [(dcodec (DTuple ds), v)] (replicate (event_data_len [(dcodec (DTuple ds), v)]) 0) =
      Some (drop 32 (log_data efs vs))"
    by (rule single_tuple_data [OF ok(2,3) dyn _ len]) (simp add: log_data_def pk)
  have "st_is_dynamic st \<noteq> Some False"
    using denotes_seen [OF ok(1)] dcodec_dynamic [OF ok(2)] dyn by (auto simp: seen_def simp del: dcodec.simps abi_of.simps)
  then show ?thesis
    using assms(7) tp data picked_fields(2,3) [OF l, of n a al]
    by (auto simp: event_emit_def Let_def assms(5) pk dfields_def simp del: event_data_to.simps event_data_len.simps dcodec.simps
        split: if_splits)
qed

text \<open>
  C15: the exceptions of C14 are real. In an event of a program that is accepted and has \<open>emit\<close>: (1) an
  indexed field of a struct whose fields are words, two or more of them and one of a custom type, is
  accepted, but emitting any value of the event panics, because such a struct does not override
  \<open>indexed_topic\<close> and its words do not fit a topic; (2) of such a struct with one field the topic is the
  word and not its hash; (3) if the only data field is a dynamic tuple, and the indexed fields are
  plain, the log has the right topics and the data without the offset that the ABI puts before the tuple.
  And (4) \<open>data_to\<close> with a first dynamic field of several leaves the upper bytes of its offset word as
  they were in the buffer.
\<close>

theorem event_gaps:
  assumes "env_ok env" "names_ok env names" "program_fields env rs (map snd efs)" "values_ok (map snd efs) vs"
    and "ev = event_of n efs a al" "event_accepted ev" "event_emit H keccak names ev vs s \<noteq> None"
  shows "(\<forall>p sn fs. dwf (DStruct sn fs) \<and> custom_words fs \<longrightarrow> indexed_accepted (SolCustom p, dcodec (DStruct sn fs))) \<and>
    (\<forall>p sn fs. (True, SolCustom p, DStruct sn fs) \<in> set efs \<and> custom_words fs \<and> 2 \<le> length fs \<longrightarrow>
      event_emit H keccak names ev vs s = Some None) \<and>
    (\<forall>p sn f v. ((SolCustom p, DStruct sn [f]), v) \<in> set (picked True efs vs) \<and> custom_words [f] \<longrightarrow>
      indexed_topic_pack keccak (SolCustom p, dcodec (DStruct sn [f])) v = Some (abi_enc (abi_of (DStruct sn [f])) v) \<and>
      topic_spec keccak (abi_of (DStruct sn [f])) v = keccak (abi_enc (abi_of (DStruct sn [f])) v)) \<and>
    (single_dynamic_tuple (map fst (picked False efs vs)) \<and> (\<forall>(b, s, d) \<in> set efs. b \<longrightarrow> plain_topic s d) \<and>
      (\<forall>((s, d), v) \<in> set (picked True efs vs). length (abi_enc (abi_of d) v) < usize_limit) \<and>
      length (log_data efs vs) < usize_limit \<longrightarrow>
      event_emit H keccak names ev vs s =
        Some (Some (api_deposit_event H (log_topics keccak n a efs vs) (drop 32 (log_data efs vs)) s))) \<and>
    (\<forall>c v x cvs buf b. event_data_to ((c, v) # x # cvs) buf = Some b \<and> IS_DYNAMIC c \<longrightarrow>
      take 32 b = take 24 buf @ u64_be (sum_list (map (\<lambda>(c, v). SLOT_SIZE c) ((c, v) # x # cvs))))"
proof -
  have f: "fields_ok (map snd efs)" using program_fields_ok assms(1,3) .
  have acc: "indexed_accepted (SolCustom p, dcodec (DStruct sn fs))" if "dwf (DStruct sn fs)" "custom_words fs" for p sn fs
    using custom_words_codec(2) [OF that] by (simp add: indexed_accepted_def)
  have word: "indexed_topic_pack keccak (SolCustom p, dcodec (DStruct sn [g])) v = Some (abi_enc (abi_of (DStruct sn [g])) v)"
    if "((SolCustom p, DStruct sn [g]), v) \<in> set (picked True efs vs)" "custom_words [g]" for p sn g v
    using picked_ok(1) [OF f assms(4), of True] that by (intro custom_word_topic) fastforce+
  have hash: "topic_spec keccak (abi_of (DStruct sn fs)) v = keccak (abi_enc (abi_of (DStruct sn fs)) v)" for sn fs v
    by (simp add: topic_spec_def)
  note panic = event_with_custom_words_panics [OF assms] and tuple = event_with_single_tuple [OF assms]
  show ?thesis
  proof (intro conjI allI impI; elim conjE)
    fix c v x cvs buf b assume "event_data_to ((c, v) # x # cvs) buf = Some b" "IS_DYNAMIC c"
    then show "take 32 b = take 24 buf @ u64_be (sum_list (map (\<lambda>(c, v). SLOT_SIZE c) ((c, v) # x # cvs)))"
      by (rule first_offset_word)
  qed (use hash in \<open>blast intro: acc panic word tuple\<close>)+
qed

section \<open>Witnesses\<close>

text \<open>\<open>struct Entry { kind: Kind, id: u64 }\<close> with an enum field, indexed in an event.\<close>

definition entry_ty :: dty where
  "entry_ty = DStruct (ascii ''Entry'') [(SolCustom (ascii ''Kind''), DEnum (ascii ''Kind'') 3), (SolUint 64, DPrim U64)]"

theorem event_gaps_witness:
  "event_emit (mock_api (\<lambda>_. 9)) (\<lambda>_. replicate 32 1) (\<lambda>_. abi_name (abi_of entry_ty))
     (event_of (ascii ''Set'') [(True, SolCustom (ascii ''Entry''), entry_ty)] False False)
     [VSeq [VPrim (VU8 2), VPrim (VU64 7)]] mock_new = Some None"
proof -
  let ?efs = "[(True, SolCustom (ascii ''Entry''), entry_ty)]" and ?n = "ascii ''Set''"
    and ?vs = "[VSeq [VPrim (VU8 2), VPrim (VU64 7)]]" and ?names = "\<lambda>_. abi_name (abi_of entry_ty)"
    and ?env = "\<lambda>p. if p = ascii ''Entry'' then Some entry_ty else None"
  have p: "path_type (ascii ''Entry'') = SolCustom (ascii ''Entry'')" by (simp add: path_type_def in_names_def ascii_def)
  have wf: "dwf entry_ty" by (simp add: entry_ty_def uint_prim.simps)
  have cw: "custom_words [(SolCustom (ascii ''Kind''), DEnum (ascii ''Kind'') 3), (SolUint 64, DPrim U64)]"
    by (simp add: custom_words_def)
  have e: "env_ok ?env" using p by (auto simp: env_ok_def entry_ty_def)
  have n: "names_ok ?env ?names" by (simp add: names_ok_def)
  have f: "program_fields ?env [RPath (ascii ''Entry'')] (map snd ?efs)"
    using wf by (simp add: program_fields_def p)
  have v: "values_ok (map snd ?efs) ?vs" by (simp add: values_ok_def entry_ty_def prim_wt_def)
  have a: "event_accepted (event_of ?n ?efs False False)"
    using custom_words_codec(2) [OF wf [unfolded entry_ty_def] cw]
    by (simp add: event_accepted_def event_of_def indexed_accepted_def flip: entry_ty_def)
  have "event_emit (mock_api (\<lambda>_. 9)) (\<lambda>_. replicate 32 1) ?names (event_of ?n ?efs False False) ?vs mock_new \<noteq> None"
    by (simp add: event_emit_def event_of_def data_fields_def Let_def)
  from event_gaps [OF e n f v refl a this, THEN conjunct2, THEN conjunct1, rule_format, of "ascii ''Entry''" "ascii ''Entry''"] cw
  show ?thesis by (auto simp: entry_ty_def)
qed

text \<open>\<open>enum Errors { Bad(Bad) }\<close> with \<open>struct Bad { code: u64 }\<close>, and an event with the same field twice.\<close>

definition bad_fields :: "(sol_type \<times> dty) list" where
  "bad_fields = [(SolUint 64, DPrim U64)]"

definition u64_env :: "bytes \<Rightarrow> dty option" where
  "u64_env p = (if p = ascii ''u64'' then Some (DPrim U64) else None)"

definition u64_names :: "bytes \<Rightarrow> bytes" where
  "u64_names p = ascii ''uint64''"

lemma bad_ok:
  "env_ok u64_env" "names_ok u64_env u64_names" "program_fields u64_env [RPath (ascii ''u64'')] bad_fields"
  "values_ok bad_fields [VPrim (VU64 7)]"
  "error_decls_ok (\<lambda>_. replicate 32 0) u64_env u64_names [(ascii ''Bad'', bad_fields)]"
proof -
  have p: "path_type (ascii ''u64'') = SolUint 64" by (simp add: path_type_def in_names_def ascii_def)
  show e: "env_ok u64_env" using p by (auto simp: env_ok_def u64_env_def uint_prim.simps)
  show n: "names_ok u64_env u64_names" by (auto simp: names_ok_def u64_env_def u64_names_def ascii_def decimal_def digits_of.simps)
  show f: "program_fields u64_env [RPath (ascii ''u64'')] bad_fields"
    by (simp add: program_fields_def bad_fields_def p u64_env_def)
  show "values_ok bad_fields [VPrim (VU64 7)]" by (simp add: values_ok_def bad_fields_def prim_wt_def)
  show "error_decls_ok (\<lambda>_. replicate 32 0) u64_env u64_names [(ascii ''Bad'', bad_fields)]"
    using e n f by (auto simp: error_decls_ok_def)
qed

lemma bad_error:
  "error_spec (\<lambda>_. replicate 32 0) (ascii ''Bad'') bad_fields [VPrim (VU64 7)] = [0, 0, 0, 0] @ be_bytes 32 7"
  by (simp add: error_spec_def selector_spec_def const_selector_def bad_fields_def args_ty_def seq_enc_def
      seq_head_len_def seq_tails_def item_head_def item_tail_def)

theorem derived_errors_round_trip_witness:
  "err_decode_at (derive_error_enum (error_arms (\<lambda>_. replicate 32 0) u64_names [(ascii ''Bad'', bad_fields)]))
     ([0, 0, 0, 0] @ be_bytes 32 7 @ [9]) 0 = Some (Some (0, [VPrim (VU64 7)]))"
  using derived_errors_round_trip [OF bad_ok(5) _ _ bad_ok(4) refl refl refl, of 0 "ascii ''Bad''" "replicate 36 0" "[9]" "[]"]
  by (simp add: bad_error usize_limit_def)

theorem events_refine_solidity_logs_witness:
  "event_emit (mock_api (\<lambda>_. 9)) (\<lambda>_. replicate 32 1) u64_names
     (event_of (ascii ''Set'') [(True, SolUint 64, DPrim U64), (False, SolUint 64, DPrim U64)] False False)
     [VPrim (VU64 7), VPrim (VU64 8)] mock_new =
   Some (Some (api_deposit_event (mock_api (\<lambda>_. 9)) [replicate 32 1, be_bytes 32 7] (be_bytes 32 8) mock_new))"
proof -
  let ?efs = "[(True, SolUint 64, DPrim U64), (False, SolUint 64, DPrim U64)]" and ?n = "ascii ''Set''"
    and ?vs = "[VPrim (VU64 7), VPrim (VU64 8)]"
  have f: "program_fields u64_env [RPath (ascii ''u64''), RPath (ascii ''u64'')] (map snd ?efs)"
    using bad_ok(3) by (simp add: program_fields_def bad_fields_def)
  have v: "values_ok (map snd ?efs) ?vs" by (simp add: values_ok_def prim_wt_def)
  have a: "event_accepted (event_of ?n ?efs False False)"
    by (simp add: event_accepted_def event_of_def indexed_accepted_def impl_prim_def)
  have e: "event_emit (mock_api (\<lambda>_. 9)) (\<lambda>_. replicate 32 1) u64_names (event_of ?n ?efs False False) ?vs mock_new \<noteq> None"
    by (simp add: event_emit_def event_of_def data_fields_def Let_def)
  show ?thesis
    using events_refine_solidity_logs [OF bad_ok(1,2) f v refl a e]
    by (simp add: picked_def single_dynamic_tuple_def log_data_def log_topics_def args_ty_def topic_spec_def
        seq_enc_def seq_head_len_def seq_tails_def item_head_def item_tail_def usize_limit_def)
qed

text \<open>A contract whose only method fails with the error.\<close>

definition failing_contract :: "sol_error \<Rightarrow> 's contract" where
  "failing_contract E =
     \<lparr> methods = [\<lparr> sol_method_name = ascii ''fail'', param_types = [], return_types = [], mutability = View,
         is_non_reentrant = False, invoke = \<lambda>args s. (Inr (Inl E), s) \<rparr>],
       fallback = None, receive = None, constructor_inputs = [], constructor_is_payable = False,
       constructor = None, buffer_size = 256 \<rparr>"

definition bad_value :: sol_error where
  "bad_value = error_value (derive_error_enum (error_arms (\<lambda>_. replicate 32 0) u64_names [(ascii ''Bad'', bad_fields)]))
     (0, [VPrim (VU64 7)])"

lemma failing_ok: "contract_ok True (failing_contract bad_value :: 's contract)"
proof -
  note d = derived_error_is [OF decl_fields_ok [OF bad_ok(5), of "ascii ''Bad''" bad_fields] bad_ok(4) refl refl,
      of "\<lambda>_. replicate 32 0" "ascii ''Bad''"]
  have "error_ok True bad_value"
    using d(1) d(2) [of "replicate 36 0"]
    by (simp add: error_ok_def bad_value_def error_value_def derive_error_enum_def error_arms_spec [OF bad_ok(5)]
        bad_error revert_cap_def usize_limit_def)
  then show ?thesis by (simp add: contract_ok_def failing_contract_def method_ok_def params_ok_def)
qed

theorem derived_error_crosses_call_witness:
  "\<exists>after. builder_call (linked_api (\<lambda>_. replicate 32 0) (\<lambda>_. 9) (replicate 20 1) (failing_contract bad_value))
      (codec_of TUnit) (codec_of TUnit)
      \<lparr> cl_selector = [0, 0, 0, 0], cl_payload = VUnit, cl_witness = WView, cl_limits = call_limits_default,
        cl_allow_reentry = False \<rparr>
      (replicate 20 1) (replicate 4 0) 512 (mock_new, mock_new) = Some (Inl ECalleeReverted, after) \<and>
    try_decode_error (linked_api (\<lambda>_. replicate 32 0) (\<lambda>_. 9) (replicate 20 1) (failing_contract bad_value))
      (err_decode_at (derive_error_enum (error_arms (\<lambda>_. replicate 32 0) u64_names [(ascii ''Bad'', bad_fields)])))
      ECalleeReverted after = Some (Some (0, [VPrim (VU64 7)]))"
proof -
  let ?K = "\<lambda>_. replicate 32 0" and ?C = "failing_contract bad_value :: mock_state contract"
  define b where "b = \<lparr> cl_selector = [0, 0, 0, 0], cl_payload = VUnit, cl_witness = WView, cl_limits = call_limits_default,
        cl_allow_reentry = False \<rparr>"
  define m :: "mock_state method_info" where "m = hd (methods ?C)"
  have m: "m = \<lparr> sol_method_name = ascii ''fail'', param_types = [], return_types = [], mutability = View,
         is_non_reentrant = False, invoke = \<lambda>args s. (Inr (Inl bad_value), s) \<rparr>"
    by (simp add: m_def failing_contract_def)
  have "find (\<lambda>m. build_selector_const ?K m = Some [0, 0, 0, 0]) (methods ?C) = Some m"
    by (simp add: m failing_contract_def build_selector_const_def build_method_signature_expr_def const_selector_def)
  then have c: "calls ?K ?C b m []" by (simp add: calls_def b_def m)
  have entry: "ms_return_value (callee_entry b m [] (replicate 4 0) mock_new) = None"
    by (simp add: callee_entry_def callee_start_def Let_def)
  show ?thesis
    using derived_error_crosses_call [OF failing_ok c, where input_buf = "replicate 4 0" and output_len = 512 and c = mock_new
        and t = mock_new and R = "codec_of TUnit" and addr = "replicate 20 1" and k = "\<lambda>_. 9", OF _ refl _ refl refl _ _ entry
        refl bad_ok(5) _ _ bad_ok(4) refl refl _ refl, where i = 0 and n = "ascii ''Bad''" and buf_len = 0]
    by (simp add: m guard_mode_of_def usize_limit_def encode_len_def impl_unit_def bad_error bad_value_def flip: b_def)
qed

end
