(* ===== verification/AbiImport.thy ===== *)
theory AbiImport
  imports CustomTypes DeriveErrors
begin

text \<open>
  \<open>abi_import!\<close> (\<open>abi_import/ctxt.rs\<close>, \<open>abi_import/mod.rs\<close>): a Solidity file becomes Rust types and, for
  each interface, a module with a function per method that builds its call. \<open>Ctxt\<close> is the record
  \<open>ctxt\<close>; an expansion returns a list of errors or what is emitted: Rust types as the token trees of
  theory \<open>SolTypes\<close>, items by their name and fields. \<open>rust_denotes\<close> says what an emitted type is to the
  compiler, by Rust's name resolution in the emitted modules; \<open>sol_means\<close> says what a Solidity type is
  in the ABI, by Solidity's scoping. The contract of the component: both agree, and with the canonical
  names that the macro computes on its own.
\<close>

section \<open>Names\<close>

definition is_upper :: "byte \<Rightarrow> bool" where
  "is_upper c \<longleftrightarrow> 65 \<le> c \<and> c \<le> 90"

definition to_lower :: "byte \<Rightarrow> byte" where
  "to_lower c = (if is_upper c then c + 32 else c)"

definition to_upper :: "byte \<Rightarrow> byte" where
  "to_upper c = (if 97 \<le> c \<and> c \<le> 122 then c - 32 else c)"

fun snake_from :: "bool \<Rightarrow> bytes \<Rightarrow> bytes" where
  "snake_from first [] = []"
| "snake_from first (c # s) =
     (if is_upper c then (if first then [] else ascii ''_'') @ [to_lower c] else [c]) @ snake_from False s"

definition to_snake_case :: "bytes \<Rightarrow> bytes" where
  "to_snake_case s = snake_from True s"

fun pascal_from :: "bool \<Rightarrow> bool \<Rightarrow> bytes \<Rightarrow> bytes" where
  "pascal_from post_lower first [] = []"
| "pascal_from post_lower first (c # s) =
     (if c = 95 then pascal_from True False s
      else (if post_lower \<or> first then to_upper c else c) # pascal_from False False s)"

definition to_pascal_case :: "bytes \<Rightarrow> bytes" where
  "to_pascal_case s = pascal_from False True s"

section \<open>Ctxt\<close>

record ctxt =
  current_ns :: "bytes option"
  overloaded_functions :: "bytes option \<Rightarrow> bytes \<Rightarrow> bytes set"
  cx_types :: "bytes option \<Rightarrow> bytes set"
  custom_types :: custom_types

definition ctxt_default :: ctxt where
  "ctxt_default =
     \<lparr> current_ns = None, overloaded_functions = \<lambda>_ _. {}, cx_types = \<lambda>_. {}, custom_types = [] \<rparr>"

datatype resolution = Local | TopLevel | Qualified bytes bool

type_synonym 'a syn_result = "import_error list + 'a"

definition ctxt_resolve :: "ctxt \<Rightarrow> bytes list \<Rightarrow> resolution syn_result" where
  "ctxt_resolve cx path = (case path of
       [name] \<Rightarrow>
         (if name \<in> cx_types cx (current_ns cx) then Inr Local
          else if current_ns cx \<noteq> None \<and> name \<in> cx_types cx None then Inr TopLevel
          else Inl [UnknownType path])
     | [ns, name] \<Rightarrow>
         (if name \<in> cx_types cx (Some ns) then Inr (Qualified ns (current_ns cx \<noteq> None))
          else Inl [UnknownType path])
     | _ \<Rightarrow> Inl [BadPath path])"

text \<open>The canonical signature; \<open>None\<close> when a walk does not end or the function has no name.\<close>

definition function_signature :: "ctxt \<Rightarrow> sol_function \<Rightarrow> bytes option" where
  "function_signature cx f =
     Option.bind (fn_name f) (\<lambda>name.
     map_option (\<lambda>params. name @ ascii ''('' @ comma_sep params @ ascii '')'')
       (all_some (map (\<lambda>p. canonical_name (custom_types cx) (snd p)) (fn_params f))))"

text \<open>\<open>hex\<close> is the third-party hex encoder.\<close>

definition function_name :: "(bytes \<Rightarrow> bytes) \<Rightarrow> (bytes \<Rightarrow> bytes) \<Rightarrow> ctxt \<Rightarrow> sol_function \<Rightarrow> bytes option" where
  "function_name keccak hex cx f =
     Option.bind (fn_name f) (\<lambda>name.
     if 1 < card (overloaded_functions cx (current_ns cx) name)
     then map_option (\<lambda>sig. to_snake_case name @ ascii ''_'' @ hex (const_selector keccak sig)) (function_signature cx f)
     else Some (to_snake_case name))"

definition visit_type :: "bytes \<Rightarrow> ctxt \<Rightarrow> ctxt" where
  "visit_type name cx = cx\<lparr>cx_types := (cx_types cx)(current_ns cx := insert name (cx_types cx (current_ns cx)))\<rparr>"

definition visit_function :: "bytes \<Rightarrow> sol_function \<Rightarrow> ctxt \<Rightarrow> ctxt syn_result" where
  "visit_function ns f cx = (case (fn_name f, function_signature cx f) of
       (Some name, Some sig) \<Rightarrow> Inr (cx\<lparr>overloaded_functions := (overloaded_functions cx)(Some ns :=
         (overloaded_functions cx (Some ns))(name := insert sig (overloaded_functions cx (Some ns) name)))\<rparr>)
     | _ \<Rightarrow> Inl [StackOverflow])"

fun visit_contract :: "bytes \<Rightarrow> item list \<Rightarrow> ctxt \<Rightarrow> ctxt syn_result" where
  "visit_contract ns [] cx = Inr cx"
| "visit_contract ns (IFunction f # its) cx =
     (if fn_name f \<noteq> None then andthen (visit_function ns f cx) (visit_contract ns its)
      else visit_contract ns its cx)"
| "visit_contract ns (IError name params # its) cx = visit_contract ns its (visit_type name cx)"
| "visit_contract ns (IStruct name fds # its) cx = visit_contract ns its (visit_type name cx)"
| "visit_contract ns (IUdt name ty # its) cx = visit_contract ns its (visit_type name cx)"
| "visit_contract ns (IEnum name variants # its) cx = visit_contract ns its (visit_type name cx)"
| "visit_contract ns (_ # its) cx = visit_contract ns its cx"

definition with_ns :: "bytes \<Rightarrow> (ctxt \<Rightarrow> ctxt syn_result) \<Rightarrow> ctxt \<Rightarrow> ctxt syn_result" where
  "with_ns ns f cx =
     andthen (f (cx\<lparr>current_ns := Some ns\<rparr>)) (\<lambda>cx'. Inr (cx'\<lparr>current_ns := current_ns cx\<rparr>))"

fun visit_file_items :: "item list \<Rightarrow> ctxt \<Rightarrow> ctxt syn_result" where
  "visit_file_items [] cx = Inr cx"
| "visit_file_items (IContract name is_interface body # its) cx =
     (if is_interface then andthen (with_ns name (visit_contract name body) cx) (visit_file_items its)
      else visit_file_items its cx)"
| "visit_file_items (IError name params # its) cx = visit_file_items its (visit_type name cx)"
| "visit_file_items (IStruct name fds # its) cx = visit_file_items its (visit_type name cx)"
| "visit_file_items (IUdt name ty # its) cx = visit_file_items its (visit_type name cx)"
| "visit_file_items (IEnum name variants # its) cx = visit_file_items its (visit_type name cx)"
| "visit_file_items (_ # its) cx = visit_file_items its cx"

definition visit_file :: "item list \<Rightarrow> ctxt \<Rightarrow> ctxt syn_result" where
  "visit_file file cx = (case from_file file of
       Inl e \<Rightarrow> Inl [e]
     | Inr T \<Rightarrow> visit_file_items file (cx\<lparr>custom_types := T\<rparr>))"

section \<open>Types\<close>

fun int_ident :: "bytes \<Rightarrow> bytes \<Rightarrow> nat option \<Rightarrow> bytes" where
  "int_ident lo up n =
     (case n of None \<Rightarrow> up @ decimal 256 | Some n \<Rightarrow> (if n = 256 then up else lo) @ decimal n)"

text \<open>\<open>(#(#args),*)\<close>: one argument in parentheses is that argument.\<close>

fun tuple_tokens :: "rust_type list \<Rightarrow> rust_type" where
  "tuple_tokens [r] = r"
| "tuple_tokens rs = RTuple rs"

fun custom_path :: "resolution \<Rightarrow> bytes \<Rightarrow> bytes" where
  "custom_path Local name = name"
| "custom_path TopLevel name = ascii ''super::'' @ name"
| "custom_path (Qualified ns from_interface) name =
     (if from_interface then ascii ''super::'' @ to_snake_case ns @ ascii ''::'' @ name
      else to_snake_case ns @ ascii ''::'' @ name)"

definition checked :: "bool \<Rightarrow> ctxt \<Rightarrow> sol_ast \<Rightarrow> rust_type syn_result \<Rightarrow> rust_type syn_result" where
  "checked alloc cx typ res =
     andthen (case typ of ACustom path \<Rightarrow> map_sum id (\<lambda>_. ()) (ctxt_resolve cx path) | _ \<Rightarrow> Inr ()) (\<lambda>_.
     if alloc then res
     else case is_abi_dynamic (custom_types cx) typ of
       None \<Rightarrow> Inl [StackOverflow]
     | Some dynamic \<Rightarrow> if dynamic then Inl [NeedsAlloc] else res)"

fun collect_all :: "'a syn_result list \<Rightarrow> 'a list syn_result" where
  "collect_all [] = Inr []"
| "collect_all (r # rs) = andthen r (\<lambda>x. andthen (collect_all rs) (\<lambda>xs. Inr (x # xs)))"

primrec to_rust_type :: "bool \<Rightarrow> ctxt \<Rightarrow> sol_ast \<Rightarrow> rust_type syn_result" where
  "to_rust_type alloc cx AAddress = checked alloc cx AAddress (Inr (RPath (ascii ''Address'')))"
| "to_rust_type alloc cx ABool = checked alloc cx ABool (Inr (RPath (ascii ''bool'')))"
| "to_rust_type alloc cx AString = checked alloc cx AString (Inr (RPath (ascii ''alloc::string::String'')))"
| "to_rust_type alloc cx ABytes = checked alloc cx ABytes (Inr (RPath (ascii ''pvm_contract_sdk::Bytes'')))"
| "to_rust_type alloc cx (AFixedBytes n) =
     checked alloc cx (AFixedBytes n) (Inr (RArray (RPath (ascii ''u8'')) n))"
| "to_rust_type alloc cx (AInt n) =
     checked alloc cx (AInt n) (Inr (RPath (int_ident (ascii ''i'') (ascii ''I'') n)))"
| "to_rust_type alloc cx (AUint n) =
     checked alloc cx (AUint n) (Inr (RPath (int_ident (ascii ''u'') (ascii ''U'') n)))"
| "to_rust_type alloc cx (ATuple tys) = checked alloc cx (ATuple tys)
     (andthen (collect_all (map (to_rust_type alloc cx) tys)) (\<lambda>args. Inr (tuple_tokens args)))"
| "to_rust_type alloc cx (AArray ty n) = checked alloc cx (AArray ty n)
     (andthen (to_rust_type alloc cx ty) (\<lambda>typ. Inr (case n of Some n \<Rightarrow> RArray typ n | None \<Rightarrow> RVec typ)))"
| "to_rust_type alloc cx (ACustom path) = checked alloc cx (ACustom path)
     (andthen (ctxt_resolve cx path) (\<lambda>res. Inr (RPath (custom_path res (to_pascal_case (last path))))))"
| "to_rust_type alloc cx (AFunction s) = checked alloc cx (AFunction s) (Inl [FunctionType])"
| "to_rust_type alloc cx (AMapping s) = checked alloc cx (AMapping s) (Inl [MappingType])"

section \<open>Items and functions\<close>

text \<open>All errors of a list are reported together.\<close>

fun errors_of :: "'a syn_result \<Rightarrow> import_error list" where
  "errors_of (Inl e) = e"
| "errors_of (Inr x) = []"

definition try_collect_combined :: "'a syn_result list \<Rightarrow> 'a list syn_result" where
  "try_collect_combined rs =
     (if list_all (\<lambda>r. \<not> isl r) rs then Inr (map projr rs) else Inl (concat (map errors_of rs)))"

definition combine_results :: "'a syn_result \<Rightarrow> 'b syn_result \<Rightarrow> ('a \<times> 'b) syn_result" where
  "combine_results a b = (case (a, b) of
       (Inr x, Inr y) \<Rightarrow> Inr (x, y)
     | _ \<Rightarrow> Inl (errors_of a @ errors_of b))"

definition expand_fields :: "bool \<Rightarrow> ctxt \<Rightarrow> var_decl list \<Rightarrow> rust_type list syn_result" where
  "expand_fields alloc cx fds = try_collect_combined (map (\<lambda>f. to_rust_type alloc cx (snd f)) fds)"

text \<open>A user-defined value type keeps the Solidity type whose \<open>abi_name()\<close> its \<open>SOL_NAME\<close> is.\<close>

datatype rust_item = RStruct "rust_type list" | RError "rust_type list" | REnum nat | RUdt rust_type sol_ast

fun expand_items :: "bool \<Rightarrow> ctxt \<Rightarrow> item list \<Rightarrow> (bytes \<times> rust_item syn_result) list" where
  "expand_items alloc cx [] = []"
| "expand_items alloc cx (IStruct name fds # its) =
     (to_pascal_case name, map_sum id RStruct (expand_fields alloc cx fds)) # expand_items alloc cx its"
| "expand_items alloc cx (IError name params # its) =
     (to_pascal_case name, map_sum id RError (expand_fields alloc cx params)) # expand_items alloc cx its"
| "expand_items alloc cx (IUdt name ty # its) =
     (to_pascal_case name, map_sum id (\<lambda>r. RUdt r ty) (to_rust_type alloc cx ty)) # expand_items alloc cx its"
| "expand_items alloc cx (IEnum name variants # its) =
     (to_pascal_case name, Inr (REnum (length variants))) # expand_items alloc cx its"
| "expand_items alloc cx (_ # its) = expand_items alloc cx its"

record imported_function =
  if_name :: bytes
  if_sol_name :: "bytes option"
  if_params :: "rust_type list"
  if_return :: rust_type
  if_mutability :: state_mutability

definition resolve_signature_types ::
  "bool \<Rightarrow> ctxt \<Rightarrow> sol_function \<Rightarrow> (rust_type list \<times> rust_type) syn_result" where
  "resolve_signature_types alloc cx f =
     combine_results (try_collect_combined (map (\<lambda>p. to_rust_type alloc cx (snd p)) (fn_params f)))
       (case fn_returns f of
          [] \<Rightarrow> Inr (RTuple [])
        | [ret] \<Rightarrow> to_rust_type alloc cx ret
        | rets \<Rightarrow> to_rust_type alloc cx (ATuple rets))"

definition state_mutability_type :: "sol_function \<Rightarrow> bool \<Rightarrow> state_mutability syn_result" where
  "state_mutability_type f is_constructor =
     (if is_constructor then Inr Payable
      else case fn_mutability f of
        Some MPure \<Rightarrow> Inr Pure
      | Some MView \<Rightarrow> Inr View
      | Some MPayable \<Rightarrow> Inr Payable
      | Some MConstant \<Rightarrow> Inl [ConstantMutability]
      | None \<Rightarrow> Inr NonPayable)"

text \<open>
  A constructor has no Solidity name, and its calls the selector zero. \<open>NamelessFunction\<close> is the panic
  of \<open>func.name()\<close>, which the parser excludes.
\<close>

definition expand_function ::
  "(bytes \<Rightarrow> bytes) \<Rightarrow> (bytes \<Rightarrow> bytes) \<Rightarrow> bool \<Rightarrow> ctxt \<Rightarrow> bytes \<Rightarrow> bool \<Rightarrow> sol_function \<Rightarrow> imported_function syn_result" where
  "expand_function keccak hex alloc cx contract_name is_constructor f =
     (if \<not> is_constructor \<and> fn_name f = None then Inl [NamelessFunction]
      else case (if is_constructor then Some (ascii ''new_'' @ to_snake_case contract_name)
            else function_name keccak hex cx f) of
        None \<Rightarrow> Inl [StackOverflow]
      | Some func_name \<Rightarrow>
          andthen (resolve_signature_types alloc cx f) (\<lambda>(param_types, return_type).
          andthen (state_mutability_type f is_constructor) (\<lambda>mutability.
          Inr \<lparr> if_name = func_name, if_sol_name = (if is_constructor then None else fn_name f),
            if_params = param_types, if_return = return_type, if_mutability = mutability \<rparr>)))"

text \<open>The selector the emitted code computes from the \<open>SOL_NAME\<close>s of the parameter types.\<close>

definition imported_selector :: "(bytes \<Rightarrow> bytes) \<Rightarrow> (rust_type \<Rightarrow> bytes) \<Rightarrow> imported_function \<Rightarrow> bytes" where
  "imported_selector keccak names f = (case if_sol_name f of
       None \<Rightarrow> replicate 4 0
     | Some name \<Rightarrow>
         const_selector keccak (name @ ascii ''('' @ comma_sep (map names (if_params f)) @ ascii '')''))"

record rust_module =
  rm_functions :: "imported_function syn_result list"
  rm_items :: "(bytes \<times> rust_item syn_result) list"

record rust_program =
  modules :: "(bytes \<times> rust_module) list"
  top_items :: "(bytes \<times> rust_item syn_result) list"

fun expand_functions ::
  "(bytes \<Rightarrow> bytes) \<Rightarrow> (bytes \<Rightarrow> bytes) \<Rightarrow> bool \<Rightarrow> ctxt \<Rightarrow> bytes \<Rightarrow> item list \<Rightarrow> imported_function syn_result list" where
  "expand_functions keccak hex alloc cx name [] = []"
| "expand_functions keccak hex alloc cx name (IFunction f # its) =
     (case fn_kind f of
        KConstructor \<Rightarrow> expand_function keccak hex alloc cx (to_pascal_case name) True f # expand_functions keccak hex alloc cx name its
      | KFunction \<Rightarrow> expand_function keccak hex alloc cx (to_pascal_case name) False f # expand_functions keccak hex alloc cx name its
      | _ \<Rightarrow> expand_functions keccak hex alloc cx name its)"
| "expand_functions keccak hex alloc cx name (_ # its) = expand_functions keccak hex alloc cx name its"

fun expand_modules ::
  "(bytes \<Rightarrow> bytes) \<Rightarrow> (bytes \<Rightarrow> bytes) \<Rightarrow> bool \<Rightarrow> ctxt \<Rightarrow> item list \<Rightarrow> (bytes \<times> rust_module) list" where
  "expand_modules keccak hex alloc cx [] = []"
| "expand_modules keccak hex alloc cx (IContract name is_interface body # its) =
     (if is_interface then
        (let cx' = cx\<lparr>current_ns := Some name\<rparr> in
         (to_snake_case name, \<lparr> rm_functions = expand_functions keccak hex alloc cx' name body,
           rm_items = expand_items alloc cx' body \<rparr>) # expand_modules keccak hex alloc cx its)
      else expand_modules keccak hex alloc cx its)"
| "expand_modules keccak hex alloc cx (_ # its) = expand_modules keccak hex alloc cx its"

definition expand_to_module ::
  "(bytes \<Rightarrow> bytes) \<Rightarrow> (bytes \<Rightarrow> bytes) \<Rightarrow> bool \<Rightarrow> item list \<Rightarrow> rust_program syn_result" where
  "expand_to_module keccak hex alloc file =
     (if IImport \<in> set file then Inl [ImportDirective]
      else andthen (visit_file file ctxt_default) (\<lambda>cx.
        Inr \<lparr> modules = expand_modules keccak hex alloc cx file, top_items = expand_items alloc cx file \<rparr>))"

section \<open>What an emitted type is\<close>

text \<open>The segments of a printed path.\<close>

fun segments :: "bytes \<Rightarrow> bytes list" where
  "segments [] = [[]]"
| "segments [c] = [[c]]"
| "segments (c # d # s) =
     (if c = 58 \<and> d = 58 then [] # segments s
      else case segments (d # s) of seg # segs \<Rightarrow> (c # seg) # segs | [] \<Rightarrow> [])"

definition rust_scope :: "rust_program \<Rightarrow> bytes option \<Rightarrow> (bytes \<times> rust_item syn_result) list" where
  "rust_scope P m = (case m of
       None \<Rightarrow> top_items P
     | Some name \<Rightarrow> (case map_of (modules P) name of Some M \<Rightarrow> rm_items M | None \<Rightarrow> []))"

definition rust_item_at :: "rust_program \<Rightarrow> bytes option \<Rightarrow> bytes \<Rightarrow> (bytes option \<times> bytes \<times> rust_item) option" where
  "rust_item_at P m name = (case map_of (rust_scope P m) name of Some (Inr it) \<Rightarrow> Some (m, name, it) | _ \<Rightarrow> None)"

text \<open>Name resolution: a module has its own items and, by its \<open>use super::*\<close>, those outside.\<close>

definition rust_lookup :: "rust_program \<Rightarrow> bytes option \<Rightarrow> bytes \<Rightarrow> (bytes option \<times> bytes \<times> rust_item) option" where
  "rust_lookup P m path = (case segments path of
       [name] \<Rightarrow> (case rust_item_at P m name of
           Some x \<Rightarrow> Some x | None \<Rightarrow> if m \<noteq> None then rust_item_at P None name else None)
     | [a, name] \<Rightarrow>
         (if m = None then rust_item_at P (Some a) name
          else if a = ascii ''super'' then rust_item_at P None name else None)
     | [a, b, name] \<Rightarrow> (if m \<noteq> None \<and> a = ascii ''super'' then rust_item_at P (Some b) name else None)
     | _ \<Rightarrow> None)"

fun builtin_dty :: "sol_type \<Rightarrow> dty option" where
  "builtin_dty SolAddress = Some (DPrim Address)"
| "builtin_dty SolBool = Some (DPrim Bool)"
| "builtin_dty (SolUint n) = map_option DPrim (uint_prim n)"
| "builtin_dty (SolInt n) = map_option DPrim (int_prim n)"
| "builtin_dty SolString = Some DString"
| "builtin_dty SolDynBytes = Some DBytes"
| "builtin_dty _ = None"

inductive rust_denotes :: "rust_program \<Rightarrow> bytes option \<Rightarrow> rust_type \<Rightarrow> dty \<Rightarrow> bool" for P where
  builtin: "rust_lookup P m path = None \<Longrightarrow> builtin_dty (path_type path) = Some d \<Longrightarrow> rust_denotes P m (RPath path) d"
| struct: "rust_lookup P m path = Some (m', name, RStruct rs) \<Longrightarrow> map from_rust_type rs = map Some ss \<Longrightarrow>
     list_all2 (rust_denotes P m') rs ds \<Longrightarrow> rust_denotes P m (RPath path) (DStruct name (zip ss ds))"
| enum: "rust_lookup P m path = Some (m', name, REnum n) \<Longrightarrow> rust_denotes P m (RPath path) (DEnum name n)"
| udt: "rust_lookup P m path = Some (m', name, RUdt r ty) \<Longrightarrow> rust_denotes P m' r d \<Longrightarrow>
     rust_denotes P m (RPath path) (DUdt name d)"
| vec: "rust_denotes P m r d \<Longrightarrow> rust_denotes P m (RVec r) (DVec d)"
| array: "rust_denotes P m r d \<Longrightarrow>
     rust_denotes P m (RArray r n) (if d = DPrim U8 then DPrim (BytesN n) else DArr d n)"
| tuple: "list_all2 (rust_denotes P m) rs ds \<Longrightarrow> rust_denotes P m (RTuple rs) (DTuple ds)"

inductive_cases rust_denotesE:
  "rust_denotes P m (RPath path) d" "rust_denotes P m (RVec r) d" "rust_denotes P m (RArray r n) d"
  "rust_denotes P m (RTuple rs) d"

section \<open>The emitted names\<close>

text \<open>
  \<open>SOL_NAME\<close> of what is emitted: of a user-defined value type the literal \<open>x.ty.abi_name()\<close>, where
  \<open>abi_name\<close> is the third-party \<open>Type::abi_name\<close> of \<open>syn_solidity\<close>; of an enum that of \<open>u8\<close>; of a struct
  the concatenation of the derive, in which a custom type stands for its own \<open>SOL_NAME\<close>; of any other
  type that of the impl the compiler chooses. It is a relation, as \<open>rust_denotes\<close>.
\<close>

definition udt_sol_name :: "(sol_ast \<Rightarrow> bytes) \<Rightarrow> sol_ast \<Rightarrow> bytes" where
  "udt_sol_name abi_name_of ty = abi_name_of ty"

definition enum_sol_name :: "bytes option" where
  "enum_sol_name = prim_sol_name U8"

primrec custom_paths :: "sol_type \<Rightarrow> bytes set" where
  "custom_paths SolAddress = {}"
| "custom_paths SolBool = {}"
| "custom_paths (SolUint n) = {}"
| "custom_paths (SolInt n) = {}"
| "custom_paths SolString = {}"
| "custom_paths SolDynBytes = {}"
| "custom_paths (SolBytes n) = {}"
| "custom_paths (SolArray s) = custom_paths s"
| "custom_paths (SolFixedArray s n) = custom_paths s"
| "custom_paths (SolTuple ss) = \<Union> (set (map custom_paths ss))"
| "custom_paths (SolCustom path) = {path}"

inductive rust_sol_name ::
  "(sol_ast \<Rightarrow> bytes) \<Rightarrow> rust_program \<Rightarrow> bytes option \<Rightarrow> rust_type \<Rightarrow> bytes \<Rightarrow> bool" for A P where
  builtin: "rust_lookup P m path = None \<Longrightarrow> builtin_dty (path_type path) = Some d \<Longrightarrow> sol_name (abi_of d) = Some n \<Longrightarrow>
     rust_sol_name A P m (RPath path) n"
| struct: "rust_lookup P m path = Some (m', name, RStruct rs) \<Longrightarrow> map from_rust_type rs = map Some ss \<Longrightarrow>
     (\<forall>s \<in> set ss. \<forall>p \<in> custom_paths s. rust_sol_name A P m' (RPath p) (names p)) \<Longrightarrow>
     rust_sol_name A P m (RPath path) (build_sol_name names ss)"
| enum: "rust_lookup P m path = Some (m', name, REnum k) \<Longrightarrow> enum_sol_name = Some n \<Longrightarrow> rust_sol_name A P m (RPath path) n"
| udt: "rust_lookup P m path = Some (m', name, RUdt r ty) \<Longrightarrow> rust_sol_name A P m (RPath path) (udt_sol_name A ty)"
| vec: "rust_sol_name A P m r n \<Longrightarrow> vec_sol_name n = Some n' \<Longrightarrow> rust_sol_name A P m (RVec r) n'"
| byte_array: "rust_denotes P m r (DPrim U8) \<Longrightarrow> prim_sol_name (BytesN k) = Some n \<Longrightarrow> rust_sol_name A P m (RArray r k) n"
| array: "rust_denotes P m r d \<Longrightarrow> d \<noteq> DPrim U8 \<Longrightarrow> rust_sol_name A P m r n \<Longrightarrow> array_sol_name n k = Some n' \<Longrightarrow>
     rust_sol_name A P m (RArray r k) n'"
| tuple: "list_all2 (rust_sol_name A P m) rs ns \<Longrightarrow> tuple_sol_name ns = Some n \<Longrightarrow> rust_sol_name A P m (RTuple rs) n"

inductive_cases rust_sol_nameE:
  "rust_sol_name A P m (RPath path) n" "rust_sol_name A P m (RVec r) n" "rust_sol_name A P m (RArray r k) n"
  "rust_sol_name A P m (RTuple rs) n"

text \<open>The emitted code compiles: no error was emitted, and no name is defined twice.\<close>

definition program_ok :: "rust_program \<Rightarrow> bool" where
  "program_ok P \<longleftrightarrow> distinct (map fst (modules P)) \<and>
     (\<forall>its \<in> insert (top_items P) (rm_items ` snd ` set (modules P)).
       distinct (map fst its) \<and> list_all (\<lambda>it. \<not> isl (snd it)) its) \<and>
     list_all (\<lambda>M. list_all (\<lambda>f. \<not> isl f) (rm_functions (snd M))) (modules P)"

section \<open>What a Solidity type is\<close>

fun item_name :: "item \<Rightarrow> bytes option" where
  "item_name (IStruct name fds) = Some name"
| "item_name (IError name params) = Some name"
| "item_name (IEnum name variants) = Some name"
| "item_name (IUdt name ty) = Some name"
| "item_name _ = None"

fun contract_body :: "bytes \<Rightarrow> item list \<Rightarrow> item list" where
  "contract_body ns [] = []"
| "contract_body ns (IContract name is_interface body # its) = (if name = ns then body else contract_body ns its)"
| "contract_body ns (_ # its) = contract_body ns its"

definition sol_scope :: "item list \<Rightarrow> bytes option \<Rightarrow> item list" where
  "sol_scope file m = (case m of None \<Rightarrow> file | Some ns \<Rightarrow> contract_body ns file)"

definition sol_item_at :: "item list \<Rightarrow> bytes option \<Rightarrow> bytes \<Rightarrow> (bytes option \<times> item) option" where
  "sol_item_at file m name = map_option (Pair m) (find (\<lambda>it. item_name it = Some name) (sol_scope file m))"

definition sol_lookup :: "item list \<Rightarrow> bytes option \<Rightarrow> bytes list \<Rightarrow> (bytes option \<times> item) option" where
  "sol_lookup file m path = (case path of
       [name] \<Rightarrow> (case sol_item_at file m name of
           Some x \<Rightarrow> Some x | None \<Rightarrow> if m \<noteq> None then sol_item_at file None name else None)
     | [ns, name] \<Rightarrow> sol_item_at file (Some ns) name
     | _ \<Rightarrow> None)"

text \<open>
  The ABI type of a Solidity type in a scope, for the types that the SDK has. Fixed arrays must not have
  elements \<open>uint8\<close> (see \<open>uint8_arrays_are_bytes\<close>) or value types (which do not compile).
\<close>

definition width :: "nat option \<Rightarrow> nat" where
  "width n = (case n of None \<Rightarrow> 256 | Some n \<Rightarrow> n)"

definition array_element :: "item list \<Rightarrow> bytes option \<Rightarrow> sol_ast \<Rightarrow> bool" where
  "array_element file m ty \<longleftrightarrow> ty \<noteq> AUint (Some 8) \<and>
     (\<forall>path m' name u. ty = ACustom path \<longrightarrow> sol_lookup file m path \<noteq> Some (m', IUdt name u))"

inductive sol_means :: "item list \<Rightarrow> bytes option \<Rightarrow> sol_ast \<Rightarrow> sol_ty \<Rightarrow> bool" for src where
  address: "sol_means src m AAddress (TPrim Address)"
| bool: "sol_means src m ABool (TPrim Bool)"
| string: "sol_means src m AString TString"
| bytes: "sol_means src m ABytes TBytes"
| fixed_bytes: "prim_wf (BytesN n) \<Longrightarrow> sol_means src m (AFixedBytes n) (TPrim (BytesN n))"
| uint: "uint_prim (width n) = Some p \<Longrightarrow> sol_means src m (AUint n) (TPrim p)"
| int: "int_prim (width n) = Some p \<Longrightarrow> sol_means src m (AInt n) (TPrim p)"
| vec: "sol_means src m ty t \<Longrightarrow> sol_means src m (AArray ty None) (TVec t)"
| array: "sol_means src m ty t \<Longrightarrow> 0 < n \<Longrightarrow> array_element src m ty \<Longrightarrow>
     sol_means src m (AArray ty (Some n)) (TArr t n)"
| tuple: "list_all2 (sol_means src m) tys ts \<Longrightarrow> 2 \<le> length tys \<Longrightarrow> sol_means src m (ATuple tys) (TTuple ts)"
| struct: "sol_lookup src m path = Some (m', IStruct name fds) \<Longrightarrow> fds \<noteq> [] \<Longrightarrow>
     list_all2 (sol_means src m') (map snd fds) ts \<Longrightarrow> sol_means src m (ACustom path) (TTuple ts)"
| enum: "sol_lookup src m path = Some (m', IEnum name variants) \<Longrightarrow> 0 < length variants \<Longrightarrow> length variants \<le> 256 \<Longrightarrow>
     sol_means src m (ACustom path) (TPrim U8)"
| udt: "sol_lookup src m path = Some (m', IUdt name ty) \<Longrightarrow> elementary ty \<Longrightarrow> sol_means src m' ty (TPrim p) \<Longrightarrow>
     sol_means src m (ACustom path) (TPrim p)"

inductive_cases sol_meansE:
  "sol_means file m AAddress t" "sol_means file m ABool t" "sol_means file m AString t" "sol_means file m ABytes t"
  "sol_means file m (AFixedBytes n) t" "sol_means file m (AUint n) t" "sol_means file m (AInt n) t"
  "sol_means file m (AArray ty n) t" "sol_means file m (ATuple tys) t" "sol_means file m (ACustom path) t"

section \<open>Files\<close>

fun item_def :: "item \<Rightarrow> (bytes \<times> custom_def) list" where
  "item_def (IStruct name fds) = [(name, CStruct (map snd fds))]"
| "item_def (IEnum name variants) = [(name, CEnum)]"
| "item_def (IUdt name ty) = [(name, CUdt ty)]"
| "item_def _ = []"

fun all_decls :: "item list \<Rightarrow> (bytes \<times> custom_def) list" where
  "all_decls [] = []"
| "all_decls (IContract name is_interface body # its) = all_decls body @ all_decls its"
| "all_decls (it # its) = item_def it @ all_decls its"

fun contract_names :: "item list \<Rightarrow> bytes list" where
  "contract_names [] = []"
| "contract_names (IContract name is_interface body # its) = name # contract_names its"
| "contract_names (_ # its) = contract_names its"

text \<open>
  What Solidity and Rust demand of names, and that no type is named like a type of the SDK, such as
  \<open>Address\<close> or \<open>Bytes\<close>: a macro would take the one for the other.
\<close>

definition plain_name :: "bytes \<Rightarrow> bool" where
  "plain_name name \<longleftrightarrow> 58 \<notin> set name \<and> path_type (to_pascal_case name) = SolCustom (to_pascal_case name)"

definition names_plain :: "item list \<Rightarrow> bool" where
  "names_plain its \<longleftrightarrow> (\<forall>it \<in> set its. \<forall>name. item_name it = Some name \<longrightarrow> plain_name name)"

definition sol_file_ok :: "item list \<Rightarrow> bool" where
  "sol_file_ok file \<longleftrightarrow> distinct (contract_names file) \<and> udts_elementary (all_decls file) \<and> names_plain file \<and>
     (\<forall>ns \<in> set (contract_names file). 58 \<notin> set ns \<and> to_snake_case ns \<noteq> ascii ''super'' \<and>
       names_plain (contract_body ns file))"

end
