(* ===== verification/ImportCorrect.thy ===== *)
theory ImportCorrect
  imports AbiImport
begin

text \<open>
  The import against the ABI: the type that \<open>abi_import!\<close> emits for a Solidity type is encoded, decoded
  and named as the type Solidity means, and so are the calls it emits.
\<close>

section \<open>Visiting a file\<close>

lemma andthen_Inr [simp]: "andthen r k = Inr y \<longleftrightarrow> (\<exists>x. r = Inr x \<and> k x = Inr y)"
  by (cases r) (simp_all add: andthen_def)

lemma andthen_inr: "andthen (Inr x) k = k x"
  by (simp add: andthen_def)

lemma visit_items_is:
  "visit_items its T = Inr T' \<Longrightarrow> T' = rev (all_decls its) @ T \<and> (distinct (map fst T) \<longrightarrow> distinct (map fst T'))"
proof (induction its T arbitrary: T' rule: visit_items.induct)
  case (5 name is_interface body its T)
  then obtain T1 where T1: "visit_items body T = Inr T1" "visit_items its T1 = Inr T'" by auto
  from "5.IH"(1) [OF T1(1)] "5.IH"(2) [OF T1(2)]
  have "T1 = rev (all_decls body) @ T" "T' = rev (all_decls its) @ T1"
    "distinct (map fst T) \<longrightarrow> distinct (map fst T1)" "distinct (map fst T1) \<longrightarrow> distinct (map fst T')" by blast+
  then show ?case by (metis all_decls.simps(2) rev_append append_assoc)
qed (auto simp: declare_type_def map_of_eq_None_iff split: if_splits)

lemma from_file_is:
  assumes "from_file file = Inr T"
  shows "set T = set (all_decls file)" "distinct (map fst (all_decls file))" "distinct (map fst T)"
proof -
  have "visit_items file [] = Inr T"
    using assms by (auto simp: from_file_def split: option.splits)
  from visit_items_is [OF this] show "set T = set (all_decls file)" "distinct (map fst T)"
    "distinct (map fst (all_decls file))" by (auto simp flip: rev_map)
qed

definition names_in :: "item list \<Rightarrow> bytes set" where
  "names_in its = {name. \<exists>it \<in> set its. item_name it = Some name}"

lemma names_in_simps [simp]:
  "names_in [] = {}" "names_in (it # its) = set_option (item_name it) \<union> names_in its"
  by (auto simp: names_in_def)

lemma visit_type_sel [simp]:
  "current_ns (visit_type name cx) = current_ns cx" "custom_types (visit_type name cx) = custom_types cx"
  "cx_types (visit_type name cx) = (cx_types cx)(current_ns cx := insert name (cx_types cx (current_ns cx)))"
  by (simp_all add: visit_type_def)

lemma visit_function_sel:
  assumes "visit_function ns f cx = Inr cx'"
  shows "current_ns cx' = current_ns cx" "custom_types cx' = custom_types cx" "cx_types cx' = cx_types cx"
  using assms by (auto simp: visit_function_def split: option.splits)

lemma visit_contract_is:
  "visit_contract ns its cx = Inr cx' \<Longrightarrow> current_ns cx' = current_ns cx \<and> custom_types cx' = custom_types cx \<and>
    cx_types cx' = (cx_types cx)(current_ns cx := names_in its \<union> cx_types cx (current_ns cx))"
proof (induction ns its cx arbitrary: cx' rule: visit_contract.induct)
  case (2 ns f its cx)
  show ?case
  proof (cases "fn_name f")
    case None
    then show ?thesis using "2.IH"(2) "2.prems" by simp
  next
    case (Some n)
    then obtain cx1 where 1: "visit_function ns f cx = Inr cx1" "visit_contract ns its cx1 = Inr cx'"
      using "2.prems" by auto
    then show ?thesis using "2.IH"(1) [of cx1 cx'] visit_function_sel [OF 1(1)] Some by simp
  qed
qed simp_all

fun interfaces :: "item list \<Rightarrow> bytes list" where
  "interfaces [] = []"
| "interfaces (IContract name is_interface body # its) = (if is_interface then name # interfaces its else interfaces its)"
| "interfaces (_ # its) = interfaces its"

lemma interfaces_sub: "set (interfaces its) \<subseteq> set (contract_names its)"
  by (induction its rule: interfaces.induct) auto

lemma visit_file_items_is:
  assumes "visit_file_items its cx = Inr cx'" "current_ns cx = None" "distinct (contract_names its)"
  shows "current_ns cx' = None \<and> custom_types cx' = custom_types cx \<and>
    cx_types cx' None = names_in its \<union> cx_types cx None \<and>
    (\<forall>ns. cx_types cx' (Some ns) = (if ns \<in> set (interfaces its) then names_in (contract_body ns its) else {}) \<union> cx_types cx (Some ns))"
  using assms
proof (induction its cx arbitrary: cx' rule: visit_file_items.induct)
  case (2 name is_interface body its cx)
  show ?case
  proof (cases is_interface)
    case True
    then obtain cx1 where 1: "visit_contract name body (cx\<lparr>current_ns := Some name\<rparr>) = Inr cx1"
      "visit_file_items its (cx1\<lparr>current_ns := None\<rparr>) = Inr cx'"
      using "2.prems" by (auto simp: with_ns_def)
    have "name \<notin> set (interfaces its)" using "2.prems"(3) interfaces_sub [of its] by auto
    moreover have "with_ns name (visit_contract name body) cx = Inr (cx1\<lparr>current_ns := None\<rparr>)"
      using 1(1) "2.prems"(2) by (simp add: with_ns_def andthen_inr)
    ultimately show ?thesis
      using "2.IH"(1) [of "cx1\<lparr>current_ns := None\<rparr>" cx'] 1(2) visit_contract_is [OF 1(1)] "2.prems"(2,3) True by auto
  next
    case False
    then show ?thesis using "2.IH"(2) [of cx'] "2.prems" interfaces_sub [of its] by auto
  qed
qed simp_all

lemma visit_file_is:
  assumes "visit_file file ctxt_default = Inr cx" "distinct (contract_names file)"
  shows "from_file file = Inr (custom_types cx)" "current_ns cx = None" "cx_types cx None = names_in file"
    "cx_types cx (Some ns) = (if ns \<in> set (interfaces file) then names_in (contract_body ns file) else {})"
proof -
  obtain T where T: "from_file file = Inr T" "visit_file_items file (ctxt_default\<lparr>custom_types := T\<rparr>) = Inr cx"
    using assms(1) by (auto simp: visit_file_def split: sum.splits)
  have "current_ns (ctxt_default\<lparr>custom_types := T\<rparr>) = None" by (simp add: ctxt_default_def)
  from visit_file_items_is [OF T(2) this assms(2)] T(1)
  show "from_file file = Inr (custom_types cx)" "current_ns cx = None" "cx_types cx None = names_in file"
    "cx_types cx (Some ns) = (if ns \<in> set (interfaces file) then names_in (contract_body ns file) else {})"
    by (simp_all add: ctxt_default_def)
qed

section \<open>Declarations are unique\<close>

definition decl_at :: "item list \<Rightarrow> bytes option \<Rightarrow> bytes \<Rightarrow> custom_def \<Rightarrow> bool" where
  "decl_at file m name def \<longleftrightarrow> (\<exists>it \<in> set (sol_scope file m). (name, def) \<in> set (item_def it))"

lemma item_def_all: "it \<in> set its \<Longrightarrow> set (item_def it) \<subseteq> set (all_decls its)"
  by (induction its rule: all_decls.induct) auto

lemma contract_body_all: "set (all_decls (contract_body ns its)) \<subseteq> set (all_decls its)"
  by (induction its rule: contract_body.induct) auto

lemma decl_in_all: "decl_at file m name def \<Longrightarrow> (name, def) \<in> set (all_decls file)"
  using item_def_all contract_body_all by (cases m) (fastforce simp: decl_at_def sol_scope_def)+

text \<open>A declaration of the first item of a file, in the file's scope or that of the contract it is.\<close>

definition decl_here :: "item \<Rightarrow> bytes option \<Rightarrow> bytes \<Rightarrow> custom_def \<Rightarrow> bool" where
  "decl_here it m name def \<longleftrightarrow> (case it of
       IContract ns is_interface body \<Rightarrow> m = Some ns \<and> (\<exists>it \<in> set body. (name, def) \<in> set (item_def it))
     | _ \<Rightarrow> m = None \<and> (name, def) \<in> set (item_def it))"

lemma decl_at_Cons: "decl_at (it # its) m name def \<Longrightarrow> decl_here it m name def \<or> decl_at its m name def"
  by (cases it; cases m) (auto simp: decl_at_def decl_here_def sol_scope_def split: if_splits)

lemma decl_here_scope: "decl_here it m name def \<Longrightarrow> decl_here it m' name def' \<Longrightarrow> m = m'"
  by (cases it) (auto simp: decl_here_def)

lemma decl_here_head: "decl_here it m name def \<Longrightarrow> (name, def) \<in> set (all_decls [it])"
  using item_def_all by (cases it) (fastforce simp: decl_here_def)+

lemma all_decls_Cons: "all_decls (it # its) = all_decls [it] @ all_decls its"
  by (cases it) simp_all

lemma two_positions: "distinct (map fst (xs @ ys)) \<Longrightarrow> (k, v) \<in> set xs \<Longrightarrow> (k, w) \<in> set ys \<Longrightarrow> False"
  by force

lemma scope_unique:
  assumes "distinct (map fst (all_decls src))" "decl_at src m name def" "decl_at src m' name def'"
  shows "m = m' \<and> def = def'"
proof -
  have "def = def'"
    using decl_in_all [OF assms(2)] decl_in_all [OF assms(3)] assms(1) by (metis eq_key_imp_eq_value)
  moreover have "m = m'" using assms
  proof (induction src)
    case (Cons it its)
    have d: "distinct (map fst (all_decls [it] @ all_decls its))" using Cons.prems(1) all_decls_Cons by metis
    then have "distinct (map fst (all_decls its))" by simp
    note IH = Cons.IH [OF this]
    show ?case
      using decl_at_Cons [OF Cons.prems(2)] decl_at_Cons [OF Cons.prems(3)] IH decl_here_scope
        two_positions [OF d] decl_here_head decl_in_all by metis
  qed (simp add: decl_at_def sol_scope_def split: option.splits)
  ultimately show ?thesis by simp
qed

section \<open>Solidity's meaning is unique\<close>

lemma lookup_name:
  assumes "sol_lookup file m path = Some (m', it)"
  shows "item_name it = Some (last path)" "it \<in> set (sol_scope file m')" "path \<noteq> []"
  using assms
  by (auto simp: sol_lookup_def sol_item_at_def find_Some_iff split: list.splits option.splits if_splits)

lemma item_def_name: "item_def it = [(name, def)] \<Longrightarrow> item_name it = Some name"
  by (cases it) auto

lemma lookup_decl:
  assumes "sol_lookup file m path = Some (m', it)" "item_def it = [(name, def)]"
  shows "decl_at file m' (last path) def" "name = last path"
  using lookup_name [OF assms(1)] item_def_name [OF assms(2)] assms(2) by (force simp: decl_at_def)+

lemma same_name:
  assumes "distinct (map fst (all_decls file))" "sol_lookup file m path = Some (m', it)"
    "sol_lookup file m2 path2 = Some (m2', it2)" "last path = last path2"
    "item_def it = [(name, def)]" "item_def it2 = [(name2, def2)]"
  shows "m' = m2' \<and> def = def2"
  using scope_unique [OF assms(1)] lookup_decl [OF assms(2,5)] lookup_decl [OF assms(3,6)] assms(4) by metis

lemma list_all2_unique:
  assumes "list_all2 (\<lambda>x y. P x y \<and> (\<forall>z. P x z \<longrightarrow> y = z)) xs ys" "list_all2 P xs zs"
  shows "ys = zs"
  using assms by (auto simp: list_all2_conv_all_nth intro: nth_equalityI)

text \<open>The meaning of a declaration in its scope.\<close>

definition def_means :: "item list \<Rightarrow> bytes option \<Rightarrow> custom_def \<Rightarrow> sol_ty \<Rightarrow> bool" where
  "def_means file m def t \<longleftrightarrow> (case def of
       CStruct tys \<Rightarrow> \<exists>ts. t = TTuple ts \<and> list_all2 (sol_means file m) tys ts
     | CEnum \<Rightarrow> t = TPrim U8
     | CUdt ty \<Rightarrow> sol_means file m ty t)"

lemma custom_means:
  assumes "sol_means file m (ACustom path) t"
  obtains m' it name def where "sol_lookup file m path = Some (m', it)" "item_def it = [(name, def)]"
    "def_means file m' def t"
  using assms by (cases rule: sol_means.cases) (force simp: def_means_def)+

lemma sol_means_unique: "sol_means file m ty t \<Longrightarrow> sol_means file m ty t' \<Longrightarrow> t = t'"
proof (induction arbitrary: t' rule: sol_means.induct)
  case (tuple m tys ts)
  from tuple.prems obtain ts' where "t' = TTuple ts'" "list_all2 (sol_means file m) tys ts'"
    by (auto elim: sol_meansE)
  then show ?case using list_all2_unique [OF tuple.IH] by simp
next
  case (struct m path m' name fds ts)
  from struct.prems obtain ts' where "t' = TTuple ts'" "list_all2 (sol_means file m') (map snd fds) ts'"
    using struct.hyps(1) by (elim custom_means) (auto simp: def_means_def)
  then show ?case using list_all2_unique [OF struct.IH] by simp
next
  case (enum m path m' name variants)
  then show ?case by (elim custom_means) (auto simp: def_means_def)
next
  case (udt m path m' name ty p)
  from udt.prems have "sol_means file m' ty t'"
    using udt.hyps(1) by (elim custom_means) (auto simp: def_means_def)
  then show ?case by (rule udt.IH)
next
  case (vec m ty t)
  from vec.prems obtain t1 where "t' = TVec t1" "sol_means file m ty t1" by (elim sol_meansE(8)) simp_all
  then show ?case using vec.IH by simp
next
  case (array m ty t n)
  from array.prems obtain t1 where "t' = TArr t1 n" "sol_means file m ty t1" by (elim sol_meansE(8)) simp_all
  then show ?case using array.IH by simp
qed (elim sol_meansE(1,2,3,4,5,6,7); simp)+

text \<open>A name has one meaning, wherever it is used and however it is qualified.\<close>

lemma def_means_unique: "def_means file m def t \<Longrightarrow> def_means file m def t' \<Longrightarrow> t = t'"
  unfolding def_means_def list_all2_conv_all_nth
  by (auto split: custom_def.splits intro!: nth_equalityI intro: sol_means_unique) (metis sol_means_unique)

lemma named_meaning_unique:
  assumes "distinct (map fst (all_decls file))" "last path = last path2"
    "sol_means file m (ACustom path) t" "sol_means file m2 (ACustom path2) t2"
  shows "t = t2"
  using assms(3,4) same_name [OF assms(1) _ _ assms(2)] by (elim custom_means) (metis def_means_unique)

section \<open>The walks compute the ABI type\<close>

lemma all_some_values:
  assumes "list_all2 (\<lambda>x y. f x \<noteq> None \<longrightarrow> f x = Some (g y)) xs ys" "all_some (map f xs) \<noteq> None"
  shows "all_some (map f xs) = Some (map g ys)"
  using assms
proof (induction rule: list_all2_induct)
  case (Cons x xs y ys)
  have "f x \<noteq> None" "all_some (map f xs) \<noteq> None"
    using Cons.prems by (cases "f x"; cases "all_some (map f xs)"; simp)+
  then show ?case using Cons.hyps(1) Cons.IH by simp
qed simp

lemma any_until_values:
  assumes "list_all2 (\<lambda>x y. f x \<noteq> None \<longrightarrow> f x = Some (g y)) xs ys" "any_until (map f xs) \<noteq> None"
  shows "any_until (map f xs) = Some (list_ex id (map g ys))"
  using assms
proof (induction rule: list_all2_induct)
  case (Cons x xs y ys)
  then show ?case by (cases "f x") auto
qed simp

text \<open>The names being expanded mean larger types, so the guard of the walks does not act.\<close>

definition active_ok :: "item list \<Rightarrow> bytes list \<Rightarrow> sol_ty \<Rightarrow> bool" where
  "active_ok file active t \<longleftrightarrow>
     (\<forall>m path t'. sol_means file m (ACustom path) t' \<longrightarrow> last path \<in> set active \<longrightarrow> size t < size t')"

lemma active_okD:
  "active_ok file active t \<Longrightarrow> sol_means file m (ACustom path) t \<Longrightarrow> last path \<notin> set active"
  unfolding active_ok_def by blast

lemma active_ok_smaller: "active_ok file active t \<Longrightarrow> size t' \<le> size t \<Longrightarrow> active_ok file active t'"
  by (fastforce simp: active_ok_def)

lemma size_mem: "t \<in> set ts \<Longrightarrow> size t < size (TTuple ts)"
  by (induction ts) auto

lemma active_ok_enter:
  assumes "distinct (map fst (all_decls file))" "active_ok file active (TTuple ts)"
    "sol_means file m (ACustom path) (TTuple ts)" "t \<in> set ts"
  shows "active_ok file (last path # active) t"
  unfolding active_ok_def
proof (intro allI impI)
  fix m2 path2 t2
  assume a: "sol_means file m2 (ACustom path2) t2" "last path2 \<in> set (last path # active)"
  show "size t < size t2"
  proof (cases "last path2 = last path")
    case True
    then have "t2 = TTuple ts" using named_meaning_unique [OF assms(1) _ a(1) assms(3)] by simp
    then show ?thesis using size_mem [OF assms(4)] by simp
  next
    case False
    then have "size (TTuple ts) < size t2" using assms(2) a unfolding active_ok_def by auto
    then show ?thesis using size_mem [OF assms(4)] by simp
  qed
qed

lemma map_of_decl:
  assumes "from_file file = Inr T" "sol_lookup file m path = Some (m', it)" "item_def it = [(name, def)]"
  shows "map_of T (last path) = Some def"
  using decl_in_all [OF lookup_decl(1) [OF assms(2,3)]] from_file_is [OF assms(1)] by simp

lemma walks_mean:
  assumes "from_file file = Inr T" "sol_means file m ty t" "active_ok file active t"
  shows "(resolve fuel T ty active \<noteq> None \<longrightarrow> resolve fuel T ty active = Some (abi_name t)) \<and>
    (is_dynamic fuel T ty active \<noteq> None \<longrightarrow> is_dynamic fuel T ty active = Some (abi_dynamic t))"
  using assms(2,3)
proof (induction arbitrary: fuel active rule: sol_means.induct)
  case (tuple m tys ts)
  show ?case
  proof (cases fuel)
    case (Suc f)
    have "list_all2 (\<lambda>ty t. (resolve f T ty active \<noteq> None \<longrightarrow> resolve f T ty active = Some (abi_name t)) \<and>
        (is_dynamic f T ty active \<noteq> None \<longrightarrow> is_dynamic f T ty active = Some (abi_dynamic t))) tys ts"
      using tuple.IH
    proof (rule list.rel_mono_strong)
      fix ty t
      assume t: "t \<in> set ts" and IH: "sol_means file m ty t \<and> (\<forall>fuel active. active_ok file active t \<longrightarrow>
        (resolve fuel T ty active \<noteq> None \<longrightarrow> resolve fuel T ty active = Some (abi_name t)) \<and>
        (is_dynamic fuel T ty active \<noteq> None \<longrightarrow> is_dynamic fuel T ty active = Some (abi_dynamic t)))"
      have "active_ok file active t" using size_mem [OF t] by (intro active_ok_smaller [OF tuple.prems]) simp
      with IH show "(resolve f T ty active \<noteq> None \<longrightarrow> resolve f T ty active = Some (abi_name t)) \<and>
        (is_dynamic f T ty active \<noteq> None \<longrightarrow> is_dynamic f T ty active = Some (abi_dynamic t))" by blast
    qed
    then have "list_all2 (\<lambda>ty t. resolve f T ty active \<noteq> None \<longrightarrow> resolve f T ty active = Some (abi_name t)) tys ts"
      "list_all2 (\<lambda>ty t. is_dynamic f T ty active \<noteq> None \<longrightarrow> is_dynamic f T ty active = Some (abi_dynamic t)) tys ts"
      by (auto simp: list_all2_conv_all_nth)
    then show ?thesis
      using Suc all_some_values [of "\<lambda>ty. resolve f T ty active" abi_name tys ts]
        any_until_values [of "\<lambda>ty. is_dynamic f T ty active" abi_dynamic tys ts]
      by (auto simp: resolve_step_def is_dynamic_step_def tuple_name_def simp del: not_None_eq)
  qed simp
next
  case (struct m path m' name fds ts)
  note lu = struct.hyps(1)
  have "map_of T (last path) = Some (CStruct (map snd fds))"
    using map_of_decl [OF assms(1) lu] by simp
  moreover have mean: "sol_means file m (ACustom path) (TTuple ts)"
    using struct.hyps struct.IH by (intro sol_means.struct) (auto simp: list_all2_conv_all_nth)
  then have "last path \<notin> set active" using active_okD [OF struct.prems] by blast
  moreover note enter = active_ok_enter [OF from_file_is(2) [OF assms(1)] struct.prems mean]
  show ?case
  proof (cases fuel)
    case (Suc f)
    let ?a = "last path # active"
    have "list_all2 (\<lambda>ty t. (resolve f T ty ?a \<noteq> None \<longrightarrow> resolve f T ty ?a = Some (abi_name t)) \<and>
        (is_dynamic f T ty ?a \<noteq> None \<longrightarrow> is_dynamic f T ty ?a = Some (abi_dynamic t))) (map snd fds) ts"
      using struct.IH
    proof (rule list.rel_mono_strong)
      fix ty t
      assume t: "t \<in> set ts" and IH: "sol_means file m' ty t \<and> (\<forall>fuel active. active_ok file active t \<longrightarrow>
        (resolve fuel T ty active \<noteq> None \<longrightarrow> resolve fuel T ty active = Some (abi_name t)) \<and>
        (is_dynamic fuel T ty active \<noteq> None \<longrightarrow> is_dynamic fuel T ty active = Some (abi_dynamic t)))"
      show "(resolve f T ty ?a \<noteq> None \<longrightarrow> resolve f T ty ?a = Some (abi_name t)) \<and>
        (is_dynamic f T ty ?a \<noteq> None \<longrightarrow> is_dynamic f T ty ?a = Some (abi_dynamic t))"
        using IH enter [OF t] by blast
    qed
    then have "list_all2 (\<lambda>ty t. resolve f T ty ?a \<noteq> None \<longrightarrow> resolve f T ty ?a = Some (abi_name t)) (map snd fds) ts"
      "list_all2 (\<lambda>ty t. is_dynamic f T ty ?a \<noteq> None \<longrightarrow> is_dynamic f T ty ?a = Some (abi_dynamic t)) (map snd fds) ts"
      by (auto simp: list_all2_conv_all_nth)
    then show ?thesis
      using Suc calculation all_some_values [of "\<lambda>ty. resolve f T ty ?a" abi_name "map snd fds" ts]
        any_until_values [of "\<lambda>ty. is_dynamic f T ty ?a" abi_dynamic "map snd fds" ts]
      by (auto simp: resolve_step_def is_dynamic_step_def tuple_name_def Let_def simp del: not_None_eq)
  qed simp
next
  case (enum m path m' name variants)
  have "map_of T (last path) = Some CEnum" using map_of_decl [OF assms(1) enum.hyps(1)] by simp
  moreover have "last path \<notin> set active"
    using active_okD [OF enum.prems sol_means.enum [OF enum.hyps]] .
  ultimately show ?case
    by (cases fuel) (simp_all add: resolve_step_def is_dynamic_step_def decimals ascii_def)
next
  case (udt m path m' name ty p)
  have "map_of T (last path) = Some (CUdt ty)" using map_of_decl [OF assms(1) udt.hyps(1)] by simp
  moreover have "last path \<notin> set active"
    using active_okD [OF udt.prems sol_means.udt [OF udt.hyps]] .
  ultimately show ?case
    using udt.IH [OF udt.prems] by (cases fuel) (simp_all add: resolve_step_def is_dynamic_step_def)
next
  case (vec m ty t)
  have "active_ok file active t" using vec.prems by (rule active_ok_smaller) simp
  then show ?case
    using vec.IH [of active "fuel - 1"] by (cases fuel) (auto simp: resolve_step_def is_dynamic_step_def)
next
  case (array m ty t n)
  have "active_ok file active t" using array.prems by (rule active_ok_smaller) simp
  then show ?case
    using array.IH [of active "fuel - 1"] by (cases fuel) (auto simp: resolve_step_def is_dynamic_step_def)
next
  case (uint n p m)
  then show ?case
    using prim_names(1) [OF uint.hyps] by (cases fuel) (simp_all add: resolve_step_def is_dynamic_step_def width_def)
next
  case (int n p m)
  then show ?case
    using prim_names(2) [OF int.hyps] by (cases fuel) (simp_all add: resolve_step_def is_dynamic_step_def width_def)
next
  case (address m)
  then show ?case by (cases fuel) (simp_all add: resolve_step_def is_dynamic_step_def)
next
  case (bool m)
  then show ?case by (cases fuel) (simp_all add: resolve_step_def is_dynamic_step_def)
next
  case (string m)
  then show ?case by (cases fuel) (simp_all add: resolve_step_def is_dynamic_step_def)
next
  case (bytes m)
  then show ?case by (cases fuel) (simp_all add: resolve_step_def is_dynamic_step_def)
next
  case (fixed_bytes n m)
  then show ?case by (cases fuel) (simp_all add: resolve_step_def is_dynamic_step_def)
qed

lemma canonical_means:
  assumes "from_file file = Inr T" "udts_elementary T" "sol_means file m ty t"
  shows "canonical_name T ty = Some (abi_name t)" "is_abi_dynamic T ty = Some (abi_dynamic t)"
  using walks_mean [OF assms(1,3), of "[]" "fuel_bound T ty"] walks_end [OF assms(2), of ty "[]" "fuel_bound T ty"]
  by (simp_all add: active_ok_def canonical_name_def is_abi_dynamic_def need_nil)

end
