(* ===== verification/ImportTypes.thy ===== *)
theory ImportTypes
  imports ImportCorrect
begin

text \<open>
  The emission of \<open>abi_import!\<close>: the compiler resolves every emitted type to a Rust type whose ABI type
  is what Solidity means.
\<close>

section \<open>Identifiers and paths\<close>

lemma ascii_inj: "ascii s = ascii s' \<longleftrightarrow> map (of_char :: char \<Rightarrow> byte) s = map of_char s'"
  by (simp add: ascii_def)

lemma case_keeps_colon: "to_upper c = 58 \<longleftrightarrow> c = 58" "to_lower c = 58 \<longleftrightarrow> c = 58"
proof -
  have "c = 90" if "c - 32 = (58 :: byte)" using that by (simp add: diff_eq_eq)
  moreover have "c = 26" if "c + 32 = (58 :: byte)" using that by (simp add: eq_diff_eq [symmetric])
  ultimately show "to_upper c = 58 \<longleftrightarrow> c = 58" "to_lower c = 58 \<longleftrightarrow> c = 58"
    by (auto simp: to_upper_def to_lower_def is_upper_def)
qed

lemma pascal_no_colon: "58 \<notin> set s \<Longrightarrow> 58 \<notin> set (pascal_from a b s)"
  by (induction a b s rule: pascal_from.induct) (auto simp: case_keeps_colon)

lemma snake_no_colon: "58 \<notin> set s \<Longrightarrow> 58 \<notin> set (snake_from a s)"
  by (induction a s rule: snake_from.induct) (auto simp: case_keeps_colon ascii_def)

lemma segments_ident: "58 \<notin> set s \<Longrightarrow> segments s = [s]"
  by (induction s rule: segments.induct) auto

lemma segments_cons: "58 \<notin> set a \<Longrightarrow> segments (a @ ascii ''::'' @ s) = a # segments s"
proof (induction a rule: segments.induct)
  case (3 c d a)
  then show ?case by (cases a) (auto simp: ascii_def)
qed (simp_all add: ascii_def)

definition sdk_paths :: "string list" where
  "sdk_paths = [''Address'', ''pvm_contract_types::Address'', ''::pvm_contract_types::Address'',
     ''pvm_contract_sdk::Address'', ''::pvm_contract_sdk::Address'', ''pvm_contract::Address'', ''::pvm_contract::Address'',
     ''U256'', ''ruint::aliases::U256'', ''u256'', ''I256'', ''pvm_contract_types::I256'', ''::pvm_contract_types::I256'',
     ''pvm_contract_sdk::I256'', ''::pvm_contract_sdk::I256'', ''i256'', ''u128'', ''u64'', ''u32'', ''u16'', ''u8'',
     ''i128'', ''i64'', ''i32'', ''i16'', ''i8'', ''bool'', ''String'', ''alloc::string::String'', ''Bytes'',
     ''pvm_contract_types::Bytes'', ''::pvm_contract_types::Bytes'', ''pvm_contract_sdk::Bytes'', ''::pvm_contract_sdk::Bytes'']"

lemma sdk_paths_all:
  assumes "path_type p \<noteq> SolCustom p"
  shows "\<exists>n \<in> set sdk_paths. p = ascii n"
proof (rule ccontr)
  assume "\<not> ?thesis"
  then have "path_type p = SolCustom p" by (simp add: path_type_def in_names_def sdk_paths_def)
  with assms show False ..
qed

definition sdk_names :: "string list" where
  "sdk_names = [''Address'', ''Address'', ''Address'', ''Address'', ''Address'', ''Address'', ''Address'', ''U256'',
     ''U256'', ''u256'', ''I256'', ''I256'', ''I256'', ''I256'', ''I256'', ''i256'', ''u128'', ''u64'',
     ''u32'', ''u16'', ''u8'', ''i128'', ''i64'', ''i32'', ''i16'', ''i8'', ''bool'', ''String'',
     ''String'', ''Bytes'', ''Bytes'', ''Bytes'', ''Bytes'', ''Bytes'']"

lemma sdk_paths_last: "map (\<lambda>n. last (segments (ascii n))) sdk_paths = map ascii sdk_names"
  by (simp add: sdk_paths_def sdk_names_def ascii_def)

lemma sdk_names_known: "n \<in> set sdk_names \<Longrightarrow> path_type (ascii n) \<noteq> SolCustom (ascii n)"
  by (auto simp: path_type_def in_names_def sdk_names_def)

lemma path_last:
  assumes "path_type p \<noteq> SolCustom p"
  shows "path_type (last (segments p)) \<noteq> SolCustom (last (segments p))"
proof -
  obtain n where n: "n \<in> set sdk_paths" "p = ascii n" using sdk_paths_all [OF assms] by blast
  have "last (segments (ascii n)) \<in> set (map (\<lambda>n. last (segments (ascii n))) sdk_paths)" using n(1) by simp
  then obtain n' where "n' \<in> set sdk_names" "last (segments (ascii n)) = ascii n'"
    unfolding sdk_paths_last by auto
  then show ?thesis using sdk_names_known n(2) by simp
qed

section \<open>Emitted items\<close>

text \<open>A file that is imported: the context the visit leaves, and a program that compiles.\<close>

definition imported ::
  "(bytes \<Rightarrow> bytes) \<Rightarrow> (bytes \<Rightarrow> bytes) \<Rightarrow> bool \<Rightarrow> item list \<Rightarrow> ctxt \<Rightarrow> rust_program \<Rightarrow> bool" where
  "imported keccak hex alloc file cx P \<longleftrightarrow>
     expand_to_module keccak hex alloc file = Inr P \<and> visit_file file ctxt_default = Inr cx \<and> program_ok P \<and> sol_file_ok file"

text \<open>The scopes that are expanded: the file and its interfaces.\<close>

definition scope_ok :: "item list \<Rightarrow> bytes option \<Rightarrow> bool" where
  "scope_ok file m \<longleftrightarrow> (\<forall>ns. m = Some ns \<longrightarrow> ns \<in> set (interfaces file))"

lemma imported_is:
  assumes "imported keccak hex alloc file cx P"
  shows "top_items P = expand_items alloc cx file" "modules P = expand_modules keccak hex alloc cx file"
    "from_file file = Inr (custom_types cx)" "current_ns cx = None" "udts_elementary (custom_types cx)"
    "scope_ok file m \<Longrightarrow> cx_types cx m = names_in (sol_scope file m)"
    "cx_types cx (Some ns) \<noteq> {} \<Longrightarrow> scope_ok file (Some ns)" "distinct (contract_names file)"
proof -
  note i = assms [unfolded imported_def]
  show d: "distinct (contract_names file)" using i by (simp add: sol_file_ok_def)
  have v: "visit_file file ctxt_default = Inr cx" using i by blast
  show "top_items P = expand_items alloc cx file" "modules P = expand_modules keccak hex alloc cx file"
    using i by (auto simp: expand_to_module_def andthen_def split: if_splits)
  note f = visit_file_is [OF v d]
  show T: "from_file file = Inr (custom_types cx)" "current_ns cx = None" by (fact f)+
  show "udts_elementary (custom_types cx)"
    using i from_file_is(1) [OF T(1)] by (simp add: sol_file_ok_def udts_elementary_def)
  show "cx_types cx m = names_in (sol_scope file m)" if "scope_ok file m"
    using that f(3,4) by (cases m) (simp_all add: sol_scope_def scope_ok_def)
  show "scope_ok file (Some ns)" if "cx_types cx (Some ns) \<noteq> {}"
    using that f(4) [of ns] by (auto simp: scope_ok_def split: if_splits)
qed

lemma expand_items_mem:
  "it \<in> set its \<Longrightarrow> set (expand_items alloc cx [it]) \<subseteq> set (expand_items alloc cx its)"
proof (induction its)
  case (Cons a its)
  have "expand_items alloc cx (a # its) = expand_items alloc cx [a] @ expand_items alloc cx its"
    by (cases a) simp_all
  then show ?case using Cons by auto
qed simp

lemma expand_items_names:
  "(pn, x) \<in> set (expand_items alloc cx its) \<Longrightarrow> \<exists>it \<in> set its. \<exists>n. item_name it = Some n \<and> pn = to_pascal_case n"
  by (induction its rule: expand_items.induct [of _ alloc cx]) auto

lemma expand_modules_is:
  "distinct (contract_names its) \<Longrightarrow> set (expand_modules keccak hex alloc cx its) =
    (\<lambda>ns. let cx' = cx\<lparr>current_ns := Some ns\<rparr>; body = contract_body ns its in
      (to_snake_case ns, \<lparr> rm_functions = expand_functions keccak hex alloc cx' ns body,
        rm_items = expand_items alloc cx' body \<rparr>)) ` set (interfaces its)"
proof (induction its rule: interfaces.induct)
  case (2 name is_interface body its)
  have "name \<notin> set (interfaces its)" using 2 interfaces_sub by auto
  then have "contract_body ns (IContract name is_interface body # its) = contract_body ns its"
    if "ns \<in> set (interfaces its)" for ns using that by auto
  then show ?case using 2 by (auto simp: Let_def image_iff)
qed simp_all

lemma rust_scope_is:
  assumes "imported keccak hex alloc file cx P" "scope_ok file m"
  shows "rust_scope P (map_option to_snake_case m) = expand_items alloc (cx\<lparr>current_ns := m\<rparr>) (sol_scope file m)"
proof (cases m)
  case None
  have "cx\<lparr>current_ns := None\<rparr> = cx" using imported_is(4) [OF assms(1)] by simp
  then show ?thesis using None imported_is(1) [OF assms(1)] by (simp add: rust_scope_def sol_scope_def)
next
  case (Some ns)
  let ?cx = "cx\<lparr>current_ns := Some ns\<rparr>" and ?body = "contract_body ns file"
  let ?M = "\<lparr> rm_functions = expand_functions keccak hex alloc ?cx ns ?body, rm_items = expand_items alloc ?cx ?body \<rparr>"
  have "ns \<in> set (interfaces file)" using assms(2) Some by (simp add: scope_ok_def)
  then have "(to_snake_case ns, ?M) \<in> set (modules P)"
    unfolding imported_is(2) [OF assms(1)] expand_modules_is [OF imported_is(8) [OF assms(1)]] by (auto simp: Let_def)
  moreover have "distinct (map fst (modules P))" using assms(1) by (simp add: imported_def program_ok_def)
  ultimately have "map_of (modules P) (to_snake_case ns) = Some ?M" by simp
  then show ?thesis by (simp add: Some rust_scope_def sol_scope_def)
qed

lemma rust_scope_ok:
  assumes "program_ok P" "(name, x) \<in> set (rust_scope P m)"
  shows "map_of (rust_scope P m) name = Some x" "\<not> isl x"
proof -
  have "rust_scope P m \<in> insert (top_items P) (rm_items ` snd ` set (modules P)) \<or> rust_scope P m = []"
    by (auto simp: rust_scope_def image_iff split: option.splits dest!: map_of_SomeD) force
  then have "distinct (map fst (rust_scope P m)) \<and> list_all (\<lambda>it. \<not> isl (snd it)) (rust_scope P m)"
    using assms(1) unfolding program_ok_def by auto
  then show "map_of (rust_scope P m) name = Some x" "\<not> isl x" using assms(2) by (auto simp: list_all_iff)
qed

lemma item_emitted:
  assumes "imported keccak hex alloc file cx P" "scope_ok file m" "it \<in> set (sol_scope file m)"
    "(name, x) \<in> set (expand_items alloc (cx\<lparr>current_ns := m\<rparr>) [it])"
  shows "\<exists>rit. x = Inr rit \<and> rust_item_at P (map_option to_snake_case m) name = Some (map_option to_snake_case m, name, rit)"
proof -
  have "(name, x) \<in> set (rust_scope P (map_option to_snake_case m))"
    unfolding rust_scope_is [OF assms(1,2)] using expand_items_mem [OF assms(3)] assms(4) by blast
  moreover have "program_ok P" using assms(1) by (simp add: imported_def)
  ultimately have "map_of (rust_scope P (map_option to_snake_case m)) name = Some x" "\<not> isl x"
    using rust_scope_ok by blast+
  then show ?thesis by (cases x) (simp_all add: rust_item_at_def)
qed

text \<open>No emitted item has the name of a type of the SDK.\<close>

lemma item_name_plain:
  assumes "imported keccak hex alloc file cx P" "rust_item_at P m name \<noteq> None"
  shows "path_type name = SolCustom name"
proof -
  have ok: "sol_file_ok file" using assms(1) by (simp add: imported_def)
  obtain x where x: "(name, x) \<in> set (rust_scope P m)"
    using assms(2) by (auto simp: rust_item_at_def split: option.splits sum.splits dest: map_of_SomeD)
  have "\<exists>its cx'. names_plain its \<and> (name, x) \<in> set (expand_items alloc cx' its)"
  proof (cases m)
    case None
    then show ?thesis using x ok imported_is(1) [OF assms(1)] by (auto simp: rust_scope_def sol_file_ok_def)
  next
    case (Some s)
    then obtain M where "map_of (modules P) s = Some M" "(name, x) \<in> set (rm_items M)"
      using x Some by (cases "map_of (modules P) s") (auto simp: rust_scope_def)
    moreover from this have "(s, M) \<in> set (modules P)" by (simp add: map_of_SomeD)
    then obtain ns where "ns \<in> set (interfaces file)"
      "rm_items M = expand_items alloc (cx\<lparr>current_ns := Some ns\<rparr>) (contract_body ns file)"
      unfolding imported_is(2) [OF assms(1)] expand_modules_is [OF imported_is(8) [OF assms(1)]] by (auto simp: Let_def)
    moreover from this have "names_plain (contract_body ns file)"
      using ok interfaces_sub [of "file"] by (auto simp: sol_file_ok_def)
    ultimately show ?thesis by auto
  qed
  then show ?thesis using expand_items_names by (fastforce simp: names_plain_def plain_name_def)
qed

lemma lookup_item:
  assumes "rust_lookup P m path = Some x"
  shows "\<exists>m'. rust_item_at P m' (last (segments path)) = Some x"
  using assms
  by (auto simp: rust_lookup_def split: list.splits option.splits if_splits)

lemma builtin_unshadowed:
  assumes "imported keccak hex alloc file cx P" "path_type path \<noteq> SolCustom path"
  shows "rust_lookup P m path = None"
proof (rule ccontr)
  assume "rust_lookup P m path \<noteq> None"
  then obtain m' where "rust_item_at P m' (last (segments path)) \<noteq> None" using lookup_item by fastforce
  from item_name_plain [OF assms(1) this] path_last [OF assms(2)] show False by simp
qed

section \<open>Emitted paths\<close>

lemma resolved_scope:
  assumes "imported keccak hex alloc file cx P" "scope_ok file m"
    "ctxt_resolve (cx\<lparr>current_ns := m\<rparr>) path = Inr res" "sol_lookup file m path = Some (m', it)"
  shows "scope_ok file m'"
proof (cases path rule: list.exhaust [case_names nil cons])
  case nil
  then show ?thesis using assms(4) by (simp add: sol_lookup_def)
next
  case (cons a rest)
  show ?thesis
  proof (cases rest)
    case Nil
    then have "m' = m \<or> m' = None"
      using assms(4) cons by (auto simp: sol_lookup_def sol_item_at_def split: option.splits if_splits)
    then show ?thesis using assms(2) by (auto simp: scope_ok_def)
  next
    case (Cons b rest')
    then have "b \<in> cx_types cx (Some a) \<and> m' = Some a"
      using assms(3,4) cons
      by (auto simp: ctxt_resolve_def sol_lookup_def sol_item_at_def split: list.splits if_splits)
    then show ?thesis using imported_is(7) [OF assms(1)] by blast
  qed
qed

text \<open>The path the macro emits leads Rust's name resolution to the declaration Solidity's scoping finds.\<close>

lemma path_emitted:
  assumes "imported keccak hex alloc file cx P" "scope_ok file m"
    "ctxt_resolve (cx\<lparr>current_ns := m\<rparr>) path = Inr res" "sol_lookup file m path = Some (m', it)"
    "rust_item_at P (map_option to_snake_case m') (to_pascal_case (last path)) = Some x"
  shows "scope_ok file m'" "rust_lookup P (map_option to_snake_case m) (custom_path res (to_pascal_case (last path))) = Some x"
    "path_type (custom_path res (to_pascal_case (last path))) = SolCustom (custom_path res (to_pascal_case (last path)))"
proof -
  let ?pn = "to_pascal_case (last path)"
  note i = imported_is [OF assms(1)]
  have ok: "sol_file_ok file" using assms(1) by (simp add: imported_def)
  have item: "it \<in> set (sol_scope file m')" "item_name it = Some (last path)"
    using lookup_name [OF assms(4)] by simp_all
  have top: "scope_ok file None" by (simp add: scope_ok_def)
  have found: "n \<in> cx_types cx m \<longleftrightarrow> sol_item_at file m n \<noteq> None" if "scope_ok file m" for n m
    using i(6) [OF that] by (auto simp: names_in_def sol_item_at_def find_None_iff)
  have plain: "plain_name (last path)" if "scope_ok file m'"
  proof -
    have "names_plain (sol_scope file m')"
      using ok that interfaces_sub [of "file"] by (auto simp: sol_file_ok_def sol_scope_def scope_ok_def split: option.splits)
    then show ?thesis using item by (auto simp: names_plain_def)
  qed
  have seg: "segments ?pn = [?pn]" if "scope_ok file m'"
    using plain [OF that] pascal_no_colon by (intro segments_ident) (simp add: plain_name_def to_pascal_case_def)
  have ns: "58 \<notin> set (to_snake_case ns)" "to_snake_case ns \<noteq> ascii ''super''" if "scope_ok file (Some ns)" for ns
    using that ok interfaces_sub [of "file"] snake_no_colon
    by (auto simp: sol_file_ok_def scope_ok_def to_snake_case_def)
  have super: "segments (ascii ''super::'' @ s) = ascii ''super'' # segments s" for s
    using segments_cons [of "ascii ''super''" s] by (simp add: ascii_def)
  have "scope_ok file m' \<and> rust_lookup P (map_option to_snake_case m) (custom_path res ?pn) = Some x \<and>
      last (segments (custom_path res ?pn)) = ?pn"
  proof (cases path rule: list.exhaust [case_names nil cons])
    case nil
    then show ?thesis using assms(4) by (simp add: sol_lookup_def)
  next
    case (cons a rest)
    show ?thesis
    proof (cases rest)
      case Nil
      show ?thesis
      proof (cases "a \<in> cx_types cx m")
        case True
        then have "m' = m" "res = Local"
          using assms(3,4) found [OF assms(2)] cons Nil
          by (auto simp: ctxt_resolve_def sol_lookup_def sol_item_at_def split: option.splits)
        then show ?thesis using assms(2,5) seg by (simp add: rust_lookup_def)
      next
        case False
        then have "m \<noteq> None" "res = TopLevel" "m' = None"
          using assms(3,4) found [OF assms(2)] cons Nil
          by (auto simp: ctxt_resolve_def sol_lookup_def sol_item_at_def split: option.splits if_splits)
        then show ?thesis using top assms(5) seg super by (auto simp: rust_lookup_def)
      qed
    next
      case (Cons b rest')
      then have two: "path = [a, b]" "res = Qualified a (m \<noteq> None)" "b \<in> cx_types cx (Some a)" "m' = Some a"
        using assms(3,4) cons
        by (auto simp: ctxt_resolve_def sol_lookup_def sol_item_at_def split: list.splits if_splits)
      then have s: "scope_ok file m'" using i(7) by blast
      have "segments (to_snake_case a @ ascii ''::'' @ ?pn) = [to_snake_case a, ?pn]"
        using segments_cons ns(1) s two(4) seg [OF s] by simp
      then show ?thesis using s two assms(5) super ns(2) by (auto simp: rust_lookup_def)
    qed
  qed
  moreover from this have "path_type ?pn = SolCustom ?pn" using plain by (simp add: plain_name_def)
  ultimately show "scope_ok file m'" "rust_lookup P (map_option to_snake_case m) (custom_path res ?pn) = Some x"
    "path_type (custom_path res ?pn) = SolCustom (custom_path res ?pn)"
    using path_last [of "custom_path res ?pn"] by auto
qed

section \<open>Emitted types\<close>

lemma checked_Inr: "checked alloc cx ty res = Inr r \<Longrightarrow> res = Inr r"
  by (auto simp: checked_def split: if_splits option.splits)

lemma collect_all_Inr: "collect_all rs = Inr xs \<longleftrightarrow> rs = map Inr xs"
  by (induction rs arbitrary: xs) (auto simp: Cons_eq_map_conv)

lemma try_collect_Inr: "try_collect_combined rs = Inr xs \<longleftrightarrow> rs = map Inr xs"
proof -
  have "map Inr (map projr rs) = rs" if "list_all (\<lambda>r. \<not> isl r) rs"
    using that by (auto simp: list_all_iff intro!: map_idI)
  then show ?thesis by (auto simp: try_collect_combined_def list_all_iff comp_def split: if_splits)
qed

lemma map_sum_Inr: "map_sum id f r = Inr y \<longleftrightarrow> (\<exists>x. r = Inr x \<and> y = f x)"
  by (cases r) auto

lemma zip_map_snd: "length xs = length ys \<Longrightarrow> map snd (map (map_prod id f) (zip xs ys)) = map f ys"
  by (induction xs ys rule: list_induct2) simp_all

lemma list_all2_choice:
  assumes "list_all2 (\<lambda>x y. \<exists>s d. Q x y s d) xs ys"
  shows "\<exists>ss ds. length ss = length xs \<and> length ds = length xs \<and> length ys = length xs \<and>
    (\<forall>i < length xs. Q (xs ! i) (ys ! i) (ss ! i) (ds ! i))"
  using assms
proof (induction rule: list_all2_induct)
  case (Cons x xs y ys)
  then obtain s d ss ds where "Q x y s d" "length ss = length xs" "length ds = length xs" "length ys = length xs"
    "\<forall>i < length xs. Q (xs ! i) (ys ! i) (ss ! i) (ds ! i)" by blast
  then show ?case
    by (intro exI [of _ "s # ss"] exI [of _ "d # ds"]) (auto simp: nth_Cons split: nat.splits)
qed simp

text \<open>What the emission of a type promises.\<close>

definition emitted :: "item list \<Rightarrow> rust_program \<Rightarrow> bytes option \<Rightarrow> sol_ast \<Rightarrow> sol_ty \<Rightarrow> rust_type \<Rightarrow> sol_type \<Rightarrow> dty \<Rightarrow> bool" where
  "emitted file P m ty t r s d \<longleftrightarrow> from_rust_type r = Some s \<and> rust_denotes P (map_option to_snake_case m) r d \<and>
     denotes s d \<and> dwf d \<and> abi_of d = t \<and> (array_element file m ty \<longrightarrow> dty_array_element d) \<and>
     (elementary ty \<longrightarrow> (\<forall>p. t = TPrim p \<longrightarrow> d = DPrim p)) \<and> ((\<exists>ds. d = DTuple ds) \<longrightarrow> (\<exists>tys. ty = ATuple tys))"

lemma builtin_emitted:
  assumes "imported keccak hex alloc file cx P" "path_type path = s" "builtin_dty s = Some d" "denotes s d" "dwf d"
    "abi_of d = t" "array_element file m ty \<longrightarrow> dty_array_element d" "\<forall>p. t = TPrim p \<longrightarrow> d = DPrim p"
  shows "emitted file P m ty t (RPath path) s d"
proof -
  have "path_type path \<noteq> SolCustom path" using assms(2,3) by auto
  then have "rust_denotes P (map_option to_snake_case m) (RPath path) d"
    using builtin_unshadowed [OF assms(1)] assms(2,3) by (intro rust_denotes.builtin) auto
  moreover have "\<nexists>ds. d = DTuple ds" using assms(3) by (cases s) auto
  ultimately show ?thesis using assms by (simp add: emitted_def)
qed

lemma ascii_append: "ascii a @ ascii b = ascii (a @ b)"
  by (simp add: ascii_def)

lemma widths:
  "uint_prim n = Some p \<Longrightarrow> n \<in> {8, 16, 32, 64, 128, 256}" "int_prim n = Some p \<Longrightarrow> n \<in> {8, 16, 32, 64, 128, 256}"
  by (auto simp: uint_prim.simps int_prim.simps split: if_splits)

lemma int_ident_is:
  "int_ident (ascii lo) (ascii up) n = ascii (if width n = 256 then up else lo) @ decimal (width n)"
  by (simp add: width_def split: option.splits)

lemma int_paths:
  "n \<in> {8, 16, 32, 64, 128, 256} \<Longrightarrow> path_type (ascii (if n = 256 then ''U'' else ''u'') @ decimal n) = SolUint n"
  "n \<in> {8, 16, 32, 64, 128, 256} \<Longrightarrow> path_type (ascii (if n = 256 then ''I'' else ''i'') @ decimal n) = SolInt n"
  by (auto simp: decimals ascii_append) (simp_all add: path_type_def in_names_def ascii_def)

lemma int_idents:
  "uint_prim (width n) = Some p \<Longrightarrow> path_type (int_ident (ascii ''u'') (ascii ''U'') n) = SolUint (width n)"
  "int_prim (width n) = Some p \<Longrightarrow> path_type (int_ident (ascii ''i'') (ascii ''I'') n) = SolInt (width n)"
  using int_paths(1) [OF widths(1), of "width n" p] int_paths(2) [OF widths(2), of "width n" p]
  unfolding int_ident_is by blast+

lemma prim_tables:
  "uint_prim 8 = Some U8" "uint_prim 16 = Some U16" "uint_prim 32 = Some U32" "uint_prim 64 = Some U64"
  "uint_prim 128 = Some U128" "uint_prim 256 = Some U256" "int_prim 8 = Some I8" "int_prim 16 = Some I16"
  "int_prim 32 = Some I32" "int_prim 64 = Some I64" "int_prim 128 = Some I128" "int_prim 256 = Some prim.I256"
  by (simp_all add: uint_prim.simps int_prim.simps)

lemma prim_of_width:
  "uint_prim n = Some p \<Longrightarrow> prim_wf p \<and> (p = U8 \<longrightarrow> n = 8)" "int_prim n = Some p \<Longrightarrow> prim_wf p \<and> p \<noteq> U8"
  using widths [of n p] by (auto simp: prim_tables)

lemma to_rust_type_list:
  assumes "list_all2 (\<lambda>ty t. sol_means file m ty t \<and> (scope_ok file m \<longrightarrow> (\<forall>r.
      to_rust_type alloc (cx\<lparr>current_ns := m\<rparr>) ty = Inr r \<longrightarrow> (\<exists>s d. emitted file P m ty t r s d)))) tys ts"
    and "scope_ok file m" "map (to_rust_type alloc (cx\<lparr>current_ns := m\<rparr>)) tys = map Inr rs"
  shows "\<exists>ss ds. map from_rust_type rs = map Some ss \<and> list_all2 (rust_denotes P (map_option to_snake_case m)) rs ds \<and>
    list_all2 denotes ss ds \<and> list_all dwf ds \<and> map abi_of ds = ts"
proof -
  have "length tys = length rs" using assms(3) by (metis length_map)
  moreover have "to_rust_type alloc (cx\<lparr>current_ns := m\<rparr>) (tys ! i) = Inr (rs ! i)" if "i < length tys" for i
    using assms(3) that calculation by (metis nth_map)
  ultimately have "list_all2 (\<lambda>r t. \<exists>s d. from_rust_type r = Some s \<and> rust_denotes P (map_option to_snake_case m) r d \<and>
      denotes s d \<and> dwf d \<and> abi_of d = t) rs ts"
    using assms(1,2) unfolding list_all2_conv_all_nth emitted_def by fastforce
  from list_all2_choice [OF this]
  obtain ss ds where "length ss = length rs" "length ds = length rs" "length ts = length rs"
    "\<forall>i < length rs. from_rust_type (rs ! i) = Some (ss ! i) \<and> rust_denotes P (map_option to_snake_case m) (rs ! i) (ds ! i) \<and>
      denotes (ss ! i) (ds ! i) \<and> dwf (ds ! i) \<and> abi_of (ds ! i) = ts ! i" by blast
  then show ?thesis
    by (intro exI [of _ ss] exI [of _ ds]) (auto simp: list_all2_conv_all_nth list_all_length intro!: nth_equalityI)
qed

lemma type_emitted:
  assumes imp: "imported keccak hex alloc file cx P" and "sol_means file m ty t"
  shows "scope_ok file m \<Longrightarrow> to_rust_type alloc (cx\<lparr>current_ns := m\<rparr>) ty = Inr r \<Longrightarrow> \<exists>s d. emitted file P m ty t r s d"
  using assms(2)
proof (induction arbitrary: r rule: sol_means.induct)
  case (address m)
  then have "r = RPath (ascii ''Address'')" using checked_Inr by fastforce
  then show ?case
    using builtin_emitted [OF imp, of "ascii ''Address''" SolAddress "DPrim Address" "TPrim Address"]
    by (fastforce simp: path_type_def in_names_def)
next
  case (bool m)
  then have "r = RPath (ascii ''bool'')" using checked_Inr by fastforce
  moreover have "path_type (ascii ''bool'') = SolBool" by (simp add: path_type_def in_names_def ascii_def)
  ultimately show ?case
    using builtin_emitted [OF imp, of "ascii ''bool''" SolBool "DPrim Bool" "TPrim Bool"] by fastforce
next
  case (string m)
  then have "r = RPath (ascii ''alloc::string::String'')" using checked_Inr by fastforce
  moreover have "path_type (ascii ''alloc::string::String'') = SolString"
    by (simp add: path_type_def in_names_def ascii_def)
  ultimately show ?case
    using builtin_emitted [OF imp, of "ascii ''alloc::string::String''" SolString DString TString] by fastforce
next
  case (bytes m)
  then have "r = RPath (ascii ''pvm_contract_sdk::Bytes'')" using checked_Inr by fastforce
  moreover have "path_type (ascii ''pvm_contract_sdk::Bytes'') = SolDynBytes"
    by (simp add: path_type_def in_names_def ascii_def)
  ultimately show ?case
    using builtin_emitted [OF imp, of "ascii ''pvm_contract_sdk::Bytes''" SolDynBytes DBytes TBytes] by fastforce
next
  case (uint n p m)
  then have "r = RPath (int_ident (ascii ''u'') (ascii ''U'') n)" using checked_Inr by fastforce
  moreover have "array_element file m (AUint n) \<longrightarrow> dty_array_element (DPrim p)"
    using prim_of_width(1) [OF uint.hyps] by (auto simp: array_element_def width_def split: option.splits)
  ultimately show ?case
    using builtin_emitted [OF imp int_idents(1) [OF uint.hyps], of "DPrim p" "TPrim p"] uint.hyps
      prim_of_width(1) [OF uint.hyps] by (fastforce simp: denotes_iff)
next
  case (int n p m)
  then have "r = RPath (int_ident (ascii ''i'') (ascii ''I'') n)" using checked_Inr by fastforce
  then show ?case
    using builtin_emitted [OF imp int_idents(2) [OF int.hyps], of "DPrim p" "TPrim p"] int.hyps
      prim_of_width(2) [OF int.hyps] by (fastforce simp: denotes_iff)
next
  case (fixed_bytes n m)
  then have r: "r = RArray (RPath (ascii ''u8'')) n" using checked_Inr by fastforce
  have "path_type (ascii ''u8'') = SolUint 8" using int_paths(1) [of 8] by (simp add: decimals ascii_append)
  moreover from this have "rust_denotes P (map_option to_snake_case m) (RPath (ascii ''u8'')) (DPrim U8)"
    using builtin_unshadowed [OF imp] by (intro rust_denotes.builtin) (simp_all add: prim_tables)
  ultimately show ?case
    using rust_denotes.array [of P "map_option to_snake_case m" "RPath (ascii ''u8'')" "DPrim U8" n] fixed_bytes.hyps
    by (intro exI [of _ "SolBytes n"] exI [of _ "DPrim (BytesN n)"]) (simp add: emitted_def r)
next
  case (vec m ty t)
  obtain r' where r': "to_rust_type alloc (cx\<lparr>current_ns := m\<rparr>) ty = Inr r'" "r = RVec r'"
    using vec.prems(2) checked_Inr by fastforce
  then obtain s d where "emitted file P m ty t r' s d" using vec.IH vec.prems(1) by blast
  then show ?case
    using r'(2) rust_denotes.vec [of P "map_option to_snake_case m" r' d]
    by (intro exI [of _ "SolArray s"] exI [of _ "DVec d"]) (simp add: emitted_def)
next
  case (array m ty t n)
  obtain r' where r': "to_rust_type alloc (cx\<lparr>current_ns := m\<rparr>) ty = Inr r'" "r = RArray r' n"
    using array.prems(2) checked_Inr by fastforce
  then obtain s d where e: "emitted file P m ty t r' s d" using array.IH array.prems(1) by blast
  then have el: "dty_array_element d" using array.hyps(3) by (simp add: emitted_def)
  have "denotes s d" using e by (simp add: emitted_def)
  then have "s \<noteq> SolUint 8" using el denotes_iff(1) [of 8 d] prim_tables(1) by auto
  moreover have "d \<noteq> DPrim U8" using el by auto
  ultimately show ?case
    using e el r'(2) rust_denotes.array [of P "map_option to_snake_case m" r' d n] array.hyps(2)
    by (intro exI [of _ "SolFixedArray s n"] exI [of _ "DArr d n"]) (simp add: emitted_def)
next
  case (tuple m tys ts)
  obtain rs where rs: "map (to_rust_type alloc (cx\<lparr>current_ns := m\<rparr>)) tys = map Inr rs" "r = tuple_tokens rs"
    using checked_Inr [OF tuple.prems(2) [unfolded to_rust_type.simps]] by (auto simp: collect_all_Inr)
  have "length tys = length rs" using rs(1) by (metis length_map)
  then have "r = RTuple rs" "rs \<noteq> []" using rs(2) tuple.hyps by (cases rs rule: tuple_tokens.cases; simp)+
  moreover from to_rust_type_list [OF tuple.IH tuple.prems(1) rs(1)]
  obtain ss ds where "map from_rust_type rs = map Some ss" "list_all2 (rust_denotes P (map_option to_snake_case m)) rs ds"
    "list_all2 denotes ss ds" "list_all dwf ds" "map abi_of ds = ts" by blast
  ultimately show ?case
    using rust_denotes.tuple [of P "map_option to_snake_case m" rs ds]
    by (intro exI [of _ "SolTuple ss"] exI [of _ "DTuple ds"])
      (auto simp: emitted_def all_some_iff list_all_iff dest: list_all2_lengthD)
next
  case (struct m path m' name fds ts)
  note lu = struct.hyps(1)
  obtain res where res: "ctxt_resolve (cx\<lparr>current_ns := m\<rparr>) path = Inr res"
    "r = RPath (custom_path res (to_pascal_case (last path)))"
    using checked_Inr [OF struct.prems(2) [unfolded to_rust_type.simps]] by auto
  have n: "name = last path" and it: "IStruct name fds \<in> set (sol_scope file m')" using lookup_name [OF lu] by simp_all
  have sc: "scope_ok file m'" using resolved_scope [OF imp struct.prems(1) res(1) lu] .
  obtain rit where rit: "map_sum id RStruct (expand_fields alloc (cx\<lparr>current_ns := m'\<rparr>) fds) = Inr rit"
    "rust_item_at P (map_option to_snake_case m') (to_pascal_case name) = Some (map_option to_snake_case m', to_pascal_case name, rit)"
    using item_emitted [OF imp sc it] by fastforce
  then obtain rs where rs: "rit = RStruct rs" "map (to_rust_type alloc (cx\<lparr>current_ns := m'\<rparr>)) (map snd fds) = map Inr rs"
    by (auto simp: map_sum_Inr expand_fields_def try_collect_Inr comp_def)
  note path = path_emitted [OF imp struct.prems(1) res(1) lu rit(2) [unfolded n]]
  from to_rust_type_list [OF struct.IH sc rs(2)]
  obtain ss ds where d: "map from_rust_type rs = map Some ss" "list_all2 (rust_denotes P (map_option to_snake_case m')) rs ds"
    "list_all2 denotes ss ds" "list_all dwf ds" "map abi_of ds = ts" by blast
  have len: "length ss = length ds" using d(3) by (rule list_all2_lengthD)
  have ne: "zip ss ds \<noteq> []"
    using struct.hyps(2) d(1,2) rs(2) len by (metis length_map list_all2_lengthD length_0_conv zip_eq_Nil_iff)
  have "map snd (map (map_prod id abi_of) (zip ss ds)) = map abi_of ds" "map snd (map (map_prod id dwf) (zip ss ds)) = map dwf ds"
    using zip_map_snd [OF len] by blast+
  then show ?case
    using rust_denotes.struct [OF path(2) [unfolded rs(1)] d(1,2)] path(3) d(3,4,5) ne n
    by (intro exI [of _ "path_type (custom_path res (to_pascal_case (last path)))"]
          exI [of _ "DStruct (to_pascal_case (last path)) (zip ss ds)"])
      (simp add: emitted_def res(2) list_all2_iff list_all_iff)
next
  case (enum m path m' name variants)
  note lu = enum.hyps(1)
  obtain res where res: "ctxt_resolve (cx\<lparr>current_ns := m\<rparr>) path = Inr res"
    "r = RPath (custom_path res (to_pascal_case (last path)))"
    using checked_Inr [OF enum.prems(2) [unfolded to_rust_type.simps]] by auto
  have n: "name = last path" and it: "IEnum name variants \<in> set (sol_scope file m')" using lookup_name [OF lu] by simp_all
  have sc: "scope_ok file m'" using resolved_scope [OF imp enum.prems(1) res(1) lu] .
  have "rust_item_at P (map_option to_snake_case m') (to_pascal_case name) =
      Some (map_option to_snake_case m', to_pascal_case name, REnum (length variants))"
    using item_emitted [OF imp sc it] by fastforce
  note path = path_emitted [OF imp enum.prems(1) res(1) lu this [unfolded n]]
  show ?case
    using rust_denotes.enum [OF path(2)] path(3) enum.hyps(2,3)
    by (intro exI [of _ "path_type (custom_path res (to_pascal_case (last path)))"]
          exI [of _ "DEnum (to_pascal_case (last path)) (length variants)"])
      (simp add: emitted_def res(2))
next
  case (udt m path m' name ty p)
  note lu = udt.hyps(1)
  obtain res where res: "ctxt_resolve (cx\<lparr>current_ns := m\<rparr>) path = Inr res"
    "r = RPath (custom_path res (to_pascal_case (last path)))"
    using checked_Inr [OF udt.prems(2) [unfolded to_rust_type.simps]] by auto
  have n: "name = last path" and it: "IUdt name ty \<in> set (sol_scope file m')" using lookup_name [OF lu] by simp_all
  have sc: "scope_ok file m'" using resolved_scope [OF imp udt.prems(1) res(1) lu] .
  obtain rit where rit: "map_sum id (\<lambda>r. RUdt r ty) (to_rust_type alloc (cx\<lparr>current_ns := m'\<rparr>) ty) = Inr rit"
    "rust_item_at P (map_option to_snake_case m') (to_pascal_case name) = Some (map_option to_snake_case m', to_pascal_case name, rit)"
    using item_emitted [OF imp sc it] by fastforce
  then obtain r' where r': "rit = RUdt r' ty" "to_rust_type alloc (cx\<lparr>current_ns := m'\<rparr>) ty = Inr r'"
    by (auto simp: map_sum_Inr)
  note path = path_emitted [OF imp udt.prems(1) res(1) lu rit(2) [unfolded n]]
  obtain s d where d: "emitted file P m' ty (TPrim p) r' s d" using udt.IH [OF sc r'(2)] by blast
  then have "d = DPrim p" "prim_wf p" "rust_denotes P (map_option to_snake_case m') r' (DPrim p)"
    using udt.hyps(2) by (auto simp: emitted_def)
  moreover have "\<not> array_element file m (ACustom path)" using lu by (auto simp: array_element_def)
  ultimately show ?case
    using rust_denotes.udt [OF path(2) [unfolded r'(1)]] path(3)
    by (intro exI [of _ "path_type (custom_path res (to_pascal_case (last path)))"]
          exI [of _ "DUdt (to_pascal_case (last path)) (DPrim p)"])
      (simp add: emitted_def res(2))
qed

section \<open>What is rejected\<close>

lemma contract_body_in: "contract_body ns its \<noteq> [] \<Longrightarrow> ns \<in> set (contract_names its)"
  by (induction its rule: contract_names.induct) (auto split: if_splits)

lemma path_accepted:
  assumes "imported keccak hex alloc file cx P" "scope_ok file m" "set (contract_names file) \<subseteq> set (interfaces file)"
    "sol_lookup file m path = Some (m', it)"
  shows "\<exists>res. ctxt_resolve (cx\<lparr>current_ns := m\<rparr>) path = Inr res"
proof -
  note i = imported_is [OF assms(1)]
  have found: "n \<in> cx_types cx m \<longleftrightarrow> sol_item_at file m n \<noteq> None" if "scope_ok file m" for n m
    using i(6) [OF that] by (auto simp: names_in_def sol_item_at_def find_None_iff)
  have top: "scope_ok file None" by (simp add: scope_ok_def)
  show ?thesis
  proof (cases path rule: list.exhaust [case_names nil cons])
    case nil
    then show ?thesis using assms(4) by (simp add: sol_lookup_def)
  next
    case (cons a rest)
    show ?thesis
    proof (cases rest)
      case Nil
      then have "a \<in> cx_types cx m \<or> m \<noteq> None \<and> a \<in> cx_types cx None"
        using assms(4) cons found [OF assms(2)] found [OF top]
        by (auto simp: sol_lookup_def split: option.splits if_splits)
      then show ?thesis using cons Nil by (auto simp: ctxt_resolve_def)
    next
      case (Cons b rest')
      then have two: "path = [a, b]" "sol_item_at file (Some a) b \<noteq> None"
        using assms(4) cons by (auto simp: sol_lookup_def split: list.splits)
      then have "a \<in> set (contract_names file)"
        by (intro contract_body_in) (auto simp: sol_item_at_def sol_scope_def)
      then have "scope_ok file (Some a)" using assms(3) by (auto simp: scope_ok_def)
      then show ?thesis using found two by (auto simp: ctxt_resolve_def)
    qed
  qed
qed

lemma type_accepted:
  assumes imp: "imported keccak hex alloc file cx P" and sc: "scope_ok file m"
    and all: "set (contract_names file) \<subseteq> set (interfaces file)"
    and "sol_means file m ty t" "alloc \<or> \<not> abi_dynamic t"
  shows "\<exists>r. to_rust_type alloc (cx\<lparr>current_ns := m\<rparr>) ty = Inr r"
proof -
  let ?cx = "cx\<lparr>current_ns := m\<rparr>"
  note i = imported_is [OF imp]
  have chk: "checked alloc ?cx ty res = res"
    if "sol_means file m ty t" "alloc \<or> \<not> abi_dynamic t" for ty t res
  proof -
    have "is_abi_dynamic (custom_types ?cx) ty = Some (abi_dynamic t)"
      using canonical_means(2) [OF i(3,5) that(1)] by simp
    moreover have "\<exists>res. ctxt_resolve ?cx path = Inr res" if "ty = ACustom path" for path
      using path_accepted [OF imp sc all] \<open>sol_means file m ty t\<close> that by (auto elim: custom_means)
    ultimately show ?thesis using that(2) by (auto simp: checked_def andthen_inr split: sol_ast.splits)
  qed
  show ?thesis
    using assms(4,5)
  proof (induction ty arbitrary: t)
    case (AArray ty n)
    have "\<exists>t'. sol_means file m ty t' \<and> (alloc \<or> \<not> abi_dynamic t')"
      using AArray.prems by (elim sol_meansE(8)) auto
    then obtain r where "to_rust_type alloc ?cx ty = Inr r" using AArray.IH by blast
    then show ?case using chk [OF AArray.prems] by simp
  next
    case (ATuple tys)
    then obtain ts where ts: "list_all2 (sol_means file m) tys ts" "t = TTuple ts" by (auto elim: sol_meansE(9))
    have "\<exists>r. to_rust_type alloc ?cx ty = Inr r" if mem: "ty \<in> set tys" for ty
    proof -
      obtain k where "k < length tys" "ty = tys ! k" using mem by (auto simp: in_set_conv_nth)
      then obtain t' where "sol_means file m ty t'" "t' \<in> set ts"
        using ts(1) by (auto simp: list_all2_conv_all_nth)
      moreover from this have "alloc \<or> \<not> abi_dynamic t'" using ATuple.prems(2) ts(2) by (auto simp: list_ex_iff)
      ultimately show ?thesis using ATuple.IH mem by blast
    qed
    then have "\<exists>rs. map (to_rust_type alloc ?cx) tys = map Inr rs"
      by (induction tys) (auto, metis list.simps(9))
    then show ?case using chk [OF ATuple.prems] by (auto simp: collect_all_Inr)
  next
    case (ACustom path)
    then obtain res where "ctxt_resolve ?cx path = Inr res"
      using path_accepted [OF imp sc all] ACustom.prems(1) by (metis custom_means)
    then show ?case using chk [OF ACustom.prems] by simp
  qed (simp_all add: chk, auto elim: sol_means.cases)
qed

section \<open>Rust's meaning is unique\<close>

lemma rust_denotes_unique: "rust_denotes P m r d \<Longrightarrow> rust_denotes P m r d' \<Longrightarrow> d = d'"
proof (induction arbitrary: d' rule: rust_denotes.induct)
  case (struct m path m' name rs ss ds)
  from struct.prems obtain ss' ds' where "d' = DStruct name (zip ss' ds')" "map from_rust_type rs = map Some ss'"
    "list_all2 (rust_denotes P m') rs ds'"
    using struct.hyps(1) by (auto elim: rust_denotesE)
  moreover from this have "ss' = ss" using struct.hyps(2) by (metis map_injective option.inject inj_def)
  ultimately show ?case using list_all2_unique [OF struct.IH] by simp
next
  case (tuple m rs ds)
  from tuple.prems obtain ds' where "d' = DTuple ds'" "list_all2 (rust_denotes P m) rs ds'" by (auto elim: rust_denotesE)
  then show ?case using list_all2_unique [OF tuple.IH] by simp
next
  case (builtin m path d)
  then show ?case by (auto elim!: rust_denotesE(1))
next
  case (enum m path m' name n)
  then show ?case by (auto elim!: rust_denotesE(1))
next
  case (udt m path m' name r d)
  from udt.prems obtain d1 where "d' = DUdt name d1" "rust_denotes P m' r d1"
    using udt.hyps(1) by (auto elim!: rust_denotesE(1))
  then show ?case using udt.IH by simp
next
  case (vec m r d)
  from vec.prems obtain d1 where "d' = DVec d1" "rust_denotes P m r d1" by (elim rust_denotesE(2)) simp
  then show ?case using vec.IH by simp
next
  case (array m r d n)
  from array.prems obtain d1 where "d' = (if d1 = DPrim U8 then DPrim (BytesN n) else DArr d1 n)" "rust_denotes P m r d1"
    by (elim rust_denotesE(3)) simp
  then show ?case using array.IH by simp
qed

section \<open>The emitted names are the ABI names\<close>

text \<open>What the documentation of \<open>syn_solidity\<close> says of \<open>Type::abi_name\<close> on elementary types.\<close>

definition syn_abi_names :: "(sol_ast \<Rightarrow> bytes) \<Rightarrow> bool" where
  "syn_abi_names A \<longleftrightarrow> A AAddress = ascii ''address'' \<and> A ABool = ascii ''bool'' \<and> A AString = ascii ''string'' \<and>
     A ABytes = ascii ''bytes'' \<and> (\<forall>n. A (AFixedBytes n) = ascii ''bytes'' @ decimal n) \<and>
     (\<forall>n. A (AUint n) = ascii ''uint'' @ decimal (width n)) \<and> (\<forall>n. A (AInt n) = ascii ''int'' @ decimal (width n))"

lemma udt_name_is:
  assumes "syn_abi_names A" "elementary ty" "sol_means file m ty (TPrim p)"
  shows "udt_sol_name A ty = prim_name p"
proof -
  note A = assms(1) [unfolded syn_abi_names_def]
  show ?thesis
  proof (cases ty)
    case (AUint n)
    then have "uint_prim (width n) = Some p" using assms(3) by (auto elim: sol_meansE(6))
    then show ?thesis using A AUint prim_names(1) by (simp add: udt_sol_name_def)
  next
    case (AInt n)
    then have "int_prim (width n) = Some p" using assms(3) by (auto elim: sol_meansE(7))
    then show ?thesis using A AInt prim_names(2) by (simp add: udt_sol_name_def)
  next
    case (AFixedBytes n)
    then have "p = BytesN n" using assms(3) by (auto elim: sol_meansE(5))
    then show ?thesis using A AFixedBytes by (simp add: udt_sol_name_def)
  next
    case AAddress
    then have "p = Address" using assms(3) by (auto elim: sol_meansE(1))
    then show ?thesis using A AAddress by (simp add: udt_sol_name_def)
  next
    case ABool
    then have "p = Bool" using assms(3) by (auto elim: sol_meansE(2))
    then show ?thesis using A ABool by (simp add: udt_sol_name_def)
  next
    case AString
    then show ?thesis using assms(3) by (auto elim: sol_meansE(3))
  next
    case ABytes
    then show ?thesis using assms(3) by (auto elim: sol_meansE(4))
  next
    case (AFunction f)
    then show ?thesis using assms(3) by (auto elim: sol_means.cases)
  next
    case (AMapping f)
    then show ?thesis using assms(3) by (auto elim: sol_means.cases)
  qed (use assms(2) in simp_all)
qed

text \<open>Every \<open>SOL_NAME\<close> of the type is the ABI name, and so is the name that a derive builds from its syntax.\<close>

definition named :: "(sol_ast \<Rightarrow> bytes) \<Rightarrow> rust_program \<Rightarrow> bytes option \<Rightarrow> sol_ty \<Rightarrow> rust_type \<Rightarrow> bool" where
  "named A P M t r \<longleftrightarrow> (\<forall>n. rust_sol_name A P M r n \<longrightarrow> n = abi_name t) \<and>
     (\<forall>s names. from_rust_type r = Some s \<longrightarrow> (\<forall>p \<in> custom_paths s. rust_sol_name A P M (RPath p) (names p)) \<longrightarrow>
       sol_type_name_parts names s = abi_name t)"

lemma str_is_Some: "str_is (Some n) x \<Longrightarrow> n = x"
  by (simp add: str_is_def split: if_splits)

lemma builtin_named:
  assumes "rust_denotes P M (RPath path) d" "denotes (path_type path) d" "dwf d" "sol_wf (abi_of d)"
    "(\<exists>p. d = DPrim p) \<or> d = DString \<or> d = DBytes"
  shows "named A P M (abi_of d) (RPath path)"
proof -
  have l: "rust_lookup P M path = None" "builtin_dty (path_type path) = Some d"
    using assms(1,5) by (auto elim!: rust_denotesE(1))
  then have "\<not> st_has_custom_types (path_type path)" by (cases "path_type path") auto
  then have "sol_type_name_parts names (path_type path) = abi_name (abi_of d)" for names
    using denotes_name [OF assms(2)] name_parts_literal by simp
  moreover have "n = abi_name (abi_of d)" if "rust_sol_name A P M (RPath path) n" for n
  proof -
    have "sol_name (abi_of d) = Some n" using that l by (auto elim!: rust_sol_nameE(1))
    then show ?thesis using sol_name_is [OF assms(4)] str_is_Some by metis
  qed
  ultimately show ?thesis by (simp add: named_def)
qed

lemma emitted_builtin_named:
  assumes "emitted file P m ty t (RPath path) s d" "elementary ty" "(\<exists>p. t = TPrim p) \<or> t = TString \<or> t = TBytes"
  shows "named A P (map_option to_snake_case m) t (RPath path)"
proof -
  have e: "s = path_type path" "rust_denotes P (map_option to_snake_case m) (RPath path) d" "denotes s d" "dwf d" "abi_of d = t"
    using assms(1) by (auto simp: emitted_def)
  have b: "(\<exists>p. d = DPrim p) \<or> d = DString \<or> d = DBytes"
    using assms e(4,5) by (cases d) (auto simp: emitted_def split: dty.splits)
  then have "sol_wf (abi_of d)" using e(4) by auto
  then show ?thesis using builtin_named [OF e(2) _ e(4) _ b] e(1,3,5) by simp
qed

lemma list_named:
  assumes "list_all2 (\<lambda>ty t. sol_means file m ty t \<and> (scope_ok file m \<longrightarrow> (\<forall>r.
      to_rust_type alloc (cx\<lparr>current_ns := m\<rparr>) ty = Inr r \<longrightarrow> named A P M t r))) tys ts"
    and "scope_ok file m" "map (to_rust_type alloc (cx\<lparr>current_ns := m\<rparr>)) tys = map Inr rs"
  shows "list_all2 (named A P M) ts rs"
proof -
  have "length tys = length rs" using assms(3) by (metis length_map)
  moreover have "to_rust_type alloc (cx\<lparr>current_ns := m\<rparr>) (tys ! i) = Inr (rs ! i)" if "i < length tys" for i
    using assms(3) that calculation by (metis nth_map)
  ultimately show ?thesis using assms(1,2) by (fastforce simp: list_all2_conv_all_nth)
qed

lemma parts_named:
  assumes "list_all2 (named A P M) ts rs" "map from_rust_type rs = map Some ss"
    "\<forall>s \<in> set ss. \<forall>p \<in> custom_paths s. rust_sol_name A P M (RPath p) (names p)"
  shows "map (sol_type_name_parts names) ss = map abi_name ts"
proof (rule nth_equalityI)
  fix k assume k: "k < length (map (sol_type_name_parts names) ss)"
  have "from_rust_type (rs ! k) = Some (ss ! k)" "length ss = length rs" using map_Some_nth [OF assms(2)] k by simp_all
  moreover have "named A P M (ts ! k) (rs ! k)" "length ts = length rs"
    using assms(1) k calculation(2) by (auto simp: list_all2_conv_all_nth)
  moreover have "\<forall>p \<in> custom_paths (ss ! k). rust_sol_name A P M (RPath p) (names p)" using assms(3) k nth_mem by auto
  ultimately show "map (sol_type_name_parts names) ss ! k = map abi_name ts ! k" using k by (simp add: named_def)
qed (use assms(1) map_Some_nth [OF assms(2)] in \<open>auto dest: list_all2_lengthD\<close>)

lemma literal_names:
  assumes "\<not> list_ex st_has_custom_types ss"
  shows "comma_sep (map st_canonical_name ss) = comma_sep (map (sol_type_name_parts names) ss)"
proof -
  have "map st_canonical_name ss = map (sol_type_name_parts names) ss"
    using assms name_parts_literal by (auto simp: list_ex_iff)
  then show ?thesis by (rule arg_cong)
qed

lemma build_sol_name_is: "build_sol_name names ss = ascii ''('' @ comma_sep (map (sol_type_name_parts names) ss) @ ascii '')''"
  using literal_names [of ss names] by (cases "list_ex st_has_custom_types ss") (simp_all add: build_sol_name_def name_parts_list_map)

lemma tuple_parts: "sol_type_name_parts names (SolTuple ss) = ascii ''('' @ comma_sep (map (sol_type_name_parts names) ss) @ ascii '')''"
  using literal_names [of ss names] by (cases "list_ex st_has_custom_types ss") (simp_all add: name_parts_list_map)

lemma names_of_named:
  "list_all2 (named A P M) ts rs \<Longrightarrow> \<forall>r \<in> set rs. rust_sol_name A P M r (names r) \<Longrightarrow> map names rs = map abi_name ts"
  by (induction rule: list_all2_induct) (simp_all add: named_def)

text \<open>A custom type: its path is its own syntax.\<close>

lemma custom_named:
  assumes "path_type path = SolCustom path" "\<And>n. rust_sol_name A P M (RPath path) n \<Longrightarrow> n = abi_name t"
  shows "named A P M t (RPath path)"
  using assms by (auto simp: named_def)

lemma vec_named:
  assumes "named A P M t r"
  shows "named A P M (TVec t) (RVec r)"
proof -
  have "n = abi_name (TVec t)" if "rust_sol_name A P M (RVec r) n" for n
    using that assms vec_sol_name_is [OF abi_name_ascii, of t]
    by (auto simp: named_def elim!: rust_sol_nameE(2) dest: str_is_Some)
  moreover have "sol_type_name_parts names (SolArray s) = sol_type_name_parts names s @ ascii ''[]''" for names s
    using name_parts_literal by simp
  ultimately show ?thesis using assms by (auto simp: named_def)
qed

lemma array_named:
  assumes "named A P M t r" "from_rust_type r = Some s" "s \<noteq> SolUint 8" "rust_denotes P M r d" "d \<noteq> DPrim U8"
  shows "named A P M (TArr t n) (RArray r n)"
proof -
  have "n' = abi_name (TArr t n)" if "rust_sol_name A P M (RArray r n) n'" for n'
    using that assms(1,5) rust_denotes_unique [OF assms(4)] array_sol_name_is [OF abi_name_ascii, of t n]
    by (auto simp: named_def elim!: rust_sol_nameE(3) dest: str_is_Some)
  moreover have "sol_type_name_parts names (SolFixedArray s n) =
      sol_type_name_parts names s @ ascii ''['' @ decimal n @ ascii '']''" for names
    using name_parts_literal by simp
  ultimately show ?thesis using assms(1-3) by (auto simp: named_def)
qed

lemma tuple_named:
  assumes "list_all2 (named A P M) ts rs" "ts \<noteq> []"
  shows "named A P M (TTuple ts) (RTuple rs)"
proof -
  have "n = abi_name (TTuple ts)" if r: "rust_sol_name A P M (RTuple rs) n" for n
  proof -
    obtain ns where ns: "list_all2 (rust_sol_name A P M) rs ns" "tuple_sol_name ns = Some n"
      using r by (elim rust_sol_nameE(4)) blast
    have "ns = map abi_name ts"
      using ns(1) assms(1) by (auto simp: list_all2_conv_all_nth named_def intro!: nth_equalityI)
    then show ?thesis
      using tuple_sol_name_is [of ns] ns(2) assms(2) abi_name_ascii by (auto simp: list_all_iff dest: str_is_Some)
  qed
  moreover have "sol_type_name_parts names s = abi_name (TTuple ts)"
    if f: "from_rust_type (RTuple rs) = Some s" and c: "\<forall>p \<in> custom_paths s. rust_sol_name A P M (RPath p) (names p)" for s names
  proof -
    obtain ss where ss: "s = SolTuple ss" "map from_rust_type rs = map Some ss"
      using f by (auto simp: all_some_iff)
    then show ?thesis using parts_named [OF assms(1) ss(2)] c by (auto simp: tuple_parts simp del: sol_type_name_parts.simps)
  qed
  ultimately show ?thesis by (simp add: named_def)
qed

lemma custom_emitted_named:
  assumes "imported keccak hex alloc file cx P" "scope_ok file m"
    "to_rust_type alloc (cx\<lparr>current_ns := m\<rparr>) (ACustom path) = Inr r" "sol_lookup file m path = Some (m', it)"
    "(to_pascal_case name, x) \<in> set (expand_items alloc (cx\<lparr>current_ns := m'\<rparr>) [it])" "item_name it = Some name"
  shows "\<exists>q rit. r = RPath q \<and> path_type q = SolCustom q \<and> x = Inr rit \<and> scope_ok file m' \<and>
    rust_lookup P (map_option to_snake_case m) q = Some (map_option to_snake_case m', to_pascal_case name, rit)"
proof -
  obtain res where res: "ctxt_resolve (cx\<lparr>current_ns := m\<rparr>) path = Inr res"
    "r = RPath (custom_path res (to_pascal_case (last path)))"
    using checked_Inr [OF assms(3) [unfolded to_rust_type.simps]] by auto
  have n: "name = last path" and it: "it \<in> set (sol_scope file m')" using lookup_name [OF assms(4)] assms(6) by simp_all
  have sc: "scope_ok file m'" using resolved_scope [OF assms(1,2) res(1) assms(4)] .
  obtain rit where rit: "x = Inr rit"
    "rust_item_at P (map_option to_snake_case m') (to_pascal_case name) = Some (map_option to_snake_case m', to_pascal_case name, rit)"
    using item_emitted [OF assms(1) sc it assms(5)] by blast
  note path = path_emitted [OF assms(1,2) res(1) assms(4) rit(2) [unfolded n]]
  show ?thesis using res(2) rit(1) sc path(2,3) n by blast
qed

lemma type_named:
  assumes imp: "imported keccak hex alloc file cx P" and A: "syn_abi_names A" and "sol_means file m ty t"
  shows "scope_ok file m \<Longrightarrow> to_rust_type alloc (cx\<lparr>current_ns := m\<rparr>) ty = Inr r \<Longrightarrow>
    named A P (map_option to_snake_case m) t r"
  using assms(3)
proof (induction arbitrary: r rule: sol_means.induct)
  case (address m)
  then show ?case
    using type_emitted [OF imp sol_means.address, of m r] checked_Inr emitted_builtin_named by fastforce
next
  case (bool m)
  then show ?case
    using type_emitted [OF imp sol_means.bool, of m r] checked_Inr emitted_builtin_named by fastforce
next
  case (string m)
  then show ?case
    using type_emitted [OF imp sol_means.string, of m r] checked_Inr emitted_builtin_named by fastforce
next
  case (bytes m)
  then show ?case
    using type_emitted [OF imp sol_means.bytes, of m r] checked_Inr emitted_builtin_named by fastforce
next
  case (uint n p m)
  then show ?case
    using type_emitted [OF imp sol_means.uint [OF uint.hyps], of m r] checked_Inr emitted_builtin_named by fastforce
next
  case (int n p m)
  then show ?case
    using type_emitted [OF imp sol_means.int [OF int.hyps], of m r] checked_Inr emitted_builtin_named by fastforce
next
  case (fixed_bytes n m)
  then have r: "r = RArray (RPath (ascii ''u8'')) n" using checked_Inr by fastforce
  have u8: "path_type (ascii ''u8'') = SolUint 8" using int_paths(1) [of 8] by (simp add: decimals ascii_append)
  have den: "rust_denotes P (map_option to_snake_case m) (RPath (ascii ''u8'')) (DPrim U8)"
    using builtin_unshadowed [OF imp] u8 by (intro rust_denotes.builtin) (simp_all add: prim_tables)
  have "n' = prim_name (BytesN n)" if "rust_sol_name A P (map_option to_snake_case m) r n'" for n'
    using that rust_denotes_unique [OF den] prim_sol_name_is [OF fixed_bytes.hyps]
    by (auto simp: r elim!: rust_sol_nameE(3) dest: str_is_Some)
  then show ?case using u8 by (simp add: named_def r)
next
  case (vec m ty t)
  obtain r' where r': "to_rust_type alloc (cx\<lparr>current_ns := m\<rparr>) ty = Inr r'" "r = RVec r'"
    using vec.prems(2) checked_Inr by fastforce
  then show ?case using vec_named vec.IH [OF vec.prems(1) r'(1)] by simp
next
  case (array m ty t n)
  obtain r' where r': "to_rust_type alloc (cx\<lparr>current_ns := m\<rparr>) ty = Inr r'" "r = RArray r' n"
    using array.prems(2) checked_Inr by fastforce
  obtain s d where e: "emitted file P m ty t r' s d" using type_emitted [OF imp array.hyps(1) array.prems(1) r'(1)] by blast
  then have el: "dty_array_element d" "denotes s d" using array.hyps(3) by (simp_all add: emitted_def)
  have "s \<noteq> SolUint 8" using el denotes_iff(1) [of 8 d] prim_tables(1) by auto
  moreover have "d \<noteq> DPrim U8" using el by auto
  ultimately show ?case
    using array_named [OF array.IH [OF array.prems(1) r'(1)]] e unfolding emitted_def r'(2) by blast
next
  case (tuple m tys ts)
  obtain rs where rs: "map (to_rust_type alloc (cx\<lparr>current_ns := m\<rparr>)) tys = map Inr rs" "r = tuple_tokens rs"
    using checked_Inr [OF tuple.prems(2) [unfolded to_rust_type.simps]] by (auto simp: collect_all_Inr)
  have "length tys = length rs" using rs(1) by (metis length_map)
  then have "r = RTuple rs" using rs(2) tuple.hyps by (cases rs rule: tuple_tokens.cases; simp)
  moreover have "length ts = length tys" using tuple.IH by (auto dest: list_all2_lengthD)
  then have "ts \<noteq> []" using tuple.hyps by auto
  ultimately show ?case using tuple_named [OF list_named [OF tuple.IH tuple.prems(1) rs(1)]] by simp
next
  case (struct m path m' name fds ts)
  obtain q rit where q: "r = RPath q" "path_type q = SolCustom q" "scope_ok file m'"
      "map_sum id RStruct (expand_fields alloc (cx\<lparr>current_ns := m'\<rparr>) fds) = Inr rit"
      "rust_lookup P (map_option to_snake_case m) q = Some (map_option to_snake_case m', to_pascal_case name, rit)"
    using custom_emitted_named [OF imp struct.prems struct.hyps(1), of name] by (simp, blast)
  then obtain rs where rs: "rit = RStruct rs" "map (to_rust_type alloc (cx\<lparr>current_ns := m'\<rparr>)) (map snd fds) = map Inr rs"
    by (auto simp: map_sum_Inr expand_fields_def try_collect_Inr comp_def)
  note fields_named = list_named [OF struct.IH q(3) rs(2)]
  have "n = abi_name (TTuple ts)" if rn: "rust_sol_name A P (map_option to_snake_case m) (RPath q) n" for n
  proof -
    obtain ss names where "map from_rust_type rs = map Some ss" "n = build_sol_name names ss"
      "\<forall>s \<in> set ss. \<forall>p \<in> custom_paths s. rust_sol_name A P (map_option to_snake_case m') (RPath p) (names p)"
      using rn q(5) rs(1) by (elim rust_sol_nameE(1)) auto
    then show ?thesis using parts_named [OF fields_named] by (simp add: build_sol_name_is)
  qed
  then show ?case using custom_named q(1,2) by blast
next
  case (enum m path m' name variants)
  obtain q rit where q: "r = RPath q" "path_type q = SolCustom q" "rit = REnum (length variants)"
      "rust_lookup P (map_option to_snake_case m) q = Some (map_option to_snake_case m', to_pascal_case name, rit)"
    using custom_emitted_named [OF imp enum.prems enum.hyps(1), of name] by (simp, blast)
  have "n = abi_name (TPrim U8)" if "rust_sol_name A P (map_option to_snake_case m) (RPath q) n" for n
    using that q(3,4) by (auto elim!: rust_sol_nameE(1) simp: enum_sol_name_def decimals ascii_def)
  then show ?case using custom_named q(1,2) by blast
next
  case (udt m path m' name ty p)
  obtain q rit where q: "r = RPath q" "path_type q = SolCustom q"
      "map_sum id (\<lambda>r. RUdt r ty) (to_rust_type alloc (cx\<lparr>current_ns := m'\<rparr>) ty) = Inr rit"
      "rust_lookup P (map_option to_snake_case m) q = Some (map_option to_snake_case m', to_pascal_case name, rit)"
    using custom_emitted_named [OF imp udt.prems udt.hyps(1), of name] by (simp, blast)
  then obtain r' where "rit = RUdt r' ty" by (auto simp: map_sum_Inr)
  then have "n = abi_name (TPrim p)" if "rust_sol_name A P (map_option to_snake_case m) (RPath q) n" for n
    using that q(4) udt_name_is [OF A udt.hyps(2,3)] by (auto elim!: rust_sol_nameE(1))
  then show ?case using custom_named q(1,2) by blast
qed

section \<open>Calls\<close>

text \<open>The inputs of an emitted call, as \<open>payload_type\<close> has them.\<close>

fun payload_dcodec :: "dty list \<Rightarrow> sol_codec" where
  "payload_dcodec [] = impl_unit"
| "payload_dcodec [d] = dcodec d"
| "payload_dcodec ds = dcodec (DTuple ds)"

lemma payload_encoded:
  assumes "list_all dwf ds" "list_all2 dwt ds args" "\<And>d ds'. ds = [d] \<Longrightarrow> d \<noteq> DTuple ds'"
    and "e = abi_enc (TTuple (map abi_of ds)) (VSeq args)"
  shows "encode_len (payload_dcodec ds) (payload args) = length e \<and>
    (length e \<le> length buf \<longrightarrow> length buf < usize_limit \<longrightarrow>
      encode_to (payload_dcodec ds) (payload args) buf = Some (e @ drop (length e) buf))"
proof (cases ds rule: payload_dcodec.cases)
  case 1
  then have "args = []" using assms(2) by simp
  then show ?thesis
    using 1 by (simp add: assms(4) impl_unit_def encode_len_def encode_to_def seq_enc_def seq_head_len_def seq_tails_def)
next
  case (2 d)
  then obtain v where v: "args = [v]" "dwf d \<and> dwt d v" using assms(1,2) by (auto simp: list_all2_Cons1)
  have "\<not> IS_TUPLE (dcodec d)" using assms(3) 2 by (simp add: dty_is_tuple)
  then have "e = top_enc (dcodec d) (abi_enc (abi_of d) v)"
    using v 2 dcodec_dynamic [of d] single_field_enc
    by (cases "abi_dynamic (abi_of d)") (simp_all add: assms(4) top_enc_def)
  then show ?thesis
    using dty.encode_len_top [OF v(2)] dty.encode_to_top [OF v(2), of buf] 2 v(1) by simp
next
  case (3 d d' ds')
  then obtain v v' vs where v: "args = v # v' # vs" using assms(2) by (auto simp: list_all2_Cons1)
  have wt: "dwf (DTuple ds) \<and> dwt (DTuple ds) (VSeq args)"
  proof -
    have "list_all2 (\<lambda>p x. p x) (map dwt ds) args" using assms(2) by (simp add: list_all2_map1)
    moreover have "ds \<noteq> []" using 3 by simp
    ultimately show ?thesis using assms(1) by (simp add: list_all_iff)
  qed
  have "e = top_enc (dcodec (DTuple ds)) (abi_enc (abi_of (DTuple ds)) (VSeq args))"
    by (simp add: assms(4) top_enc_def dty_is_tuple)
  then show ?thesis
    using dty.encode_len_top [OF wt] dty.encode_to_top [OF wt, of buf] 3 v by simp
qed

lemma expand_function_is:
  assumes "expand_function keccak hex alloc cx contract_name False f = Inr g"
  shows "map (to_rust_type alloc cx) (map snd (fn_params f)) = map Inr (if_params g)" "if_sol_name g = fn_name f"
  using assms
  by (auto simp: expand_function_def resolve_signature_types_def combine_results_def try_collect_Inr comp_def
      split: option.splits sum.splits if_splits)

text \<open>What the parameters of an emitted function are.\<close>

lemma params_emitted:
  assumes "imported keccak hex alloc file cx P" "scope_ok file m" "list_all2 (sol_means file m) tys ts"
    "map (to_rust_type alloc (cx\<lparr>current_ns := m\<rparr>)) tys = map Inr rs" "\<forall>ty \<in> set tys. \<forall>tys'. ty \<noteq> ATuple tys'"
  shows "\<exists>ds. list_all2 (rust_denotes P (map_option to_snake_case m)) rs ds \<and> list_all dwf ds \<and> map abi_of ds = ts \<and>
    (\<forall>d ds'. ds = [d] \<longrightarrow> d \<noteq> DTuple ds')"
proof -
  have "list_all2 (\<lambda>ty t. sol_means file m ty t \<and> (scope_ok file m \<longrightarrow> (\<forall>r.
      to_rust_type alloc (cx\<lparr>current_ns := m\<rparr>) ty = Inr r \<longrightarrow> (\<exists>s d. emitted file P m ty t r s d)))) tys ts"
    using assms(3) by (rule list_all2_mono) (use type_emitted [OF assms(1)] in blast)
  from to_rust_type_list [OF this assms(2,4)]
  obtain ds where ds: "list_all2 (rust_denotes P (map_option to_snake_case m)) rs ds" "list_all dwf ds" "map abi_of ds = ts"
    by blast
  have "d \<noteq> DTuple ds'" if one: "ds = [d]" for d ds'
  proof -
    obtain r ty t where r: "rs = [r]" "tys = [ty]" "ts = [t]"
      using ds(1,3) one assms(4) by (auto simp: list_all2_Cons2)
    then obtain s d' where e: "emitted file P m ty t r s d'"
      using type_emitted [OF assms(1), of m ty t r] assms(2-4) by auto
    have "rust_denotes P (map_option to_snake_case m) r d" using ds(1) r one by simp
    then have "d' = d" using e rust_denotes_unique by (auto simp: emitted_def)
    then show ?thesis using e assms(5) r(2) by (auto simp: emitted_def)
  qed
  then show ?thesis using ds by blast
qed

section \<open>Properties\<close>

text \<open>
  C16: an imported type is the type Solidity means, for a file that is accepted, whose expansion compiles,
  and which declares no type whose Rust name is that of a type of the SDK (\<open>Bytes\<close>, \<open>Address\<close>, \<open>String\<close>;
  the macro accepts such files and confuses the types). For a type of a scope of the file that contains
  no fixed array of \<open>uint8\<close> (emitted as \<open>bytesN\<close>) and no fixed array of a user-defined value type (does
  not compile), and that has a meaning there: the canonical name and the dynamism that the macro
  computes over its flat table of names are those of the ABI type; the Rust type it emits resolves, by
  Rust's scoping of the emitted modules, to exactly one type, which is well formed, which the derives
  read correctly off its syntax, and whose ABI type is that type; and when all contracts of the file are
  interfaces a type is rejected only for being dynamic without \<open>alloc\<close>.
\<close>

theorem import_means_solidity:
  assumes "imported keccak hex alloc file cx P" "scope_ok file m" "sol_means file m ty t"
  shows "canonical_name (custom_types cx) ty = Some (abi_name t) \<and>
    is_abi_dynamic (custom_types cx) ty = Some (abi_dynamic t) \<and>
    (\<forall>r. to_rust_type alloc (cx\<lparr>current_ns := m\<rparr>) ty = Inr r \<longrightarrow>
      (\<exists>s d. from_rust_type r = Some s \<and> denotes s d \<and> dwf d \<and> abi_of d = t \<and>
        (\<forall>d'. rust_denotes P (map_option to_snake_case m) r d' \<longleftrightarrow> d' = d))) \<and>
    (set (contract_names file) \<subseteq> set (interfaces file) \<longrightarrow>
      (\<exists>r. to_rust_type alloc (cx\<lparr>current_ns := m\<rparr>) ty = Inr r) \<longleftrightarrow> alloc \<or> \<not> abi_dynamic t)"
proof -
  note i = imported_is [OF assms(1)]
  note c = canonical_means [OF i(3,5) assms(3)]
  have "\<exists>s d. from_rust_type r = Some s \<and> denotes s d \<and> dwf d \<and> abi_of d = t \<and>
      (\<forall>d'. rust_denotes P (map_option to_snake_case m) r d' \<longleftrightarrow> d' = d)"
    if "to_rust_type alloc (cx\<lparr>current_ns := m\<rparr>) ty = Inr r" for r
    using type_emitted [OF assms(1,3,2) that] rust_denotes_unique unfolding emitted_def by metis
  moreover have "to_rust_type alloc (cx\<lparr>current_ns := m\<rparr>) ty \<noteq> Inr r" if "\<not> alloc" "abi_dynamic t" for r
  proof -
    have "checked alloc (cx\<lparr>current_ns := m\<rparr>) ty res \<noteq> Inr r" for res
      using that c(2) by (auto simp: checked_def)
    then show ?thesis by (cases ty) auto
  qed
  ultimately show ?thesis using c type_accepted [OF assms(1,2) _ assms(3)] by blast
qed

text \<open>
  C17: an imported method calls the Solidity method. For files and parameter types as in C16 (no type named
  like a type of the SDK, no fixed array of \<open>uint8\<close> or of a value type) and a function of an interface
  whose parameters have a meaning and are no tuples: the call has the selector of the canonical
  signature, which is also the signature that overloading is decided by, computed from the \<open>SOL_NAME\<close>s
  that the emitted code has for the parameter types, that is the literals of value types, the names of
  enums and the compile-time concatenations of derived structs, through any nesting of declarations; and
  the calldata it writes for typed arguments is the selector followed by the ABI encoding of the
  arguments. \<open>abi_name\<close> of the parser is assumed to be as documented on elementary types.
\<close>

theorem imported_call_is_solidity:
  assumes "imported keccak hex alloc file cx P" "scope_ok file (Some ns)" "M = Some (to_snake_case ns)"
    and "expand_function keccak hex alloc (cx\<lparr>current_ns := Some ns\<rparr>) contract_name False f = Inr g"
    and "fn_name f = Some name" "list_all2 (\<lambda>p t. sol_means file (Some ns) (snd p) t) (fn_params f) ts"
    and "\<forall>p \<in> set (fn_params f). \<forall>tys. snd p \<noteq> ATuple tys"
    and "syn_abi_names A" "\<forall>r \<in> set (if_params g). rust_sol_name A P M r (names r)"
  shows "function_signature cx f = Some (name @ abi_name (TTuple ts)) \<and>
    imported_selector keccak names g = const_selector keccak (name @ abi_name (TTuple ts)) \<and>
    (\<exists>ds. list_all2 (rust_denotes P M) (if_params g) ds \<and> list_all dwf ds \<and> map abi_of ds = ts \<and>
      (\<forall>args e. list_all2 dwt ds args \<longrightarrow> e = abi_enc (TTuple ts) (VSeq args) \<longrightarrow>
        encode_len (payload_dcodec ds) (payload args) = length e \<and>
        (4 + length e \<le> length buf \<longrightarrow> length buf < usize_limit \<longrightarrow>
          fill_input (imported_selector keccak names g) (payload_dcodec ds) (payload args) buf =
          Some (const_selector keccak (name @ abi_name (TTuple ts)) @ e @ drop (4 + length e) buf))))"
proof -
  let ?cx = "cx\<lparr>current_ns := Some ns\<rparr>"
  note i = imported_is [OF assms(1)]
  note e = expand_function_is [OF assms(4)]
  have tys: "list_all2 (sol_means file (Some ns)) (map snd (fn_params f)) ts"
    using assms(6) by (simp add: list_all2_map1)
  obtain ds where ds: "list_all2 (rust_denotes P M) (if_params g) ds" "list_all dwf ds" "map abi_of ds = ts"
    "\<forall>d ds'. ds = [d] \<longrightarrow> d \<noteq> DTuple ds'"
    using params_emitted [OF assms(1,2) tys e(1)] assms(3,7) by auto
  have "list_all2 (\<lambda>ty t. sol_means file (Some ns) ty t \<and> (scope_ok file (Some ns) \<longrightarrow> (\<forall>r.
      to_rust_type alloc ?cx ty = Inr r \<longrightarrow> named A P M t r))) (map snd (fn_params f)) ts"
    using tys by (rule list_all2_mono) (use type_named [OF assms(1,8), of "Some ns"] assms(3) in auto)
  from list_named [OF this assms(2) e(1)]
  have "map names (if_params g) = map abi_name ts"
    using assms(9) by (rule names_of_named)
  then have sel: "imported_selector keccak names g = const_selector keccak (name @ abi_name (TTuple ts))"
    by (simp add: imported_selector_def e(2) assms(5))
  have "all_some (map (\<lambda>p. canonical_name (custom_types cx) (snd p)) (fn_params f)) = Some (map abi_name ts)"
    using assms(6) canonical_means(1) [OF i(3,5)]
    by (auto simp: all_some_iff list_all2_conv_all_nth intro!: nth_equalityI)
  then have "function_signature cx f = Some (name @ abi_name (TTuple ts))"
    by (simp add: function_signature_def assms(5))
  moreover have "encode_len (payload_dcodec ds) (payload args) = length e \<and>
      (4 + length e \<le> length buf \<longrightarrow> length buf < usize_limit \<longrightarrow>
        fill_input (imported_selector keccak names g) (payload_dcodec ds) (payload args) buf =
        Some (const_selector keccak (name @ abi_name (TTuple ts)) @ e @ drop (4 + length e) buf))"
    if "list_all2 dwt ds args" "e = abi_enc (TTuple ts) (VSeq args)" for args e
  proof -
    have "e = abi_enc (TTuple (map abi_of ds)) (VSeq args)" using that(2) ds(3) by simp
    note p = payload_encoded [OF ds(2) that(1) _ this]
    have "length (const_selector keccak (name @ abi_name (TTuple ts))) = 4"
      by (simp add: const_selector_def Let_def)
    then show ?thesis
      using p [of buf] p [of "drop 4 buf"] ds(4) unfolding sel
      by (auto simp: fill_input_def copy_at_def with_suffix_append add.commute)
  qed
  ultimately show ?thesis using sel ds(1-3) by blast
qed

text \<open>Not covered: a fixed array of \<open>uint8\<close> is emitted as the type that the macros read as \<open>bytesN\<close>.\<close>

lemma uint8_arrays_are_bytes:
  "to_rust_type True cx (AArray (AUint (Some 8)) (Some n)) = Inr (RArray (RPath (ascii ''u8'')) n)"
  "from_rust_type (RArray (RPath (ascii ''u8'')) n) = Some (SolBytes n)"
proof -
  have "ascii ''u'' @ decimal 8 = ascii ''u8''" by (simp add: ascii_def decimal_def digits_of.simps)
  then show "to_rust_type True cx (AArray (AUint (Some 8)) (Some n)) = Inr (RArray (RPath (ascii ''u8'')) n)"
    by (simp add: checked_def andthen_def)
  have "path_type (ascii ''u8'') = SolUint 8" by (simp add: path_type_def in_names_def ascii_inj)
  then show "from_rust_type (RArray (RPath (ascii ''u8'')) n) = Some (SolBytes n)" by simp
qed

section \<open>Witnesses\<close>

text \<open>\<open>struct Point { uint64 x; uint64 y; } interface IFoo { function move(Point p) external; }\<close>\<close>

definition move_fn :: sol_function where
  "move_fn = \<lparr> fn_kind = KFunction, fn_name = Some (ascii ''move''), fn_params = [(None, ACustom [ascii ''Point''])],
     fn_returns = [], fn_mutability = None \<rparr>"

definition point_file :: "item list" where
  "point_file = [IStruct (ascii ''Point'') [(None, AUint (Some 64)), (None, AUint (Some 64))],
     IContract (ascii ''IFoo'') True [IFunction move_fn]]"

definition point_types :: custom_types where
  "point_types = [(ascii ''Point'', CStruct [AUint (Some 64), AUint (Some 64)])]"

definition point_name :: bytes where
  "point_name = ascii ''('' @ comma_sep [ascii ''uint'' @ decimal 64, ascii ''uint'' @ decimal 64] @ ascii '')''"

definition point_sig :: bytes where
  "point_sig = ascii ''move'' @ ascii ''('' @ comma_sep [point_name] @ ascii '')''"

definition point_cx :: ctxt where
  "point_cx = ctxt_default\<lparr>
     overloaded_functions := (\<lambda>_ _. {})(Some (ascii ''IFoo'') := (\<lambda>_. {})(ascii ''move'' := {point_sig})),
     cx_types := (\<lambda>_. {})(None := {ascii ''Point''}), custom_types := point_types\<rparr>"

definition move_imported :: imported_function where
  "move_imported = \<lparr> if_name = ascii ''move'', if_sol_name = Some (ascii ''move''),
     if_params = [RPath (ascii ''super::Point'')], if_return = RTuple [], if_mutability = NonPayable \<rparr>"

definition point_program :: rust_program where
  "point_program = \<lparr> modules = [(ascii ''i_foo'', \<lparr> rm_functions = [Inr move_imported], rm_items = [] \<rparr>)],
     top_items = [(ascii ''Point'', Inr (RStruct [RPath (ascii ''u64''), RPath (ascii ''u64'')]))] \<rparr>"

definition no_keccak :: "bytes \<Rightarrow> bytes" where
  "no_keccak b = replicate 32 0"

lemma point_canonical: "canonical_name point_types (ACustom [ascii ''Point'']) = Some point_name"
proof -
  have "resolve (Suc (Suc (Suc 0))) point_types (ACustom [ascii ''Point'']) [] = Some point_name"
    by (simp add: resolve_step_def tuple_name_def point_types_def point_name_def)
  then show ?thesis
    by (simp add: canonical_name_def fuel_bound_def point_types_def eval_nat_numeral del: resolve.simps)
qed

lemma point_names:
  "to_snake_case (ascii ''IFoo'') = ascii ''i_foo''" "to_snake_case (ascii ''move'') = ascii ''move''"
  "to_pascal_case (ascii ''Point'') = ascii ''Point''" "ascii ''u'' @ decimal 64 = ascii ''u64''"
  by (simp_all add: to_snake_case_def to_pascal_case_def to_lower_def to_upper_def is_upper_def ascii_def
      decimal_def digits_of.simps)

lemma point_visit: "visit_file point_file ctxt_default = Inr point_cx"
proof -
  have "visit_items point_file [] = Inr point_types"
    by (simp add: point_file_def andthen_def declare_type_def point_types_def)
  moreover have "check_resolvable point_types point_file = None"
    by (simp add: point_file_def point_types_def move_fn_def)
  ultimately have "from_file point_file = Inr point_types" by (simp add: from_file_def andthen_def)
  moreover have "function_signature cx move_fn = Some point_sig" if "custom_types cx = point_types" for cx
    using that by (simp add: function_signature_def move_fn_def point_canonical point_sig_def)
  moreover have "fn_name move_fn = Some (ascii ''move'')" by (simp add: move_fn_def)
  ultimately show ?thesis
    by (simp add: visit_file_def point_file_def with_ns_def andthen_def visit_function_def visit_type_def ctxt_default_def
        point_cx_def fun_upd_def cong: if_cong)
qed

lemma move_expanded:
  "expand_function no_keccak (\<lambda>b. b) True (point_cx\<lparr>current_ns := Some (ascii ''IFoo'')\<rparr>) name False move_fn = Inr move_imported"
proof -
  have "function_name no_keccak (\<lambda>b. b) (point_cx\<lparr>current_ns := Some (ascii ''IFoo'')\<rparr>) move_fn = Some (ascii ''move'')"
    by (simp add: function_name_def move_fn_def point_cx_def ctxt_default_def point_names)
  moreover have "ascii ''super::'' @ ascii ''Point'' = ascii ''super::Point''" by (simp add: ascii_def)
  then have "to_rust_type True (point_cx\<lparr>current_ns := Some (ascii ''IFoo'')\<rparr>) (ACustom [ascii ''Point'']) =
      Inr (RPath (ascii ''super::Point''))"
    by (simp add: checked_def ctxt_resolve_def point_cx_def ctxt_default_def andthen_def point_names)
  ultimately show ?thesis
    by (simp add: expand_function_def resolve_signature_types_def move_fn_def move_imported_def try_collect_combined_def
        combine_results_def state_mutability_type_def andthen_def del: to_rust_type.simps)
qed

lemma point_expanded: "expand_to_module no_keccak (\<lambda>b. b) True point_file = Inr point_program"
proof -
  have "to_rust_type True point_cx (AUint (Some 64)) = Inr (RPath (ascii ''u64''))"
    by (simp add: checked_def andthen_def point_names)
  moreover have "IImport \<notin> set point_file" by (simp add: point_file_def)
  moreover have "fn_kind move_fn = KFunction" by (simp add: move_fn_def)
  ultimately have "expand_modules no_keccak (\<lambda>b. b) True point_cx point_file = modules point_program"
    "expand_items True point_cx point_file = top_items point_program" "IImport \<notin> set point_file"
    by (simp_all add: point_file_def point_program_def expand_fields_def try_collect_combined_def point_names move_expanded
        del: to_rust_type.simps)
  then show ?thesis by (simp add: expand_to_module_def point_visit andthen_def)
qed

lemma point_imported: "imported no_keccak (\<lambda>b. b) True point_file point_cx point_program"
proof -
  have "program_ok point_program" by (simp add: program_ok_def point_program_def)
  moreover have "path_type (ascii ''Point'') = SolCustom (ascii ''Point'')"
    by (simp add: path_type_def in_names_def ascii_inj)
  then have "sol_file_ok point_file"
    by (simp add: sol_file_ok_def point_file_def udts_elementary_def names_plain_def plain_name_def point_names)
      (simp add: ascii_def)
  ultimately show ?thesis by (simp add: imported_def point_visit point_expanded)
qed

lemma point_means: "sol_means point_file (Some (ascii ''IFoo'')) (ACustom [ascii ''Point'']) (TTuple [TPrim U64, TPrim U64])"
proof -
  have "sol_lookup point_file (Some (ascii ''IFoo'')) [ascii ''Point''] =
      Some (None, IStruct (ascii ''Point'') [(None, AUint (Some 64)), (None, AUint (Some 64))])"
    by (simp add: sol_lookup_def sol_item_at_def sol_scope_def point_file_def)
  then show ?thesis by (rule sol_means.struct) (auto intro!: sol_means.uint simp: width_def prim_tables)
qed

lemma point_scope: "scope_ok point_file (Some (ascii ''IFoo''))"
  by (simp add: scope_ok_def point_file_def)

theorem import_means_solidity_witness:
  "canonical_name (custom_types point_cx) (ACustom [ascii ''Point'']) = Some (ascii ''(uint64,uint64)'')"
  using import_means_solidity [OF point_imported point_scope point_means]
  by (simp add: decimals) (simp add: ascii_def)

text \<open>The \<open>SOL_NAME\<close> of the emitted struct, and what the parser calls the elementary types.\<close>

definition ast_name :: "sol_ast \<Rightarrow> bytes" where
  "ast_name ty = (case ty of AAddress \<Rightarrow> ascii ''address'' | ABool \<Rightarrow> ascii ''bool'' | AString \<Rightarrow> ascii ''string''
     | ABytes \<Rightarrow> ascii ''bytes'' | AFixedBytes n \<Rightarrow> ascii ''bytes'' @ decimal n
     | AUint n \<Rightarrow> ascii ''uint'' @ decimal (width n) | AInt n \<Rightarrow> ascii ''int'' @ decimal (width n) | _ \<Rightarrow> [])"

lemma ast_name_ok: "syn_abi_names ast_name"
  by (simp add: syn_abi_names_def ast_name_def)

lemma point_sol_name:
  "rust_sol_name A point_program (Some (ascii ''i_foo'')) (RPath (ascii ''super::Point'')) point_name"
proof -
  have "segments (ascii ''super::Point'') = [ascii ''super'', ascii ''Point'']" by (simp add: ascii_def)
  then have lu: "rust_lookup point_program (Some (ascii ''i_foo'')) (ascii ''super::Point'') =
      Some (None, ascii ''Point'', RStruct [RPath (ascii ''u64''), RPath (ascii ''u64'')])"
    by (simp add: rust_lookup_def rust_item_at_def rust_scope_def point_program_def)
  have "path_type (ascii ''u64'') = SolUint 64" by (simp add: path_type_def in_names_def ascii_inj)
  then have "map from_rust_type [RPath (ascii ''u64''), RPath (ascii ''u64'')] = map Some [SolUint 64, SolUint 64]" by simp
  from rust_sol_name.struct [OF lu this, of A "\<lambda>_. []"] show ?thesis
    by (simp add: build_sol_name_def point_name_def)
qed

theorem imported_call_is_solidity_witness:
  "rust_sol_name ast_name point_program (Some (ascii ''i_foo'')) (RPath (ascii ''super::Point'')) point_name \<and>
   function_signature point_cx move_fn = Some (ascii ''move'' @ abi_name (TTuple [TTuple [TPrim U64, TPrim U64]])) \<and>
   imported_selector no_keccak (\<lambda>_. point_name) move_imported =
     const_selector no_keccak (ascii ''move'' @ abi_name (TTuple [TTuple [TPrim U64, TPrim U64]])) \<and>
   (\<exists>ds. list_all2 (rust_denotes point_program (Some (ascii ''i_foo''))) [RPath (ascii ''super::Point'')] ds \<and>
    list_all dwf ds \<and> map abi_of ds = [TTuple [TPrim U64, TPrim U64]])"
proof -
  have f: "fn_name move_fn = Some (ascii ''move'')" "if_params move_imported = [RPath (ascii ''super::Point'')]"
    "list_all2 (\<lambda>p t. sol_means point_file (Some (ascii ''IFoo'')) (snd p) t) (fn_params move_fn) [TTuple [TPrim U64, TPrim U64]]"
    "\<forall>p \<in> set (fn_params move_fn). \<forall>tys. snd p \<noteq> ATuple tys"
    using point_means by (simp_all add: move_fn_def move_imported_def)
  have n: "\<forall>r \<in> set (if_params move_imported).
      rust_sol_name ast_name point_program (Some (ascii ''i_foo'')) r ((\<lambda>_. point_name) r)"
    using point_sol_name f(2) by simp
  from imported_call_is_solidity [OF point_imported point_scope point_names(1) [symmetric, THEN arg_cong [where f = Some]]
      move_expanded f(1,3,4) ast_name_ok n] point_sol_name f(2)
  show ?thesis by (metis (no_types, lifting))
qed

end
