(* ===== verification/DeriveStorage.thy ===== *)
theory DeriveStorage
  imports StorageVec DeriveSol
begin

text \<open>
  \<open>#[derive(SolStorage)]\<close> (\<open>codegen/sol_storage.rs\<close>): a struct as one storage value, and the element
  types that the storage macros add to the containers. A field is its syntax, which the macro sees, and
  the type the compiler resolves it to. Fields pack into slots like the fields of a contract; \<open>String\<close>
  and \<open>Bytes\<close> fields take a slot for their header and leave the slot walk through a mask. A derive that
  does not compile is \<open>None\<close>. The contract: the slots are those the Solidity compiler gives to the
  struct, each dynamic field keeps its body where it would keep it alone, nothing else is touched.
\<close>

section \<open>Layout\<close>

datatype storage_field_kind = Packable | Dynamic | Unsupported

fun classify_storage_field :: "sol_type \<Rightarrow> storage_field_kind" where
  "classify_storage_field SolAddress = Packable"
| "classify_storage_field SolBool = Packable"
| "classify_storage_field (SolUint n) = Packable"
| "classify_storage_field (SolInt n) = Packable"
| "classify_storage_field (SolBytes n) = Packable"
| "classify_storage_field SolString = Dynamic"
| "classify_storage_field SolDynBytes = Dynamic"
| "classify_storage_field (SolCustom name) = Unsupported"
| "classify_storage_field (SolArray t) = Unsupported"
| "classify_storage_field (SolFixedArray t n) = Unsupported"
| "classify_storage_field (SolTuple ts) = Unsupported"

type_synonym storage_field = "sol_type \<times> sol_ty"

definition kind_of :: "storage_field \<Rightarrow> storage_field_kind" where
  "kind_of f = classify_storage_field (fst f)"

fun walker_steps :: "'s host_api \<Rightarrow> layout_state \<Rightarrow> storage_field list \<Rightarrow> layout_state list" where
  "walker_steps H prev [] = []"
| "walker_steps H prev (f # fs) =
     (let step = layout_step prev (st_packed (storage_of H (snd f))) (st_slots (storage_of H (snd f)))
      in step # walker_steps H step fs)"

record storage_layout =
  placements :: "(nat \<times> nat) list"
  total_slots :: nat
  dynamic_mask :: "64 word"

text \<open>\<open>None\<close>: the assertion that a dynamic field lies below slot 64.\<close>

fun dynamic_mask_of :: "(storage_field_kind \<times> nat) list \<Rightarrow> 64 word \<Rightarrow> 64 word option" where
  "dynamic_mask_of [] m = Some m"
| "dynamic_mask_of ((k, s) # r) m =
     (if k = Dynamic then if s < 64 then dynamic_mask_of r (m OR push_bit s 1) else None
      else dynamic_mask_of r m)"

definition derive_layout :: "'s host_api \<Rightarrow> storage_field list \<Rightarrow> storage_layout option" where
  "derive_layout H fs =
     (let steps = walker_steps H FIRST fs;
          total = (if fs = [] then 0 else next_slot (last steps) + 1)
      in map_option (\<lambda>m. \<lparr> placements = map (\<lambda>st. (slot st, offset st)) steps, total_slots = total, dynamic_mask = m \<rparr>)
           (dynamic_mask_of (zip (map kind_of fs) (map slot steps)) 0))"

section \<open>Slots\<close>

type_synonym placed_field = "storage_field \<times> nat \<times> nat"

fun encode_arms :: "placed_field list \<Rightarrow> sol_val list \<Rightarrow> nat \<Rightarrow> bytes \<Rightarrow> bytes option" where
  "encode_arms ((f, sl, off) # pfs) (v # vs) slot_idx buf =
     Option.bind (if kind_of f = Packable \<and> sl = slot_idx then pack_into (static_of (snd f)) v buf off else Some buf)
       (encode_arms pfs vs slot_idx)"
| "encode_arms _ _ slot_idx buf = Some buf"

fun decode_construct :: "placed_field list \<Rightarrow> bytes list \<Rightarrow> sol_val list option" where
  "decode_construct [] slots = Some []"
| "decode_construct ((f, sl, off) # pfs) slots =
     Option.bind (get_idx slots sl) (\<lambda>w.
     Option.bind (unpack_from (static_of (snd f)) w off) (\<lambda>v.
     map_option ((#) v) (decode_construct pfs slots)))"

definition derived_static :: "storage_field list \<Rightarrow> storage_layout \<Rightarrow> static_codec" where
  "derived_static fs L =
     \<lparr> STORAGE_SLOTS = total_slots L, PACKED_BYTES = 32,
       encode_slot = \<lambda>v idx buf. encode_arms (zip fs (placements L)) (val_seq v) idx (replicate 32 0),
       from_slots = \<lambda>slots. map_option VSeq (decode_construct (zip fs (placements L)) slots),
       pack_into = \<lambda>_ _ _. None,
       unpack_from = \<lambda>_ _. None \<rparr>"

section \<open>Dynamic fields\<close>

definition sub_key :: "bytes \<Rightarrow> nat \<Rightarrow> bytes" where
  "sub_key base_key s = (inc_be_32 ^^ s) base_key"

fun write_calls :: "'s host_api \<Rightarrow> placed_field list \<Rightarrow> sol_val list \<Rightarrow> bytes \<Rightarrow> 's \<Rightarrow> 's option" where
  "write_calls H ((f, sl, off) # pfs) (v # vs) base_key s =
     Option.bind (if kind_of f = Dynamic then write_to_storage (storage_of H (snd f)) v (sub_key base_key sl) s else Some s)
       (write_calls H pfs vs base_key)"
| "write_calls H _ _ base_key s = Some s"

fun clear_calls :: "'s host_api \<Rightarrow> placed_field list \<Rightarrow> bytes \<Rightarrow> 's \<Rightarrow> 's" where
  "clear_calls H [] base_key s = s"
| "clear_calls H ((f, sl, off) # pfs) base_key s =
     clear_calls H pfs base_key
       (if kind_of f = Dynamic then clear_storage (storage_of H (snd f)) (sub_key base_key sl) s else s)"

definition read_field :: "'s host_api \<Rightarrow> placed_field \<Rightarrow> bytes list \<Rightarrow> bytes \<Rightarrow> 's \<Rightarrow> sol_val option" where
  "read_field H pf slots base_key s = (case pf of (f, sl, off) \<Rightarrow>
     (case kind_of f of
        Packable \<Rightarrow> Option.bind (get_idx slots sl) (\<lambda>w. unpack_from (static_of (snd f)) w off)
      | Dynamic \<Rightarrow> read_from_storage (storage_of H (snd f)) (sub_key base_key sl) s
      | Unsupported \<Rightarrow> None))"

fun read_field_lets :: "'s host_api \<Rightarrow> placed_field list \<Rightarrow> bytes list \<Rightarrow> bytes \<Rightarrow> 's \<Rightarrow> sol_val list option" where
  "read_field_lets H [] slots base_key s = Some []"
| "read_field_lets H (pf # pfs) slots base_key s =
     Option.bind (read_field H pf slots base_key s)
       (\<lambda>v. map_option ((#) v) (read_field_lets H pfs slots base_key s))"

text \<open>The slot buffers before the masked write; masked ones stay zero.\<close>

definition static_buffers :: "storage_field list \<Rightarrow> storage_layout \<Rightarrow> sol_val \<Rightarrow> bytes list option" where
  "static_buffers fs L v =
     all_some (map (\<lambda>i.
       if \<not> mask_bit (dynamic_mask L) i
       then encode_arms (zip fs (placements L)) (val_seq v) i (replicate 32 0)
       else Some (replicate 32 0)) [0..<total_slots L])"

definition derived_dynamic :: "'s host_api \<Rightarrow> storage_field list \<Rightarrow> storage_layout \<Rightarrow> 's storage_codec" where
  "derived_dynamic H fs L =
     (let pfs = zip fs (placements L); n = total_slots L; zeros = replicate n (replicate 32 0) in
      \<lparr> st_slots = n, st_packed = 32, HAS_DYNAMIC_BODY = True,
        write_to_storage = \<lambda>v base_key s.
          Option.bind (static_buffers fs L v) (\<lambda>slots.
            write_calls H pfs (val_seq v) base_key (write_static_slots H base_key slots (dynamic_mask L) 0 s)),
        clear_storage = \<lambda>base_key s.
          clear_calls H pfs base_key (clear_static_slots H base_key n (dynamic_mask L) 0 s),
        read_from_storage = \<lambda>base_key s.
          map_option VSeq (read_field_lets H pfs
            (load_static_slots H base_key (dynamic_mask L) zeros 0 s) base_key s),
        try_read_from_storage = \<lambda>base_key s.
          (case try_load_static_slots H base_key (dynamic_mask L) zeros 0 s of (any, slots) \<Rightarrow>
            if \<not> any then Some None
            else map_option (\<lambda>vs. Some (VSeq vs)) (read_field_lets H pfs slots base_key s)),
        pack_into_dispatched = \<lambda>_ _ _. None,
        unpack_from_dispatched = \<lambda>_ _. None \<rparr>)"

text \<open>The derive; a struct of more than \<open>MAX_STATIC_SLOTS\<close> slots fails an assertion.\<close>

definition derive_storage :: "'s host_api \<Rightarrow> storage_field list \<Rightarrow> 's storage_codec option" where
  "derive_storage H fs =
     (if fs = [] \<or> list_ex (\<lambda>f. kind_of f = Unsupported) fs then None
      else case derive_layout H fs of
        None \<Rightarrow> None
      | Some L \<Rightarrow>
          if \<not> total_slots L \<le> MAX_STATIC_SLOTS then None
          else if list_ex (\<lambda>f. kind_of f = Dynamic) fs then Some (derived_dynamic H fs L)
          else Some (static_storage H (derived_static fs L)))"

section \<open>Element types\<close>

text \<open>\<open>StorageType\<close> and \<open>SimpleStorageType\<close> of a derived struct: a full-slot leaf.\<close>

definition value_storage_type :: "'s storage_codec \<Rightarrow> 's storage_ty" where
  "value_storage_type c =
     \<lparr> SLOTS = st_slots c, PACKED = st_packed c, NEEDS_RECURSIVE_CLEAR = HAS_DYNAMIC_BODY c,
       get_at = \<lambda>key off s. value_or_trap GVal (read_from_storage c key s) s,
       get_mut_at = \<lambda>key off alone. MCell (lazy_new_at key off alone),
       clear_at = \<lambda>key off alone s. (Inr (), clear_storage c key s) \<rparr>"

text \<open>\<open>StorageType\<close> of a \<open>#[storage]\<close> struct: a container, cleared field by field.\<close>

definition struct_storage_type :: "'s host_api \<Rightarrow> 's storage_codec list \<Rightarrow> 's storage_ty" where
  "struct_storage_type H cs =
     \<lparr> SLOTS = slots_expr cs, PACKED = 32, NEEDS_RECURSIVE_CLEAR = True,
       get_at = \<lambda>key off s. (Inr (GRef key), s),
       get_mut_at = \<lambda>key off alone. MRef key,
       clear_at = \<lambda>key off alone s. store_or_trap (struct_clear H cs (struct_new_at key cs) s) s \<rparr>"

lemma value_is_leaf: "st_packed c = 32 \<Longrightarrow> value_storage_type c = leaf_storage_type H c"
  by (simp add: value_storage_type_def leaf_storage_type_def leaf_get_at_def leaf_clear_at_def store_or_trap_def)

section \<open>What a field is\<close>

text \<open>The compiler resolves the paths of the SDK types to these types.\<close>

definition field_resolved :: "storage_field \<Rightarrow> bool" where
  "field_resolved f \<longleftrightarrow> (\<exists>d. denotes (fst f) d \<and> dwf d \<and> snd f = abi_of d)"

lemma field_cases:
  assumes "field_resolved f"
  shows "kind_of f = Dynamic \<Longrightarrow> is_dyn (snd f)"
    and "kind_of f = Packable \<Longrightarrow> \<exists>p. snd f = TPrim p \<and> prim_wf p \<and> \<not> is_dyn (snd f)"
proof -
  obtain s t d where f: "f = (s, t)" "denotes s d" "dwf d" "t = abi_of d"
    using assms unfolding field_resolved_def by (metis prod.collapse)
  show "kind_of f = Dynamic \<Longrightarrow> is_dyn (snd f)"
    using f by (cases s) (auto simp: kind_of_def is_dyn_def)
  show "kind_of f = Packable \<Longrightarrow> \<exists>p. snd f = TPrim p \<and> prim_wf p \<and> \<not> is_dyn (snd f)"
    using f by (cases s) (auto simp: kind_of_def is_dyn_def denotes_iff)
qed

section \<open>The struct as a tuple of its words\<close>

text \<open>
  For the layout, a dynamic field is its header, a word of 32 bytes. So the slots of a struct are those
  of the tuple in which a dynamic field is replaced by a \<open>bytes32\<close> that holds its header.
\<close>

definition field_ok' :: "storage_field \<Rightarrow> bool" where
  "field_ok' f \<longleftrightarrow> field_resolved f \<and> kind_of f \<noteq> Unsupported"

definition word_prim :: "storage_field \<Rightarrow> prim" where
  "word_prim f = (case snd f of TPrim p \<Rightarrow> p | _ \<Rightarrow> BytesN 32)"

definition word_val :: "storage_field \<Rightarrow> sol_val \<Rightarrow> sol_val" where
  "word_val f v = (if is_dyn (snd f) then VPrim (VBytesN (dyn_header_of (val_data v))) else v)"

definition struct_words :: "storage_field list \<Rightarrow> sol_val list \<Rightarrow> bytes list" where
  "struct_words fs vs = solc_pack [] (map2 (\<lambda>f v. item (word_val f v)) fs vs)"

definition placed_fields :: "'s host_api \<Rightarrow> layout_state \<Rightarrow> storage_field list \<Rightarrow> placed_field list" where
  "placed_fields H st fs = zip fs (map (\<lambda>st. (slot st, offset st)) (walker_steps H st fs))"

lemma field_kind: "field_ok' f \<Longrightarrow> kind_of f = Dynamic \<longleftrightarrow> is_dyn (snd f)"
  "field_ok' f \<Longrightarrow> \<not> is_dyn (snd f) \<Longrightarrow> kind_of f = Packable \<and> snd f = TPrim (word_prim f)"
proof -
  assume f: "field_ok' f"
  then have r: "field_resolved f" "kind_of f = Packable \<or> kind_of f = Dynamic"
    by (auto simp: field_ok'_def intro: storage_field_kind.exhaust)
  show "kind_of f = Dynamic \<longleftrightarrow> is_dyn (snd f)" using r field_cases [OF r(1)] by auto
  show "kind_of f = Packable \<and> snd f = TPrim (word_prim f)" if "\<not> is_dyn (snd f)"
    using r field_cases [OF r(1)] that by (auto simp: word_prim_def)
qed

lemma word_ok: "field_ok' f \<Longrightarrow> storage_ok (snd f) v \<Longrightarrow> prim_ok (word_prim f) (word_val f v)"
proof (cases "is_dyn (snd f)")
  case True
  then show ?thesis by (auto simp: word_prim_def word_val_def is_dyn_def prim_ok_def prim_wt_def)
next
  case False
  assume f: "field_ok' f" "storage_ok (snd f) v"
  obtain p where "snd f = TPrim p" "prim_wf p"
    using field_cases [of f] f(1) field_kind(2) [OF f(1) False] by (auto simp: field_ok'_def)
  then show ?thesis using f(2) False
    by (cases v) (auto simp: word_prim_def word_val_def prim_ok_def st_ok_def)
qed

lemma word_step:
  "field_ok' f \<Longrightarrow> layout_step st (st_packed (storage_of H (snd f))) (st_slots (storage_of H (snd f))) =
    layout_step_encode (static_prim (word_prim f)) st"
proof (cases "is_dyn (snd f)")
  case True
  then show ?thesis
    by (auto simp: word_prim_def is_dyn_def layout_step_encode_def static_prim_def bytes_storage_def string_storage_def)
next
  case False
  assume "field_ok' f"
  then have "snd f = TPrim (word_prim f)" using field_kind(2) False by blast
  then have "storage_of H (snd f) = static_storage H (static_prim (word_prim f))"
    by (metis storage_of.simps(3) static_of.simps(1))
  then show ?thesis by (simp add: layout_step_encode_def static_storage_def)
qed

lemma placed_fields_simps [simp]:
  "placed_fields H st [] = []"
  "placed_fields H st (f # fs) =
     (let step = layout_step st (st_packed (storage_of H (snd f))) (st_slots (storage_of H (snd f)))
      in (f, slot step, offset step) # placed_fields H step fs)"
  by (simp_all add: placed_fields_def Let_def)

abbreviation word_codecs :: "storage_field list \<Rightarrow> static_codec list" where
  "word_codecs fs \<equiv> map static_prim (map word_prim fs)"

lemma arms_tuple:
  assumes "list_all field_ok' fs" "length vs = length fs"
    and "\<forall>(f, sl, off) \<in> set (placed_fields H st fs). kind_of f = Dynamic \<longrightarrow> sl \<noteq> j"
  shows "encode_arms (placed_fields H st fs) vs j buf = tuple_pack st (word_codecs fs) (map2 word_val fs vs) j buf"
  using assms
proof (induction fs arbitrary: vs st buf)
  case (Cons f fs)
  obtain v vs' where vs: "vs = v # vs'" "length vs' = length fs" using Cons.prems(2) by (cases vs) auto
  have f: "field_ok' f" using Cons.prems(1) by simp
  let ?st = "layout_step_encode (static_prim (word_prim f)) st"
  have ih: "encode_arms (placed_fields H ?st fs) vs' j = tuple_pack ?st (word_codecs fs) (map2 word_val fs vs') j"
  proof
    show "encode_arms (placed_fields H ?st fs) vs' j buf' = tuple_pack ?st (word_codecs fs) (map2 word_val fs vs') j buf'" for buf'
      using Cons.prems vs(2) by (intro Cons.IH) (simp_all add: Let_def word_step [OF f])
  qed
  show ?case
  proof (cases "is_dyn (snd f)")
    case True
    then have "kind_of f = Dynamic" using field_kind(1) [OF f] by simp
    then show ?thesis using Cons.prems(3) ih by (simp add: vs(1) Let_def word_step [OF f])
  next
    case False
    then have "kind_of f = Packable" "static_of (snd f) = static_prim (word_prim f)"
      using field_kind(2) [OF f False] static_of.simps(1) by metis+
    moreover have "word_val f v = v" using False by (simp add: word_val_def)
    ultimately show ?thesis using ih by (simp add: vs(1) Let_def word_step [OF f])
  qed
qed simp

lemma last_walker: "list_all field_ok' fs \<Longrightarrow> last (st # walker_steps H st fs) = tuple_last st (word_codecs fs)"
  by (induction fs arbitrary: st) (simp_all add: Let_def word_step)

lemma length_walker [simp]: "length (walker_steps H st fs) = length fs"
  by (induction fs arbitrary: st) (simp_all add: Let_def)

lemma tuple_from_nth:
  assumes "list_all field_ok' fs" "tuple_from st (word_codecs fs) slots = Some vs" "k < length fs"
  shows "\<exists>w. get_idx slots (slot (walker_steps H st fs ! k)) = Some w \<and>
    unpack_from (static_prim (word_prim (fs ! k))) w (offset (walker_steps H st fs ! k)) = Some (vs ! k)"
  using assms
proof (induction fs arbitrary: st vs k)
  case (Cons f fs)
  then show ?case by (cases k) (auto simp: Let_def word_step bind_eq_Some_conv)
qed simp

text \<open>The values are read back when every field is.\<close>

lemma lets_read:
  "list_all2 (\<lambda>pf v. read_field H pf slots key s = Some v) pfs vs \<Longrightarrow> read_field_lets H pfs slots key s = Some vs"
  by (induction pfs vs rule: list_all2_induct) simp_all

section \<open>The layout\<close>

text \<open>A struct the derive accepts, with a size that fits an address.\<close>

definition struct_fields :: "storage_field list \<Rightarrow> bool" where
  "struct_fields fs \<longleftrightarrow> list_all field_resolved fs \<and> length fs < 2 ^ 32"

definition steps_at :: "'s host_api \<Rightarrow> storage_field list \<Rightarrow> nat \<Rightarrow> layout_state" where
  "steps_at H fs k = walker_steps H FIRST fs ! k"

lemma walker_chain: "walker_steps H st fs = layout_chain st (map (\<lambda>f. shape_of (storage_of H (snd f))) fs)"
  by (induction fs arbitrary: st) (simp_all add: shape_of_def Let_def)

lemma field_shape: "field_ok' f \<Longrightarrow> shape_of (storage_of H (snd f)) = (prim_packed (word_prim f), 1)"
proof (cases "is_dyn (snd f)")
  case True
  then show ?thesis by (auto simp: shape_of_def is_dyn_def word_prim_def bytes_storage_def string_storage_def)
next
  case False
  assume "field_ok' f"
  then have "storage_of H (snd f) = static_storage H (static_prim (word_prim f))"
    using field_kind(2) [OF _ False] by (metis storage_of.simps(3) static_of.simps(1))
  then show ?thesis by (simp add: shape_of_def static_storage_def static_prim_def)
qed

lemma word_prim_wf: "field_ok' f \<Longrightarrow> prim_wf (word_prim f)"
proof (cases "is_dyn (snd f)")
  case True
  then show ?thesis by (auto simp: is_dyn_def word_prim_def)
next
  case False
  assume "field_ok' f"
  then show ?thesis
    using field_cases(2) [of f] field_kind(2) [of f] False by (auto simp: field_ok'_def)
qed

text \<open>A dynamic field shares its slot with no other field.\<close>

lemma dynamic_slot_alone:
  assumes "list_all field_ok' fs" "length fs < 2 ^ 32" "i < length fs" "j < length fs" "i \<noteq> j" "kind_of (fs ! i) = Dynamic"
  shows "slot (steps_at H fs i) \<noteq> slot (steps_at H fs j)"
proof -
  let ?sh = "map (\<lambda>f. shape_of (storage_of H (snd f))) fs"
  have sh: "?sh ! k = (prim_packed (word_prim (fs ! k)), 1)" if "k < length fs" for k
    using that assms(1) field_shape [of "fs ! k" H] by (simp add: list_all_length)
  have "list_all field_ok ?sh"
    using assms(1) prim_packed_bounds word_prim_wf by (fastforce simp: list_all_iff field_ok_def field_shape)
  moreover have "chain_size ?sh = 64 * length fs"
  proof -
    have "chain_size ?sh = sum_list (map (\<lambda>_. 64) fs)"
      unfolding chain_size_def using assms(1) by (intro arg_cong [where f = sum_list]) (auto simp: list_all_iff field_shape)
    then show ?thesis by (simp add: sum_list_triv)
  qed
  then have "chain_size ?sh + 64 < usize_limit" using assms(2) by (simp add: usize_limit_def)
  ultimately have ap: "slot (steps_at H fs a) = slot (steps_at H fs b) \<Longrightarrow> fst (?sh ! a) < 32 \<and> fst (?sh ! b) < 32"
    if "a < b" "b < length fs" for a b
    using chain_apart(2) [of ?sh a b "steps_at H fs a" "steps_at H fs b"] that by (simp add: steps_at_def walker_chain)
  have "fst (?sh ! i) = 32"
    using assms(1,3,6) sh [OF assms(3)] field_kind(1) [of "fs ! i"]
    by (auto simp: list_all_length is_dyn_def word_prim_def)
  then show ?thesis using ap [of i j] ap [of j i] assms(3-5) by (cases "i < j") auto
qed

lemma mask_bit_is: "i < 64 \<Longrightarrow> mask_bit m i \<longleftrightarrow> bit m i"
proof -
  assume "i < 64"
  then have "mask_bit m i \<longleftrightarrow> m AND push_bit i 1 \<noteq> 0" by (simp add: mask_bit_def)
  also have "\<dots> \<longleftrightarrow> bit m i"
  proof -
    have "m AND push_bit i 1 = (if bit m i then push_bit i 1 else 0)"
      by (rule bit_word_eqI) (auto simp: bit_simps)
    moreover have "push_bit i 1 \<noteq> (0 :: 64 word)" using \<open>i < 64\<close> by (simp add: push_bit_eq_mult)
    ultimately show ?thesis by simp
  qed
  finally show ?thesis .
qed

lemma mask_of_is:
  "dynamic_mask_of r m0 = Some m \<Longrightarrow> i < 64 \<Longrightarrow> bit m i \<longleftrightarrow> bit m0 i \<or> (Dynamic, i) \<in> set r"
proof (induction r m0 rule: dynamic_mask_of.induct)
  case (2 k s r m0)
  then show ?case by (auto simp: bit_simps split: if_splits)
qed simp

lemma mask_of_total: "\<forall>(k, s) \<in> set r. k = Dynamic \<longrightarrow> s < 64 \<Longrightarrow> dynamic_mask_of r m0 \<noteq> None"
  by (induction r m0 rule: dynamic_mask_of.induct) auto

text \<open>A struct value, and its words.\<close>

definition struct_vals :: "storage_field list \<Rightarrow> sol_val list \<Rightarrow> bool" where
  "struct_vals fs vs \<longleftrightarrow> list_all2 (\<lambda>f v. storage_ok (snd f) v) fs vs"

definition dynamic_at :: "'s host_api \<Rightarrow> storage_field list \<Rightarrow> nat set" where
  "dynamic_at H fs = {slot (steps_at H fs k) |k. k < length fs \<and> kind_of (fs ! k) = Dynamic}"

lemma words_facts:
  assumes fs: "list_all field_ok' fs" "length fs < 2 ^ 32" "fs \<noteq> []" and vs: "struct_vals fs vs"
  shows "length (struct_words fs vs) = next_slot (tuple_last FIRST (word_codecs fs)) + 1"
    and "w \<in> set (struct_words fs vs) \<Longrightarrow> length w = 32"
    and "tuple_from FIRST (word_codecs fs) (struct_words fs vs) = Some (map2 word_val fs vs)"
    and "j \<notin> dynamic_at H fs \<Longrightarrow> j < length (struct_words fs vs) \<Longrightarrow>
      encode_arms (placed_fields H FIRST fs) vs j (replicate 32 0) = Some (struct_words fs vs ! j)"
proof -
  have len: "length vs = length fs" using vs by (simp add: struct_vals_def list_all2_lengthD)
  have ok: "list_all2 prim_ok (map word_prim fs) (map2 word_val fs vs)"
    using fs(1) vs word_ok by (auto simp: struct_vals_def list_all2_conv_all_nth list_all_length)
  have lim: "next_slot FIRST + length (map word_prim fs) + 1 < usize_limit"
    using fs(2) by (simp add: FIRST_def usize_limit_def)
  have W: "struct_words fs vs = solc_pack [] (map item (map2 word_val fs vs))"
    by (simp add: struct_words_def case_prod_unfold o_def)
  have "list_all (\<lambda>w. length w \<le> 32) (map item (map2 word_val fs vs))"
    using ok item_bounds by (auto simp: list_all2_conv_all_nth list_all_length)
  then show "w \<in> set (struct_words fs vs) \<Longrightarrow> length w = 32"
    unfolding W by (intro solc_pack_lengths) simp_all
  show "length (struct_words fs vs) = next_slot (tuple_last FIRST (word_codecs fs)) + 1"
    using tuple_last_is [OF ok FIRST_walker(1) lim] by (simp add: W FIRST_walker)
  show "tuple_from FIRST (word_codecs fs) (struct_words fs vs) = Some (map2 word_val fs vs)"
    using tuple_from_is [OF ok FIRST_walker(1) lim, of "[]"] by (simp add: W FIRST_walker)
  show "encode_arms (placed_fields H FIRST fs) vs j (replicate 32 0) = Some (struct_words fs vs ! j)"
    if j: "j \<notin> dynamic_at H fs" "j < length (struct_words fs vs)"
  proof -
    have "\<forall>(f, sl, off) \<in> set (placed_fields H FIRST fs). kind_of f = Dynamic \<longrightarrow> sl \<noteq> j"
      using j(1) by (auto simp: placed_fields_def set_zip dynamic_at_def steps_at_def)
    then have "encode_arms (placed_fields H FIRST fs) vs j (replicate 32 0) =
        tuple_pack FIRST (word_codecs fs) (map2 word_val fs vs) j (replicate 32 0)"
      by (intro arms_tuple [OF fs(1) len])
    then show ?thesis
      using tuple_pack_is [OF ok FIRST_walker(1) lim, of j "replicate 32 0"] j(2)
      by (simp add: W FIRST_walker slot_word_Nil slot_at_def)
  qed
qed

text \<open>Field \<open>k\<close> among the words.\<close>

lemma word_at:
  assumes fs: "list_all field_ok' fs" "length fs < 2 ^ 32" "fs \<noteq> []" and vs: "struct_vals fs vs" and k: "k < length fs"
  shows "slot (steps_at H fs k) < length (struct_words fs vs)"
    and "kind_of (fs ! k) = Packable \<Longrightarrow>
      unpack_from (static_of (snd (fs ! k))) (struct_words fs vs ! slot (steps_at H fs k)) (offset (steps_at H fs k)) = Some (vs ! k)"
    and "kind_of (fs ! k) = Dynamic \<Longrightarrow> struct_words fs vs ! slot (steps_at H fs k) = dyn_header_of (val_data (vs ! k))"
proof -
  note w = words_facts [OF fs vs]
  have f: "field_ok' (fs ! k)" using fs(1) k by (simp add: list_all_length)
  have len: "length vs = length fs" using vs by (simp add: struct_vals_def list_all2_lengthD)
  obtain x where x: "get_idx (struct_words fs vs) (slot (steps_at H fs k)) = Some x"
    "unpack_from (static_prim (word_prim (fs ! k))) x (offset (steps_at H fs k)) = Some (word_val (fs ! k) (vs ! k))"
    using tuple_from_nth [OF fs(1) w(3) k, of H] k len by (auto simp: steps_at_def)
  then show lt: "slot (steps_at H fs k) < length (struct_words fs vs)"
    and "kind_of (fs ! k) = Packable \<Longrightarrow>
      unpack_from (static_of (snd (fs ! k))) (struct_words fs vs ! slot (steps_at H fs k)) (offset (steps_at H fs k)) = Some (vs ! k)"
    using field_kind [OF f] static_of.simps(1) [of "word_prim (fs ! k)"]
    by (auto simp: get_idx_def word_val_def split: if_splits)
  show "struct_words fs vs ! slot (steps_at H fs k) = dyn_header_of (val_data (vs ! k))" if "kind_of (fs ! k) = Dynamic"
  proof -
    have "is_dyn (snd (fs ! k))" using field_kind(1) [OF f] that by simp
    then have "word_prim (fs ! k) = BytesN 32" "word_val (fs ! k) (vs ! k) = VPrim (VBytesN (dyn_header_of (val_data (vs ! k))))"
      by (auto simp: is_dyn_def word_prim_def word_val_def)
    moreover have "length x = 32" "x = struct_words fs vs ! slot (steps_at H fs k)"
      using x(1) w(2) lt by (auto simp: get_idx_def)
    ultimately show ?thesis
      using x(2) get_range_full [of x "offset (steps_at H fs k)"] by (auto simp: static_prim_def)
  qed
qed

definition laid_out :: "'s host_api \<Rightarrow> storage_field list \<Rightarrow> sol_val list \<Rightarrow> storage_layout \<Rightarrow> bool" where
  "laid_out H fs vs L \<longleftrightarrow> list_all field_ok' fs \<and> length fs < 2 ^ 32 \<and> fs \<noteq> [] \<and> struct_vals fs vs \<and>
     zip fs (placements L) = placed_fields H FIRST fs \<and> total_slots L = length (struct_words fs vs) \<and>
     total_slots L \<le> MAX_STATIC_SLOTS \<and> (\<forall>i < total_slots L. mask_bit (dynamic_mask L) i \<longleftrightarrow> i \<in> dynamic_at H fs)"

lemma derive_storage_is:
  assumes "derive_storage H fs = Some c" "struct_fields fs" "struct_vals fs vs"
  obtains L where "laid_out H fs vs L" "c = (if list_ex (\<lambda>f. kind_of f = Dynamic) fs then derived_dynamic H fs L else static_storage H (derived_static fs L))"
proof -
  note d = assms(1) [unfolded derive_storage_def]
  have fs: "list_all field_ok' fs" "length fs < 2 ^ 32" "fs \<noteq> []"
    using assms(2) d by (auto simp: struct_fields_def field_ok'_def list_all_iff list_ex_iff split: if_splits)
  obtain L where L: "derive_layout H fs = Some L" "total_slots L \<le> MAX_STATIC_SLOTS"
    "c = (if list_ex (\<lambda>f. kind_of f = Dynamic) fs then derived_dynamic H fs L else static_storage H (derived_static fs L))"
    using d by (auto split: if_splits option.splits)
  obtain m where m: "dynamic_mask_of (zip (map kind_of fs) (map slot (walker_steps H FIRST fs))) 0 = Some m"
    "L = \<lparr> placements = map (\<lambda>st. (slot st, offset st)) (walker_steps H FIRST fs),
      total_slots = next_slot (last (walker_steps H FIRST fs)) + 1, dynamic_mask = m \<rparr>"
    using L(1) fs(3) by (auto simp: derive_layout_def Let_def)
  have "last (walker_steps H FIRST fs) = tuple_last FIRST (word_codecs fs)"
    using last_walker [OF fs(1), of FIRST H] fs(3) length_walker [of H FIRST fs] by (metis last_ConsR length_0_conv)
  then have t: "total_slots L = length (struct_words fs vs)" using words_facts(1) [OF fs assms(3)] m(2) by simp
  have "mask_bit m i \<longleftrightarrow> i \<in> dynamic_at H fs" if "i < total_slots L" for i
  proof -
    have "i < 64" using that L(2) by (simp add: MAX_STATIC_SLOTS_def)
    moreover have "(Dynamic, i) \<in> set (zip (map kind_of fs) (map slot (walker_steps H FIRST fs))) \<longleftrightarrow> i \<in> dynamic_at H fs"
      by (simp add: in_set_zip dynamic_at_def steps_at_def) (rule iff_exI, auto)
    ultimately show ?thesis using mask_of_is [OF m(1), of i] by (simp add: mask_bit_is)
  qed
  then show ?thesis using that [of L] m(2) t L(2,3) fs assms(3) by (simp add: placed_fields_def laid_out_def)
qed

section \<open>Operations on separate regions\<close>

text \<open>The cells a dynamic value at a key may ever use.\<close>

definition max_body :: nat where
  "max_body = div_ceil (usize_limit - 1) 32"

definition dyn_region :: "'s host_api \<Rightarrow> bytes \<Rightarrow> bytes set" where
  "dyn_region H k = dyn_cells H k max_body"

lemma div_ceil_mono: "m \<le> n \<Longrightarrow> div_ceil m 32 \<le> div_ceil n 32"
  using div_ceil_less [of 32 "div_ceil n 32" n] div_ceil_less [of 32 "div_ceil n 32" m] by (simp flip: not_less)

lemma body_slots_max: "body_slots w \<le> max_body"
  by (auto simp: body_slots_def decode_dyn_header_def max_body_def Let_def intro: div_ceil_mono split: dyn_header.splits if_splits)

lemma dyn_body_max: "length data < usize_limit \<Longrightarrow> length (dyn_body_of data) \<le> max_body"
  by (auto simp: dyn_body_of_def max_body_def length_chunks intro: div_ceil_mono)

lemma dyn_cells_mono: "m \<le> n \<Longrightarrow> dyn_cells H k m \<subseteq> dyn_cells H k n"
  using slot_keys_mono [of m n] by (auto simp: dyn_cells_def)

lemma region_contains: "n \<le> max_body \<Longrightarrow> dyn_cells H k n \<subseteq> dyn_region H k" "k \<in> dyn_region H k"
  using dyn_cells_mono [of n max_body H k] by (simp_all add: dyn_region_def) (simp add: dyn_cells_def)

text \<open>An operation that stays in a region, and looks at nothing else.\<close>

definition confined :: "'s host_api \<Rightarrow> bytes set \<Rightarrow> ('s \<Rightarrow> 's) \<Rightarrow> bool" where
  "confined H R g \<longleftrightarrow> (\<forall>s x. x \<notin> R \<longrightarrow> sload H x (g s) = sload H x s) \<and>
     (\<forall>s s' x. (\<forall>y \<in> R. sload H y s' = sload H y s) \<longrightarrow> x \<in> R \<longrightarrow> sload H x (g s') = sload H x (g s))"

lemma confinedD:
  assumes "confined H R g"
  shows "x \<notin> R \<Longrightarrow> sload H x (g s) = sload H x s"
    and "(\<And>y. y \<in> R \<Longrightarrow> sload H y s' = sload H y s) \<Longrightarrow> x \<in> R \<Longrightarrow> sload H x (g s') = sload H x (g s)"
  using assms unfolding confined_def by blast+

text \<open>One after the other, each has the effect it would have alone.\<close>

lemma confined_outside:
  "\<forall>a \<in> set gs. confined H (fst a) (snd a) \<and> x \<notin> fst a \<Longrightarrow> sload H x (fold snd gs s) = sload H x s"
  by (induction gs arbitrary: s) (simp_all add: confined_def)

lemma confined_inside:
  assumes "\<forall>a \<in> set gs. confined H (fst a) (snd a)" "sorted_wrt (\<lambda>a b. fst a \<inter> fst b = {}) gs"
    and "b \<in> set gs" "x \<in> fst b"
  shows "sload H x (fold snd gs s) = sload H x (snd b s)"
  using assms
proof (induction gs arbitrary: s)
  case (Cons a gs)
  have a: "confined H (fst a) (snd a)" using Cons.prems(1) by simp
  have apart: "fst a \<inter> fst c = {}" if "c \<in> set gs" for c using Cons.prems(2) that by simp
  show ?case
  proof (cases "b \<in> set gs")
    case True
    have "sload H x (fold snd (a # gs) s) = sload H x (snd b (snd a s))"
      using Cons.IH [OF _ _ True Cons.prems(4), of "snd a s"] Cons.prems(1,2) by simp
    also have "\<dots> = sload H x (snd b s)"
    proof (rule confinedD(2) [of H "fst b" "snd b", OF _ _ Cons.prems(4)])
      show "confined H (fst b) (snd b)" using Cons.prems(1,3) by blast
      show "sload H y (snd a s) = sload H y s" if "y \<in> fst b" for y
        using apart [OF True] that by (intro confinedD(1) [OF a]) auto
    qed
    finally show ?thesis .
  next
    case False
    then have b: "b = a" using Cons.prems(3) by simp
    have "\<forall>c \<in> set gs. confined H (fst c) (snd c) \<and> x \<notin> fst c"
      using Cons.prems(1,4) apart b by auto
    then have "sload H x (fold snd gs (snd a s)) = sload H x (snd a s)" by (rule confined_outside)
    then show ?thesis by (simp add: b)
  qed
qed simp

context keccak_host
begin

lemma sload_store_slots_local:
  "\<forall>w \<in> set ws. length w = 32 \<Longrightarrow> sload H x s' = sload H x s \<Longrightarrow>
   sload H x (store_slots H key ws s') = sload H x (store_slots H key ws s)"
proof (induction ws arbitrary: key s s')
  case (Cons w ws)
  have "sload H x (sstore H key w s') = sload H x (sstore H key w s)" using Cons.prems by (simp add: sload_sstore)
  from Cons.IH [OF _ this] show ?case using Cons.prems(1) by simp
qed simp

lemma write_confined: "length d < usize_limit \<Longrightarrow> confined H (dyn_region H k) (write_dynamic_bytes H k d)"
proof -
  assume d: "length d < usize_limit"
  have "sload H x (write_dynamic_bytes H k d s) = sload H x s" if "x \<notin> dyn_region H k" for s x
    using that region_contains(1) [of "max (body_slots (sload H k s)) (length (dyn_body_of d))" H k]
      body_slots_max dyn_body_max [OF d] by (intro dynamic_write_other) auto
  moreover have "sload H x (write_dynamic_bytes H k d s') = sload H x (write_dynamic_bytes H k d s)"
    if "\<forall>y \<in> dyn_region H k. sload H y s' = sload H y s" "x \<in> dyn_region H k" for s s' x
  proof -
    have "sload H k s' = sload H k s" "sload H x s' = sload H x s" using that region_contains(2) by blast+
    then show ?thesis
      unfolding write_dynamic_is using dyn_body_len by (intro sload_store_slots_local) (auto simp: sload_sstore sload_stale)
  qed
  ultimately show ?thesis unfolding confined_def by blast
qed

lemma clear_confined: "confined H (dyn_region H k) (clear_dynamic_bytes H k)"
  using region_contains(1) [OF body_slots_max, of H k] region_contains(2) [of k H]
  by (auto simp: confined_def dynamic_cleared)

end

lemma dynamic_ops:
  "is_dyn t \<Longrightarrow> write_to_storage (storage_of H t) v k s = Some (write_dynamic_bytes H k (val_data v) s)"
  "is_dyn t \<Longrightarrow> clear_storage (storage_of H t) k s = clear_dynamic_bytes H k s"
  by (auto simp: is_dyn_def bytes_storage_def string_storage_def)

text \<open>No collision of \<open>keccak256\<close>: the bodies of the dynamic fields meet neither the struct nor each other.\<close>

definition bodies_apart :: "'s host_api \<Rightarrow> bytes \<Rightarrow> nat \<Rightarrow> nat set \<Rightarrow> bool" where
  "bodies_apart H key n D \<longleftrightarrow> (\<forall>i \<in> D. slot_keys (dyn_body_root H (slot_key key i)) max_body \<inter> slot_keys key n = {} \<and>
     (\<forall>j \<in> D. i \<noteq> j \<longrightarrow> slot_keys (dyn_body_root H (slot_key key i)) max_body \<inter>
        slot_keys (dyn_body_root H (slot_key key j)) max_body = {}))"

lemma regions_apart:
  assumes "bodies_apart H key n D" "i \<in> D" "j \<in> D" "i \<noteq> j" "i < n" "j < n" "n \<le> key_space"
  shows "dyn_region H (slot_key key i) \<inter> dyn_region H (slot_key key j) = {}"
proof -
  have "slot_key key i \<noteq> slot_key key j" using assms(4-7) slot_key_inj [of i j key] by simp
  moreover have "slot_key key i \<in> slot_keys key n" "slot_key key j \<in> slot_keys key n"
    using assms(5,6) by (auto simp: slot_keys_iff)
  ultimately show ?thesis using assms(1-4) unfolding bodies_apart_def dyn_region_def dyn_cells_def by blast
qed

lemma region_static:
  assumes "bodies_apart H key n D" "i \<in> D" "j \<notin> D" "i < n" "j < n" "n \<le> key_space"
  shows "slot_key key j \<notin> dyn_region H (slot_key key i)"
proof -
  have "slot_key key j \<noteq> slot_key key i" using assms(2-6) slot_key_inj [of j i key] by auto
  moreover have "slot_key key j \<in> slot_keys key n" using assms(5) by (auto simp: slot_keys_iff)
  ultimately show ?thesis using assms(1,2) unfolding bodies_apart_def dyn_region_def dyn_cells_def by blast
qed

definition write_ops :: "'s host_api \<Rightarrow> bytes \<Rightarrow> placed_field list \<Rightarrow> sol_val list \<Rightarrow> (bytes set \<times> ('s \<Rightarrow> 's)) list" where
  "write_ops H key pfs vs =
     map (\<lambda>((f, sl, off), v). (dyn_region H (slot_key key sl), write_dynamic_bytes H (slot_key key sl) (val_data v)))
       (filter (\<lambda>((f, sl, off), v). kind_of f = Dynamic) (zip pfs vs))"

definition clear_ops :: "'s host_api \<Rightarrow> bytes \<Rightarrow> placed_field list \<Rightarrow> (bytes set \<times> ('s \<Rightarrow> 's)) list" where
  "clear_ops H key pfs =
     map (\<lambda>(f, sl, off). (dyn_region H (slot_key key sl), clear_dynamic_bytes H (slot_key key sl)))
       (filter (\<lambda>(f, sl, off). kind_of f = Dynamic) pfs)"

lemma sub_key_is: "length key = 32 \<Longrightarrow> sub_key key i = slot_key key i"
  by (simp add: sub_key_def inc_funpow)

text \<open>Pairs of dynamic fields of a list whose slots differ.\<close>

lemma sorted_ops:
  assumes "\<And>i j. i < j \<Longrightarrow> i < length xs \<Longrightarrow> j < length xs \<Longrightarrow> Q (xs ! i) \<Longrightarrow> Q (xs ! j) \<Longrightarrow> P (h (xs ! i)) (h (xs ! j))"
  shows "sorted_wrt P (map h (filter Q xs))"
proof -
  have "sorted_wrt (\<lambda>x y. Q x \<longrightarrow> Q y \<longrightarrow> P (h x) (h y)) xs"
    using assms by (simp add: sorted_wrt_iff_nth_less)
  then have "sorted_wrt (\<lambda>x y. Q x \<longrightarrow> Q y \<longrightarrow> P (h x) (h y)) (filter Q xs)" by (rule sorted_wrt_filter)
  then have "sorted_wrt (\<lambda>x y. P (h x) (h y)) (filter Q xs)"
    by (rule sorted_wrt_mono_rel [rotated]) auto
  then show ?thesis by (simp add: sorted_wrt_map)
qed

lemma filter_nths: "a \<in> set (map h (filter Q xs)) \<longleftrightarrow> (\<exists>k < length xs. Q (xs ! k) \<and> a = h (xs ! k))"
  by (auto simp: in_set_conv_nth image_iff)

lemma length_placed [simp]: "length (placed_fields H st fs) = length fs"
  by (simp add: placed_fields_def)

lemma placed_nth: "k < length fs \<Longrightarrow>
  placed_fields H FIRST fs ! k = (fs ! k, slot (steps_at H fs k), offset (steps_at H fs k))"
  by (simp add: placed_fields_def steps_at_def)

lemma write_calls_is:
  "length key = 32 \<Longrightarrow> list_all (\<lambda>pf. field_ok' (fst pf)) pfs \<Longrightarrow>
   write_calls H pfs vs key s = Some (fold snd (write_ops H key pfs vs) s)"
  by (induction H pfs vs key s rule: write_calls.induct)
    (auto simp: write_ops_def dynamic_ops sub_key_is field_kind(1))

lemma clear_calls_is:
  "length key = 32 \<Longrightarrow> list_all (\<lambda>pf. field_ok' (fst pf)) pfs \<Longrightarrow>
   clear_calls H pfs key s = fold snd (clear_ops H key pfs) s"
  by (induction H pfs key s rule: clear_calls.induct)
    (auto simp: clear_ops_def dynamic_ops sub_key_is field_kind(1))

section \<open>Writing and reading a struct\<close>

lemma placed_ok: "list_all field_ok' fs \<Longrightarrow> list_all (\<lambda>pf. field_ok' (fst pf)) (placed_fields H st fs)"
  by (auto simp: placed_fields_def list_all_iff dest: set_zip_leftD)

lemma laid_outD:
  assumes "laid_out H fs vs L"
  shows "list_all field_ok' fs" "length fs < 2 ^ 32" "fs \<noteq> []" "struct_vals fs vs" "length vs = length fs"
    "zip fs (placements L) = placed_fields H FIRST fs" "total_slots L = length (struct_words fs vs)"
    "total_slots L \<le> MAX_STATIC_SLOTS" "total_slots L \<le> key_space"
    "i < total_slots L \<Longrightarrow> mask_bit (dynamic_mask L) i \<longleftrightarrow> i \<in> dynamic_at H fs"
  using assms max_static_space by (auto simp: laid_out_def struct_vals_def dest: list_all2_lengthD)

lemma dynamic_value:
  assumes "laid_out H fs vs L" "k < length fs" "kind_of (fs ! k) = Dynamic"
  shows "is_dyn (snd (fs ! k))" "length (val_data (vs ! k)) < usize_limit" "slot (steps_at H fs k) \<in> dynamic_at H fs"
    "slot (steps_at H fs k) < total_slots L"
proof -
  note l = assms(1) [unfolded laid_out_def]
  have "field_ok' (fs ! k)" using l assms(2) by (simp add: list_all_length)
  then show d: "is_dyn (snd (fs ! k))" using field_kind(1) assms(3) by blast
  have "storage_ok (snd (fs ! k)) (vs ! k)" using l assms(2) by (simp add: struct_vals_def list_all2_conv_all_nth)
  then show "length (val_data (vs ! k)) < usize_limit" using d by (auto simp: is_dyn_def split: sol_val.splits)
  show "slot (steps_at H fs k) \<in> dynamic_at H fs" using assms(2,3) by (auto simp: dynamic_at_def)
  show "slot (steps_at H fs k) < total_slots L" using word_at(1) [of fs vs k H] l assms(2) by simp
qed

lemma ops_members:
  assumes "laid_out H fs vs L"
  shows "a \<in> set (write_ops H key (placed_fields H FIRST fs) vs) \<longleftrightarrow>
      (\<exists>k < length fs. kind_of (fs ! k) = Dynamic \<and> a = (dyn_region H (slot_key key (slot (steps_at H fs k))),
         write_dynamic_bytes H (slot_key key (slot (steps_at H fs k))) (val_data (vs ! k))))"
    and "b \<in> set (clear_ops H key (placed_fields H FIRST fs)) \<longleftrightarrow>
      (\<exists>k < length fs. kind_of (fs ! k) = Dynamic \<and> b = (dyn_region H (slot_key key (slot (steps_at H fs k))),
         clear_dynamic_bytes H (slot_key key (slot (steps_at H fs k)))))"
proof -
  note len = laid_outD(5) [OF assms]
  show "a \<in> set (write_ops H key (placed_fields H FIRST fs) vs) \<longleftrightarrow>
      (\<exists>k < length fs. kind_of (fs ! k) = Dynamic \<and> a = (dyn_region H (slot_key key (slot (steps_at H fs k))),
         write_dynamic_bytes H (slot_key key (slot (steps_at H fs k))) (val_data (vs ! k))))"
    unfolding write_ops_def filter_nths by (auto simp: len placed_nth)
  show "b \<in> set (clear_ops H key (placed_fields H FIRST fs)) \<longleftrightarrow>
      (\<exists>k < length fs. kind_of (fs ! k) = Dynamic \<and> b = (dyn_region H (slot_key key (slot (steps_at H fs k))),
         clear_dynamic_bytes H (slot_key key (slot (steps_at H fs k)))))"
    unfolding clear_ops_def filter_nths by (auto simp: placed_nth)
qed

lemma ops_apart:
  assumes "laid_out H fs vs L" "bodies_apart H key (total_slots L) (dynamic_at H fs)"
  shows "sorted_wrt (\<lambda>a b. fst a \<inter> fst b = {}) (write_ops H key (placed_fields H FIRST fs) vs)"
    and "sorted_wrt (\<lambda>a b. fst a \<inter> fst b = {}) (clear_ops H key (placed_fields H FIRST fs))"
proof -
  note l = assms(1) [unfolded laid_out_def]
  note len = laid_outD(5) [OF assms(1)] and space = laid_outD(9) [OF assms(1)]
  have ap: "dyn_region H (slot_key key (slot (steps_at H fs i))) \<inter> dyn_region H (slot_key key (slot (steps_at H fs j))) = {}"
    if "i < j" "j < length fs" "kind_of (fs ! i) = Dynamic" "kind_of (fs ! j) = Dynamic" for i j
    using that l dynamic_value [OF assms(1), of i] dynamic_value [OF assms(1), of j] dynamic_slot_alone [of fs i j H]
    by (intro regions_apart [OF assms(2) _ _ _ _ _ space]) auto
  show "sorted_wrt (\<lambda>a b. fst a \<inter> fst b = {}) (write_ops H key (placed_fields H FIRST fs) vs)"
    unfolding write_ops_def by (intro sorted_ops) (simp add: len placed_nth ap)
  show "sorted_wrt (\<lambda>a b. fst a \<inter> fst b = {}) (clear_ops H key (placed_fields H FIRST fs))"
    unfolding clear_ops_def by (intro sorted_ops) (simp add: placed_nth ap)
qed

context keccak_host
begin

text \<open>The buffers of the masked sweep.\<close>

lemma buffers_are:
  assumes "laid_out H fs vs L"
  shows "\<exists>bufs. static_buffers fs L (VSeq vs) = Some bufs \<and> length bufs = total_slots L \<and> (\<forall>w \<in> set bufs. length w = 32) \<and>
    (\<forall>i < total_slots L. i \<notin> dynamic_at H fs \<longrightarrow> bufs ! i = struct_words fs vs ! i)"
proof -
  note l = laid_outD [OF assms]
  let ?W = "struct_words fs vs"
  define bufs where "bufs = map (\<lambda>i. if i \<notin> dynamic_at H fs then ?W ! i else replicate 32 0) [0..<total_slots L]"
  have "map (\<lambda>i. if \<not> mask_bit (dynamic_mask L) i then encode_arms (placed_fields H FIRST fs) vs i (replicate 32 0)
      else Some (replicate 32 0)) [0..<total_slots L] = map Some bufs"
    using l(10) words_facts(4) [OF l(1-4), of _ H] l(7) by (auto simp: bufs_def)
  then have "static_buffers fs L (VSeq vs) = Some bufs"
    by (simp only: static_buffers_def l(6) val_seq.simps all_some_iff)
  moreover have "\<forall>w \<in> set bufs. length w = 32"
    using words_facts(2) [OF l(1-4)] l(7) by (auto simp: bufs_def)
  ultimately show ?thesis by (intro exI [of _ bufs]) (simp add: bufs_def)
qed

text \<open>The state after a write: words in the slots, each body as its field alone would leave it.\<close>

lemma derived_write:
  assumes lo: "laid_out H fs vs L" and key: "length key = 32" and ap: "bodies_apart H key (total_slots L) (dynamic_at H fs)"
  obtains s' where "write_to_storage (derived_dynamic H fs L) (VSeq vs) key s = Some s'"
    "\<And>i. i < total_slots L \<Longrightarrow> sload H (slot_key key i) s' = struct_words fs vs ! i"
    "\<And>k x. k < length fs \<Longrightarrow> kind_of (fs ! k) = Dynamic \<Longrightarrow> x \<in> dyn_region H (slot_key key (slot (steps_at H fs k))) \<Longrightarrow>
      sload H x s' = sload H x (write_dynamic_bytes H (slot_key key (slot (steps_at H fs k))) (val_data (vs ! k)) s)"
    "\<And>x. x \<notin> slot_keys key (total_slots L) \<Longrightarrow> \<forall>i \<in> dynamic_at H fs. x \<notin> dyn_region H (slot_key key i) \<Longrightarrow>
      sload H x s' = sload H x s"
proof -
  note l = laid_outD [OF lo]
  let ?n = "total_slots L" and ?D = "dynamic_at H fs" and ?ops = "write_ops H key (placed_fields H FIRST fs) vs"
  obtain bufs where bufs: "static_buffers fs L (VSeq vs) = Some bufs" "length bufs = ?n" "\<forall>w \<in> set bufs. length w = 32"
    "\<forall>i < ?n. i \<notin> ?D \<longrightarrow> bufs ! i = struct_words fs vs ! i"
    using buffers_are [OF lo] by blast
  define s1 where "s1 = write_static_slots H key bufs (dynamic_mask L) 0 s"
  define s' where "s' = fold snd ?ops s1"
  have conf: "\<forall>a \<in> set ?ops. confined H (fst a) (snd a)"
    by (auto simp: ops_members [OF lo] intro!: write_confined dynamic_value(2) [OF lo])
  have sweep: "sload H x s1 = sload H x s" if "\<forall>i < ?n. i \<notin> ?D \<longrightarrow> x \<noteq> slot_key key i" for x
    unfolding s1_def using that bufs(2) l(10) by (intro write_sweep_other [OF key]) auto
  have outside: "sload H x s' = sload H x s1" if "\<forall>i \<in> ?D. x \<notin> dyn_region H (slot_key key i)" for x
    unfolding s'_def using conf that dynamic_value(3) [OF lo]
    by (intro confined_outside) (auto simp: ops_members [OF lo])
  have region: "sload H x s1 = sload H x s" if "i \<in> ?D" "i < ?n" "x \<in> dyn_region H (slot_key key i)" for x i
    using that region_static [OF ap that(1) _ that(2) _ l(9)] by (intro sweep) blast
  have inside: "sload H x s' = sload H x (write_dynamic_bytes H (slot_key key (slot (steps_at H fs k))) (val_data (vs ! k)) s)"
    if k: "k < length fs" "kind_of (fs ! k) = Dynamic" and x: "x \<in> dyn_region H (slot_key key (slot (steps_at H fs k)))" for k x
  proof -
    note dv = dynamic_value [OF lo k]
    let ?op = "write_dynamic_bytes H (slot_key key (slot (steps_at H fs k))) (val_data (vs ! k))"
    have "(dyn_region H (slot_key key (slot (steps_at H fs k))), ?op) \<in> set ?ops" using k by (auto simp: ops_members [OF lo])
    then have "sload H x s' = sload H x (?op s1)"
      unfolding s'_def using x confined_inside [OF conf ops_apart(1) [OF lo ap]] by fastforce
    also have "\<dots> = sload H x (?op s)"
      using region [OF dv(3,4)] by (intro confinedD(2) [OF write_confined [OF dv(2)] _ x]) blast
    finally show ?thesis .
  qed
  have "sload H (slot_key key i) s' = struct_words fs vs ! i" if i: "i < ?n" for i
  proof (cases "i \<in> ?D")
    case True
    then obtain k where k: "k < length fs" "kind_of (fs ! k) = Dynamic" "i = slot (steps_at H fs k)"
      by (auto simp: dynamic_at_def)
    note dv = dynamic_value [OF lo k(1,2)]
    have "slot_key key i \<in> slot_keys key ?n" using i by (auto simp: slot_keys_iff)
    then have "body_clear H (slot_key key i) (length (dyn_body_of (val_data (vs ! k))))"
      using ap True slot_keys_mono [OF dyn_body_max [OF dv(2)]] unfolding bodies_apart_def body_clear_def by blast
    then have "sload H (slot_key key i) (write_dynamic_bytes H (slot_key key i) (val_data (vs ! k)) s) = dyn_header_of (val_data (vs ! k))"
      using dv(2) by (intro dynamic_read_written(1)) simp_all
    then show ?thesis
      using inside [OF k(1,2), of "slot_key key i"] region_contains(2) [of "slot_key key i" H] k word_at(3) [OF l(1-4) k(1), of H] by simp
  next
    case False
    have "sload H (slot_key key i) s1 = bufs ! i"
      using write_sweep_at [OF key bufs(3), of i "dynamic_mask L" 0 s] i bufs(2) l(9) l(10) [OF i] False
      by (simp add: s1_def)
    moreover have "sload H (slot_key key i) s' = sload H (slot_key key i) s1"
      using region_static [OF ap _ False _ i l(9)] dynamic_value(4) [OF lo] by (intro outside) (auto simp: dynamic_at_def)
    ultimately show ?thesis using bufs(4) i False by simp
  qed
  moreover have "write_to_storage (derived_dynamic H fs L) (VSeq vs) key s = Some s'"
    using bufs(1) write_calls_is [OF key placed_ok [OF l(1)]]
    by (simp add: derived_dynamic_def Let_def l(6) s1_def s'_def)
  moreover have "sload H x s' = sload H x s"
    if "x \<notin> slot_keys key ?n" "\<forall>i \<in> ?D. x \<notin> dyn_region H (slot_key key i)" for x
    using outside [OF that(2)] sweep [of x] that(1) by (auto simp: slot_keys_iff)
  ultimately show ?thesis using that inside by blast
qed

lemma packable_not_dynamic:
  assumes "laid_out H fs vs L" "k < length fs" "kind_of (fs ! k) = Packable"
  shows "slot (steps_at H fs k) \<notin> dynamic_at H fs"
proof
  assume "slot (steps_at H fs k) \<in> dynamic_at H fs"
  then obtain j where j: "j < length fs" "kind_of (fs ! j) = Dynamic" "slot (steps_at H fs j) = slot (steps_at H fs k)"
    by (auto simp: dynamic_at_def)
  then have "j \<noteq> k" using assms(3) by auto
  then show False using dynamic_slot_alone [OF laid_outD(1,2) [OF assms(1)] j(1) assms(2) _ j(2)] j(3) by blast
qed

text \<open>A state that holds the words and the bodies reads back the values.\<close>

lemma derived_read:
  assumes lo: "laid_out H fs vs L" and key: "length key = 32" and ap: "bodies_apart H key (total_slots L) (dynamic_at H fs)"
    and words: "\<And>i. i < total_slots L \<Longrightarrow> sload H (slot_key key i) s' = struct_words fs vs ! i"
    and bodies: "\<And>k x. k < length fs \<Longrightarrow> kind_of (fs ! k) = Dynamic \<Longrightarrow> x \<in> dyn_region H (slot_key key (slot (steps_at H fs k))) \<Longrightarrow>
      sload H x s' = sload H x (write_dynamic_bytes H (slot_key key (slot (steps_at H fs k))) (val_data (vs ! k)) s)"
  shows "read_field_lets H (placed_fields H FIRST fs)
    (load_static_slots H key (dynamic_mask L) (replicate (total_slots L) (replicate 32 0)) 0 s') key s' = Some vs"
proof (intro lets_read list_all2_all_nthI)
  note l = laid_outD [OF lo]
  let ?slots = "load_static_slots H key (dynamic_mask L) (replicate (total_slots L) (replicate 32 0)) 0 s'"
  show "length (placed_fields H FIRST fs) = length vs" using l(5) by simp
  fix k assume "k < length (placed_fields H FIRST fs)"
  then have k: "k < length fs" by simp
  let ?i = "slot (steps_at H fs k)"
  have i: "?i < total_slots L" using word_at(1) [OF l(1-4) k] l(7) by simp
  have fo: "field_ok' (fs ! k)" using l(1) k by (simp add: list_all_length)
  show "read_field H (placed_fields H FIRST fs ! k) ?slots key s' = Some (vs ! k)"
  proof (cases "kind_of (fs ! k)")
    case Packable
    have "?i \<notin> dynamic_at H fs" by (rule packable_not_dynamic [OF lo k Packable])
    then have "get_idx ?slots ?i = Some (struct_words fs vs ! ?i)"
      using i l(10) [OF i] words [OF i] load_sweep_nth [OF key, of ?i "replicate (total_slots L) (replicate 32 0)"]
      by (simp add: get_idx_def)
    then show ?thesis using word_at(2) [OF l(1-4) k Packable] Packable by (simp add: read_field_def placed_nth k)
  next
    case Dynamic
    let ?k = "slot_key key ?i" and ?t = "snd (fs ! k)" and ?v = "vs ! k"
    note dv = dynamic_value [OF lo k Dynamic]
    let ?sw = "write_dynamic_bytes H ?k (val_data ?v) s"
    have "?k \<in> slot_keys key (total_slots L)" using i by (auto simp: slot_keys_iff)
    then have "storage_fits H ?t ?k ?v"
      using ap dv(3) slot_keys_mono [OF dyn_body_max [OF dv(2)]]
      unfolding bodies_apart_def storage_fits_def body_clear_def by blast
    moreover have "storage_ok ?t ?v" using l(4) k by (simp add: struct_vals_def list_all2_conv_all_nth)
    ultimately obtain r: "read_from_storage (storage_of H ?t) ?k ?sw = Some ?v"
      "storage_cells H ?t ?k ?sw = storage_new_cells H ?t ?k ?v"
      using storage_type.write_read [OF storage_of_type, of ?t ?v ?k s] dynamic_ops(1) [OF dv(1), of H ?v ?k s] by auto
    have "storage_cells H ?t ?k ?sw \<subseteq> dyn_region H ?k"
      unfolding r(2) using dv(1) region_contains(1) [OF dyn_body_max [OF dv(2)]] by (simp add: storage_new_cells_def)
    then have "\<forall>x \<in> storage_cells H ?t ?k ?sw. sload H x s' = sload H x ?sw" using bodies [OF k Dynamic] by blast
    then have "read_from_storage (storage_of H ?t) ?k s' = Some ?v"
      using storage_type.read_local [OF storage_of_type, of ?k ?t ?sw s'] r(1) by simp
    then show ?thesis using Dynamic by (simp add: read_field_def placed_nth k sub_key_is key)
  next
    case Unsupported
    then show ?thesis using fo by (simp add: field_ok'_def)
  qed
qed

lemma derived_clear:
  assumes lo: "laid_out H fs vs L" and key: "length key = 32" and ap: "bodies_apart H key (total_slots L) (dynamic_at H fs)"
  shows "sload H x (clear_storage (derived_dynamic H fs L) key s) =
    (if x \<in> slot_keys key (total_slots L) \<or>
        (\<exists>i \<in> dynamic_at H fs. x \<in> dyn_cells H (slot_key key i) (body_slots (sload H (slot_key key i) s)))
     then zero_word else sload H x s)"
proof -
  note l = laid_outD [OF lo]
  let ?n = "total_slots L" and ?D = "dynamic_at H fs" and ?ops = "clear_ops H key (placed_fields H FIRST fs)"
  define s1 where "s1 = write_static_slots H key (replicate ?n zero_word) (dynamic_mask L) 0 s"
  have c: "clear_storage (derived_dynamic H fs L) key s = fold snd ?ops s1"
    using clear_calls_is [OF key placed_ok [OF l(1)]]
    by (simp add: derived_dynamic_def Let_def l(6) s1_def clear_is_write_sweep)
  have conf: "\<forall>a \<in> set ?ops. confined H (fst a) (snd a)" by (auto simp: ops_members [OF lo] clear_confined)
  have sweep: "sload H x s1 = sload H x s" if "\<forall>i < ?n. i \<notin> ?D \<longrightarrow> x \<noteq> slot_key key i" for x
    unfolding s1_def using that l(10) by (intro write_sweep_other [OF key]) auto
  show ?thesis
  proof (cases "\<exists>i \<in> ?D. x \<in> dyn_region H (slot_key key i)")
    case True
    then obtain k where k: "k < length fs" "kind_of (fs ! k) = Dynamic"
      and x: "x \<in> dyn_region H (slot_key key (slot (steps_at H fs k)))" by (auto simp: dynamic_at_def)
    let ?i = "slot (steps_at H fs k)"
    note dv = dynamic_value [OF lo k]
    have same: "sload H y s1 = sload H y s" if "y \<in> dyn_region H (slot_key key ?i)" for y
      using that region_static [OF ap dv(3) _ dv(4) _ l(9)] by (intro sweep) blast
    have "(dyn_region H (slot_key key ?i), clear_dynamic_bytes H (slot_key key ?i)) \<in> set ?ops"
      using k by (auto simp: ops_members [OF lo])
    then have "sload H x (fold snd ?ops s1) = sload H x (clear_dynamic_bytes H (slot_key key ?i) s1)"
      using x confined_inside [OF conf ops_apart(2) [OF lo ap]] by fastforce
    also have "\<dots> = sload H x (clear_dynamic_bytes H (slot_key key ?i) s)"
      using same by (rule confinedD(2) [OF clear_confined _ x])
    finally have r: "sload H x (fold snd ?ops s1) =
        (if x \<in> dyn_cells H (slot_key key ?i) (body_slots (sload H (slot_key key ?i) s)) then zero_word else sload H x s)"
      by (simp add: dynamic_cleared)
    have "x \<in> dyn_cells H (slot_key key ?i) (body_slots (sload H (slot_key key ?i) s))" if "x \<in> slot_keys key ?n"
    proof -
      have "x = slot_key key ?i" using that x ap dv(3) unfolding dyn_region_def dyn_cells_def bodies_apart_def by blast
      then show ?thesis by (simp add: dyn_cells_def)
    qed
    moreover have "i = ?i" if "i \<in> ?D" "x \<in> dyn_cells H (slot_key key i) (body_slots (sload H (slot_key key i) s))" for i
    proof (rule ccontr)
      assume ne: "i \<noteq> ?i"
      have "i < ?n" using that(1) dynamic_value(4) [OF lo] by (auto simp: dynamic_at_def)
      then have "dyn_region H (slot_key key i) \<inter> dyn_region H (slot_key key ?i) = {}"
        using regions_apart [OF ap that(1) dv(3) ne _ dv(4) l(9)] by blast
      then show False using x that(2) region_contains(1) [OF body_slots_max, of H "slot_key key i"] by blast
    qed
    ultimately have "(x \<in> slot_keys key ?n \<or> (\<exists>i \<in> ?D. x \<in> dyn_cells H (slot_key key i) (body_slots (sload H (slot_key key i) s)))) \<longleftrightarrow>
        x \<in> dyn_cells H (slot_key key ?i) (body_slots (sload H (slot_key key ?i) s))"
      using dv(3) by metis
    then show ?thesis unfolding c r by presburger
  next
    case False
    have out: "sload H x (fold snd ?ops s1) = sload H x s1"
      using conf False dynamic_value(3) [OF lo] by (intro confined_outside) (auto simp: ops_members [OF lo])
    have nocell: "x \<notin> dyn_cells H (slot_key key i) (body_slots (sload H (slot_key key i) s))" if "i \<in> ?D" for i
      using False that region_contains(1) [OF body_slots_max, of H "slot_key key i"] by blast
    show ?thesis
    proof (cases "x \<in> slot_keys key ?n")
      case True
      then obtain i where i: "i < ?n" "x = slot_key key i" by (auto simp: slot_keys_iff)
      then have "i \<notin> ?D" using False region_contains(2) [of x H] by auto
      then have "sload H x s1 = zero_word"
        using write_sweep_at [OF key, of "replicate ?n zero_word" i "dynamic_mask L" 0 s] i l(9) l(10) [OF i(1)]
        by (simp add: s1_def)
      then show ?thesis unfolding c out using True by simp
    next
      case out_slots: False
      then have "sload H x s1 = sload H x s" by (intro sweep) (auto simp: slot_keys_iff)
      then show ?thesis unfolding c out using out_slots nocell by auto
    qed
  qed
qed

text \<open>Without dynamic fields the slots are all there is.\<close>

lemma decode_read:
  "list_all2 (\<lambda>(f, sl, off) v. Option.bind (get_idx slots sl) (\<lambda>w. unpack_from (static_of (snd f)) w off) = Some v) pfs vs \<Longrightarrow>
   decode_construct pfs slots = Some vs"
  by (induction pfs vs rule: list_all2_induct) (auto simp: bind_eq_Some_conv)

lemma derived_static_codec:
  assumes lo: "laid_out H fs vs L" and st: "\<not> list_ex (\<lambda>f. kind_of f = Dynamic) fs"
  shows "slot_codec (derived_static fs L) (\<lambda>v. v = VSeq vs) (\<lambda>v. struct_words fs vs)"
proof
  note l = laid_outD [OF lo]
  have D: "dynamic_at H fs = {}" using st by (auto simp: dynamic_at_def list_ex_length)
  have pk: "kind_of (fs ! k) = Packable" if "k < length fs" for k
    using that st l(1) by (cases "kind_of (fs ! k)") (auto simp: list_ex_length list_all_length field_ok'_def)
  fix v i and buf w :: bytes assume v: "v = VSeq vs"
  show "1 \<le> STORAGE_SLOTS (derived_static fs L)"
    using words_facts(1) [OF l(1-4)] l(7) by (simp add: derived_static_def)
  show "1 \<le> PACKED_BYTES (derived_static fs L) \<and> PACKED_BYTES (derived_static fs L) \<le> 32"
    by (simp add: derived_static_def)
  show "length (struct_words fs vs) = STORAGE_SLOTS (derived_static fs L)"
    using l(7) by (simp add: derived_static_def)
  show "w \<in> set (struct_words fs vs) \<Longrightarrow> length w = 32" by (rule words_facts(2) [OF l(1-4)])
  show "i < STORAGE_SLOTS (derived_static fs L) \<Longrightarrow> encode_slot (derived_static fs L) v i buf = Some (struct_words fs vs ! i)"
    using words_facts(4) [OF l(1-4), of i H] D l(7) by (simp add: derived_static_def v l(6))
  have "decode_construct (placed_fields H FIRST fs) (struct_words fs vs) = Some vs"
  proof (intro decode_read list_all2_all_nthI)
    fix k assume "k < length (placed_fields H FIRST fs)"
    then have k: "k < length fs" by simp
    show "(case placed_fields H FIRST fs ! k of (f, sl, off) \<Rightarrow>
        \<lambda>v. Option.bind (get_idx (struct_words fs vs) sl) (\<lambda>w. unpack_from (static_of (snd f)) w off) = Some v) (vs ! k)"
      using word_at(1,2) [OF l(1-4) k, of H] pk [OF k] by (simp add: placed_nth k get_idx_def)
  qed (simp add: l(5))
  then show "from_slots (derived_static fs L) (struct_words fs vs) = Some v" by (simp add: derived_static_def v l(6))
qed

end

text \<open>The cells of a stored struct.\<close>

definition struct_cells :: "'s host_api \<Rightarrow> bytes \<Rightarrow> storage_field list \<Rightarrow> sol_val list \<Rightarrow> bytes set" where
  "struct_cells H key fs vs = slot_keys key (length (struct_words fs vs)) \<union>
     (\<Union>k \<in> {k. k < length fs \<and> kind_of (fs ! k) = Dynamic}.
        dyn_cells H (slot_key key (slot (steps_at H fs k))) (length (dyn_body_of (val_data (vs ! k)))))"

text \<open>What it means that a struct is stored at a key, coming from the state \<open>s\<close>.\<close>

definition struct_stored :: "'s host_api \<Rightarrow> bytes \<Rightarrow> storage_field list \<Rightarrow> sol_val list \<Rightarrow> 's \<Rightarrow> 's \<Rightarrow> bool" where
  "struct_stored H key fs vs s s' \<longleftrightarrow>
     (\<forall>i < length (struct_words fs vs). sload H (slot_key key i) s' = struct_words fs vs ! i) \<and>
     (\<forall>k < length fs. kind_of (fs ! k) = Dynamic \<longrightarrow> (let root = slot_key key (slot (steps_at H fs k)) in
        \<forall>x \<in> dyn_region H root. sload H x s' = sload H x (write_dynamic_bytes H root (val_data (vs ! k)) s))) \<and>
     (\<forall>x. x \<notin> slot_keys key (length (struct_words fs vs)) \<longrightarrow>
        (\<forall>i \<in> dynamic_at H fs. x \<notin> dyn_region H (slot_key key i)) \<longrightarrow> sload H x s' = sload H x s)"

context keccak_host
begin

lemma derived_dynamic_struct:
  assumes lo: "laid_out H fs vs L" and key: "length key = 32" and ap: "bodies_apart H key (total_slots L) (dynamic_at H fs)"
    and dyn: "list_ex (\<lambda>f. kind_of f = Dynamic) fs" and c: "c = derived_dynamic H fs L"
  shows "\<exists>s'. write_to_storage c (VSeq vs) key s = Some s' \<and> struct_stored H key fs vs s s' \<and>
    read_from_storage c key s' = Some (VSeq vs) \<and>
    \<not> list_all (\<lambda>w. w = zero_word) (struct_words fs vs) \<and> try_read_from_storage c key s' = Some (Some (VSeq vs)) \<and>
    (\<forall>x. sload H x (clear_storage c key s') = (if x \<in> struct_cells H key fs vs then zero_word else sload H x s'))"
proof -
  note l = laid_outD [OF lo]
  obtain s' where w: "write_to_storage (derived_dynamic H fs L) (VSeq vs) key s = Some s'"
    "\<And>i. i < total_slots L \<Longrightarrow> sload H (slot_key key i) s' = struct_words fs vs ! i"
    "\<And>k x. k < length fs \<Longrightarrow> kind_of (fs ! k) = Dynamic \<Longrightarrow> x \<in> dyn_region H (slot_key key (slot (steps_at H fs k))) \<Longrightarrow>
      sload H x s' = sload H x (write_dynamic_bytes H (slot_key key (slot (steps_at H fs k))) (val_data (vs ! k)) s)"
    "\<And>x. x \<notin> slot_keys key (total_slots L) \<Longrightarrow> \<forall>i \<in> dynamic_at H fs. x \<notin> dyn_region H (slot_key key i) \<Longrightarrow>
      sload H x s' = sload H x s"
    using derived_write [OF lo key ap, of s] by blast
  have stored: "struct_stored H key fs vs s s'" unfolding struct_stored_def Let_def using w(2-4) l(7) by simp
  note r = derived_read [OF lo key ap w(2,3)]
  obtain k where k: "k < length fs" "kind_of (fs ! k) = Dynamic" using dyn by (auto simp: list_ex_length)
  let ?i = "slot (steps_at H fs k)"
  note dv = dynamic_value [OF lo k]
  have hdr: "struct_words fs vs ! slot (steps_at H fs k) = dyn_header_of (val_data (vs ! k))"
    if "k < length fs" "kind_of (fs ! k) = Dynamic" for k
    by (rule word_at(3) [OF l(1-4) that])
  have ne: "struct_words fs vs ! ?i \<noteq> zero_word" using hdr [OF k] dyn_header_nonzero [OF dv(2)] by simp
  then have nz: "\<not> list_all (\<lambda>w. w = zero_word) (struct_words fs vs)"
    using dv(4) l(7) by (auto simp: list_all_length)
  have "\<exists>j < total_slots L. sload H (slot_key key j) s' \<noteq> zero_word" using ne w(2) [OF dv(4)] dv(4) by auto
  then have "try_load_static_slots H key (dynamic_mask L) (replicate (total_slots L) (replicate 32 0)) 0 s' =
      (True, load_static_slots H key (dynamic_mask L) (replicate (total_slots L) (replicate 32 0)) 0 s')"
    unfolding try_load_sweep [OF key] by (simp del: replicate.simps)
  then have t: "try_read_from_storage c key s' = Some (Some (VSeq vs))"
    unfolding c derived_dynamic_def Let_def l(6) by (simp add: r)
  have body: "body_slots (sload H (slot_key key (slot (steps_at H fs k))) s') = length (dyn_body_of (val_data (vs ! k)))"
    if k: "k < length fs" "kind_of (fs ! k) = Dynamic" for k
    using w(2) [OF dynamic_value(4) [OF lo k]] hdr [OF k] body_slots_header [OF dynamic_value(2) [OF lo k]] by simp
  have "sload H x (clear_storage c key s') = (if x \<in> struct_cells H key fs vs then zero_word else sload H x s')" for x
  proof -
    have "(\<exists>i \<in> dynamic_at H fs. x \<in> dyn_cells H (slot_key key i) (body_slots (sload H (slot_key key i) s'))) \<longleftrightarrow>
        (\<exists>k < length fs. kind_of (fs ! k) = Dynamic \<and>
          x \<in> dyn_cells H (slot_key key (slot (steps_at H fs k))) (length (dyn_body_of (val_data (vs ! k)))))"
      unfolding dynamic_at_def using body by auto
    then show ?thesis
      using derived_clear [OF lo key ap, of x s'] by (simp add: c struct_cells_def l(7))
  qed
  moreover have "read_from_storage c key s' = Some (VSeq vs)"
    unfolding c derived_dynamic_def Let_def l(6) by (simp add: r)
  moreover have "write_to_storage c (VSeq vs) key s = Some s'" using w(1) c by simp
  ultimately show ?thesis using stored nz t by (intro exI [of _ s'] conjI allI) assumption+
qed

lemma derived_static_struct:
  assumes lo: "laid_out H fs vs L" and key: "length key = 32"
    and st: "\<not> list_ex (\<lambda>f. kind_of f = Dynamic) fs" and c: "c = static_storage H (derived_static fs L)"
  shows "\<exists>s'. write_to_storage c (VSeq vs) key s = Some s' \<and> struct_stored H key fs vs s s' \<and>
    read_from_storage c key s' = Some (VSeq vs) \<and>
    try_read_from_storage c key s' =
      Some (if list_all (\<lambda>w. w = zero_word) (struct_words fs vs) then None else Some (VSeq vs)) \<and>
    (\<forall>x. sload H x (clear_storage c key s') = (if x \<in> struct_cells H key fs vs then zero_word else sload H x s'))"
proof -
  note l = laid_outD [OF lo]
  note sc = derived_static_codec [OF lo st]
  let ?W = "struct_words fs vs"
  have D: "dynamic_at H fs = {}" "struct_cells H key fs vs = slot_keys key (length ?W)"
    "kind_of (fs ! k) \<noteq> Dynamic" if "k < length fs" for k
    using st that by (auto simp: dynamic_at_def list_ex_length struct_cells_def)
  have n: "STORAGE_SLOTS (derived_static fs L) = length ?W" "length ?W \<le> MAX_STATIC_SLOTS" "length ?W \<le> key_space"
    using l by (simp_all add: derived_static_def)
  let ?s = "store_slots H key ?W s"
  have w: "write_to_storage c (VSeq vs) key s = Some ?s"
    using slot_codec.write_static_is [OF sc refl] by (simp add: c static_storage_def)
  have ld: "load_slots H (length ?W) key ?s = ?W"
    using words_facts(2) [OF l(1-4)] n(3) by (intro load_store_slots [OF key]) auto
  have d: "from_slots (derived_static fs L) ?W = Some (VSeq vs)" using slot_codec.decode [OF sc refl] .
  have "struct_stored H key fs vs s ?s"
    unfolding struct_stored_def Let_def
  proof (intro conjI allI impI)
    show "sload H (slot_key key i) ?s = ?W ! i" if "i < length ?W" for i
      using load_slots_nth [OF key that, of H ?s] ld by simp
    show "sload H x ?s = sload H x s" if "x \<notin> slot_keys key (length ?W)" for x
      using that by (rule store_slots_other [OF key])
  qed (use D in auto)
  moreover have "sload H x (clear_storage c key ?s) = (if x \<in> struct_cells H key fs vs then zero_word else sload H x ?s)" for x
    using D(2) st by (simp add: c static_storage_def clear_static_is n(1) sload_cleared [OF key] struct_cells_def list_ex_length
        flip: clear_is_store) auto
  ultimately show ?thesis
    using w d ld n by (intro exI [of _ ?s]) (simp add: c static_storage_def read_static_is)
qed

end

section \<open>Properties\<close>

text \<open>
  C24: a derived struct is stored as Solidity stores it. For a struct the derive accepts, and values of
  its fields: a write fills the slots with the words of the Solidity layout, fields packed in order and
  the header of a \<open>string\<close> or \<open>bytes\<close> field in a slot of its own; the body of each such field becomes what
  the field alone would write; no other key changes. The value is read back, reads as present unless
  all its words are zero, and a clear zeroes exactly its slots and bodies.
\<close>

theorem derived_struct_storage:
  assumes "derive_storage (mock_api h) fs = Some c" "struct_fields fs" "struct_vals fs vs" "length key = 32"
    and "bodies_apart (mock_api h) key (st_slots c) (dynamic_at (mock_api h) fs)"
  shows "\<exists>s'. write_to_storage c (VSeq vs) key s = Some s' \<and> struct_stored (mock_api h) key fs vs s s' \<and>
    read_from_storage c key s' = Some (VSeq vs) \<and>
    try_read_from_storage c key s' =
      Some (if list_all (\<lambda>w. w = zero_word) (struct_words fs vs) then None else Some (VSeq vs)) \<and>
    (\<forall>x. sload (mock_api h) x (clear_storage c key s') =
      (if x \<in> struct_cells (mock_api h) key fs vs then zero_word else sload (mock_api h) x s'))"
proof -
  obtain L where L: "laid_out (mock_api h) fs vs L" "c = (if list_ex (\<lambda>f. kind_of f = Dynamic) fs
      then derived_dynamic (mock_api h) fs L else static_storage (mock_api h) (derived_static fs L))"
    by (rule derive_storage_is [OF assms(1-3)])
  have n: "st_slots c = total_slots L"
    using L(2) by (simp add: derived_dynamic_def static_storage_def derived_static_def Let_def)
  show ?thesis
  proof (cases "list_ex (\<lambda>f. kind_of f = Dynamic) fs")
    case True
    then show ?thesis
      using mock.derived_dynamic_struct [OF L(1) assms(4) assms(5) [unfolded n] True, of c s] L(2) by auto
  next
    case False
    then show ?thesis using mock.derived_static_struct [OF L(1) assms(4) False, of c s] L(2) by auto
  qed
qed

section \<open>Witness\<close>

text \<open>\<open>struct { u64, String, bool }\<close> at slot zero.\<close>

definition note_fields :: "storage_field list" where
  "note_fields = [(SolUint 64, TPrim U64), (SolString, TString), (SolBool, TPrim Bool)]"

definition note_vals :: "sol_val list" where
  "note_vals = [VPrim (VU64 5), VData [0x61, 0x62], VPrim (VBool True)]"

definition far_hash :: "bytes \<Rightarrow> 256 word" where
  "far_hash b = 2 ^ 200"

definition note_codec :: "mock_state storage_codec" where
  "note_codec = derived_dynamic (mock_api far_hash) note_fields
     \<lparr> placements = [(0, 24), (1, 0), (2, 31)], total_slots = 3, dynamic_mask = 2 \<rparr>"

lemma note_steps: "map (\<lambda>st. (slot st, offset st)) (walker_steps H FIRST note_fields) = [(0, 24), (1, 0), (2, 31)]"
  "next_slot (last (walker_steps H FIRST note_fields)) = 2"
  by (simp_all add: note_fields_def FIRST_def layout_step_def static_storage_def static_prim_def string_storage_def
      usize_limit_def Let_def)

lemma note_derived: "derive_storage (mock_api far_hash) note_fields = Some note_codec"
proof -
  have s: "map slot (walker_steps H FIRST note_fields) = [0, 1, 2]" for H :: "mock_state host_api"
    using arg_cong [OF note_steps(1) [of H], of "map fst"] by (simp add: o_def)
  have "map kind_of note_fields = [Packable, Dynamic, Packable]" by (simp add: note_fields_def kind_of_def)
  then have "derive_layout (mock_api far_hash) note_fields =
      Some \<lparr> placements = [(0, 24), (1, 0), (2, 31)], total_slots = 3, dynamic_mask = 2 \<rparr>"
    by (simp add: derive_layout_def note_steps s Let_def) (simp add: note_fields_def)
  then show ?thesis
    by (simp add: derive_storage_def MAX_STATIC_SLOTS_def note_codec_def) (simp add: note_fields_def kind_of_def)
qed

theorem derived_struct_storage_witness:
  "\<exists>s'. write_to_storage note_codec (VSeq note_vals) (be_bytes 32 0) mock_new = Some s' \<and>
    read_from_storage note_codec (be_bytes 32 0) s' = Some (VSeq note_vals) \<and>
    try_read_from_storage note_codec (be_bytes 32 0) s' \<noteq> None"
proof -
  have "struct_fields note_fields"
    by (auto simp: struct_fields_def note_fields_def field_resolved_def denotes_iff uint_prim.simps
        intro: exI [of _ "DPrim U64"] exI [of _ DString] exI [of _ "DPrim Bool"])
  moreover have "struct_vals note_fields note_vals"
    by (simp add: struct_vals_def note_fields_def note_vals_def st_ok_def prim_wt_def static_prim_def
        MAX_STATIC_SLOTS_def usize_limit_def)
  moreover have "st_slots note_codec = 3" by (simp add: note_codec_def derived_dynamic_def Let_def)
  moreover have "bodies_apart (mock_api far_hash) (be_bytes 32 0) 3 (dynamic_at (mock_api far_hash) note_fields)"
  proof -
    let ?steps = "walker_steps (mock_api far_hash) FIRST note_fields"
    have "length ?steps = 3"
      using arg_cong [OF note_steps(1) [of "mock_api far_hash"], of length] by simp
    then have "slot (?steps ! 1) = 1"
      using arg_cong [OF note_steps(1) [of "mock_api far_hash"], of "\<lambda>l. fst (l ! 1)"] by simp
    then have "slot (steps_at (mock_api far_hash) note_fields 1) = 1" by (simp add: steps_at_def)
    then have D: "dynamic_at (mock_api far_hash) note_fields \<subseteq> {1}"
      by (auto simp: dynamic_at_def note_fields_def kind_of_def less_Suc_eq)
    have root: "dyn_body_root (mock_api far_hash) k = be_bytes 32 (2 ^ 200)" for k
      by (simp add: dyn_body_root_def mock_api_def far_hash_def to_be_def)
    have "slot_key (be_bytes 32 (2 ^ 200)) i \<noteq> slot_key (be_bytes 32 0) j" if "i < max_body" "j < 3" for i j
    proof -
      have "i < 2 ^ 60" using that(1) by (simp add: max_body_def div_ceil_def usize_limit_def)
      then have "(2 ^ 200 + i) mod 256 ^ 32 = 2 ^ 200 + i" by (intro mod_less) simp
      moreover have "j mod 256 ^ 32 = j" using that(2) by (intro mod_less) simp
      ultimately show ?thesis using that(2) by (simp add: slot_key_def be_nat_be_bytes be_bytes_inj)
    qed
    then have "slot_keys (be_bytes 32 (2 ^ 200)) max_body \<inter> slot_keys (be_bytes 32 0) 3 = {}"
      by (auto simp: slot_keys_iff)
    then show ?thesis using D by (auto simp: bodies_apart_def root)
  qed
  ultimately show ?thesis
    using derived_struct_storage [OF note_derived, of note_vals "be_bytes 32 0" mock_new] by auto
qed

end
