(* ===== verification/Spec2Isabelle.thy ===== *)
theory Spec2Isabelle
  imports AbiSafety Names SolErrors Int256 StorageVec StorageStruct BuilderDsl BumpAlloc ImportTypes DeriveStorage
begin

text \<open>
  Verification of the run-time crates of \<open>cargo-pvm-contract\<close>: what a Rust smart contract for
  PolkaVM executes when it is called.

  The program. A contract is a Rust module annotated with \<open>#[contract]\<close>, or a table of handlers
  built with the builder DSL. At run time the entry point reads the calldata, matches its first four
  bytes against the selectors of the methods, decodes the arguments from the Solidity ABI, runs the
  method and encodes its result, its error or a framework error into a buffer that is handed to the
  host. Methods keep their state in host storage, through cells, mappings and vectors whose slots
  are assigned at compile time by the rules of the Solidity compiler. The crates
  \<open>pvm-contract-types\<close> (codecs, host interface, errors, layout), \<open>pvm-storage\<close> (containers),
  \<open>pvm-contract-builder-dsl\<close> and the code that \<open>pvm-contract-macros\<close> generates carry this logic.

  Conventions. Bytes are \<open>8 word\<close>, slices and buffers are byte lists, \<open>usize\<close> values are naturals
  below \<open>usize_limit = 2 ^ 64\<close>, with \<open>checked_add\<close> and the wrapping \<open>wadd\<close> where the code
  has them; integers that wrap are words. A Rust panic, an error value and undefined behaviour of an
  unchecked read are values of an option or sum type, as each theory says. Traits are records of
  functions (dictionaries), implementations are functions that build them, generic containers take
  the dictionary of their element. The host is a record of operations over a state of any type;
  \<open>MockHost\<close> of the repository is the instance most properties are stated for. Keccak-256 is a
  third-party function and a parameter everywhere. Code that diverges into the host is the left
  case of \<open>('s, 'a) res\<close>, with the state the host saw.

  The theories, in the order of their imports.

  \<^item> \<open>Prelude\<close>: bytes, slices, big-endian integers, \<open>usize\<close> arithmetic, results over the host state.

  \<^item> \<open>Primitives\<close>, \<open>AbiCodec\<close> (\<open>lib.rs\<close>, \<open>alloc_types.rs\<close> of \<open>pvm-contract-types\<close>): the ABI
    codec. \<open>AbiCorrect\<close> holds the specification \<open>abi_enc\<close> (heads, then tails), the locales of the
    encoder's and decoder's promises, and their interpretations: every encoder writes the canonical
    encoding and every decoder inverts it. \<open>AbiSafety\<close>: on calldata nobody encoded the wrapping
    offset arithmetic agrees with exact arithmetic, decoded values are well typed, and the unchecked
    decoders stay in bounds.

  \<^item> \<open>Names\<close>: \<open>ConstStr\<close>, \<open>SOL_NAME\<close> and selectors, evaluated at compile time. \<open>SolErrors\<close>:
    \<open>Panic\<close>, \<open>RevertString\<close> in both builds, \<open>SolDefaultError\<close>, event topics.

  \<^item> \<open>Int256\<close> (\<open>i256.rs\<close>): signed 256-bit arithmetic against the integers it stands for. The
    overflowing product of \<open>U256\<close> is third-party, a parameter with its documented behaviour as a
    hypothesis.

  \<^item> \<open>HostApi\<close> (\<open>host.rs\<close>, \<open>mock_host.rs\<close>): the host interface, the environment readings, the mock
    host, and the locale \<open>host_store\<close> of what the storage layer needs of a host.

  \<^item> \<open>Layout\<close> (\<open>layout.rs\<close>): the slot walker, equal to the cursor rule of the Solidity compiler
    and free of overlap. \<open>StaticCodec\<close>, \<open>StorageCodec\<close> (\<open>storage_codec.rs\<close>): values in slots,
    packed and dynamic, with round trips, exact sweeps and the byte layout of the Solidity compiler.

  \<^item> \<open>StorageKeys\<close>, \<open>LazyCell\<close>, \<open>StorageStruct\<close>, \<open>StorageVec\<close> (\<open>pvm-storage\<close> and the code generated
    for \<open>#[storage]\<close> structs and contract fields): a cell is a variable, a mapping is a finite map, a
    vector is a list, its iterator a deque, a struct is a tuple of variables; operations on one
    leave the others alone.

  \<^item> \<open>Boundary\<close>: framework errors, the payable read, output sinks, \<open>finalize_outcome\<close>.
    \<open>BuilderDsl\<close>: the DSL dispatcher refines \<open>dsl_spec\<close>, over the list of registrations.
    \<open>Reentrancy\<close>: the lock, and a step relation of nested frames of one contract in which no guarded
    method is ever entered while another is running.

  \<^item> \<open>Dispatch\<close>: the generated dispatch code. \<open>DispatchSpec\<close>: it refines \<open>contract_spec\<close>, which
    mentions only the ABI meaning of the calldata; a call made with the canonical encoding of
    arguments runs the method on these arguments and returns the canonical encoding of its result.
    Parameters are restricted by \<open>param_ok\<close> to static types, \<open>string\<close>, \<open>bytes\<close> and \<open>T[]\<close>; for the
    other dynamic types the statement is false, as \<open>dynamic_composite_params_misread\<close> shows.

  \<^item> \<open>CrossCall\<close> (\<open>call.rs\<close>, \<open>precompiles.rs\<close> of \<open>pvm-contract-core\<close>): the call builder. On any
    host that answers the call with the outcome of a contract of \<open>Dispatch\<close> a cross-contract call is a
    method call; on a host made of two mocks its errors come back to the caller; and the precompile wrappers frame their calls as Ethereum specifies.

  \<^item> \<open>SolTypes\<close> (\<open>signature/types.rs\<close> of the macros): what a macro knows of a type from its syntax.
    \<open>DeriveSol\<close> (\<open>codegen/sol_type.rs\<close>): the codecs derived for structs, enums and value types, nested in
    any way, are those of the ABI types they stand for, however the syntax hides them behind names.
    \<open>DeriveErrors\<close> (\<open>codegen/sol_error.rs\<close>, \<open>codegen/sol_event.rs\<close>): derived errors are written, read and
    sent across calls as Solidity revert data, and derived events are Solidity logs, with two
    exceptions, which \<open>event_gaps\<close> describes.

  \<^item> \<open>DeriveStorage\<close> (\<open>codegen/sol_storage.rs\<close>): a derived storage struct has the slots of the Solidity
    struct, and its \<open>string\<close> and \<open>bytes\<close> fields the bodies they would have alone.

  \<^item> \<open>CustomTypes\<close> (\<open>signature/custom.rs\<close>), \<open>AbiImport\<close> (\<open>abi_import/\<close>): the expansion of a Solidity
    file by \<open>abi_import!\<close>. \<open>ImportCorrect\<close> and \<open>ImportTypes\<close>: the types it emits, resolved as the
    compiler resolves them, stand for the ABI types that Solidity gives to the declarations, the names
    it hashes are the canonical ones, as computed from the \<open>SOL_NAME\<close>s of the emitted types, and an
    emitted method calls the Solidity method. Excluded are files with a type named like a type of the
    SDK and fixed arrays of \<open>uint8\<close> or of value types, which the macro gets wrong or does not compile.

  \<^item> \<open>BumpAlloc\<close> (\<open>pvm-bump-allocator\<close>): the allocator hands out disjoint blocks inside its heap, the
    first that fit, and fails exactly when none does.

  Bounds and fuel. Buffers and calldata are assumed shorter than \<open>usize_limit\<close> by the few words a
  decoder adds to an offset; each statement says how many. Every loop of
  the modelled code is structural or has a measure, except the walks over user-defined types in
  \<open>CustomTypes\<close>: they run with the fuel \<open>fuel_bound\<close>, which \<open>custom_types_walks_end\<close> shows to be enough.
  Names are bounded by the 256 bytes of
  \<open>ConstStr\<close>, static values in storage by the eight slots of \<open>MAX_STATIC_SLOTS\<close>, and the length of
  a storage vector by its \<open>u64\<close> length word.

  Not modelled. The token manipulation of the macros (the parsing of attributes and
  signatures; Solidity files are taken as parsed): what the emitted code computes is modelled instead. The CLI, the build
  driver, the ABI and layout JSON, the extrinsics client and the differential tests: file, process
  and network I/O around the program. PolkaVM's host functions are third-party; the mock host stands
  for them. Debug assertions are taken as compiled out, as in the release profile that contracts use.
\<close>

end
